(* ===== verification/Xv6_Prelude.thy ===== *)
theory Xv6_Prelude
  imports "HOL-Library.Word"
begin

text \<open>
  Shared vocabulary of the development: the outcome type of a piece of kernel code, the
  state-passing combinators the components are written with, the sleep channels, and the
  generic facts on words, lists and functions that several components use.

  A kernel routine is a function from a state to an \<open>outcome\<close>. It returns a value and a
  new state (\<open>Ret\<close>), it calls \<open>panic\<close> (\<open>Panic\<close>, with the source's message), it spins
  on a lock another CPU holds (\<open>Spin\<close>), or it gives up the CPU inside \<open>sched\<close> by
  switching to the scheduler's context (\<open>Swtch\<close>, with the state at the switch).
\<close>

unbundle bit_operations_syntax

named_theorems kern_simps \<open>symbolic execution of the state-passing combinators\<close>
named_theorems frame_simps \<open>state components an operation leaves alone\<close>

datatype ('a, 's) outcome =
    Ret 'a 's
  | Panic string
  | Spin
  | Swtch 's

type_synonym ('s, 'a) kern = "'s \<Rightarrow> ('a, 's) outcome"

definition ret :: "'a \<Rightarrow> ('s, 'a) kern" where
  "ret x = (\<lambda>s. Ret x s)"

definition bnd :: "('s, 'a) kern \<Rightarrow> ('a \<Rightarrow> ('s, 'b) kern) \<Rightarrow> ('s, 'b) kern" where
  "bnd m f = (\<lambda>s. case m s of
      Ret x s' \<Rightarrow> f x s'
    | Panic e \<Rightarrow> Panic e
    | Spin \<Rightarrow> Spin
    | Swtch s' \<Rightarrow> Swtch s')"

definition gets :: "('s \<Rightarrow> 'a) \<Rightarrow> ('s, 'a) kern" where
  "gets f = (\<lambda>s. Ret (f s) s)"

definition modf :: "('s \<Rightarrow> 's) \<Rightarrow> ('s, unit) kern" where
  "modf f = (\<lambda>s. Ret () (f s))"

definition panic :: "string \<Rightarrow> ('s, 'a) kern" where
  "panic msg = (\<lambda>s. Panic msg)"

definition kwhen :: "bool \<Rightarrow> ('s, unit) kern \<Rightarrow> ('s, unit) kern" where
  "kwhen b m = (if b then m else ret ())"

text \<open>\<open>for_each\<close> is a \<open>for\<close> loop over an index range whose body never leaves the loop;
  \<open>for_find\<close> is one whose body may leave it with a value.\<close>

primrec for_each :: "'i list \<Rightarrow> ('i \<Rightarrow> ('s, unit) kern) \<Rightarrow> ('s, unit) kern" where
  "for_each [] body = ret ()"
| "for_each (i # is) body = bnd (body i) (\<lambda>_. for_each is body)"

primrec for_find :: "'i list \<Rightarrow> ('i \<Rightarrow> ('s, 'r option) kern) \<Rightarrow> ('s, 'r option) kern" where
  "for_find [] body = ret None"
| "for_find (i # is) body =
     bnd (body i) (\<lambda>r. case r of Some x \<Rightarrow> ret (Some x) | None \<Rightarrow> for_find is body)"

lemma ret_run [kern_simps]: "ret x s = Ret x s"
  by (simp add: ret_def)

lemma gets_run [kern_simps]: "gets f s = Ret (f s) s"
  by (simp add: gets_def)

lemma modf_run [kern_simps]: "modf f s = Ret () (f s)"
  by (simp add: modf_def)

lemma panic_run [kern_simps]: "panic msg s = Panic msg"
  by (simp add: panic_def)

lemma kwhen_run [kern_simps]: "kwhen b m s = (if b then m s else Ret () s)"
  by (simp add: kwhen_def ret_def)

lemma bnd_run [kern_simps]:
  "bnd m f s = (case m s of
      Ret x s' \<Rightarrow> f x s'
    | Panic e \<Rightarrow> Panic e
    | Spin \<Rightarrow> Spin
    | Swtch s' \<Rightarrow> Swtch s')"
  by (simp add: bnd_def)

text \<open>The congruence rule under which \<open>function\<close> finds the recursive calls after a \<open>bnd\<close>.\<close>

lemma bnd_cong [fundef_cong]:
  "m s = m' s' \<Longrightarrow> (\<And>x t. m' s' = Ret x t \<Longrightarrow> f x t = f' x t) \<Longrightarrow> bnd m f s = bnd m' f' s'"
  by (simp add: bnd_def split: outcome.splits)

lemma bnd_Ret_iff:
  "bnd m f s = Ret y t \<longleftrightarrow> (\<exists>x s'. m s = Ret x s' \<and> f x s' = Ret y t)"
  by (auto simp: bnd_def split: outcome.splits)

lemma bnd_RetE:
  assumes "bnd m f s = Ret y t"
  obtains x s' where "m s = Ret x s'" "f x s' = Ret y t"
  using assms by (auto simp: bnd_Ret_iff)

lemma bnd_assoc: "bnd (bnd m f) g = bnd m (\<lambda>x. bnd (f x) g)"
  by (rule ext) (simp add: bnd_def split: outcome.splits)

lemma for_each_append:
  "for_each (xs @ ys) body = bnd (for_each xs body) (\<lambda>_. for_each ys body)"
  by (induction xs) (auto simp: bnd_assoc bnd_def ret_def fun_eq_iff split: outcome.splits)

lemma for_each_snoc:
  "for_each xs body s = Ret () t \<Longrightarrow> body x t = Ret () u \<Longrightarrow> for_each (xs @ [x]) body s = Ret () u"
  by (simp add: for_each_append bnd_def ret_def)

text \<open>A loop whose body always returns, each step given by a total state function, is a fold.\<close>

lemma for_each_fold:
  assumes "\<And>i s. i \<in> set is \<Longrightarrow> I s \<Longrightarrow> body i s = Ret () (f i s)"
    and "\<And>i s. i \<in> set is \<Longrightarrow> I s \<Longrightarrow> I (f i s)"
    and "I s"
  shows "for_each is body s = Ret () (fold f is s) \<and> I (fold f is s)"
  using assms
proof (induction "is" arbitrary: s)
  case Nil
  then show ?case by (simp add: kern_simps)
next
  case (Cons i "is")
  then have "body i s = Ret () (f i s)" "I (f i s)" by simp_all
  with Cons show ?case by (simp add: kern_simps)
qed

text \<open>\<open>run_ok\<close>: the routine returns, with a value and state the predicate accepts.\<close>

definition run_ok :: "('a, 's) outcome \<Rightarrow> ('a \<Rightarrow> 's \<Rightarrow> bool) \<Rightarrow> bool" where
  "run_ok r Q = (case r of Ret x s \<Rightarrow> Q x s | _ \<Rightarrow> False)"

lemma run_ok_Ret [simp]: "run_ok (Ret x s) Q = Q x s"
  by (simp add: run_ok_def)

lemma run_okE:
  assumes "run_ok r Q"
  obtains x s where "r = Ret x s" "Q x s"
  using assms by (auto simp: run_ok_def split: outcome.splits)

lemma run_ok_iff: "run_ok r Q \<longleftrightarrow> (\<exists>x s. r = Ret x s \<and> Q x s)"
  by (auto simp: run_ok_def split: outcome.splits)

lemma run_ok_bnd:
  assumes "run_ok (m s) R" and "\<And>x t. R x t \<Longrightarrow> run_ok (f x t) Q"
  shows "run_ok (bnd m f s) Q"
  using assms by (auto simp: run_ok_iff bnd_Ret_iff)

text \<open>Machine integers and pointers.\<close>

type_synonym u8 = "8 word"
type_synonym u32 = "32 word"
type_synonym u64 = "64 word"

text \<open>A C character pointer that is only read: the byte at each offset from it.\<close>

type_synonym cptr = "nat \<Rightarrow> u8"

lemma unat_bound: "unat (w :: 'a::len word) < 2 ^ LENGTH('a)"
  by simp

lemma unat_add_lt: "unat (a :: 'a::len word) + n < 2 ^ LENGTH('a) \<Longrightarrow> unat (a + of_nat n) = unat a + n"
  by (simp add: unat_word_ariths unat_of_nat)

lemma word_add_of_nat_inj:
  "n < 2 ^ LENGTH('a) \<Longrightarrow> k < 2 ^ LENGTH('a) \<Longrightarrow>
    ((a :: 'a::len word) + of_nat n = a + of_nat k) = (n = k)"
  by (simp add: word_of_nat_eq_iff take_bit_eq_mod)

lemma unat_sub_of_nat [simp]:
  "n < 2 ^ LENGTH('a) \<Longrightarrow> unat ((a :: 'a::len word) + of_nat n - a) = n"
  by (simp add: unat_of_nat)

text \<open>\<open>x++\<close> and \<open>x--\<close> on an unsigned 32-bit counter kept as a natural number.\<close>

definition uinc :: "nat \<Rightarrow> nat" where
  "uinc n = (n + 1) mod 2 ^ 32"

definition udec :: "nat \<Rightarrow> nat" where
  "udec n = (n + (2 ^ 32 - 1)) mod 2 ^ 32"

lemma uinc_eq [simp]: "n + 1 < 2 ^ 32 \<Longrightarrow> uinc n = Suc n"
  by (simp add: uinc_def)

lemma udec_eq [simp]: "0 < n \<Longrightarrow> n < 2 ^ 32 \<Longrightarrow> udec n = n - 1"
proof -
  assume "0 < n" "n < 2 ^ 32"
  then have "n + (2 ^ 32 - 1) = (n - 1) + 2 ^ 32" "n - 1 < 2 ^ 32" by simp_all
  then show ?thesis unfolding udec_def by (simp only: mod_add_self2 mod_less)
qed

text \<open>The index of the first element of a range that satisfies a predicate.\<close>

fun first_idx :: "(nat \<Rightarrow> bool) \<Rightarrow> nat list \<Rightarrow> nat option" where
  "first_idx P [] = None"
| "first_idx P (i # is) = (if P i then Some i else first_idx P is)"

lemma first_idx_Some: "first_idx P is = Some i \<Longrightarrow> i \<in> set is \<and> P i"
  by (induction "is") (auto split: if_splits)

lemma first_idx_None: "first_idx P is = None \<longleftrightarrow> (\<forall>i \<in> set is. \<not> P i)"
  by (induction "is") auto

lemma first_idx_least:
  "first_idx P [a..<b] = Some i \<Longrightarrow> a \<le> j \<Longrightarrow> j < i \<Longrightarrow> \<not> P j"
proof (induction "b - a" arbitrary: a)
  case 0
  then show ?case by simp
next
  case (Suc n)
  then have ab: "a < b" by simp
  show ?case
  proof (cases "P a")
    case True
    with Suc.prems ab show ?thesis by (simp add: upt_conv_Cons)
  next
    case False
    with Suc.prems ab have fi: "first_idx P [Suc a..<b] = Some i" by (simp add: upt_conv_Cons)
    show ?thesis
    proof (cases "j = a")
      case True
      with False show ?thesis by simp
    next
      case ne: False
      with Suc.prems(2) have "Suc a \<le> j" by simp
      with Suc.hyps(1) [of "Suc a"] Suc.hyps(2) fi Suc.prems(3) show ?thesis by simp
    qed
  qed
qed

end
