(* ===== verification/Spinlock.thy ===== *)
theory Spinlock
  imports Xv6_Prelude
begin

text \<open>
  The hart a piece of kernel code runs on, and \<^verbatim>\<open>kernel/spinlock.c\<close> on it: interrupt
  enabling, \<open>push_off\<close>/\<open>pop_off\<close>, \<open>acquire\<close>, \<open>release\<close>, \<open>holding\<close>.

  The state record \<open>machine\<close> is the bottom of a chain: every later component extends it with
  its own data (\<open>proc_state\<close>, \<open>kmem_state\<close>, and so on), and the routines here
  are polymorphic in the extension, so the code above them calls them as the C code does. A
  lock is named by the C object it sits in (\<open>lockid\<close> stands for its address) and lives in the
  map \<open>locks\<close>. The code is seen from one hart; a lock another hart holds makes \<open>acquire\<close> spin.
  Interleavings of several harts are the subject of the theory on lock concurrency.
  The nesting depth \<open>c_noff\<close>, a C \<open>int\<close>, is an integer here: it counts the locks a hart holds, of which there
  are far fewer than \<open>2 ^ 31\<close>.
\<close>

datatype lockid =
    L_kmem | L_pid | L_wait | L_proc nat | L_bcache | L_buf nat | L_log | L_itable
  | L_inode nat | L_ftable | L_pipe u64 | L_ticks | L_cons | L_uart | L_vdisk | L_pr

record kcontext =
  ctx_ra :: u64
  ctx_sp :: u64
  ctx_s :: "nat \<Rightarrow> u64"

record cpu =
  c_proc :: "nat option"
  c_context :: kcontext
  c_noff :: int
  c_intena :: bool

record spinlock =
  lk_locked :: bool
  lk_name :: string
  lk_cpu :: "nat option"

text \<open>\<open>tp\<close> holds the hart number, \<open>cur_ctx\<close> the callee-saved registers that
  \<open>swtch\<close> exchanges.\<close>

record machine =
  tp :: nat
  sstatus :: u64
  cur_ctx :: kcontext
  cpus :: "nat \<Rightarrow> cpu"
  locks :: "lockid \<Rightarrow> spinlock"

subsection \<open>Interrupt enable (riscv.h) and the current CPU (proc.c)\<close>

definition SSTATUS_SIE :: u64 where "SSTATUS_SIE = push_bit 1 1"

definition intr_on :: "('a machine_scheme, unit) kern" where
  "intr_on = modf (\<lambda>s. s\<lparr>sstatus := sstatus s OR SSTATUS_SIE\<rparr>)"

definition intr_off :: "('a machine_scheme, unit) kern" where
  "intr_off = modf (\<lambda>s. s\<lparr>sstatus := sstatus s AND NOT SSTATUS_SIE\<rparr>)"

definition intr_get :: "'a machine_scheme \<Rightarrow> bool" where
  "intr_get s = (sstatus s AND SSTATUS_SIE \<noteq> 0)"

definition cpuid :: "'a machine_scheme \<Rightarrow> nat" where
  "cpuid s = tp s"

definition mycpu :: "'a machine_scheme \<Rightarrow> nat" where
  "mycpu s = cpuid s"

definition upd_cpu :: "nat \<Rightarrow> (cpu \<Rightarrow> cpu) \<Rightarrow> ('a machine_scheme, unit) kern" where
  "upd_cpu c f = modf (\<lambda>s. s\<lparr>cpus := (cpus s)(c := f (cpus s c))\<rparr>)"

definition upd_lock :: "lockid \<Rightarrow> (spinlock \<Rightarrow> spinlock) \<Rightarrow> ('a machine_scheme, unit) kern" where
  "upd_lock lk f = modf (\<lambda>s. s\<lparr>locks := (locks s)(lk := f (locks s lk))\<rparr>)"

subsection \<open>spinlock.c\<close>

definition initlock :: "lockid \<Rightarrow> string \<Rightarrow> ('a machine_scheme, unit) kern" where
  "initlock lk nm = upd_lock lk (\<lambda>l. l\<lparr>lk_name := nm, lk_locked := False, lk_cpu := None\<rparr>)"

definition push_off :: "('a machine_scheme, unit) kern" where
  "push_off =
     bnd (gets intr_get) (\<lambda>old.
     bnd intr_off (\<lambda>_.
     bnd (gets (\<lambda>s. c_noff (cpus s (mycpu s)))) (\<lambda>noff.
     bnd (kwhen (noff = 0)
           (bnd (gets mycpu) (\<lambda>c. upd_cpu c (\<lambda>x. x\<lparr>c_intena := old\<rparr>)))) (\<lambda>_.
     bnd (gets mycpu) (\<lambda>c.
     upd_cpu c (\<lambda>x. x\<lparr>c_noff := c_noff x + 1\<rparr>))))))"

definition pop_off :: "('a machine_scheme, unit) kern" where
  "pop_off =
     bnd (gets mycpu) (\<lambda>c.
     bnd (gets intr_get) (\<lambda>i.
     if i then panic ''pop_off - interruptible'' else
     bnd (gets (\<lambda>s. c_noff (cpus s c))) (\<lambda>noff.
     if noff < 1 then panic ''pop_off'' else
     bnd (upd_cpu c (\<lambda>x. x\<lparr>c_noff := c_noff x - 1\<rparr>)) (\<lambda>_.
     bnd (gets (\<lambda>s. cpus s c)) (\<lambda>x.
     kwhen (c_noff x = 0 \<and> c_intena x) intr_on)))))"

definition holding :: "lockid \<Rightarrow> 'a machine_scheme \<Rightarrow> bool" where
  "holding lk s = (lk_locked (locks s lk) \<and> lk_cpu (locks s lk) = Some (mycpu s))"

text \<open>\<open>__sync_lock_test_and_set(&lk->locked, 1)\<close>: the old value, with the flag now set.\<close>

definition test_and_set :: "lockid \<Rightarrow> ('a machine_scheme, bool) kern" where
  "test_and_set lk =
     bnd (gets (\<lambda>s. lk_locked (locks s lk))) (\<lambda>old.
     bnd (upd_lock lk (\<lambda>l. l\<lparr>lk_locked := True\<rparr>)) (\<lambda>_.
     ret old))"

text \<open>The \<open>while\<close> loop on \<open>test_and_set\<close>: with no other hart running, a flag that is set
  stays set, and the loop spins.\<close>

definition acquire :: "lockid \<Rightarrow> ('a machine_scheme, unit) kern" where
  "acquire lk =
     bnd push_off (\<lambda>_.
     bnd (gets (holding lk)) (\<lambda>h.
     if h then panic ''acquire'' else
     bnd (test_and_set lk) (\<lambda>old.
     if old then (\<lambda>s. Spin) else
     bnd (gets mycpu) (\<lambda>c.
     upd_lock lk (\<lambda>l. l\<lparr>lk_cpu := Some c\<rparr>)))))"

definition release :: "lockid \<Rightarrow> ('a machine_scheme, unit) kern" where
  "release lk =
     bnd (gets (holding lk)) (\<lambda>h.
     if \<not> h then panic ''release'' else
     bnd (upd_lock lk (\<lambda>l. l\<lparr>lk_cpu := None\<rparr>)) (\<lambda>_.
     bnd (upd_lock lk (\<lambda>l. l\<lparr>lk_locked := False\<rparr>)) (\<lambda>_.
     pop_off)))"

subsection \<open>What the routines do\<close>

lemmas mach_defs = intr_on_def intr_off_def upd_cpu_def upd_lock_def mycpu_def cpuid_def

lemma intr_get_off [simp]: "intr_get (s\<lparr>sstatus := x AND NOT SSTATUS_SIE\<rparr>) = False"
  by (simp add: intr_get_def and.assoc)

lemma sie_clear_and [simp]: "(x AND NOT SSTATUS_SIE) AND SSTATUS_SIE = 0"
  by (simp add: and.assoc)

lemma sie_nonzero [simp]: "SSTATUS_SIE \<noteq> 0"
  by (simp add: SSTATUS_SIE_def)

lemma sie_set_and [simp]: "(x OR SSTATUS_SIE) AND SSTATUS_SIE \<noteq> 0"
proof
  assume "(x OR SSTATUS_SIE) AND SSTATUS_SIE = 0"
  then have "\<not> bit ((x OR SSTATUS_SIE) AND SSTATUS_SIE) 1" by simp
  then show False by (simp add: SSTATUS_SIE_def bit_simps)
qed

lemma sie_bit: "x AND SSTATUS_SIE \<noteq> 0 \<longleftrightarrow> bit x 1"
proof -
  have b: "bit (x AND SSTATUS_SIE) n \<longleftrightarrow> n = 1 \<and> bit x 1" for n
    by (auto simp: SSTATUS_SIE_def bit_simps)
  show ?thesis
  proof
    assume "x AND SSTATUS_SIE \<noteq> 0"
    then show "bit x 1" using b bit_word_eqI [of "x AND SSTATUS_SIE" 0] by auto
  next
    assume "bit x 1"
    then have "bit (x AND SSTATUS_SIE) 1" using b [of 1] by simp
    then show "x AND SSTATUS_SIE \<noteq> 0" by (metis bit_0_eq bot_apply bot_bool_def)
  qed
qed

lemma sie_clear_id: "x AND SSTATUS_SIE = 0 \<Longrightarrow> x AND NOT SSTATUS_SIE = x"
  using sie_bit [of x] by (auto intro!: bit_word_eqI simp: bit_simps SSTATUS_SIE_def)

lemma sie_restore: "x AND SSTATUS_SIE \<noteq> 0 \<Longrightarrow> (x AND NOT SSTATUS_SIE) OR SSTATUS_SIE = x"
  using sie_bit [of x] by (auto intro!: bit_word_eqI simp: bit_simps SSTATUS_SIE_def)

text \<open>\<open>cpu_ok\<close>: interrupts are off whenever the CPU is inside a \<open>push_off\<close>.\<close>

definition cpu_ok :: "'a machine_scheme \<Rightarrow> bool" where
  "cpu_ok s \<longleftrightarrow> 0 \<le> c_noff (cpus s (mycpu s)) \<and> (c_noff (cpus s (mycpu s)) \<noteq> 0 \<longrightarrow> \<not> intr_get s)"

definition lock_free :: "lockid \<Rightarrow> 'a machine_scheme \<Rightarrow> bool" where
  "lock_free lk s \<longleftrightarrow> \<not> lk_locked (locks s lk) \<and> lk_cpu (locks s lk) = None"

text \<open>\<open>pushed s\<close> is the state after \<open>push_off\<close>; \<open>settle s\<close> the state after a matched
  \<open>push_off\<close>/\<open>pop_off\<close> pair, which only refreshes the saved interrupt flag of an
  outermost pair; \<open>acquired lk s\<close> the state after a successful \<open>acquire\<close>.\<close>

definition pushed_cpu :: "'a machine_scheme \<Rightarrow> cpu" where
  "pushed_cpu s = (let c = cpus s (mycpu s) in
     c\<lparr>c_intena := (if c_noff c = 0 then intr_get s else c_intena c), c_noff := c_noff c + 1\<rparr>)"

definition pushed :: "'a machine_scheme \<Rightarrow> 'a machine_scheme" where
  "pushed s = s\<lparr>sstatus := sstatus s AND NOT SSTATUS_SIE, cpus := (cpus s)(mycpu s := pushed_cpu s)\<rparr>"

definition settle :: "'a machine_scheme \<Rightarrow> 'a machine_scheme" where
  "settle s = s\<lparr>cpus := (cpus s)(mycpu s := (cpus s (mycpu s))
     \<lparr>c_intena := (if c_noff (cpus s (mycpu s)) = 0 then intr_get s else c_intena (cpus s (mycpu s)))\<rparr>)\<rparr>"

definition acquired :: "lockid \<Rightarrow> 'a machine_scheme \<Rightarrow> 'a machine_scheme" where
  "acquired lk s = (pushed s)\<lparr>locks := (locks s)
     (lk := (locks s lk)\<lparr>lk_locked := True, lk_cpu := Some (mycpu s)\<rparr>)\<rparr>"

text \<open>\<open>restore s t\<close>: the state \<open>t\<close> reached inside a critical section entered from
  \<open>s\<close>, with the machine part put back as \<open>release\<close> does.\<close>

definition restore :: "'a machine_scheme \<Rightarrow> 'a machine_scheme \<Rightarrow> 'a machine_scheme" where
  "restore s t = t\<lparr>sstatus := sstatus s, cpus := cpus (settle s), locks := locks s\<rparr>"

lemma push_off_run: "push_off s = Ret () (pushed s)"
  by (simp add: push_off_def mach_defs kern_simps pushed_def pushed_cpu_def Let_def intr_get_def)

lemma pop_off_pushed:
  assumes "cpu_ok s" and t: "tp t = tp s" "sstatus t = sstatus (pushed s)" "cpus t = cpus (pushed s)"
  shows "pop_off t = Ret () (t\<lparr>sstatus := sstatus s, cpus := cpus (settle s)\<rparr>)"
proof -
  have off: "\<not> intr_get t" using t(2) by (simp add: intr_get_def pushed_def)
  let ?n = "c_noff (cpus s (mycpu s))"
  have n: "\<not> ?n + 1 < 1" using assms(1) by (simp add: cpu_ok_def)
  have sie: "sstatus s AND NOT SSTATUS_SIE = sstatus s" if "\<not> intr_get s"
    using that by (simp add: intr_get_def sie_clear_id)
  have on: "sstatus s AND NOT SSTATUS_SIE OR SSTATUS_SIE = sstatus s" if "intr_get s"
    using that by (simp add: intr_get_def sie_restore)
  show ?thesis
    using off n t assms(1) sie on
    by (auto simp: pop_off_def mach_defs kern_simps pushed_def pushed_cpu_def settle_def Let_def cpu_ok_def)
qed

lemma acquire_run: "lock_free lk s \<Longrightarrow> acquire lk s = Ret () (acquired lk s)"
  by (simp add: acquire_def push_off_run kern_simps holding_def lock_free_def test_and_set_def
      mach_defs acquired_def pushed_def)

lemma release_run:
  assumes "cpu_ok s" "lock_free lk s" "tp t = tp s" "sstatus t = sstatus (acquired lk s)"
    "cpus t = cpus (acquired lk s)" "locks t = locks (acquired lk s)"
  shows "release lk t = Ret () (restore s t)"
proof -
  have h: "holding lk t" using assms(3,6) by (simp add: holding_def acquired_def mach_defs)
  let ?u = "t\<lparr>locks := locks s\<rparr>"
  have lk: "(locks s lk)\<lparr>lk_cpu := None, lk_locked := False\<rparr> = locks s lk"
    using assms(2) by (simp add: lock_free_def)
  have "release lk t = pop_off ?u"
    using h lk assms(6) by (simp add: release_def kern_simps mach_defs acquired_def fun_upd_idem)
  also have "\<dots> = Ret () (?u\<lparr>sstatus := sstatus s, cpus := cpus (settle s)\<rparr>)"
    by (rule pop_off_pushed) (use assms in \<open>simp_all add: acquired_def\<close>)
  finally show ?thesis by (simp add: restore_def)
qed

lemma restore_acquired [frame_simps]: "restore s (acquired lk s) = settle s"
  by (simp add: restore_def acquired_def pushed_def settle_def)

lemma acquire_self_panics: "holding lk s \<Longrightarrow> acquire lk s = Panic ''acquire''"
  by (simp add: acquire_def push_off_run kern_simps holding_def pushed_def mach_defs)

lemma acquire_spins:
  "lk_locked (locks s lk) \<Longrightarrow> lk_cpu (locks s lk) \<noteq> Some (mycpu s) \<Longrightarrow> acquire lk s = Spin"
  by (simp add: acquire_def push_off_run kern_simps holding_def pushed_def mach_defs test_and_set_def)

lemma release_not_held_panics: "\<not> holding lk s \<Longrightarrow> release lk s = Panic ''release''"
  by (simp add: release_def kern_simps)

subsection \<open>Facts the components above use\<close>

lemma tp_settle [frame_simps]: "tp (settle s) = tp s"
  by (simp add: settle_def)

lemma sstatus_settle [frame_simps]: "sstatus (settle s) = sstatus s"
  by (simp add: settle_def)

lemma locks_settle [frame_simps]: "locks (settle s) = locks s"
  by (simp add: settle_def)

lemma noff_settle [frame_simps]: "c_noff (cpus (settle s) c) = c_noff (cpus s c)"
  by (simp add: settle_def)

lemma c_proc_settle [frame_simps]: "c_proc (cpus (settle s) c) = c_proc (cpus s c)"
  by (simp add: settle_def)

lemma intr_get_settle [frame_simps]: "intr_get (settle s) = intr_get s"
  by (simp add: intr_get_def frame_simps)

lemma mycpu_settle [frame_simps]: "mycpu (settle s) = mycpu s"
  by (simp add: mycpu_def cpuid_def frame_simps)

lemma settle_idem [frame_simps]: "settle (settle s) = settle s"
  by (simp add: settle_def mycpu_def cpuid_def intr_get_def)

lemma cpu_ok_settle [frame_simps]: "cpu_ok (settle s) = cpu_ok s"
  by (simp add: cpu_ok_def frame_simps)

lemma lock_free_settle [frame_simps]: "lock_free lk (settle s) = lock_free lk s"
  by (simp add: lock_free_def frame_simps)

lemma tp_acquired [frame_simps]: "tp (acquired lk s) = tp s"
  by (simp add: acquired_def pushed_def)

lemma locks_acquired_other [frame_simps]: "lk \<noteq> lk' \<Longrightarrow> locks (acquired lk s) lk' = locks s lk'"
  by (simp add: acquired_def)

lemma lock_free_acquired [frame_simps]: "lk \<noteq> lk' \<Longrightarrow> lock_free lk' (acquired lk s) = lock_free lk' s"
  by (simp add: lock_free_def frame_simps)

lemma cpu_ok_acquired [frame_simps]: "cpu_ok s \<Longrightarrow> cpu_ok (acquired lk s)"
  by (simp add: cpu_ok_def acquired_def pushed_def pushed_cpu_def mach_defs intr_get_def Let_def)

lemma release_acquired [frame_simps]:
  "cpu_ok s \<Longrightarrow> lock_free lk s \<Longrightarrow> release lk (acquired lk s) = Ret () (settle s)"
  by (subst release_run [of s]) (simp_all add: frame_simps)

subsection \<open>Properties\<close>

text \<open>C33: acquiring a free lock and releasing it puts the machine back as it was, interrupts
  included, whatever interrupt nesting the CPU was in; only the saved interrupt flag of an outermost
  section is refreshed.\<close>

theorem acquire_release_restores:
  assumes "cpu_ok s" "lock_free lk s"
  shows "bnd (acquire lk) (\<lambda>_. release lk) s = Ret () (settle s)"
  using assms by (simp add: kern_simps acquire_run release_acquired)

definition sample_machine :: machine where
  "sample_machine =
     \<lparr>tp = 1, sstatus = SSTATUS_SIE, cur_ctx = \<lparr>ctx_ra = 0, ctx_sp = 0, ctx_s = (\<lambda>_. 0)\<rparr>,
      cpus = (\<lambda>_. \<lparr>c_proc = None, c_context = \<lparr>ctx_ra = 0, ctx_sp = 0, ctx_s = (\<lambda>_. 0)\<rparr>, c_noff = 0, c_intena = False\<rparr>),
      locks = (\<lambda>_. \<lparr>lk_locked = False, lk_name = [], lk_cpu = None\<rparr>)\<rparr>"

theorem acquire_release_restores_witness:
  "bnd (acquire L_log) (\<lambda>_. release L_log) sample_machine = Ret () (settle sample_machine)"
  by (rule acquire_release_restores) (simp_all add: sample_machine_def cpu_ok_def lock_free_def mach_defs)

end
