(* ===== verification/Sched.thy ===== *)
theory Sched
  imports Spinlock
begin

text \<open>
  The process table and the scheduling half of \<^verbatim>\<open>kernel/proc.c\<close>: \<open>sleep\<close>,
  \<open>wakeup\<close>, \<open>sched\<close>, \<open>yield\<close>, the scheduler's loop body, \<open>kill\<close>. A process is an
  index into the table; \<open>L_proc i\<close> is its lock. The code of a routine after a \<open>swtch\<close> is a
  definition of its own (\<open>sched_resume\<close>, \<open>sleep_resume\<close>, \<open>scheduler_back\<close>): it runs when the
  other side switches back.
\<close>

datatype chan =
    Ch_proc nat | Ch_buf nat | Ch_buflock nat | Ch_inodelock nat | Ch_log | Ch_pipe_nread u64
  | Ch_pipe_nwrite u64 | Ch_ticks | Ch_cons_r | Ch_uart_tx_r | Ch_disk_free

datatype procstate = UNUSED | USED | SLEEPING | RUNNABLE | RUNNING | ZOMBIE

record proc =
  p_state :: procstate
  p_chan :: "chan option"
  p_killed :: bool
  p_xstate :: int
  p_pid :: int
  p_parent :: "nat option"
  p_kstack :: u64
  p_sz :: u64
  p_pagetable :: u64
  p_trapframe :: u64
  p_context :: kcontext
  p_ofile :: "nat \<Rightarrow> nat option"
  p_cwd :: "nat option"
  p_name :: cptr

record proc_state = machine +
  procs :: "nat \<Rightarrow> proc"
  initproc :: "nat option"
  nextpid :: int

definition NPROC :: nat where "NPROC = 64"

definition upd_proc :: "nat \<Rightarrow> (proc \<Rightarrow> proc) \<Rightarrow> ('a proc_state_scheme, unit) kern" where
  "upd_proc p f = modf (\<lambda>s. s\<lparr>procs := (procs s)(p := f (procs s p))\<rparr>)"

subsection \<open>Current process, identifiers\<close>

definition myproc :: "('a proc_state_scheme, nat option) kern" where
  "myproc =
     bnd push_off (\<lambda>_.
     bnd (gets mycpu) (\<lambda>c.
     bnd (gets (\<lambda>s. c_proc (cpus s c))) (\<lambda>p.
     bnd pop_off (\<lambda>_.
     ret p))))"

text \<open>Code that dereferences the result of \<open>myproc\<close> takes a page fault when it is null
  (address 0 is not mapped in the kernel page table), which \<open>kerneltrap\<close> turns into a panic.\<close>

definition myproc_deref :: "('a proc_state_scheme, nat) kern" where
  "myproc_deref = bnd myproc (\<lambda>p. case p of None \<Rightarrow> panic ''kerneltrap'' | Some p \<Rightarrow> ret p)"

definition allocpid :: "('a proc_state_scheme, int) kern" where
  "allocpid =
     bnd (acquire L_pid) (\<lambda>_.
     bnd (gets nextpid) (\<lambda>pid.
     bnd (modf (\<lambda>s. s\<lparr>nextpid := nextpid s + 1\<rparr>)) (\<lambda>_.
     bnd (release L_pid) (\<lambda>_.
     ret pid))))"

definition setkilled :: "nat \<Rightarrow> ('a proc_state_scheme, unit) kern" where
  "setkilled p =
     bnd (acquire (L_proc p)) (\<lambda>_.
     bnd (upd_proc p (\<lambda>x. x\<lparr>p_killed := True\<rparr>)) (\<lambda>_.
     release (L_proc p)))"

definition killed :: "nat \<Rightarrow> ('a proc_state_scheme, bool) kern" where
  "killed p =
     bnd (acquire (L_proc p)) (\<lambda>_.
     bnd (gets (\<lambda>s. p_killed (procs s p))) (\<lambda>k.
     bnd (release (L_proc p)) (\<lambda>_.
     ret k)))"

definition kill :: "int \<Rightarrow> ('a proc_state_scheme, int) kern" where
  "kill pid =
     bnd (for_find [0..<NPROC] (\<lambda>p.
       bnd (acquire (L_proc p)) (\<lambda>_.
       bnd (gets (\<lambda>s. p_pid (procs s p))) (\<lambda>q.
       if q = pid then
         bnd (upd_proc p (\<lambda>x. x\<lparr>p_killed := True\<rparr>)) (\<lambda>_.
         bnd (gets (\<lambda>s. p_state (procs s p))) (\<lambda>st.
         bnd (kwhen (st = SLEEPING) (upd_proc p (\<lambda>x. x\<lparr>p_state := RUNNABLE\<rparr>))) (\<lambda>_.
         bnd (release (L_proc p)) (\<lambda>_.
         ret (Some 0)))))
       else
         bnd (release (L_proc p)) (\<lambda>_.
         ret None))))) (\<lambda>r.
     ret (case r of Some v \<Rightarrow> v | None \<Rightarrow> -1))"

subsection \<open>Context switches\<close>

text \<open>\<open>swtch(&p->context, &mycpu()->context)\<close> and the converse: the registers are saved in
  the first context and loaded from the second, and control leaves the calling thread.\<close>

definition swtch_to_sched :: "nat \<Rightarrow> ('a proc_state_scheme, 'b) kern" where
  "swtch_to_sched p = (\<lambda>s. Swtch (s\<lparr>
     procs := (procs s)(p := (procs s p)\<lparr>p_context := cur_ctx s\<rparr>),
     cur_ctx := c_context (cpus s (mycpu s))\<rparr>))"

definition swtch_to_proc :: "nat \<Rightarrow> ('a proc_state_scheme, 'b) kern" where
  "swtch_to_proc p = (\<lambda>s. Swtch (s\<lparr>
     cpus := (cpus s)(mycpu s := (cpus s (mycpu s))\<lparr>c_context := cur_ctx s\<rparr>),
     cur_ctx := p_context (procs s p)\<rparr>))"

definition sched :: "('a proc_state_scheme, 'b) kern" where
  "sched =
     bnd myproc_deref (\<lambda>p.
     bnd (gets (holding (L_proc p))) (\<lambda>h.
     if \<not> h then panic ''sched p->lock'' else
     bnd (gets (\<lambda>s. c_noff (cpus s (mycpu s)))) (\<lambda>noff.
     if noff \<noteq> 1 then panic ''sched locks'' else
     bnd (gets (\<lambda>s. p_state (procs s p))) (\<lambda>st.
     if st = RUNNING then panic ''sched running'' else
     bnd (gets intr_get) (\<lambda>i.
     if i then panic ''sched interruptible'' else
     swtch_to_sched p)))))"

text \<open>After the switch back: \<open>intena\<close> is the value \<open>sched\<close> saved on its stack.\<close>

definition sched_resume :: "bool \<Rightarrow> ('a proc_state_scheme, unit) kern" where
  "sched_resume intena =
     bnd (gets mycpu) (\<lambda>c. upd_cpu c (\<lambda>x. x\<lparr>c_intena := intena\<rparr>))"

definition yield :: "('a proc_state_scheme, unit) kern" where
  "yield =
     bnd myproc_deref (\<lambda>p.
     bnd (acquire (L_proc p)) (\<lambda>_.
     bnd (upd_proc p (\<lambda>x. x\<lparr>p_state := RUNNABLE\<rparr>)) (\<lambda>_.
     sched)))"

definition yield_resume :: "nat \<Rightarrow> bool \<Rightarrow> ('a proc_state_scheme, unit) kern" where
  "yield_resume p intena = bnd (sched_resume intena) (\<lambda>_. release (L_proc p))"

definition sleep :: "chan \<Rightarrow> lockid \<Rightarrow> ('a proc_state_scheme, 'b) kern" where
  "sleep ch lk =
     bnd myproc_deref (\<lambda>p.
     bnd (acquire (L_proc p)) (\<lambda>_.
     bnd (release lk) (\<lambda>_.
     bnd (upd_proc p (\<lambda>x. x\<lparr>p_chan := Some ch\<rparr>)) (\<lambda>_.
     bnd (upd_proc p (\<lambda>x. x\<lparr>p_state := SLEEPING\<rparr>)) (\<lambda>_.
     sched)))))"

definition sleep_resume :: "nat \<Rightarrow> bool \<Rightarrow> lockid \<Rightarrow> ('a proc_state_scheme, unit) kern" where
  "sleep_resume p intena lk =
     bnd (sched_resume intena) (\<lambda>_.
     bnd (upd_proc p (\<lambda>x. x\<lparr>p_chan := None\<rparr>)) (\<lambda>_.
     bnd (release (L_proc p)) (\<lambda>_.
     acquire lk)))"

definition wakeup :: "chan \<Rightarrow> ('a proc_state_scheme, unit) kern" where
  "wakeup ch =
     for_each [0..<NPROC] (\<lambda>p.
       bnd myproc (\<lambda>me.
       kwhen (Some p \<noteq> me)
         (bnd (acquire (L_proc p)) (\<lambda>_.
          bnd (gets (\<lambda>s. procs s p)) (\<lambda>x.
          bnd (kwhen (p_state x = SLEEPING \<and> p_chan x = Some ch)
                 (upd_proc p (\<lambda>x. x\<lparr>p_state := RUNNABLE\<rparr>))) (\<lambda>_.
          release (L_proc p)))))))"

text \<open>One iteration of the scheduler's inner loop, up to the switch into the process
  (\<open>scheduler_pick\<close>) and from the switch back on
  (\<open>scheduler_back\<close>).\<close>

definition scheduler_pick :: "nat \<Rightarrow> ('a proc_state_scheme, unit) kern" where
  "scheduler_pick p =
     bnd (acquire (L_proc p)) (\<lambda>_.
     bnd (gets (\<lambda>s. p_state (procs s p))) (\<lambda>st.
     if st = RUNNABLE then
       bnd (upd_proc p (\<lambda>x. x\<lparr>p_state := RUNNING\<rparr>)) (\<lambda>_.
       bnd (gets mycpu) (\<lambda>c.
       bnd (upd_cpu c (\<lambda>x. x\<lparr>c_proc := Some p\<rparr>)) (\<lambda>_.
       swtch_to_proc p)))
     else release (L_proc p)))"

definition scheduler_back :: "nat \<Rightarrow> ('a proc_state_scheme, unit) kern" where
  "scheduler_back p =
     bnd (gets mycpu) (\<lambda>c.
     bnd (upd_cpu c (\<lambda>x. x\<lparr>c_proc := None\<rparr>)) (\<lambda>_.
     release (L_proc p)))"

text \<open>The loops of \<open>scheduler\<close> around it. A pass over the table ends in the switch to the first
  process it can run. When that process gives the CPU back, \<open>scheduler_resume\<close> finishes its
  iteration and the rest of the pass, which has then found something, and starts the next round. A
  round that returns has found nothing: the hart waits in \<open>wfi\<close>, after which the code starts another.\<close>

definition scheduler_pass :: "nat \<Rightarrow> ('a proc_state_scheme, unit) kern" where
  "scheduler_pass k = for_each [k..<NPROC] scheduler_pick"

definition scheduler_round :: "('a proc_state_scheme, unit) kern" where
  "scheduler_round =
     bnd intr_on (\<lambda>_.
     bnd (scheduler_pass 0) (\<lambda>_.
     intr_on))"

definition scheduler :: "('a proc_state_scheme, unit) kern" where
  "scheduler =
     bnd (gets mycpu) (\<lambda>c.
     bnd (upd_cpu c (\<lambda>x. x\<lparr>c_proc := None\<rparr>)) (\<lambda>_.
     scheduler_round))"

definition scheduler_resume :: "nat \<Rightarrow> ('a proc_state_scheme, unit) kern" where
  "scheduler_resume p =
     bnd (scheduler_back p) (\<lambda>_.
     bnd (scheduler_pass (Suc p)) (\<lambda>_.
     scheduler_round))"

definition KSTACK :: "nat \<Rightarrow> u64" where
  "KSTACK p = ((push_bit 38 1 - 4096) - (of_nat p + 1) * 2 * 4096)"

definition procinit :: "('a proc_state_scheme, unit) kern" where
  "procinit =
     bnd (initlock L_pid ''nextpid'') (\<lambda>_.
     bnd (initlock L_wait ''wait_lock'') (\<lambda>_.
     for_each [0..<NPROC] (\<lambda>p.
       bnd (initlock (L_proc p) ''proc'') (\<lambda>_.
       bnd (upd_proc p (\<lambda>x. x\<lparr>p_state := UNUSED\<rparr>)) (\<lambda>_.
       upd_proc p (\<lambda>x. x\<lparr>p_kstack := KSTACK p\<rparr>))))))"

subsection \<open>Frame facts for the process table\<close>

lemma procs_settle [frame_simps]: "procs (settle s) = procs s"
  by (simp add: settle_def)

lemma nextpid_settle [frame_simps]: "nextpid (settle s) = nextpid s"
  by (simp add: settle_def)

lemma initproc_settle [frame_simps]: "initproc (settle s) = initproc s"
  by (simp add: settle_def)

lemma settle_procs [frame_simps]: "settle (s\<lparr>procs := f\<rparr>) = (settle s)\<lparr>procs := f\<rparr>"
  by (simp add: settle_def mach_defs intr_get_def)

lemma settle_nextpid [frame_simps]: "settle (s\<lparr>nextpid := f\<rparr>) = (settle s)\<lparr>nextpid := f\<rparr>"
  by (simp add: settle_def mach_defs intr_get_def)

lemma restore_procs [frame_simps]: "restore s (t\<lparr>procs := f\<rparr>) = (restore s t)\<lparr>procs := f\<rparr>"
  by (simp add: restore_def)

lemma restore_nextpid [frame_simps]: "restore s (t\<lparr>nextpid := f\<rparr>) = (restore s t)\<lparr>nextpid := f\<rparr>"
  by (simp add: restore_def)

lemma procs_acquired [frame_simps]: "procs (acquired lk s) = procs s"
  by (simp add: acquired_def pushed_def)

lemma nextpid_acquired [frame_simps]: "nextpid (acquired lk s) = nextpid s"
  by (simp add: acquired_def pushed_def)

lemma cpu_ok_procs [frame_simps]: "cpu_ok (s\<lparr>procs := f\<rparr>) = cpu_ok s"
  by (simp add: cpu_ok_def mach_defs intr_get_def)

lemma lock_free_procs [frame_simps]: "lock_free lk (s\<lparr>procs := f\<rparr>) = lock_free lk s"
  by (simp add: lock_free_def)

lemma release_acquired_procs [frame_simps]:
  "cpu_ok s \<Longrightarrow> lock_free lk s \<Longrightarrow>
     release lk ((acquired lk s)\<lparr>procs := f\<rparr>) = Ret () ((settle s)\<lparr>procs := f\<rparr>)"
  by (subst release_run [of s]) (simp_all add: frame_simps)

lemma release_acquired_nextpid [frame_simps]:
  "cpu_ok s \<Longrightarrow> lock_free lk s \<Longrightarrow>
     release lk ((acquired lk s)\<lparr>nextpid := f\<rparr>) = Ret () ((settle s)\<lparr>nextpid := f\<rparr>)"
  by (subst release_run [of s]) (simp_all add: frame_simps)

subsection \<open>What the routines do\<close>

lemma myproc_run: "cpu_ok s \<Longrightarrow> myproc s = Ret (c_proc (cpus s (mycpu s))) (settle s)"
proof -
  assume ok: "cpu_ok s"
  have "pop_off (pushed s) = Ret () ((pushed s)\<lparr>sstatus := sstatus s, cpus := cpus (settle s)\<rparr>)"
    by (rule pop_off_pushed [OF ok]) (simp_all add: pushed_def)
  moreover have "(pushed s)\<lparr>sstatus := sstatus s, cpus := cpus (settle s)\<rparr> = settle s"
    by (simp add: pushed_def settle_def)
  ultimately show ?thesis
    by (simp add: myproc_def push_off_run kern_simps)
       (simp add: pushed_def pushed_cpu_def mach_defs Let_def)
qed

lemma myproc_deref_run:
  "cpu_ok s \<Longrightarrow> c_proc (cpus s (mycpu s)) = Some p \<Longrightarrow> myproc_deref s = Ret p (settle s)"
  by (simp add: myproc_deref_def kern_simps myproc_run)

lemma killed_run:
  "cpu_ok s \<Longrightarrow> lock_free (L_proc p) s \<Longrightarrow> killed p s = Ret (p_killed (procs s p)) (settle s)"
  by (simp add: killed_def kern_simps acquire_run frame_simps)

lemma setkilled_run:
  "cpu_ok s \<Longrightarrow> lock_free (L_proc p) s \<Longrightarrow>
     setkilled p s = Ret () ((settle s)\<lparr>procs := (procs s)(p := (procs s p)\<lparr>p_killed := True\<rparr>)\<rparr>)"
  by (simp add: setkilled_def upd_proc_def kern_simps acquire_run frame_simps)

lemma allocpid_run:
  "cpu_ok s \<Longrightarrow> lock_free L_pid s \<Longrightarrow>
     allocpid s = Ret (nextpid s) ((settle s)\<lparr>nextpid := nextpid s + 1\<rparr>)"
  by (simp add: allocpid_def kern_simps acquire_run frame_simps)

definition proc_locks_free :: "'a machine_scheme \<Rightarrow> bool" where
  "proc_locks_free s \<longleftrightarrow> (\<forall>p<NPROC. lock_free (L_proc p) s)"

lemma proc_locks_free_settle [frame_simps]: "proc_locks_free (settle s) = proc_locks_free s"
  by (simp add: proc_locks_free_def frame_simps)

lemma proc_locks_free_procs [frame_simps]: "proc_locks_free (s\<lparr>procs := f\<rparr>) = proc_locks_free s"
  by (simp add: proc_locks_free_def frame_simps)

text \<open>The effect of \<open>wakeup\<close> on the table: every sleeper on the channel but the caller.\<close>

definition woken :: "chan \<Rightarrow> nat option \<Rightarrow> nat set \<Rightarrow> (nat \<Rightarrow> proc) \<Rightarrow> nat \<Rightarrow> proc" where
  "woken ch me A f p =
     (if p \<in> A \<and> Some p \<noteq> me \<and> p_state (f p) = SLEEPING \<and> p_chan (f p) = Some ch
      then (f p)\<lparr>p_state := RUNNABLE\<rparr> else f p)"

lemma wakeup_upto:
  assumes "n \<le> NPROC" "cpu_ok s" "proc_locks_free s"
  shows "for_each [0..<n] (\<lambda>p.
       bnd myproc (\<lambda>me.
       kwhen (Some p \<noteq> me)
         (bnd (acquire (L_proc p)) (\<lambda>_.
          bnd (gets (\<lambda>s. procs s p)) (\<lambda>x.
          bnd (kwhen (p_state x = SLEEPING \<and> p_chan x = Some ch)
                 (upd_proc p (\<lambda>x. x\<lparr>p_state := RUNNABLE\<rparr>))) (\<lambda>_.
          release (L_proc p))))))) s
    = Ret () (if n = 0 then s
              else (settle s)\<lparr>procs := woken ch (c_proc (cpus s (mycpu s))) {..<n} (procs s)\<rparr>)"
    (is "for_each _ ?body s = _")
  using assms(1)
proof (induction n)
  case 0
  then show ?case by (simp add: kern_simps)
next
  case (Suc n)
  let ?me = "c_proc (cpus s (mycpu s))"
  define t where "t = (if n = 0 then s else (settle s)\<lparr>procs := woken ch ?me {..<n} (procs s)\<rparr>)"
  have t: "cpu_ok t" "lock_free (L_proc n) t" "c_proc (cpus t (mycpu t)) = ?me"
    using assms Suc.prems by (auto simp: t_def frame_simps proc_locks_free_def mycpu_def cpuid_def)
  have pr: "procs t = woken ch ?me {..<n} (procs s)"
    by (auto simp: t_def woken_def fun_eq_iff)
  then have st: "settle t = (settle s)\<lparr>procs := woken ch ?me {..<n} (procs s)\<rparr>"
    by (auto simp: t_def frame_simps)
  have n: "procs t n = procs s n" by (simp add: pr woken_def)
  have "?body n t = Ret () ((settle s)\<lparr>procs := woken ch ?me {..<Suc n} (procs s)\<rparr>)"
  proof (cases "Some n = ?me \<or> \<not> (p_state (procs s n) = SLEEPING \<and> p_chan (procs s n) = Some ch)")
    case True
    then have "woken ch ?me {..<Suc n} (procs s) = woken ch ?me {..<n} (procs s)"
      by (auto simp: woken_def fun_eq_iff less_Suc_eq)
    moreover have "?body n t = Ret () (settle t)"
      using True t n by (auto simp: kern_simps myproc_run acquire_run frame_simps)
    ultimately show ?thesis by (simp add: st)
  next
    case False
    then have "(woken ch ?me {..<n} (procs s))(n := (procs s n)\<lparr>p_state := RUNNABLE\<rparr>)
        = woken ch ?me {..<Suc n} (procs s)"
      by (auto simp: woken_def fun_eq_iff less_Suc_eq)
    moreover have "(settle t)\<lparr>procs := f\<rparr> = (settle s)\<lparr>procs := f\<rparr>" for f by (simp add: st)
    ultimately show ?thesis
      using False t n by (simp add: kern_simps myproc_run acquire_run frame_simps upd_proc_def pr)
  qed
  moreover have "for_each [0..<n] ?body s = Ret () t"
    unfolding t_def by (rule Suc.IH) (use Suc.prems in simp)
  ultimately have "for_each ([0..<n] @ [n]) ?body s
      = Ret () ((settle s)\<lparr>procs := woken ch ?me {..<Suc n} (procs s)\<rparr>)"
    by (intro for_each_snoc)
  then show ?case by (simp only: upt_Suc_append zero_le if_False nat.simps)
qed

lemma wakeup_run:
  assumes "cpu_ok s" "proc_locks_free s"
  shows "wakeup ch s =
    Ret () ((settle s)\<lparr>procs := woken ch (c_proc (cpus s (mycpu s))) {..<NPROC} (procs s)\<rparr>)"
  using wakeup_upto [OF order_refl assms] by (simp add: wakeup_def NPROC_def)

text \<open>\<open>kill\<close> acts on the first process with the identifier.\<close>

definition killed_proc :: "proc \<Rightarrow> proc" where
  "killed_proc x = x\<lparr>p_killed := True, p_state := (if p_state x = SLEEPING then RUNNABLE else p_state x)\<rparr>"

lemma kill_scan:
  assumes "cpu_ok s" "\<forall>p \<in> set ps. lock_free (L_proc p) s"
  shows "for_find ps (\<lambda>p.
       bnd (acquire (L_proc p)) (\<lambda>_.
       bnd (gets (\<lambda>s. p_pid (procs s p))) (\<lambda>q.
       if q = pid then
         bnd (upd_proc p (\<lambda>x. x\<lparr>p_killed := True\<rparr>)) (\<lambda>_.
         bnd (gets (\<lambda>s. p_state (procs s p))) (\<lambda>st.
         bnd (kwhen (st = SLEEPING) (upd_proc p (\<lambda>x. x\<lparr>p_state := RUNNABLE\<rparr>))) (\<lambda>_.
         bnd (release (L_proc p)) (\<lambda>_.
         ret (Some (0::int))))))
       else
         bnd (release (L_proc p)) (\<lambda>_.
         ret None)))) s =
     (case first_idx (\<lambda>p. p_pid (procs s p) = pid) ps of
        Some p \<Rightarrow> Ret (Some 0) ((settle s)\<lparr>procs := (procs s)(p := killed_proc (procs s p))\<rparr>)
      | None \<Rightarrow> Ret None (if ps = [] then s else settle s))"
  using assms
proof (induction ps arbitrary: s)
  case Nil
  then show ?case by (simp add: kern_simps)
next
  case (Cons p ps)
  then have ok: "cpu_ok s" "lock_free (L_proc p) s" by simp_all
  show ?case
  proof (cases "p_pid (procs s p) = pid")
    case True
    with ok show ?thesis
      by (simp add: kern_simps acquire_run frame_simps upd_proc_def killed_proc_def)
  next
    case False
    have IH: "cpu_ok (settle s)" "\<forall>p \<in> set ps. lock_free (L_proc p) (settle s)"
      using Cons.prems by (simp_all add: frame_simps)
    show ?thesis
      using False ok Cons.IH [OF IH]
      by (simp add: kern_simps acquire_run frame_simps split: option.split)
  qed
qed

lemma kill_run:
  assumes "cpu_ok s" "proc_locks_free s"
  shows "kill pid s =
     (case first_idx (\<lambda>p. p_pid (procs s p) = pid) [0..<NPROC] of
        Some p \<Rightarrow> Ret 0 ((settle s)\<lparr>procs := (procs s)(p := killed_proc (procs s p))\<rparr>)
      | None \<Rightarrow> Ret (-1) (settle s))"
proof -
  have "\<forall>p \<in> set [0..<NPROC]. lock_free (L_proc p) s" "[0..<NPROC] \<noteq> []"
    using assms by (auto simp: proc_locks_free_def NPROC_def)
  then show ?thesis
    using kill_scan [OF assms(1), of "[0..<NPROC]" pid]
    by (simp add: kill_def kern_simps split: option.split)
qed

subsection \<open>Giving up and getting back the CPU\<close>

lemma settle_nested: "c_noff (cpus s (mycpu s)) \<noteq> 0 \<Longrightarrow> settle s = s"
  by (simp add: settle_def)

text \<open>\<open>in_crit lk s\<close>: the running CPU holds \<open>lk\<close> and no other lock.\<close>

definition in_crit :: "lockid \<Rightarrow> 'a machine_scheme \<Rightarrow> bool" where
  "in_crit lk s \<longleftrightarrow> holding lk s \<and> c_noff (cpus s (mycpu s)) = 1 \<and> \<not> intr_get s"

lemma in_crit_acquired:
  "c_noff (cpus s (mycpu s)) = 0 \<Longrightarrow> in_crit lk (acquired lk s)"
  by (simp add: in_crit_def holding_def acquired_def pushed_def pushed_cpu_def mach_defs Let_def intr_get_def)

lemma release_nested:
  assumes "holding lk t" "\<not> intr_get t" "1 < c_noff (cpus t (mycpu t))"
  shows "release lk t = Ret () (t\<lparr>
      locks := (locks t)(lk := (locks t lk)\<lparr>lk_cpu := None, lk_locked := False\<rparr>),
      cpus := (cpus t)(mycpu t := (cpus t (mycpu t))\<lparr>c_noff := c_noff (cpus t (mycpu t)) - 1\<rparr>)\<rparr>)"
  using assms
  by (simp add: release_def pop_off_def kern_simps mach_defs intr_get_def)

lemma release_outermost:
  assumes "in_crit lk t"
  shows "release lk t = Ret () (let u = t\<lparr>
      locks := (locks t)(lk := (locks t lk)\<lparr>lk_cpu := None, lk_locked := False\<rparr>),
      cpus := (cpus t)(mycpu t := (cpus t (mycpu t))\<lparr>c_noff := 0\<rparr>)\<rparr>
      in if c_intena (cpus t (mycpu t)) then u\<lparr>sstatus := sstatus t OR SSTATUS_SIE\<rparr> else u)"
  using assms
  by (simp add: in_crit_def release_def pop_off_def kern_simps mach_defs intr_get_def)

lemma cpu_ok_in_crit: "in_crit lk s \<Longrightarrow> cpu_ok s"
  by (simp add: in_crit_def cpu_ok_def)

lemma sched_run:
  assumes "c_proc (cpus s (mycpu s)) = Some p" "in_crit (L_proc p) s" "p_state (procs s p) \<noteq> RUNNING"
  shows "sched s = swtch_to_sched p s"
proof -
  have "settle s = s" using assms(2) by (simp add: settle_nested in_crit_def)
  moreover have "cpu_ok s" using assms(2) by (rule cpu_ok_in_crit)
  ultimately have "myproc_deref s = Ret p s" using assms(1) by (simp add: myproc_deref_run)
  then show ?thesis
    using assms by (simp add: sched_def kern_simps in_crit_def)
qed

text \<open>The state a sleeper leaves behind: its lock is handed to the scheduler, the condition lock is
  free, it is marked as sleeping on the channel, and its registers are saved.\<close>

lemma sleep_run:
  assumes "c_proc (cpus s (mycpu s)) = Some p" "in_crit lk s" "lock_free (L_proc p) s" "lk \<noteq> L_proc p"
  shows "\<exists>t. sleep ch lk s = Swtch t \<and> in_crit (L_proc p) t \<and> lock_free lk t \<and>
      procs t = (procs s)(p := (procs s p)\<lparr>p_chan := Some ch, p_state := SLEEPING, p_context := cur_ctx s\<rparr>) \<and>
      cur_ctx t = c_context (cpus s (mycpu s)) \<and>
      c_proc (cpus t (mycpu t)) = Some p \<and> tp t = tp s \<and>
      (\<forall>lk'. lk' \<noteq> lk \<longrightarrow> lk' \<noteq> L_proc p \<longrightarrow> locks t lk' = locks s lk')"
proof -
  have st: "settle s = s" using assms(2) by (simp add: settle_nested in_crit_def)
  have noff: "c_noff (cpus s (tp s)) = 1" using assms(2) by (simp add: in_crit_def mach_defs)
  have off: "\<not> intr_get s" using assms(2) by (simp add: in_crit_def)
  let ?a = "acquired (L_proc p) s"
  have "release lk ?a = Ret () (?a\<lparr>
      locks := (locks ?a)(lk := (locks ?a lk)\<lparr>lk_cpu := None, lk_locked := False\<rparr>),
      cpus := (cpus ?a)(mycpu ?a := (cpus ?a (mycpu ?a))\<lparr>c_noff := c_noff (cpus ?a (mycpu ?a)) - 1\<rparr>)\<rparr>)"
    by (rule release_nested)
       (use assms noff in \<open>simp_all add: in_crit_def holding_def acquired_def pushed_def pushed_cpu_def
           mach_defs Let_def intr_get_def\<close>)
  then obtain u where u: "release lk ?a = Ret () u"
    and uf: "tp u = tp s" "cur_ctx u = cur_ctx s" "procs u = procs s" "in_crit (L_proc p) u" "lock_free lk u"
      "c_proc (cpus u (tp s)) = Some p" "c_context (cpus u (tp s)) = c_context (cpus s (tp s))"
      "\<forall>lk'. lk' \<noteq> lk \<longrightarrow> lk' \<noteq> L_proc p \<longrightarrow> locks u lk' = locks s lk'"
    using assms noff off
    by (simp add: in_crit_def holding_def lock_free_def acquired_def pushed_def pushed_cpu_def mach_defs
        Let_def intr_get_def)
  let ?v = "u\<lparr>procs := (procs s)(p := (procs s p)\<lparr>p_chan := Some ch, p_state := SLEEPING\<rparr>)\<rparr>"
  have "sched ?v = swtch_to_sched p ?v"
    by (rule sched_run) (use uf in \<open>simp_all add: in_crit_def holding_def mach_defs intr_get_def\<close>)
  then have "sleep ch lk s = swtch_to_sched p ?v"
    using assms(1,3) u uf(3) st
    by (simp add: sleep_def kern_simps myproc_deref_run cpu_ok_in_crit [OF assms(2)] acquire_run upd_proc_def)
  then show ?thesis
    using uf
    by (auto simp: swtch_to_sched_def in_crit_def holding_def lock_free_def mach_defs intr_get_def)
qed

lemma yield_run:
  assumes "c_proc (cpus s (mycpu s)) = Some p" "cpu_ok s" "c_noff (cpus s (mycpu s)) = 0"
    "lock_free (L_proc p) s"
  shows "\<exists>t. yield s = Swtch t \<and> in_crit (L_proc p) t \<and>
      procs t = (procs s)(p := (procs s p)\<lparr>p_state := RUNNABLE, p_context := cur_ctx s\<rparr>) \<and>
      cur_ctx t = c_context (cpus s (mycpu s)) \<and> c_proc (cpus t (mycpu t)) = Some p \<and> tp t = tp s"
proof -
  let ?v = "(acquired (L_proc p) (settle s))\<lparr>procs := (procs s)(p := (procs s p)\<lparr>p_state := RUNNABLE\<rparr>)\<rparr>"
  have v: "in_crit (L_proc p) ?v" "c_proc (cpus ?v (mycpu ?v)) = Some p"
    using assms
    by (simp_all add: in_crit_def holding_def acquired_def pushed_def pushed_cpu_def settle_def mach_defs
        Let_def intr_get_def)
  have "sched ?v = swtch_to_sched p ?v"
    by (rule sched_run) (use v in simp_all)
  moreover have "yield s = sched ?v"
    using assms by (simp add: yield_def kern_simps myproc_deref_run acquire_run frame_simps upd_proc_def)
  ultimately have "yield s = swtch_to_sched p ?v" by simp
  then show ?thesis
    using v assms(1)
    by (auto simp: swtch_to_sched_def in_crit_def holding_def mach_defs intr_get_def frame_simps
        acquired_def pushed_def pushed_cpu_def settle_def Let_def)
qed

lemma scheduler_pick_run:
  assumes "c_noff (cpus s (mycpu s)) = 0" "lock_free (L_proc p) s" "p_state (procs s p) = RUNNABLE"
  shows "\<exists>t. scheduler_pick p s = Swtch t \<and> in_crit (L_proc p) t \<and>
      c_proc (cpus t (mycpu t)) = Some p \<and> c_context (cpus t (mycpu t)) = cur_ctx s \<and>
      procs t = (procs s)(p := (procs s p)\<lparr>p_state := RUNNING\<rparr>) \<and>
      cur_ctx t = p_context (procs s p) \<and> tp t = tp s \<and>
      (\<forall>lk. lk \<noteq> L_proc p \<longrightarrow> locks t lk = locks s lk)"
proof -
  have "scheduler_pick p s = swtch_to_proc p
     ((acquired (L_proc p) s)\<lparr>procs := (procs s)(p := (procs s p)\<lparr>p_state := RUNNING\<rparr>),
        cpus := (cpus (acquired (L_proc p) s))(mycpu s :=
           (cpus (acquired (L_proc p) s) (mycpu s))\<lparr>c_proc := Some p\<rparr>)\<rparr>)"
    using assms by (simp add: scheduler_pick_def kern_simps acquire_run upd_proc_def upd_cpu_def frame_simps
        mycpu_def cpuid_def)
  then show ?thesis
    using assms
    by (auto simp: swtch_to_proc_def in_crit_def holding_def mach_defs intr_get_def
        acquired_def pushed_def pushed_cpu_def Let_def)
qed

lemma scheduler_pick_skip:
  "cpu_ok s \<Longrightarrow> lock_free (L_proc p) s \<Longrightarrow> p_state (procs s p) \<noteq> RUNNABLE \<Longrightarrow>
     scheduler_pick p s = Ret () (settle s)"
  by (simp add: scheduler_pick_def kern_simps acquire_run frame_simps)

lemma scheduler_back_run:
  assumes "in_crit (L_proc p) t"
  shows "\<exists>u. scheduler_back p t = Ret () u \<and> lock_free (L_proc p) u \<and> tp u = tp t \<and>
      c_proc (cpus u (mycpu u)) = None \<and> c_noff (cpus u (mycpu u)) = 0 \<and>
      procs u = procs t \<and> cur_ctx u = cur_ctx t \<and> (\<forall>lk. lk \<noteq> L_proc p \<longrightarrow> locks u lk = locks t lk)"
proof -
  let ?t = "t\<lparr>cpus := (cpus t)(mycpu t := (cpus t (mycpu t))\<lparr>c_proc := None\<rparr>)\<rparr>"
  have "in_crit (L_proc p) ?t"
    using assms by (simp add: in_crit_def holding_def mach_defs intr_get_def)
  from release_outermost [OF this] show ?thesis
    by (auto simp: scheduler_back_def kern_simps upd_cpu_def lock_free_def mach_defs Let_def)
qed

text \<open>What a process does when it is switched back to: it leaves its lock, with the interrupt
  enable bit it had before it gave up the CPU; out of \<open>sleep\<close> it holds the condition lock again.\<close>

lemma yield_resume_run:
  assumes "in_crit (L_proc p) t"
  shows "\<exists>u. yield_resume p intena t = Ret () u \<and> lock_free (L_proc p) u \<and> tp u = tp t \<and>
      c_noff (cpus u (mycpu u)) = 0 \<and> intr_get u = intena \<and> procs u = procs t \<and> cur_ctx u = cur_ctx t \<and>
      (\<forall>lk. lk \<noteq> L_proc p \<longrightarrow> locks u lk = locks t lk)"
proof -
  let ?t = "t\<lparr>cpus := (cpus t)(mycpu t := (cpus t (mycpu t))\<lparr>c_intena := intena\<rparr>)\<rparr>"
  have "in_crit (L_proc p) ?t"
    using assms by (simp add: in_crit_def holding_def mach_defs intr_get_def)
  from release_outermost [OF this] show ?thesis
    using assms
    by (auto simp: yield_resume_def sched_resume_def kern_simps upd_cpu_def lock_free_def mach_defs Let_def
        in_crit_def intr_get_def)
qed

lemma sleep_resume_run:
  assumes "in_crit (L_proc p) t" "lock_free lk t" "lk \<noteq> L_proc p"
  shows "\<exists>u. sleep_resume p intena lk t = Ret () u \<and> in_crit lk u \<and> lock_free (L_proc p) u \<and> tp u = tp t \<and>
      procs u = (procs t)(p := (procs t p)\<lparr>p_chan := None\<rparr>) \<and> cur_ctx u = cur_ctx t"
proof -
  let ?t = "t\<lparr>cpus := (cpus t)(mycpu t := (cpus t (mycpu t))\<lparr>c_intena := intena\<rparr>),
              procs := (procs t)(p := (procs t p)\<lparr>p_chan := None\<rparr>)\<rparr>"
  have "in_crit (L_proc p) ?t"
    using assms by (simp add: in_crit_def holding_def mach_defs intr_get_def)
  from release_outermost [OF this] obtain u where u: "release (L_proc p) ?t = Ret () u"
    and uf: "tp u = tp t" "c_noff (cpus u (mycpu u)) = 0" "procs u = procs ?t" "cur_ctx u = cur_ctx t"
      "lock_free (L_proc p) u" "lock_free lk u"
    using assms by (auto simp: mach_defs Let_def lock_free_def)
  have "acquire lk u = Ret () (acquired lk u)" using uf(6) by (rule acquire_run)
  then have "sleep_resume p intena lk t = Ret () (acquired lk u)"
    using u by (simp add: sleep_resume_def sched_resume_def kern_simps upd_cpu_def upd_proc_def)
  then show ?thesis
    using in_crit_acquired [OF uf(2), of lk] uf assms(3)
    by (auto simp: frame_simps) (simp add: acquired_def pushed_def)
qed

subsection \<open>A whole sleep\<close>

lemma sleep_wakeup_cycle:
  assumes cur: "c_proc (cpus s (mycpu s)) = Some p" and p: "p < NPROC" and crit: "in_crit lk s"
    and free: "proc_locks_free s" and lk: "\<forall>q. lk \<noteq> L_proc q"
  shows "\<exists>t1 t2 t3 t4 t5. (sleep ch lk s :: (unit, _) outcome) = Swtch t1 \<and> lock_free lk t1 \<and> scheduler_back p t1 = Ret () t2 \<and>
    wakeup ch t2 = Ret () t3 \<and> scheduler_pick p t3 = Swtch t4 \<and> cur_ctx t4 = cur_ctx s \<and>
    sleep_resume p ie lk t4 = Ret () t5 \<and> in_crit lk t5 \<and>
    procs t5 p = (procs s p)\<lparr>p_chan := None, p_state := RUNNING, p_context := cur_ctx s\<rparr>"
proof -
  have fr: "lock_free (L_proc q) s" if "q < NPROC" for q using free that by (simp add: proc_locks_free_def)
  from sleep_run [OF cur crit fr [OF p], of ch] lk obtain t1 where
    t1: "(sleep ch lk s :: (unit, _) outcome) = Swtch t1" "in_crit (L_proc p) t1" "lock_free lk t1"
      "procs t1 = (procs s)(p := (procs s p)\<lparr>p_chan := Some ch, p_state := SLEEPING, p_context := cur_ctx s\<rparr>)"
      "\<forall>lk'. lk' \<noteq> lk \<longrightarrow> lk' \<noteq> L_proc p \<longrightarrow> locks t1 lk' = locks s lk'"
    by auto
  from scheduler_back_run [OF t1(2)] obtain t2 where
    t2: "scheduler_back p t1 = Ret () t2" "lock_free (L_proc p) t2" "c_proc (cpus t2 (mycpu t2)) = None"
      "c_noff (cpus t2 (mycpu t2)) = 0" "procs t2 = procs t1" "\<forall>lk. lk \<noteq> L_proc p \<longrightarrow> locks t2 lk = locks t1 lk"
    by auto
  have ok2: "cpu_ok t2" using t2(4) by (simp add: cpu_ok_def)
  have free2: "proc_locks_free t2"
    unfolding proc_locks_free_def
  proof (intro allI impI)
    fix q
    assume "q < NPROC"
    then have "lock_free (L_proc q) s" by (rule fr)
    with t2(2,6) t1(5) [rule_format, of "L_proc q"] lk [rule_format, of q, symmetric]
    show "lock_free (L_proc q) t2" by (cases "q = p") (auto simp: lock_free_def)
  qed
  let ?t3 = "(settle t2)\<lparr>procs := woken ch (c_proc (cpus t2 (mycpu t2))) {..<NPROC} (procs t2)\<rparr>"
  have t3: "wakeup ch t2 = Ret () ?t3" by (rule wakeup_run [OF ok2 free2])
  have pr3: "procs ?t3 p = (procs s p)\<lparr>p_chan := Some ch, p_state := RUNNABLE, p_context := cur_ctx s\<rparr>"
    using p by (simp add: woken_def t2(3,5) t1(4))
  have f3: "lock_free (L_proc p) ?t3" "c_noff (cpus ?t3 (mycpu ?t3)) = 0"
    using t2(2,4) by (simp_all add: frame_simps mach_defs)
  from scheduler_pick_run [OF f3(2,1)] pr3 obtain t4 where
    t4: "scheduler_pick p ?t3 = Swtch t4" "in_crit (L_proc p) t4" "cur_ctx t4 = cur_ctx s"
      "procs t4 p = (procs s p)\<lparr>p_chan := Some ch, p_state := RUNNING, p_context := cur_ctx s\<rparr>"
      "\<forall>lk. lk \<noteq> L_proc p \<longrightarrow> locks t4 lk = locks ?t3 lk"
    by auto
  have "lock_free lk t4"
    using t1(3) t2(6) t4(5) lk by (simp add: lock_free_def frame_simps)
  from sleep_resume_run [OF t4(2) this, of ie] lk obtain t5 where
    t5: "sleep_resume p ie lk t4 = Ret () t5" "in_crit lk t5" "procs t5 = (procs t4)(p := (procs t4 p)\<lparr>p_chan := None\<rparr>)"
    by auto
  have "procs t5 p = (procs s p)\<lparr>p_chan := None, p_state := RUNNING, p_context := cur_ctx s\<rparr>"
    by (simp add: t5(3) t4(4))
  with t1(1,3) t2(1) t3 t4(1,3) t5(1,2) show ?thesis by blast
qed

subsection \<open>The scheduler's rounds\<close>

text \<open>\<open>idles s t\<close>: between \<open>s\<close> and \<open>t\<close> the hart has looked at processes and run none.\<close>

definition idles :: "'a proc_state_scheme \<Rightarrow> 'a proc_state_scheme \<Rightarrow> bool" where
  "idles s t \<longleftrightarrow> procs t = procs s \<and> locks t = locks s \<and> cur_ctx t = cur_ctx s \<and> tp t = tp s \<and>
     c_noff (cpus t (mycpu t)) = c_noff (cpus s (mycpu s)) \<and> c_proc (cpus t (mycpu t)) = c_proc (cpus s (mycpu s))"

lemma idles_refl: "idles s s"
  by (simp add: idles_def)

lemma idles_trans: "idles s t \<Longrightarrow> idles t u \<Longrightarrow> idles s u"
  by (simp add: idles_def)

lemma idles_intr_on: "\<exists>t. intr_on s = Ret () t \<and> idles s t"
  by (simp add: idles_def intr_on_def kern_simps mycpu_def cpuid_def)

lemma idles_pick_skip:
  assumes "c_noff (cpus s (mycpu s)) = 0" "lock_free (L_proc p) s" "p_state (procs s p) \<noteq> RUNNABLE"
  shows "\<exists>t. scheduler_pick p s = Ret () t \<and> idles s t"
  using scheduler_pick_skip [OF _ assms(2,3)] assms(1)
  by (simp add: cpu_ok_def idles_def frame_simps) (simp add: settle_def)

lemma idles_pass:
  assumes "c_noff (cpus s (mycpu s)) = 0" "\<forall>i\<in>set is. lock_free (L_proc i) s \<and> p_state (procs s i) \<noteq> RUNNABLE"
  shows "\<exists>t. for_each is scheduler_pick s = Ret () t \<and> idles s t"
  using assms
proof (induction "is" arbitrary: s)
  case Nil
  then show ?case by (simp add: ret_def idles_refl)
next
  case (Cons i "is")
  from idles_pick_skip [of s i] Cons.prems obtain u where u: "scheduler_pick i s = Ret () u" "idles s u" by auto
  have "\<exists>t. for_each is scheduler_pick u = Ret () t \<and> idles u t"
    using Cons.prems u(2) by (intro Cons.IH) (auto simp: idles_def lock_free_def)
  then show ?case using u idles_trans by (auto simp: bnd_def)
qed

text \<open>\<open>runs q s t\<close>: the hart has switched from the scheduler in \<open>s\<close> to process \<open>q\<close>.\<close>

definition runs :: "nat \<Rightarrow> 'a proc_state_scheme \<Rightarrow> 'a proc_state_scheme \<Rightarrow> bool" where
  "runs q s t \<longleftrightarrow> in_crit (L_proc q) t \<and> c_proc (cpus t (mycpu t)) = Some q \<and>
     c_context (cpus t (mycpu t)) = cur_ctx s \<and> cur_ctx t = p_context (procs s q) \<and>
     procs t = (procs s)(q := (procs s q)\<lparr>p_state := RUNNING\<rparr>) \<and> (\<forall>lk. lk \<noteq> L_proc q \<longrightarrow> locks t lk = locks s lk)"

lemma runs_idles: "idles s u \<Longrightarrow> runs q u t \<Longrightarrow> runs q s t"
  by (simp add: runs_def idles_def)

lemma pass_runs:
  assumes "c_noff (cpus s (mycpu s)) = 0" "\<forall>i\<in>set is. lock_free (L_proc i) s \<and> p_state (procs s i) \<noteq> RUNNABLE"
    "lock_free (L_proc q) s" "p_state (procs s q) = RUNNABLE"
  shows "\<exists>t. for_each (is @ q # js) scheduler_pick s = Swtch t \<and> runs q s t"
proof -
  from idles_pass [OF assms(1,2)] obtain u where u: "for_each is scheduler_pick s = Ret () u" "idles s u" by auto
  then have "\<exists>t. scheduler_pick q u = Swtch t \<and> runs q u t"
    using assms scheduler_pick_run [of u q] by (auto simp: idles_def runs_def lock_free_def)
  with u show ?thesis using runs_idles by (auto simp: for_each_append bnd_def)
qed

lemma round_runs:
  assumes "c_noff (cpus s (mycpu s)) = 0" "proc_locks_free s" "[0..<NPROC] = is @ q # js"
    "\<forall>i\<in>set is. p_state (procs s i) \<noteq> RUNNABLE" "p_state (procs s q) = RUNNABLE"
  shows "\<exists>t. scheduler_round s = Swtch t \<and> runs q s t"
proof -
  obtain u where u: "intr_on s = Ret () u" "idles s u" using idles_intr_on by blast
  have "i < NPROC" if "i \<in> set (is @ q # js)" for i using that unfolding assms(3) [symmetric] by simp
  then have fr: "lock_free (L_proc i) u" if "i \<in> set is \<or> i = q" for i
    using assms(2) u(2) that by (auto simp: proc_locks_free_def idles_def lock_free_def)
  have "\<exists>t. for_each (is @ q # js) scheduler_pick u = Swtch t \<and> runs q u t"
    using u(2) assms fr by (intro pass_runs) (auto simp: idles_def)
  with u show ?thesis
    using runs_idles by (auto simp: scheduler_round_def scheduler_pass_def assms(3) bnd_def)
qed

lemma pass_round_runs:
  assumes off: "c_noff (cpus u (mycpu u)) = 0" and free: "proc_locks_free u"
    and order: "[k..<NPROC] @ [0..<NPROC] = is @ q # js"
    and idle: "\<forall>i\<in>set is. p_state (procs u i) \<noteq> RUNNABLE" and q: "p_state (procs u q) = RUNNABLE"
  shows "\<exists>t. bnd (scheduler_pass k) (\<lambda>_. scheduler_round) u = Swtch t \<and> runs q u t"
proof -
  have "i < NPROC" if "i \<in> set (is @ q # js)" for i using that unfolding order [symmetric] by auto
  then have fr: "lock_free (L_proc i) u" if "i \<in> set is \<or> i = q" for i
    using free that by (auto simp: proc_locks_free_def)
  consider zs where "[k..<NPROC] = is @ q # zs" | zs where "[k..<NPROC] @ zs = is" "[0..<NPROC] = zs @ q # js"
    using order by (auto simp: append_eq_append_conv2 Cons_eq_append_conv append_eq_Cons_conv)
  then show ?thesis
  proof cases
    case 1
    have "\<exists>t. for_each (is @ q # zs) scheduler_pick u = Swtch t \<and> runs q u t"
      using off idle fr q by (intro pass_runs) auto
    with 1 show ?thesis by (auto simp: scheduler_pass_def bnd_def)
  next
    case 2
    obtain v where v: "scheduler_pass k u = Ret () v" "idles u v"
      using idles_pass [OF off, of "[k..<NPROC]"] idle fr 2 by (auto simp: scheduler_pass_def)
    have "\<exists>t. scheduler_round v = Swtch t \<and> runs q v t"
      using v(2) off free idle q 2
      by (intro round_runs [OF _ _ 2(2)]) (auto simp: idles_def proc_locks_free_def lock_free_def)
    with v show ?thesis using runs_idles by (auto simp: bnd_def)
  qed
qed

lemma back_frees_all:
  assumes "in_crit (L_proc p) s" "\<forall>i<NPROC. i \<noteq> p \<longrightarrow> lock_free (L_proc i) s"
  shows "\<exists>u. scheduler_back p s = Ret () u \<and> proc_locks_free u \<and> c_noff (cpus u (mycpu u)) = 0 \<and>
    procs u = procs s \<and> cur_ctx u = cur_ctx s"
proof -
  from scheduler_back_run [OF assms(1)] obtain u where u: "scheduler_back p s = Ret () u" "lock_free (L_proc p) u"
      "c_noff (cpus u (mycpu u)) = 0" "procs u = procs s" "cur_ctx u = cur_ctx s"
      "\<forall>lk. lk \<noteq> L_proc p \<longrightarrow> locks u lk = locks s lk"
    by auto
  have "lock_free (L_proc i) u" if "i < NPROC" for i
    using u(2,6) assms(2) that by (cases "i = p") (auto simp: lock_free_def)
  with u show ?thesis by (auto simp: proc_locks_free_def)
qed

subsection \<open>Properties\<close>

definition zero_context :: kcontext where
  "zero_context = \<lparr>ctx_ra = 0, ctx_sp = 0, ctx_s = (\<lambda>_. 0)\<rparr>"

definition unused_proc :: proc where
  "unused_proc = \<lparr>p_state = UNUSED, p_chan = None, p_killed = False, p_xstate = 0, p_pid = 0, p_parent = None,
     p_kstack = 0, p_sz = 0, p_pagetable = 0, p_trapframe = 0, p_context = zero_context, p_ofile = (\<lambda>_. None),
     p_cwd = None, p_name = (\<lambda>_. 0)\<rparr>"

text \<open>A sample state: process 3 (identifier 7) runs on hart 0 and holds the \<open>ticks\<close> lock.\<close>

definition sample_running :: proc_state where
  "sample_running =
     \<lparr>tp = 0, sstatus = 0, cur_ctx = zero_context\<lparr>ctx_ra := 42\<rparr>,
      cpus = (\<lambda>_. \<lparr>c_proc = Some 3, c_context = zero_context, c_noff = 1, c_intena = True\<rparr>),
      locks = (\<lambda>lk. \<lparr>lk_locked = (lk = L_ticks), lk_name = [], lk_cpu = (if lk = L_ticks then Some 0 else None)\<rparr>),
      procs = (\<lambda>p. if p = 3 then unused_proc\<lparr>p_state := RUNNING, p_pid := 7\<rparr> else unused_proc),
      initproc = None, nextpid = 8\<rparr>"

lemmas sample_running_defs = sample_running_def in_crit_def holding_def intr_get_def mach_defs lock_free_def
  proc_locks_free_def NPROC_def

text \<open>C7: a process that sleeps on a channel gives up its condition lock and its CPU, and after a
  \<open>wakeup\<close> on the channel and its next turn in the scheduler it is running again, off the channel,
  with the registers it went to sleep with and holding the condition lock.\<close>

theorem sleep_returns_with_lock:
  assumes "c_proc (cpus s (mycpu s)) = Some p" "p < NPROC" "in_crit lk s" "proc_locks_free s" "\<forall>q. lk \<noteq> L_proc q"
  shows "\<exists>t1 t2 t3 t4 t5. (sleep ch lk s :: (unit, _) outcome) = Swtch t1 \<and> lock_free lk t1 \<and>
    scheduler_back p t1 = Ret () t2 \<and> wakeup ch t2 = Ret () t3 \<and> scheduler_pick p t3 = Swtch t4 \<and>
    cur_ctx t4 = cur_ctx s \<and> sleep_resume p ie lk t4 = Ret () t5 \<and> in_crit lk t5 \<and>
    procs t5 p = (procs s p)\<lparr>p_chan := None, p_state := RUNNING, p_context := cur_ctx s\<rparr>"
  by (rule sleep_wakeup_cycle [OF assms])

theorem sleep_returns_with_lock_witness:
  "\<exists>t1 t2 t3 t4 t5. (sleep Ch_ticks L_ticks sample_running :: (unit, _) outcome) = Swtch t1 \<and> lock_free L_ticks t1 \<and>
    scheduler_back 3 t1 = Ret () t2 \<and> wakeup Ch_ticks t2 = Ret () t3 \<and> scheduler_pick 3 t3 = Swtch t4 \<and>
    cur_ctx t4 = cur_ctx sample_running \<and> sleep_resume 3 True L_ticks t4 = Ret () t5 \<and> in_crit L_ticks t5 \<and>
    procs t5 3 = (procs sample_running 3)\<lparr>p_chan := None, p_state := RUNNING, p_context := cur_ctx sample_running\<rparr>"
  by (rule sleep_returns_with_lock) (simp_all add: sample_running_defs)

text \<open>\<open>kill\<close> marks the first process with the identifier as killed, makes it runnable if it was
  asleep, and changes nothing else; with no such process it fails and changes nothing.\<close>

lemma kill_exact:
  assumes "cpu_ok s" "proc_locks_free s"
  shows "kill pid s =
     (case first_idx (\<lambda>p. p_pid (procs s p) = pid) [0..<NPROC] of
        Some p \<Rightarrow> Ret 0 ((settle s)\<lparr>procs := (procs s)(p := killed_proc (procs s p))\<rparr>)
      | None \<Rightarrow> Ret (-1) (settle s))"
  by (rule kill_run [OF assms])


text \<open>C40: the scheduler is round robin. When process \<open>p\<close> gives its CPU back, the next process to run is the
  first runnable one after \<open>p\<close> in the table, going on from the table's start when there is none: the
  scheduler switches to it with its registers, marked as running and with its lock held, and leaves
  every other process as it was and its lock free.\<close>

theorem scheduler_round_robin:
  assumes "in_crit (L_proc p) s" "\<forall>i<NPROC. i \<noteq> p \<longrightarrow> lock_free (L_proc i) s"
    "[Suc p..<NPROC] @ [0..<NPROC] = is @ q # js"
    "\<forall>i\<in>set is. p_state (procs s i) \<noteq> RUNNABLE" "p_state (procs s q) = RUNNABLE"
  shows "\<exists>t. scheduler_resume p s = Swtch t \<and> in_crit (L_proc q) t \<and> c_proc (cpus t (mycpu t)) = Some q \<and>
    cur_ctx t = p_context (procs s q) \<and> c_context (cpus t (mycpu t)) = cur_ctx s \<and>
    procs t = (procs s)(q := (procs s q)\<lparr>p_state := RUNNING\<rparr>) \<and>
    (\<forall>i<NPROC. i \<noteq> q \<longrightarrow> lock_free (L_proc i) t)"
proof -
  from back_frees_all [OF assms(1,2)] obtain u where u: "scheduler_back p s = Ret () u" "proc_locks_free u"
      "c_noff (cpus u (mycpu u)) = 0" "procs u = procs s" "cur_ctx u = cur_ctx s"
    by auto
  from pass_round_runs [OF u(3,2) assms(3)] assms(4,5) u(4) obtain t where
    t: "bnd (scheduler_pass (Suc p)) (\<lambda>_. scheduler_round) u = Swtch t" "runs q u t"
    by auto
  have "scheduler_resume p s = Swtch t" using t(1) u(1) by (simp add: scheduler_resume_def bnd_def)
  then show ?thesis using t(2) u by (auto simp: runs_def proc_locks_free_def lock_free_def)
qed

text \<open>A sample state: the scheduler of hart 0 has process 5 back, which waits; processes 2 and 9 can run.\<close>

definition sample_back :: proc_state where
  "sample_back =
     \<lparr>tp = 0, sstatus = 0, cur_ctx = zero_context,
      cpus = (\<lambda>_. \<lparr>c_proc = Some 5, c_context = zero_context, c_noff = 1, c_intena = True\<rparr>),
      locks = (\<lambda>lk. \<lparr>lk_locked = (lk = L_proc 5), lk_name = [], lk_cpu = (if lk = L_proc 5 then Some 0 else None)\<rparr>),
      procs = (\<lambda>p. unused_proc\<lparr>p_state := (if p = 2 \<or> p = 9 then RUNNABLE else SLEEPING)\<rparr>),
      initproc = None, nextpid = 65\<rparr>"

theorem scheduler_round_robin_witness:
  "\<exists>t. scheduler_resume 5 sample_back = Swtch t \<and> c_proc (cpus t (mycpu t)) = Some 9 \<and>
    p_state (procs t 9) = RUNNING \<and> p_state (procs t 2) = RUNNABLE"
proof -
  have "[Suc 5..<NPROC] @ [0..<NPROC] = [6..<9] @ 9 # ([10..<NPROC] @ [0..<NPROC])"
    by (simp add: NPROC_def upt_rec)
  moreover have "in_crit (L_proc 5) sample_back" "\<forall>i<NPROC. i \<noteq> 5 \<longrightarrow> lock_free (L_proc i) sample_back"
    "\<forall>i\<in>set [6..<9]. p_state (procs sample_back i) \<noteq> RUNNABLE" "p_state (procs sample_back 9) = RUNNABLE"
    "p_state (procs sample_back 2) = RUNNABLE"
    by (auto simp: sample_back_def in_crit_def holding_def intr_get_def mach_defs lock_free_def unused_proc_def)
  ultimately show ?thesis
    using scheduler_round_robin [of 5 sample_back "[6..<9]" 9 "[10..<NPROC] @ [0..<NPROC]"] by auto
qed

end
