(* ===== verification/Phys_Mem.thy ===== *)
theory Phys_Mem
  imports Xv6_Prelude
begin

text \<open>
  Physical memory as the C code sees it: a byte for every 64-bit address, little-endian
  multi-byte loads and stores, and the page arithmetic of \<^verbatim>\<open>kernel/riscv.h\<close>
  (\<open>PGSIZE\<close>, \<open>PGROUNDUP\<close>, \<open>PGROUNDDOWN\<close>) with the facts about alignment and
  disjoint pages that the allocator and the page tables rest on.
\<close>

type_synonym mem = "u64 \<Rightarrow> u8"

subsection \<open>Little-endian encoding\<close>

definition le_bytes :: "nat \<Rightarrow> 'a::len word \<Rightarrow> u8 list" where
  "le_bytes n w = map (\<lambda>i. ucast (drop_bit (8 * i) w)) [0..<n]"

primrec le_word :: "u8 list \<Rightarrow> 'a::len word" where
  "le_word [] = 0"
| "le_word (b # bs) = ucast b OR push_bit 8 (le_word bs)"

lemma length_le_bytes [simp]: "length (le_bytes n w) = n"
  by (simp add: le_bytes_def)

lemma le_bytes_Suc: "le_bytes (Suc n) w = ucast w # le_bytes n (drop_bit 8 w)"
  by (simp add: le_bytes_def upt_conv_Cons del: upt_Suc)
     (simp add: map_Suc_upt [symmetric] drop_bit_drop_bit add.commute del: map_Suc_upt upt_Suc)

lemma bit_le_word:
  "bit (le_word bs :: 'a::len word) k \<longleftrightarrow>
     k < LENGTH('a) \<and> k div 8 < length bs \<and> bit (bs ! (k div 8)) (k mod 8)"
proof (induction bs arbitrary: k)
  case Nil
  then show ?case by simp
next
  case (Cons b bs)
  show ?case
  proof (cases "k < 8")
    case True
    then show ?thesis
      by (auto simp: bit_simps)
  next
    case False
    then obtain j where k: "k = j + 8" by (metis add.commute le_Suc_ex not_less)
    have b: "\<not> bit b (j + 8)" by (rule notI, drule bit_imp_le_length, simp)
    have d: "(j + 8) div 8 = Suc (j div 8)" by simp
    show ?thesis
      unfolding k using b
      by (auto simp: bit_simps Cons.IH d simp del: div_add_self2)
  qed
qed

lemma le_word_bytes:
  assumes "LENGTH('a) \<le> 8 * n"
  shows "le_word (le_bytes n w) = (w :: 'a::len word)"
proof (rule bit_word_eqI)
  fix k
  assume k: "k < LENGTH('a)"
  with assms have d: "k div 8 < n" by auto
  have "8 * (k div 8) + k mod 8 = k" by simp
  with d k show "bit (le_word (le_bytes n w) :: 'a word) k = bit w k"
    by (auto simp: bit_le_word le_bytes_def bit_simps)
qed

lemma le_bytes_word:
  assumes "8 * length bs \<le> LENGTH('a)"
  shows "le_bytes (length bs) (le_word bs :: 'a::len word) = bs"
proof (rule nth_equalityI)
  fix i
  assume "i < length (le_bytes (length bs) (le_word bs :: 'a word))"
  then have i: "i < length bs" by simp
  show "le_bytes (length bs) (le_word bs :: 'a word) ! i = bs ! i"
  proof (rule bit_word_eqI)
    fix k
    assume "k < LENGTH(8)"
    then have k: "k < 8" by simp
    with i assms have lt: "8 * i + k < LENGTH('a)" by linarith
    from k have "(8 * i + k) div 8 = i" "(8 * i + k) mod 8 = k" by simp_all
    with i k lt show "bit (le_bytes (length bs) (le_word bs :: 'a word) ! i) k = bit (bs ! i) k"
      by (simp add: le_bytes_def bit_simps bit_le_word)
  qed
qed simp

lemma le_word_zeros: "le_word (replicate n 0) = 0"
  by (induction n) simp_all

subsection \<open>Reading and writing runs of bytes\<close>

definition rd_bytes :: "mem \<Rightarrow> u64 \<Rightarrow> nat \<Rightarrow> u8 list" where
  "rd_bytes m a n = map (\<lambda>i. m (a + of_nat i)) [0..<n]"

definition wr_bytes :: "mem \<Rightarrow> u64 \<Rightarrow> u8 list \<Rightarrow> mem" where
  "wr_bytes m a bs = (\<lambda>x. if unat (x - a) < length bs then bs ! unat (x - a) else m x)"

definition ld64 :: "mem \<Rightarrow> u64 \<Rightarrow> u64" where
  "ld64 m a = le_word (rd_bytes m a 8)"

definition sd64 :: "mem \<Rightarrow> u64 \<Rightarrow> u64 \<Rightarrow> mem" where
  "sd64 m a v = wr_bytes m a (le_bytes 8 v)"

text \<open>The \<open>n\<close> bytes from \<open>a\<close> on, as a set of addresses.\<close>

definition span :: "u64 \<Rightarrow> nat \<Rightarrow> u64 set" where
  "span a n = {x. unat (x - a) < n}"

lemma length_rd_bytes [simp]: "length (rd_bytes m a n) = n"
  by (simp add: rd_bytes_def)

lemma nth_rd_bytes [simp]: "i < n \<Longrightarrow> rd_bytes m a n ! i = m (a + of_nat i)"
  by (simp add: rd_bytes_def)

lemma in_spanD: "x \<in> span a n \<Longrightarrow> \<exists>i<n. x = a + of_nat i"
proof -
  assume "x \<in> span a n"
  then have "unat (x - a) < n" by (simp add: span_def)
  moreover have "x = a + of_nat (unat (x - a))" by simp
  ultimately show ?thesis by blast
qed

lemma add_in_span [simp]: "i < n \<Longrightarrow> n \<le> 2 ^ 64 \<Longrightarrow> a + of_nat i \<in> span a n"
  by (simp add: span_def unat_of_nat)

lemma span_mono: "n \<le> k \<Longrightarrow> span a n \<subseteq> span a k"
  by (auto simp: span_def)

lemma wr_bytes_other: "x \<notin> span a (length bs) \<Longrightarrow> wr_bytes m a bs x = m x"
  by (simp add: wr_bytes_def span_def)

lemma wr_bytes_at:
  "i < length bs \<Longrightarrow> length bs \<le> 2 ^ 64 \<Longrightarrow> wr_bytes m a bs (a + of_nat i) = bs ! i"
  by (simp add: wr_bytes_def unat_of_nat)

lemma wr_bytes_Nil [simp]: "wr_bytes m a [] = m"
  by (simp add: wr_bytes_def fun_eq_iff)

lemma rd_wr_same:
  "length bs \<le> 2 ^ 64 \<Longrightarrow> rd_bytes (wr_bytes m a bs) a (length bs) = bs"
  by (rule nth_equalityI) (simp_all add: wr_bytes_at)

lemma rd_bytes_cong:
  "(\<And>x. x \<in> span a n \<Longrightarrow> m x = m' x) \<Longrightarrow> n \<le> 2 ^ 64 \<Longrightarrow> rd_bytes m a n = rd_bytes m' a n"
  by (rule nth_equalityI) simp_all

lemma ld64_cong:
  "(\<And>x. x \<in> span a 8 \<Longrightarrow> m x = m' x) \<Longrightarrow> ld64 m a = ld64 m' a"
  unfolding ld64_def by (subst rd_bytes_cong [of a 8 m m']) simp_all

lemma ld64_sd64_same [simp]: "ld64 (sd64 m a v) a = v"
  using rd_wr_same [of "le_bytes 8 v" m a]
  by (simp add: ld64_def sd64_def le_word_bytes)

lemma sd64_other: "x \<notin> span a 8 \<Longrightarrow> sd64 m a v x = m x"
  by (simp add: sd64_def wr_bytes_other)

lemma ld64_sd64_other: "span a 8 \<inter> span b 8 = {} \<Longrightarrow> ld64 (sd64 m a v) b = ld64 m b"
  by (rule ld64_cong) (auto intro!: sd64_other)

subsection \<open>Pages\<close>

definition PGSIZE :: u64 where "PGSIZE = 4096"

definition PGROUNDUP :: "u64 \<Rightarrow> u64" where
  "PGROUNDUP sz = (sz + PGSIZE - 1) AND NOT (PGSIZE - 1)"

definition PGROUNDDOWN :: "u64 \<Rightarrow> u64" where
  "PGROUNDDOWN a = a AND NOT (PGSIZE - 1)"

definition pg_aligned :: "u64 \<Rightarrow> bool" where
  "pg_aligned a \<longleftrightarrow> a mod PGSIZE = 0"

abbreviation page :: "u64 \<Rightarrow> u64 set" where
  "page p \<equiv> span p 4096"

lemma unat_PGSIZE [simp]: "unat PGSIZE = 4096"
  by (simp add: PGSIZE_def)

lemma pg_aligned_unat: "pg_aligned a \<longleftrightarrow> unat a mod 4096 = 0"
  by (simp add: pg_aligned_def PGSIZE_def word_unat_eq_iff unat_mod)

lemma page_mask: "PGSIZE - 1 = mask 12"
  by (simp add: PGSIZE_def mask_eq_exp_minus_1)

lemma PGROUNDDOWN_unat: "unat (PGROUNDDOWN a) = unat a div 4096 * 4096"
proof -
  have "PGROUNDDOWN a = push_bit 12 (drop_bit 12 a)"
    unfolding PGROUNDDOWN_def page_mask by (rule bit_word_eqI) (auto simp: bit_simps)
  moreover have "unat (drop_bit 12 a) = unat a div 4096"
    by (simp add: drop_bit_eq_div unat_div)
  moreover have "unat a div 4096 * 4096 < 2 ^ 64"
    by (rule le_less_trans [OF div_times_less_eq_dividend]) (use unsigned_less [of a] in simp)
  ultimately show ?thesis
    by (simp add: push_bit_eq_mult unat_word_ariths mult.commute)
qed

lemma PGROUNDUP_unat:
  assumes "unat a + 4095 < 2 ^ 64"
  shows "unat (PGROUNDUP a) = (unat a + 4095) div 4096 * 4096"
proof -
  have "a + PGSIZE - 1 = a + of_nat 4095" by (simp add: PGSIZE_def)
  moreover have "PGROUNDUP a = PGROUNDDOWN (a + PGSIZE - 1)"
    by (simp add: PGROUNDUP_def PGROUNDDOWN_def)
  ultimately show ?thesis
    using assms by (simp only: PGROUNDDOWN_unat) (subst unat_add_lt; simp)
qed

lemma pg_aligned_PGROUNDDOWN [simp]: "pg_aligned (PGROUNDDOWN a)"
  by (simp add: pg_aligned_unat PGROUNDDOWN_unat)

lemma pg_aligned_PGROUNDUP [simp]: "pg_aligned (PGROUNDUP a)"
  using pg_aligned_PGROUNDDOWN [of "a + PGSIZE - 1"] by (simp add: PGROUNDUP_def PGROUNDDOWN_def)

lemma aligned_no_wrap: "pg_aligned p \<Longrightarrow> unat p + 4096 \<le> 2 ^ 64"
proof -
  assume "pg_aligned p"
  then obtain k where k: "unat p = 4096 * k" by (auto simp: pg_aligned_unat)
  have "unat p < 4096 * 2 ^ 52" using unsigned_less [of p] by simp
  with k have "k < 2 ^ 52" by simp
  then have "4096 * Suc k \<le> 4096 * 2 ^ 52" by (simp only: mult_le_mono2 Suc_le_eq)
  with k show ?thesis by simp
qed

lemma in_page_unat:
  assumes "pg_aligned p" "x \<in> page p"
  shows "unat x div 4096 * 4096 = unat p"
proof -
  from in_spanD [OF assms(2)] obtain i where i: "i < 4096" "x = p + of_nat i" by blast
  with aligned_no_wrap [OF assms(1)] have x: "unat x = unat p + i" by (simp add: unat_add_lt)
  obtain k where "unat p = 4096 * k" using assms(1) by (auto simp: pg_aligned_unat)
  with x i(1) show ?thesis by simp
qed

lemma pages_disjoint: "pg_aligned p \<Longrightarrow> pg_aligned q \<Longrightarrow> p \<noteq> q \<Longrightarrow> page p \<inter> page q = {}"
  by (metis disjoint_iff in_page_unat word_unat_eq_iff)

lemma self_in_page [simp]: "p \<in> page p"
  by (simp add: span_def)

lemma PGROUNDDOWN_page: "x \<in> page (PGROUNDDOWN x)"
proof -
  have "unat (PGROUNDDOWN x) \<le> unat x" by (simp add: PGROUNDDOWN_unat)
  then have "unat (x - PGROUNDDOWN x) = unat x - unat (PGROUNDDOWN x)"
    by (simp add: unat_sub word_le_nat_alt)
  then show ?thesis by (simp add: span_def PGROUNDDOWN_unat minus_div_mult_eq_mod)
qed

lemma PGROUNDDOWN_in_page: "pg_aligned p \<Longrightarrow> x \<in> page p \<Longrightarrow> PGROUNDDOWN x = p"
  using in_page_unat [of p x] by (simp add: word_unat_eq_iff PGROUNDDOWN_unat)

text \<open>The eight bytes of an aligned slot of a page lie in the page, and different slots are
  disjoint.\<close>

lemma slot_in_page:
  assumes "i < 512"
  shows "span (p + 8 * of_nat i) 8 \<subseteq> page p"
proof
  fix x
  assume "x \<in> span (p + 8 * of_nat i) 8"
  then obtain j where j: "j < 8" "x = p + 8 * of_nat i + of_nat j" using in_spanD by blast
  have "x - p = of_nat (8 * i + j)" using j(2) by simp
  moreover have "8 * i + j < 4096" using assms j(1) by simp
  ultimately show "x \<in> page p" unfolding span_def mem_Collect_eq by (simp only: unat_of_nat) simp
qed

lemma slots_disjoint:
  assumes "i < 512" "k < 512" "i \<noteq> k"
  shows "span (p + 8 * of_nat i) 8 \<inter> span (p + 8 * of_nat k) 8 = {}"
proof -
  have False if x: "x \<in> span (p + 8 * of_nat i) 8" "x \<in> span (p + 8 * of_nat k) 8" for x
  proof -
    from x obtain j l where j: "j < 8" "x = p + 8 * of_nat i + of_nat j"
      and l: "l < 8" "x = p + 8 * of_nat k + of_nat l" using in_spanD by meson
    from j l have "p + of_nat (8 * i + j) = p + of_nat (8 * k + l)" by (simp add: add.assoc)
    then have "8 * i + j = 8 * k + l"
      using assms j(1) l(1) by (subst (asm) word_add_of_nat_inj) simp_all
    with assms(3) j(1) l(1) show False by presburger
  qed
  then show ?thesis by blast
qed

end
