(* ===== verification/Kstring.thy ===== *)
theory Kstring
  imports Phys_Mem
begin

text \<open>
  \<^verbatim>\<open>kernel/string.c\<close>. \<open>memset\<close> and \<open>memmove\<close> write through pointers that may
  alias, so they act on memory. The other routines take the bytes at a pointer as a function of
  the offset (\<open>cptr\<close>); \<open>strncpy\<close> and \<open>safestrcpy\<close> return the new contents of
  their destination, which no caller in the kernel lets overlap the source. Counts and lengths are
  \<open>nat\<close> where the loop only counts them down and \<open>int\<close> where the C code has a signed
  count whose sign it tests.
\<close>

subsection \<open>The routines\<close>

function memset_loop :: "nat \<Rightarrow> nat \<Rightarrow> u64 \<Rightarrow> u32 \<Rightarrow> mem \<Rightarrow> mem" where
  "memset_loop i n dst c m =
     (if i < n then memset_loop (Suc i) n dst c (m(dst + of_nat i := ucast c)) else m)"
  by pat_completeness auto
termination
  by (relation "measure (\<lambda>(i, n, _). n - i)") auto

declare memset_loop.simps [simp del]

definition memset :: "u64 \<Rightarrow> u32 \<Rightarrow> u32 \<Rightarrow> mem \<Rightarrow> mem" where
  "memset dst c n m = memset_loop 0 (unat n) dst c m"

fun memcmp :: "cptr \<Rightarrow> cptr \<Rightarrow> nat \<Rightarrow> int" where
  "memcmp s1 s2 0 = 0"
| "memcmp s1 s2 (Suc n) =
     (if s1 0 \<noteq> s2 0 then uint (s1 0) - uint (s2 0)
      else memcmp (\<lambda>i. s1 (Suc i)) (\<lambda>i. s2 (Suc i)) n)"

fun memmove_up :: "nat \<Rightarrow> u64 \<Rightarrow> u64 \<Rightarrow> mem \<Rightarrow> mem" where
  "memmove_up 0 d s m = m"
| "memmove_up (Suc n) d s m = memmove_up n (d + 1) (s + 1) (m(d := m s))"

fun memmove_down :: "nat \<Rightarrow> u64 \<Rightarrow> u64 \<Rightarrow> mem \<Rightarrow> mem" where
  "memmove_down 0 d s m = m"
| "memmove_down (Suc n) d s m = memmove_down n (d - 1) (s - 1) (m(d - 1 := m (s - 1)))"

definition memmove :: "u64 \<Rightarrow> u64 \<Rightarrow> u32 \<Rightarrow> mem \<Rightarrow> mem" where
  "memmove dst src n m =
     (if n = 0 then m
      else if src < dst \<and> dst < src + ucast n
      then memmove_down (unat n) (dst + ucast n) (src + ucast n) m
      else memmove_up (unat n) dst src m)"

definition memcpy :: "u64 \<Rightarrow> u64 \<Rightarrow> u32 \<Rightarrow> mem \<Rightarrow> mem" where
  "memcpy dst src n m = memmove dst src n m"

fun strncmp :: "cptr \<Rightarrow> cptr \<Rightarrow> nat \<Rightarrow> int" where
  "strncmp p q 0 = 0"
| "strncmp p q (Suc n) =
     (if p 0 \<noteq> 0 \<and> p 0 = q 0 then strncmp (\<lambda>i. p (Suc i)) (\<lambda>i. q (Suc i)) n
      else uint (p 0) - uint (q 0))"

text \<open>The two loops of \<open>strncpy\<close>; the first returns where it stopped and the count left.\<close>

function strncpy_copy :: "nat \<Rightarrow> int \<Rightarrow> cptr \<Rightarrow> cptr \<Rightarrow> nat \<times> int \<times> cptr" where
  "strncpy_copy i n s t =
     (if 0 < n then
        (if t i \<noteq> 0 then strncpy_copy (Suc i) (n - 1) (s(i := t i)) t
         else (Suc i, n - 1, s(i := t i)))
      else (i, n - 1, s))"
  by pat_completeness auto
termination
  by (relation "measure (\<lambda>(i, n, _). nat n)") auto

function strncpy_pad :: "nat \<Rightarrow> int \<Rightarrow> cptr \<Rightarrow> cptr" where
  "strncpy_pad i n s = (if 0 < n then strncpy_pad (Suc i) (n - 1) (s(i := 0)) else s)"
  by pat_completeness auto
termination
  by (relation "measure (\<lambda>(i, n, _). nat n)") auto

declare strncpy_copy.simps [simp del] strncpy_pad.simps [simp del]

definition strncpy :: "cptr \<Rightarrow> cptr \<Rightarrow> int \<Rightarrow> cptr" where
  "strncpy s t n = (let (i, n', s') = strncpy_copy 0 n s t in strncpy_pad i n' s')"

function safestrcpy_copy :: "nat \<Rightarrow> int \<Rightarrow> cptr \<Rightarrow> cptr \<Rightarrow> nat \<times> cptr" where
  "safestrcpy_copy i n s t =
     (let n' = n - 1 in
      if 0 < n' then
        (if t i \<noteq> 0 then safestrcpy_copy (Suc i) n' (s(i := t i)) t
         else (Suc i, s(i := t i)))
      else (i, s))"
  by pat_completeness auto
termination
  by (relation "measure (\<lambda>(i, n, _). nat n)") auto

declare safestrcpy_copy.simps [simp del]

definition safestrcpy :: "cptr \<Rightarrow> cptr \<Rightarrow> int \<Rightarrow> cptr" where
  "safestrcpy s t n =
     (if n \<le> 0 then s else let (i, s') = safestrcpy_copy 0 n s t in s'(i := 0))"

partial_function (option) strlen_loop :: "cptr \<Rightarrow> nat \<Rightarrow> nat option" where
  "strlen_loop s n = (if s n \<noteq> 0 then strlen_loop s (Suc n) else Some n)"

definition strlen :: "cptr \<Rightarrow> nat option" where
  "strlen s = strlen_loop s 0"

subsection \<open>memset and memmove as functions of the whole memory\<close>

definition fill :: "u64 \<Rightarrow> nat \<Rightarrow> u8 \<Rightarrow> mem \<Rightarrow> mem" where
  "fill dst n b m = (\<lambda>x. if x \<in> span dst n then b else m x)"

lemma span_Suc: "n < 2 ^ 64 \<Longrightarrow> span a (Suc n) = insert (a + of_nat n) (span a n)"
proof -
  assume n: "n < 2 ^ 64"
  have "x \<in> span a (Suc n) \<Longrightarrow> x \<noteq> a + of_nat n \<Longrightarrow> x \<in> span a n" for x
  proof -
    assume x: "x \<in> span a (Suc n)" "x \<noteq> a + of_nat n"
    from x(1) have "unat (x - a) < Suc n" by (simp add: span_def)
    moreover have "unat (x - a) \<noteq> n" using x(2) by auto
    ultimately show ?thesis by (simp add: span_def)
  qed
  moreover have "a + of_nat n \<in> span a (Suc n)" using n by (simp add: span_def unat_of_nat)
  moreover have "span a n \<subseteq> span a (Suc n)" by (rule span_mono) simp
  ultimately show ?thesis by blast
qed

lemma fill_step:
  "i < 2 ^ 64 \<Longrightarrow> (fill dst i b m)(dst + of_nat i := b) = fill dst (Suc i) b m"
  by (rule ext) (auto simp: fill_def span_Suc)

lemma memset_loop_fill:
  "i \<le> n \<Longrightarrow> n \<le> 2 ^ 64 \<Longrightarrow>
     memset_loop i n dst c (fill dst i (ucast c) m) = fill dst n (ucast c) m"
proof (induction "n - i" arbitrary: i)
  case 0
  then show ?case by (simp add: memset_loop.simps)
next
  case (Suc k)
  then have "i < n" by simp
  with Suc have "memset_loop (Suc i) n dst c (fill dst (Suc i) (ucast c) m) = fill dst n (ucast c) m"
    by simp
  with \<open>i < n\<close> Suc.prems show ?case by (simp add: memset_loop.simps [of i] fill_step)
qed

lemma unat32_le: "unat (n :: u32) \<le> 2 ^ 64"
  using unat_bound [of n] by simp

lemma memset_fill: "memset dst c n m = fill dst (unat n) (ucast c) m"
proof -
  have "fill dst 0 (ucast c) m = m" by (simp add: fill_def span_def)
  with memset_loop_fill [of 0 "unat n" dst c m] show ?thesis
    using unat32_le [of n] by (simp add: memset_def)
qed

lemma fill_in: "x \<in> span dst n \<Longrightarrow> fill dst n b m x = b"
  by (simp add: fill_def)

lemma fill_out: "x \<notin> span dst n \<Longrightarrow> fill dst n b m x = m x"
  by (simp add: fill_def)

lemma ld64_fill_zero:
  assumes "span a 8 \<subseteq> span dst n"
  shows "ld64 (fill dst n 0 m) a = 0"
proof -
  have "rd_bytes (fill dst n 0 m) a 8 = replicate 8 0"
  proof (rule nth_equalityI)
    fix i
    assume "i < length (rd_bytes (fill dst n 0 m) a 8)"
    then have i: "i < 8" by simp
    then have "a + of_nat i \<in> span dst n" using assms add_in_span [of i 8 a] by auto
    with i show "rd_bytes (fill dst n 0 m) a 8 ! i = replicate 8 0 ! i" by (simp add: fill_in)
  qed simp
  then show ?thesis by (simp add: ld64_def le_word_zeros)
qed

lemma ld64_fill_out: "span a 8 \<inter> span dst n = {} \<Longrightarrow> ld64 (fill dst n b m) a = ld64 m a"
  by (rule ld64_cong) (auto intro!: fill_out)

text \<open>\<open>moved d s n m\<close>: every byte of the destination range holds the old byte of the
  corresponding source address, every other byte is unchanged.\<close>

definition moved :: "u64 \<Rightarrow> u64 \<Rightarrow> nat \<Rightarrow> mem \<Rightarrow> mem" where
  "moved d s n m = (\<lambda>x. if x \<in> span d n then m (s + (x - d)) else m x)"


lemma moved_up:
  assumes "n < 2 ^ 64" and "\<And>i j. i < n \<Longrightarrow> j < i \<Longrightarrow> d + of_nat j \<noteq> s + of_nat i"
  shows "memmove_up n d s m = moved d s n m"
  using assms
proof (induction n arbitrary: d s m)
  case 0
  then show ?case by (simp add: moved_def span_def)
next
  case (Suc n)
  have ih: "memmove_up n (d + 1) (s + 1) (m(d := m s)) = moved (d + 1) (s + 1) n (m(d := m s))"
  proof (rule Suc.IH)
    fix i j
    assume "i < n" "j < i"
    then show "d + 1 + of_nat j \<noteq> s + 1 + of_nat i"
      using Suc.prems(2) [of "Suc i" "Suc j"] by (simp add: ac_simps)
  qed (use Suc.prems(1) in simp)
  have "moved (d + 1) (s + 1) n (m(d := m s)) x = moved d s (Suc n) m x" for x
  proof (cases "x = d")
    case True
    have "d \<notin> span (d + 1) n"
    proof
      assume "d \<in> span (d + 1) n"
      then obtain i where i: "i < n" "d = d + 1 + of_nat i" using in_spanD by blast
      then have "d + of_nat (Suc i) = d + of_nat 0" by (simp add: add.assoc)
      then show False using i(1) Suc.prems(1) by (subst (asm) word_add_of_nat_inj) simp_all
    qed
    with True show ?thesis by (simp add: moved_def span_def)
  next
    case False
    have iff: "x \<in> span (d + 1) n \<longleftrightarrow> x \<in> span d (Suc n)"
    proof
      assume "x \<in> span (d + 1) n"
      then obtain i where "i < n" "x = d + 1 + of_nat i" using in_spanD by blast
      then have "x = d + of_nat (Suc i)" "Suc i < Suc n" by simp_all
      then show "x \<in> span d (Suc n)" using Suc.prems(1) by (metis add_in_span less_imp_le_nat)
    next
      assume "x \<in> span d (Suc n)"
      then obtain i where i: "i < Suc n" "x = d + of_nat i" using in_spanD by blast
      with False obtain j where "i = Suc j" by (cases i) auto
      with i have "x = d + 1 + of_nat j" "j < n" by simp_all
      then show "x \<in> span (d + 1) n" using Suc.prems(1) by (metis add_in_span Suc_lessD less_imp_le_nat)
    qed
    have src: "(m(d := m s)) (s + 1 + (x - (d + 1))) = m (s + (x - d))" if x: "x \<in> span (d + 1) n"
    proof -
      obtain i where i: "i < n" "x = d + 1 + of_nat i" using in_spanD [OF x] by blast
      have "s + 1 + (x - (d + 1)) = s + of_nat (Suc i)" using i(2) by simp
      moreover have "d \<noteq> s + of_nat (Suc i)" using Suc.prems(2) [of "Suc i" 0] i(1) by simp
      moreover have "s + (x - d) = s + of_nat (Suc i)" using i(2) by simp
      ultimately show ?thesis by simp
    qed
    show ?thesis using False iff src by (auto simp: moved_def)
  qed
  then show ?case by (simp add: ih fun_eq_iff)
qed

lemma moved_down:
  assumes "n < 2 ^ 64" and "\<And>i j. i < j \<Longrightarrow> j < n \<Longrightarrow> d + of_nat j \<noteq> s + of_nat i"
  shows "memmove_down n (d + of_nat n) (s + of_nat n) m = moved d s n m"
  using assms
proof (induction n arbitrary: m)
  case 0
  then show ?case by (simp add: moved_def span_def)
next
  case (Suc n)
  let ?m = "m(d + of_nat n := m (s + of_nat n))"
  have "memmove_down (Suc n) (d + of_nat (Suc n)) (s + of_nat (Suc n)) m
      = memmove_down n (d + of_nat n) (s + of_nat n) ?m"
    by (simp add: algebra_simps)
  also have "\<dots> = moved d s n ?m"
    by (rule Suc.IH) (use Suc.prems in simp_all)
  also have "\<dots> = moved d s (Suc n) m"
  proof
    fix x
    show "moved d s n ?m x = moved d s (Suc n) m x"
    proof (cases "x = d + of_nat n")
      case True
      have "x \<notin> span d n" using True Suc.prems(1) by (simp add: span_def unat_of_nat)
      moreover have "x \<in> span d (Suc n)" using True Suc.prems(1) by (simp add: span_Suc)
      ultimately show ?thesis using True by (simp add: moved_def)
    next
      case False
      have iff: "x \<in> span d n \<longleftrightarrow> x \<in> span d (Suc n)"
        using False Suc.prems(1) by (simp add: span_Suc)
      have "d + of_nat n \<noteq> s + (x - d)" if x: "x \<in> span d n"
      proof -
        obtain i where "i < n" "x = d + of_nat i" using in_spanD [OF x] by blast
        then show ?thesis using Suc.prems(2) [of i n] by simp
      qed
      then show ?thesis using False iff by (auto simp: moved_def)
    qed
  qed
  finally show ?case .
qed

lemma memmove_moved:
  assumes s: "unat src + unat n < 2 ^ 64" and d: "unat dst + unat n \<le> 2 ^ 64"
  shows "memmove dst src n m = moved dst src (unat n) m"
proof (cases "n = 0")
  case True
  then show ?thesis by (simp add: memmove_def moved_def span_def)
next
  case False
  have n: "unat n < 2 ^ 64" using unat_bound [of n] by simp
  have un: "unat (dst + of_nat j) = unat dst + j" if "j < unat n" for j
    using that d by (simp add: unat_add_lt)
  have us: "unat (src + of_nat i) = unat src + i" if "i < unat n" for i
    using that s by (simp add: unat_add_lt)
  show ?thesis
  proof (cases "src < dst \<and> dst < src + ucast n")
    case True
    have "memmove_down (unat n) (dst + of_nat (unat n)) (src + of_nat (unat n)) m
        = moved dst src (unat n) m"
    proof (rule moved_down [OF n])
      fix i j
      assume "i < j" "j < unat n"
      then show "dst + of_nat j \<noteq> src + of_nat i"
        using True un [of j] us [of i] by (auto simp: word_less_nat_alt)
    qed
    with True False show ?thesis by (simp add: memmove_def)
  next
    case no: False
    have "memmove_up (unat n) dst src m = moved dst src (unat n) m"
    proof (rule moved_up [OF n])
      fix i j
      assume ij: "i < unat n" "j < i"
      show "dst + of_nat j \<noteq> src + of_nat i"
      proof
        assume "dst + of_nat j = src + of_nat i"
        then have e: "unat dst + j = unat src + i" using un [of j] us [of i] ij by simp
        then have lt: "src < dst" using ij by (simp add: word_less_nat_alt)
        have "unat (src + ucast n) = unat src + unat n"
          using unat_add_lt [of src "unat n"] s by simp
        then have "dst < src + ucast n" using e ij by (simp add: word_less_nat_alt)
        with lt no show False by simp
      qed
    qed
    with no False show ?thesis by (auto simp: memmove_def)
  qed
qed

subsection \<open>Comparison\<close>

text \<open>The C string at a pointer, cut off after \<open>n\<close> bytes.\<close>

definition cstr :: "nat \<Rightarrow> cptr \<Rightarrow> u8 list" where
  "cstr n p = takeWhile (\<lambda>b. b \<noteq> 0) (map p [0..<n])"

lemma cstr_0 [simp]: "cstr 0 p = []"
  by (simp add: cstr_def)

lemma cstr_Suc: "cstr (Suc n) p = (if p 0 = 0 then [] else p 0 # cstr n (\<lambda>i. p (Suc i)))"
proof -
  have "map p [0..<Suc n] = p 0 # map (\<lambda>i. p (Suc i)) [0..<n]"
    by (simp add: upt_conv_Cons map_Suc_upt [symmetric] del: map_Suc_upt upt_Suc)
  then show ?thesis by (simp add: cstr_def del: upt_Suc)
qed

lemma uint_diff_0: "uint (a :: u8) = uint b \<longleftrightarrow> a = b"
  by (simp add: word_uint_eq_iff)

lemma strncmp_0_iff: "strncmp p q n = 0 \<longleftrightarrow> cstr n p = cstr n q"
  by (induction p q n rule: strncmp.induct) (auto simp: cstr_Suc uint_diff_0 unsigned_eq_0_iff)

lemma strncmp_sym: "strncmp q p n = - strncmp p q n"
  by (induction p q n rule: strncmp.induct) auto

lemma memcmp_0_iff: "memcmp s1 s2 n = 0 \<longleftrightarrow> (\<forall>i<n. s1 i = s2 i)"
proof (induction s1 s2 n rule: memcmp.induct)
  case (1 s1 s2)
  then show ?case by simp
next
  case (2 s1 s2 n)
  show ?case
  proof (cases "s1 0 = s2 0")
    case True
    with 2 show ?thesis by (auto simp: less_Suc_eq_0_disj)
  next
    case False
    then show ?thesis by (auto simp: uint_diff_0)
  qed
qed

lemma memcmp_first_diff:
  "i < n \<Longrightarrow> (\<forall>j<i. s1 j = s2 j) \<Longrightarrow> s1 i \<noteq> s2 i \<Longrightarrow>
     memcmp s1 s2 n = uint (s1 i) - uint (s2 i)"
proof (induction s1 s2 n arbitrary: i rule: memcmp.induct)
  case (1 s1 s2)
  then show ?case by simp
next
  case (2 s1 s2 n)
  show ?case
  proof (cases i)
    case 0
    with 2 show ?thesis by simp
  next
    case (Suc k)
    with 2 have "s1 0 = s2 0" by auto
    with 2 Suc show ?thesis by simp
  qed
qed

subsection \<open>Copies\<close>

lemma strncpy_pad_at:
  "strncpy_pad i n s k = (if i \<le> k \<and> k < i + nat n then 0 else s k)"
proof (induction i n s rule: strncpy_pad.induct)
  case (1 i n s)
  show ?case
  proof (cases "0 < n")
    case True
    with 1 have "strncpy_pad (Suc i) (n - 1) (s(i := 0)) k
        = (if Suc i \<le> k \<and> k < Suc i + nat (n - 1) then 0 else (s(i := 0)) k)" by blast
    moreover have "Suc (i + nat (n - 1)) = i + nat n" using True by simp
    ultimately show ?thesis using True
      by (cases "k = i") (simp_all add: strncpy_pad.simps [of i n s] not_less_eq_eq)
  qed (auto simp: strncpy_pad.simps [of i n s])
qed

lemma strncpy_copy_at:
  "strncpy_copy i n s t = (i', n', s') \<Longrightarrow>
     strncpy_pad i' n' s' k =
       (if i \<le> k \<and> k < i + nat n then (if \<exists>j. i \<le> j \<and> j < k \<and> t j = 0 then 0 else t k) else s k)"
proof (induction i n s t rule: strncpy_copy.induct)
  case (1 i n s t)
  show ?case
  proof (cases "0 < n")
    case False
    with "1.prems" show ?thesis
      by (auto simp: strncpy_copy.simps [of i n s t] strncpy_pad_at split: if_splits)
  next
    case n: True
    show ?thesis
    proof (cases "t i = 0")
      case True
      with n "1.prems" show ?thesis
        by (cases "k = i") (auto simp: strncpy_copy.simps [of i n s t] strncpy_pad_at)
    next
      case False
      with n "1.prems" have r: "strncpy_copy (Suc i) (n - 1) (s(i := t i)) t = (i', n', s')"
        by (simp add: strncpy_copy.simps [of i n s t])
      have e: "(\<exists>j. i \<le> j \<and> j < k \<and> t j = 0) \<longleftrightarrow> (\<exists>j. Suc i \<le> j \<and> j < k \<and> t j = 0)"
        using False by (metis Suc_leD Suc_leI le_neq_implies_less)
      show ?thesis
        using "1.IH" [OF n False r] n unfolding e by (auto simp: not_less_eq_eq)
    qed
  qed
qed

lemma strncpy_at:
  "strncpy s t n k =
     (if k < nat n then (if \<exists>j<k. t j = 0 then 0 else t k) else s k)"
  using strncpy_copy_at [of 0 n s t _ _ _ k]
  by (cases "strncpy_copy 0 n s t") (simp add: strncpy_def)

definition safecopied :: "nat \<Rightarrow> nat \<Rightarrow> cptr \<Rightarrow> cptr \<Rightarrow> cptr \<Rightarrow> bool" where
  "safecopied i n s t r \<longleftrightarrow>
     (\<exists>k. i \<le> k \<and> k < i + n \<and> r k = 0 \<and> (k = i + n - 1 \<or> t k = 0) \<and>
          (\<forall>j. i \<le> j \<and> j < k \<longrightarrow> r j = t j \<and> t j \<noteq> 0)) \<and>
     (\<forall>j. j < i \<or> i + n \<le> j \<longrightarrow> r j = s j)"

lemma safestrcpy_copy_ok:
  "0 < n \<Longrightarrow> safestrcpy_copy i n s t = (i', s') \<Longrightarrow> safecopied i (nat n) s t (s'(i' := 0))"
proof (induction i n s t rule: safestrcpy_copy.induct)
  case (1 i n s t)
  show ?case
  proof (cases "0 < n - 1")
    case False
    with "1.prems" have "i' = i" "s' = s" "nat n = 1"
      by (simp_all add: safestrcpy_copy.simps [of i n s t])
    then show ?thesis by (auto simp: safecopied_def)
  next
    case n: True
    then have nn: "nat n = Suc (nat (n - 1))" by simp
    show ?thesis
    proof (cases "t i = 0")
      case True
      with n "1.prems" have "i' = Suc i" "s' = s(i := 0)"
        by (simp_all add: safestrcpy_copy.simps [of i n s t])
      then show ?thesis using n True by (auto simp: safecopied_def nn intro!: exI [of _ i])
    next
      case False
      with n "1.prems" have r: "safestrcpy_copy (Suc i) (n - 1) (s(i := t i)) t = (i', s')"
        by (simp add: safestrcpy_copy.simps [of i n s t])
      have "safecopied (Suc i) (nat (n - 1)) (s(i := t i)) t (s'(i' := 0))"
        by (rule "1.IH" [OF refl n False n r])
      then obtain k where k: "Suc i \<le> k" "k < Suc i + nat (n - 1)" "(s'(i' := 0)) k = 0"
          "k = Suc i + nat (n - 1) - 1 \<or> t k = 0"
          "\<And>j. Suc i \<le> j \<Longrightarrow> j < k \<Longrightarrow> (s'(i' := 0)) j = t j \<and> t j \<noteq> 0"
        and out: "\<And>j. j < Suc i \<or> Suc i + nat (n - 1) \<le> j \<Longrightarrow> (s'(i' := 0)) j = (s(i := t i)) j"
        unfolding safecopied_def by blast
      have "(s'(i' := 0)) j = t j \<and> t j \<noteq> 0" if "i \<le> j" "j < k" for j
        using k(5) [of j] out [of j] that False by (cases "j = i") auto
      moreover have "(s'(i' := 0)) j = s j" if "j < i \<or> i + nat n \<le> j" for j
        using out [of j] that nn by (cases "j = i") auto
      moreover have "i \<le> k" "k < i + nat n" "k = i + nat n - 1 \<or> t k = 0"
        using k nn by auto
      ultimately show ?thesis using k(3) unfolding safecopied_def by blast
    qed
  qed
qed

lemma safestrcpy_ok: "0 < n \<Longrightarrow> safecopied 0 (nat n) s t (safestrcpy s t n)"
  using safestrcpy_copy_ok [of n 0 s t]
  by (cases "safestrcpy_copy 0 n s t") (auto simp: safestrcpy_def)

lemma strlen_loop_Some:
  "\<forall>i. n \<le> i \<and> i < n + k \<longrightarrow> s i \<noteq> 0 \<Longrightarrow> s (n + k) = 0 \<Longrightarrow> strlen_loop s n = Some (n + k)"
proof (induction k arbitrary: n)
  case 0
  then show ?case by (simp add: strlen_loop.simps [of s n])
next
  case (Suc k)
  then have "s n \<noteq> 0" by simp
  moreover have "strlen_loop s (Suc n) = Some (Suc n + k)" using Suc by simp
  ultimately show ?case by (simp add: strlen_loop.simps [of s n])
qed

lemma strlen_Some: "(\<forall>i<k. s i \<noteq> 0) \<Longrightarrow> s k = 0 \<Longrightarrow> strlen s = Some k"
  using strlen_loop_Some [of 0 k s] by (simp add: strlen_def)

subsection \<open>Properties\<close>

text \<open>C32: \<open>memmove\<close> copies correctly even when source and destination overlap: each destination
  byte is the byte the source had before the call, and no byte outside the destination changes.\<close>

theorem memmove_overlap_safe:
  assumes "unat src + unat n < 2 ^ 64" "unat dst + unat n \<le> 2 ^ 64"
  shows "(\<forall>i < unat n. memmove dst src n m (dst + of_nat i) = m (src + of_nat i)) \<and>
    (\<forall>x. x \<notin> span dst (unat n) \<longrightarrow> memmove dst src n m x = m x)"
  using memmove_moved [OF assms] unat_bound [of n] by (auto simp: moved_def)

theorem memmove_overlap_safe_witness:
  "memmove 0x1008 0x1000 16 ucast (0x1008 + of_nat 15) = ucast (0x1000 + of_nat 15 :: u64) \<and>
    memmove 0x1008 0x1000 16 ucast 0x1018 = ucast (0x1018 :: u64)"
proof -
  have "(15 :: nat) < unat (16 :: u32)" "0x1018 \<notin> span 0x1008 (unat (16 :: u32))" by (simp_all add: span_def)
  moreover have "unat (0x1000 :: u64) + unat (16 :: u32) < 2 ^ 64" "unat (0x1008 :: u64) + unat (16 :: u32) \<le> 2 ^ 64"
    by simp_all
  ultimately show ?thesis using memmove_overlap_safe [of "0x1000" 16 "0x1008" ucast] by blast
qed


text \<open>C39: \<open>safestrcpy\<close> always leaves a NUL-terminated string inside its \<open>n\<close> bytes: a copy of
  the source up to its NUL or cut off at the last byte, with nothing written outside.\<close>

theorem safestrcpy_terminates:
  assumes "0 < n"
  shows "(\<exists>k < nat n. safestrcpy s t n k = 0 \<and> (k = nat n - 1 \<or> t k = 0) \<and>
      (\<forall>j < k. safestrcpy s t n j = t j \<and> t j \<noteq> 0)) \<and>
    (\<forall>j \<ge> nat n. safestrcpy s t n j = s j)"
  using safestrcpy_ok [OF assms, of s t] unfolding safecopied_def by simp

theorem safestrcpy_terminates_witness:
  "(\<exists>k < 3. safestrcpy (\<lambda>_. 7) (\<lambda>_. 5) 3 k = 0) \<and> safestrcpy (\<lambda>_. 7) (\<lambda>_. 5) 3 3 = 7"
  using safestrcpy_terminates [of 3 "\<lambda>_. 7" "\<lambda>_. 5"] by (auto intro: exI [of _ 2])

end
