(* ===== verification/Kalloc.thy ===== *)
theory Kalloc
  imports Sched Kstring
begin

text \<open>
  \<^verbatim>\<open>kernel/kalloc.c\<close>: the physical page allocator. The free pages form a linked list through
  their own first eight bytes; \<open>kmem_state\<close> adds physical memory, the head of that list and
  the address of the linker symbol \<open>end\<close> to the state. The invariant \<open>kmem_ok ps\<close> says that
  the list in memory is \<open>ps\<close>, without repetition, made of pages \<open>kfree\<close> accepts. The
  locale \<open>page_allocator\<close> is the contract the rest of the kernel relies on.
\<close>

record kmem_state = proc_state +
  mem :: mem
  freelist :: u64
  kend :: u64

definition KERNBASE :: u64 where "KERNBASE = 0x80000000"

definition PHYSTOP :: u64 where "PHYSTOP = KERNBASE + 128 * 1024 * 1024"

definition kfree :: "u64 \<Rightarrow> ('a kmem_state_scheme, unit) kern" where
  "kfree pa =
     bnd (gets kend) (\<lambda>e.
     if pa mod PGSIZE \<noteq> 0 \<or> pa < e \<or> pa \<ge> PHYSTOP then panic ''kfree'' else
     bnd (modf (\<lambda>s. s\<lparr>mem := memset pa 1 4096 (mem s)\<rparr>)) (\<lambda>_.
     bnd (acquire L_kmem) (\<lambda>_.
     bnd (modf (\<lambda>s. s\<lparr>mem := sd64 (mem s) pa (freelist s)\<rparr>)) (\<lambda>_.
     bnd (modf (\<lambda>s. s\<lparr>freelist := pa\<rparr>)) (\<lambda>_.
     release L_kmem)))))"

definition kalloc :: "('a kmem_state_scheme, u64) kern" where
  "kalloc =
     bnd (acquire L_kmem) (\<lambda>_.
     bnd (gets freelist) (\<lambda>r.
     bnd (kwhen (r \<noteq> 0) (modf (\<lambda>s. s\<lparr>freelist := ld64 (mem s) r\<rparr>))) (\<lambda>_.
     bnd (release L_kmem) (\<lambda>_.
     bnd (kwhen (r \<noteq> 0) (modf (\<lambda>s. s\<lparr>mem := memset r 5 4096 (mem s)\<rparr>))) (\<lambda>_.
     ret r)))))"

text \<open>The loop of \<open>freerange\<close> stops: \<open>kfree\<close> panics at or beyond \<open>PHYSTOP\<close>.\<close>

lemma kfree_Ret_bound: "kfree pa s = Ret u t \<Longrightarrow> pa < PHYSTOP"
  by (auto simp: kfree_def kern_simps split: if_splits)

lemma unat_PHYSTOP [simp]: "unat PHYSTOP = 2281701376"
  by (simp add: PHYSTOP_def KERNBASE_def)

function freerange_loop :: "u64 \<Rightarrow> u64 \<Rightarrow> ('a kmem_state_scheme, unit) kern" where
  "freerange_loop p pa_end s =
     (if p + PGSIZE \<le> pa_end
      then (case kfree p s of
              Ret _ t \<Rightarrow> freerange_loop (p + PGSIZE) pa_end t
            | Panic e \<Rightarrow> Panic e
            | Spin \<Rightarrow> Spin
            | Swtch t \<Rightarrow> Swtch t)
      else Ret () s)"
  by pat_completeness auto
termination
proof (relation "measure (\<lambda>(p, pa_end, s). 2281701376 + 4096 - unat p)")
  fix p pa_end :: u64 and s :: "'a kmem_state_scheme" and u t
  assume "kfree p s = Ret u t"
  then have "unat p < 2281701376" using kfree_Ret_bound [of p s u t] by (simp add: word_less_nat_alt)
  moreover from this have "unat (p + PGSIZE) = unat p + 4096"
    using unat_add_lt [of p 4096] by (simp add: PGSIZE_def)
  ultimately show "((p + PGSIZE, pa_end, t), p, pa_end, s)
      \<in> measure (\<lambda>(p, pa_end, s). 2281701376 + 4096 - unat p)" by simp
qed simp

declare freerange_loop.simps [simp del]

definition freerange :: "u64 \<Rightarrow> u64 \<Rightarrow> ('a kmem_state_scheme, unit) kern" where
  "freerange pa_start pa_end = freerange_loop (PGROUNDUP pa_start) pa_end"

definition kinit :: "('a kmem_state_scheme, unit) kern" where
  "kinit =
     bnd (initlock L_kmem ''kmem'') (\<lambda>_.
     bnd (gets kend) (\<lambda>e.
     freerange e PHYSTOP))"

subsection \<open>Frame facts\<close>

lemma mem_settle [frame_simps]: "mem (settle s) = mem s"
  by (simp add: settle_def)

lemma freelist_settle [frame_simps]: "freelist (settle s) = freelist s"
  by (simp add: settle_def)

lemma kend_settle [frame_simps]: "kend (settle s) = kend s"
  by (simp add: settle_def)

lemma mem_acquired [frame_simps]: "mem (acquired lk s) = mem s"
  by (simp add: acquired_def pushed_def)

lemma freelist_acquired [frame_simps]: "freelist (acquired lk s) = freelist s"
  by (simp add: acquired_def pushed_def)

lemma settle_mem [frame_simps]: "settle (s\<lparr>mem := f\<rparr>) = (settle s)\<lparr>mem := f\<rparr>"
  by (simp add: settle_def mach_defs intr_get_def)

lemma settle_freelist [frame_simps]: "settle (s\<lparr>freelist := f\<rparr>) = (settle s)\<lparr>freelist := f\<rparr>"
  by (simp add: settle_def mach_defs intr_get_def)

lemma acquired_mem [frame_simps]: "acquired lk (s\<lparr>mem := f\<rparr>) = (acquired lk s)\<lparr>mem := f\<rparr>"
  by (simp add: acquired_def pushed_def pushed_cpu_def mach_defs intr_get_def Let_def)

lemma restore_mem [frame_simps]: "restore s (t\<lparr>mem := f\<rparr>) = (restore s t)\<lparr>mem := f\<rparr>"
  by (simp add: restore_def)

lemma restore_freelist [frame_simps]: "restore s (t\<lparr>freelist := f\<rparr>) = (restore s t)\<lparr>freelist := f\<rparr>"
  by (simp add: restore_def)

lemma cpu_ok_mem [frame_simps]: "cpu_ok (s\<lparr>mem := f\<rparr>) = cpu_ok s"
  by (simp add: cpu_ok_def mach_defs intr_get_def)

lemma lock_free_mem [frame_simps]: "lock_free lk (s\<lparr>mem := f\<rparr>) = lock_free lk s"
  by (simp add: lock_free_def)

lemma cpu_ok_freelist [frame_simps]: "cpu_ok (s\<lparr>freelist := f\<rparr>) = cpu_ok s"
  by (simp add: cpu_ok_def mach_defs intr_get_def)

lemma lock_free_freelist [frame_simps]: "lock_free lk (s\<lparr>freelist := f\<rparr>) = lock_free lk s"
  by (simp add: lock_free_def)

lemma release_acquired_freelist [frame_simps]:
  "cpu_ok s \<Longrightarrow> lock_free lk s \<Longrightarrow>
     release lk ((acquired lk s)\<lparr>freelist := f\<rparr>) = Ret () ((settle s)\<lparr>freelist := f\<rparr>)"
  by (subst release_run [of s]) (simp_all add: frame_simps)

lemma release_acquired_mem_freelist [frame_simps]:
  "cpu_ok s \<Longrightarrow> lock_free lk s \<Longrightarrow>
     release lk ((acquired lk s)\<lparr>mem := m, freelist := f\<rparr>) = Ret () ((settle s)\<lparr>mem := m, freelist := f\<rparr>)"
  by (subst release_run [of s]) (simp_all add: frame_simps)

subsection \<open>The free list\<close>

primrec fl_rep :: "mem \<Rightarrow> u64 \<Rightarrow> u64 list \<Rightarrow> bool" where
  "fl_rep m p [] \<longleftrightarrow> p = 0"
| "fl_rep m p (q # qs) \<longleftrightarrow> p = q \<and> q \<noteq> 0 \<and> fl_rep m (ld64 m q) qs"

definition good_page :: "u64 \<Rightarrow> u64 \<Rightarrow> bool" where
  "good_page e p \<longleftrightarrow> pg_aligned p \<and> e \<le> p \<and> p < PHYSTOP"

definition kmem_ok :: "u64 list \<Rightarrow> 'a kmem_state_scheme \<Rightarrow> bool" where
  "kmem_ok ps s \<longleftrightarrow> cpu_ok s \<and> lock_free L_kmem s \<and> 0 < kend s \<and>
     fl_rep (mem s) (freelist s) ps \<and> distinct ps \<and> (\<forall>p \<in> set ps. good_page (kend s) p)"

lemma word_span8: "span p 8 \<subseteq> page p"
  by (rule span_mono) simp

lemma fl_rep_cong:
  "(\<And>q x. q \<in> set ps \<Longrightarrow> x \<in> page q \<Longrightarrow> m x = m' x) \<Longrightarrow> fl_rep m p ps = fl_rep m' p ps"
proof (induction ps arbitrary: p)
  case Nil
  then show ?case by simp
next
  case (Cons q qs)
  have "ld64 m q = ld64 m' q" by (rule ld64_cong) (use Cons.prems word_span8 in auto)
  moreover have "fl_rep m p qs = fl_rep m' p qs" for p by (rule Cons.IH) (use Cons.prems in auto)
  ultimately show ?case by simp
qed

lemma good_page_nonzero: "0 < e \<Longrightarrow> good_page e p \<Longrightarrow> p \<noteq> 0"
  by (auto simp: good_page_def)

lemma good_pages_disjoint: "good_page e p \<Longrightarrow> good_page e q \<Longrightarrow> p \<noteq> q \<Longrightarrow> page p \<inter> page q = {}"
  by (simp add: good_page_def pages_disjoint)

lemma good_page_mod: "good_page e p \<longleftrightarrow> \<not> (p mod PGSIZE \<noteq> 0 \<or> p < e \<or> p \<ge> PHYSTOP)"
  unfolding good_page_def pg_aligned_def
  by (simp only: not_less not_le de_Morgan_disj not_not simp_thms)

lemma kalloc_empty: "kmem_ok [] s \<Longrightarrow> kalloc s = Ret 0 (settle s)"
  by (simp add: kalloc_def kmem_ok_def kern_simps acquire_run frame_simps)

lemma kalloc_cons:
  "kmem_ok (p # ps) s \<Longrightarrow>
     kalloc s = Ret p ((settle s)\<lparr>freelist := ld64 (mem s) p, mem := fill p 4096 5 (mem s)\<rparr>)"
  by (auto simp: kalloc_def kmem_ok_def kern_simps acquire_run frame_simps memset_fill)

lemma kalloc_ok:
  assumes "kmem_ok (p # ps) s"
  shows "kmem_ok ps ((settle s)\<lparr>freelist := ld64 (mem s) p, mem := fill p 4096 5 (mem s)\<rparr>)"
proof -
  have "fl_rep (mem s) (ld64 (mem s) p) ps" using assms by (simp add: kmem_ok_def)
  moreover have "fl_rep (mem s) r ps = fl_rep (fill p 4096 5 (mem s)) r ps" for r
  proof (rule fl_rep_cong)
    fix q x
    assume q: "q \<in> set ps" "x \<in> page q"
    have "page q \<inter> page p = {}"
      using assms q(1) by (intro good_pages_disjoint [of "kend s"]) (auto simp: kmem_ok_def)
    with q(2) show "mem s x = fill p 4096 5 (mem s) x" by (simp add: fill_out disjoint_iff)
  qed
  ultimately show ?thesis using assms by (auto simp: kmem_ok_def frame_simps)
qed

lemma kfree_run:
  assumes "kmem_ok ps s" "good_page (kend s) p"
  shows "kfree p s = Ret () ((settle s)\<lparr>mem := sd64 (fill p 4096 1 (mem s)) p (freelist s), freelist := p\<rparr>)"
  using assms
  by (simp add: kfree_def kmem_ok_def kern_simps acquire_run good_page_mod memset_fill frame_simps)

lemma kfree_ok:
  assumes "kmem_ok ps s" "good_page (kend s) p" "p \<notin> set ps"
  shows "kmem_ok (p # ps) ((settle s)\<lparr>mem := sd64 (fill p 4096 1 (mem s)) p (freelist s), freelist := p\<rparr>)"
proof -
  let ?m = "sd64 (fill p 4096 1 (mem s)) p (freelist s)"
  have "fl_rep (mem s) r ps = fl_rep ?m r ps" for r
  proof (rule fl_rep_cong)
    fix q x
    assume q: "q \<in> set ps" "x \<in> page q"
    have "page q \<inter> page p = {}"
      using assms q(1) by (intro good_pages_disjoint [of "kend s"]) (auto simp: kmem_ok_def)
    with q(2) have "x \<notin> page p" by blast
    moreover from this have "x \<notin> span p 8" using word_span8 by blast
    ultimately show "mem s x = ?m x" by (simp add: fill_out sd64_other)
  qed
  then show ?thesis
    using assms good_page_nonzero [of "kend s" p] by (auto simp: kmem_ok_def frame_simps)
qed

lemma kfree_bad_panics: "\<not> good_page (kend s) p \<Longrightarrow> kfree p s = Panic ''kfree''"
  by (simp add: kfree_def kern_simps good_page_mod)

subsection \<open>Initialisation\<close>

definition pages_from :: "u64 \<Rightarrow> u64 list" where
  "pages_from p = map (\<lambda>i. p + of_nat (4096 * i)) [0..<(unat PHYSTOP - unat p) div 4096]"

lemma pages_from_step:
  assumes "unat p + 4096 \<le> unat PHYSTOP"
  shows "pages_from p = p # pages_from (p + PGSIZE)"
proof -
  have u: "unat (p + PGSIZE) = unat p + 4096"
    using assms unat_add_lt [of p 4096] by (simp add: PGSIZE_def)
  have "(unat PHYSTOP - unat p) div 4096 = Suc ((unat PHYSTOP - unat (p + PGSIZE)) div 4096)"
    using assms u by simp
  then show ?thesis
    unfolding pages_from_def
    by (simp add: upt_conv_Cons map_Suc_upt [symmetric] PGSIZE_def ac_simps comp_def
        del: upt_Suc map_Suc_upt unat_PHYSTOP)
qed

lemma pages_from_end: "\<not> unat p + 4096 \<le> unat PHYSTOP \<Longrightarrow> pages_from p = []"
  by (simp add: pages_from_def)

lemma step_below_PHYSTOP:
  "unat p \<le> unat PHYSTOP \<Longrightarrow> p + PGSIZE \<le> PHYSTOP \<longleftrightarrow> unat p + 4096 \<le> unat PHYSTOP"
  using unat_add_lt [of p 4096] by (simp add: PGSIZE_def word_le_nat_alt)

lemma freerange_loop_ok:
  assumes "kmem_ok ps s" "pg_aligned p" "kend s \<le> p" "unat p \<le> unat PHYSTOP" "\<forall>q \<in> set ps. q < p"
  shows "\<exists>t. freerange_loop p PHYSTOP s = Ret () t \<and> kmem_ok (rev (pages_from p) @ ps) t \<and> kend t = kend s"
  using assms
proof (induction "(unat PHYSTOP - unat p) div 4096" arbitrary: p ps s)
  case 0
  then have "\<not> unat p + 4096 \<le> unat PHYSTOP" by simp
  with 0 show ?case by (simp add: freerange_loop.simps [of p] step_below_PHYSTOP pages_from_end)
next
  case (Suc n)
  then have le: "unat p + 4096 \<le> unat PHYSTOP" by simp
  have up: "unat (p + PGSIZE) = unat p + 4096"
    using le unat_add_lt [of p 4096] by (simp add: PGSIZE_def)
  have good: "good_page (kend s) p"
    using Suc.prems le by (simp add: good_page_def word_less_nat_alt)
  have notin: "p \<notin> set ps" using Suc.prems(5) by auto
  let ?t = "(settle s)\<lparr>mem := sd64 (fill p 4096 1 (mem s)) p (freelist s), freelist := p\<rparr>"
  have run: "kfree p s = Ret () ?t" by (rule kfree_run [OF Suc.prems(1) good])
  have "\<exists>u. freerange_loop (p + PGSIZE) PHYSTOP ?t = Ret () u \<and>
      kmem_ok (rev (pages_from (p + PGSIZE)) @ p # ps) u \<and> kend u = kend ?t"
  proof (rule Suc.hyps(1))
    show "n = (unat PHYSTOP - unat (p + PGSIZE)) div 4096" using Suc.hyps(2) up by simp
    show "kmem_ok (p # ps) ?t" by (rule kfree_ok [OF Suc.prems(1) good notin])
    show "pg_aligned (p + PGSIZE)" using Suc.prems(2) by (simp add: pg_aligned_unat up)
    show "kend ?t \<le> p + PGSIZE" using Suc.prems(3) up by (simp add: frame_simps word_le_nat_alt)
    show "unat (p + PGSIZE) \<le> unat PHYSTOP" using up le by simp
    show "\<forall>q \<in> set (p # ps). q < p + PGSIZE" using Suc.prems(5) up by (auto simp: word_less_nat_alt)
  qed
  then show ?case
    using run le Suc.prems(4)
    by (simp add: freerange_loop.simps [of p] step_below_PHYSTOP pages_from_step frame_simps)
qed

lemma set_pages_from:
  assumes "0 < e" "e \<le> PHYSTOP"
  shows "set (pages_from (PGROUNDUP e)) = {p. good_page e p}"
proof -
  let ?b = "unat (PGROUNDUP e)"
  have le: "unat e \<le> 2281701376" using assms(2) by (simp add: word_le_nat_alt)
  have b: "?b = (unat e + 4095) div 4096 * 4096" using le by (intro PGROUNDUP_unat) simp
  have addr: "unat (PGROUNDUP e + of_nat (4096 * i)) = ?b + 4096 * i"
    if "i < (unat PHYSTOP - ?b) div 4096" for i
  proof -
    from that have "?b + 4096 * i \<le> 2281701376" by simp
    then show ?thesis by (intro unat_add_lt) simp
  qed
  show ?thesis
  proof (intro subset_antisym subsetI)
    fix p
    assume "p \<in> set (pages_from (PGROUNDUP e))"
    then obtain i where i: "i < (unat PHYSTOP - ?b) div 4096" "p = PGROUNDUP e + of_nat (4096 * i)"
      by (auto simp: pages_from_def simp del: of_nat_mult)
    then have u: "unat p = ?b + 4096 * i" using addr by simp
    have "unat p mod 4096 = 0" unfolding u b by simp
    moreover have "unat e \<le> ?b"
      using mod_less_divisor [of 4096 "unat e + 4095"] div_mult_mod_eq [of "unat e + 4095" 4096]
      unfolding b by linarith
    moreover have "unat p < 2281701376" using i(1) u by simp
    ultimately show "p \<in> {p. good_page e p}"
      using u by (simp add: good_page_def pg_aligned_unat word_le_nat_alt word_less_nat_alt)
  next
    fix p
    assume "p \<in> {p. good_page e p}"
    then have p: "unat p mod 4096 = 0" "unat e \<le> unat p" "unat p < 2281701376"
      by (simp_all add: good_page_def pg_aligned_unat word_le_nat_alt word_less_nat_alt)
    then obtain k where k: "unat p = 4096 * k" by auto
    define B where "B = (unat e + 4095) div 4096"
    have bB: "?b = 4096 * B" using b by (simp add: B_def)
    have "unat e + 4095 < Suc k * 4096" using p(2) k by simp
    then have Bk: "B \<le> k" unfolding B_def using less_mult_imp_div_less less_Suc_eq_le by blast
    define i where "i = k - B"
    have ui: "unat p = ?b + 4096 * i" using Bk k unfolding bB i_def by (simp add: algebra_simps)
    have "4096 * k < 4096 * 557056" using k p(3) by simp
    then have "k < 557056" by simp
    moreover have "(unat PHYSTOP - ?b) div 4096 = 557056 - B"
    proof -
      have "unat PHYSTOP - ?b = 4096 * (557056 - B)" by (simp add: bB algebra_simps)
      then show ?thesis by simp
    qed
    ultimately have ilt: "i < (unat PHYSTOP - ?b) div 4096" using Bk by (simp add: i_def)
    have "p = PGROUNDUP e + of_nat (4096 * i)"
      using addr [OF ilt] ui by (simp add: word_unat_eq_iff)
    with ilt show "p \<in> set (pages_from (PGROUNDUP e))"
      unfolding pages_from_def by auto
  qed
qed

lemma kinit_run:
  assumes "cpu_ok s" "0 < kend s" "kend s \<le> PHYSTOP" "freelist s = 0"
  shows "\<exists>t. kinit s = Ret () t \<and> kmem_ok (rev (pages_from (PGROUNDUP (kend s)))) t \<and> kend t = kend s"
proof -
  define u where "u = s\<lparr>locks := (locks s)(L_kmem := (locks s L_kmem)
      \<lparr>lk_name := ''kmem'', lk_locked := False, lk_cpu := None\<rparr>)\<rparr>"
  have init: "initlock L_kmem ''kmem'' s = Ret () u"
    by (simp add: initlock_def upd_lock_def kern_simps u_def)
  have ok: "kmem_ok [] u"
    using assms by (simp add: kmem_ok_def u_def cpu_ok_def lock_free_def mach_defs intr_get_def)
  have le: "unat (kend s) \<le> 2281701376" using assms(3) by (simp add: word_le_nat_alt)
  let ?b = "PGROUNDUP (kend s)"
  define B where "B = (unat (kend s) + 4095) div 4096"
  have b: "unat ?b = B * 4096" unfolding B_def by (rule PGROUNDUP_unat) (use le in simp)
  have "unat (kend s) + 4095 < 557057 * 4096" using le by simp
  then have "B < 557057" unfolding B_def by (rule less_mult_imp_div_less)
  then have up: "unat ?b \<le> unat PHYSTOP" by (simp add: b)
  have "unat (kend s) \<le> unat ?b"
    using mod_less_divisor [of 4096 "unat (kend s) + 4095"] div_mult_mod_eq [of "unat (kend s) + 4095" 4096]
    unfolding b B_def by linarith
  then have "kend u \<le> ?b" by (simp add: u_def word_le_nat_alt)
  from freerange_loop_ok [OF ok pg_aligned_PGROUNDUP this up] init show ?thesis
    by (auto simp: kinit_def kern_simps freerange_def u_def)
qed

subsection \<open>The contract of the allocator\<close>

text \<open>What the page tables, the process table and the pipes rely on: the allocator hands out a page
  it owns, hands it out once, and takes back any page of its range it does not own.\<close>

primrec alloc_n :: "('s, u64) kern \<Rightarrow> nat \<Rightarrow> ('s, u64 list) kern" where
  "alloc_n alloc 0 = ret []"
| "alloc_n alloc (Suc n) = bnd alloc (\<lambda>p. bnd (alloc_n alloc n) (\<lambda>ps. ret (p # ps)))"

locale page_allocator =
  fixes alloc :: "('s, u64) kern"
    and free :: "u64 \<Rightarrow> ('s, unit) kern"
    and owns :: "u64 list \<Rightarrow> 's \<Rightarrow> bool"
    and in_range :: "'s \<Rightarrow> u64 \<Rightarrow> bool"
  assumes owns_distinct: "owns ps s \<Longrightarrow> distinct ps"
    and owns_range: "owns ps s \<Longrightarrow> p \<in> set ps \<Longrightarrow> in_range s p \<and> p \<noteq> 0"
    and alloc_none: "owns [] s \<Longrightarrow> \<exists>t. alloc s = Ret 0 t \<and> owns [] t \<and> in_range t = in_range s"
    and alloc_some: "owns (p # ps) s \<Longrightarrow> \<exists>t. alloc s = Ret p t \<and> owns ps t \<and> in_range t = in_range s"
    and free_some: "owns ps s \<Longrightarrow> in_range s p \<Longrightarrow> p \<notin> set ps \<Longrightarrow>
      \<exists>t. free p s = Ret () t \<and> owns (p # ps) t \<and> in_range t = in_range s"
begin

lemma alloc_returns: "owns ps s \<Longrightarrow> \<exists>p t. alloc s = Ret p t \<and> (p = 0 \<longleftrightarrow> ps = [])"
proof (cases ps)
  case Nil
  moreover assume "owns ps s"
  ultimately show ?thesis using alloc_none by blast
next
  case (Cons p qs)
  moreover assume "owns ps s"
  ultimately show ?thesis using alloc_some owns_range by fastforce
qed

lemma alloc_n_take:
  "owns ps s \<Longrightarrow> n \<le> length ps \<Longrightarrow>
     \<exists>t. alloc_n alloc n s = Ret (take n ps) t \<and> owns (drop n ps) t"
proof (induction n arbitrary: ps s)
  case 0
  then show ?case by (simp add: kern_simps)
next
  case (Suc n)
  then obtain p qs where ps: "ps = p # qs" by (cases ps) auto
  with Suc.prems obtain t where t: "alloc s = Ret p t" "owns qs t" using alloc_some by blast
  from Suc.IH [OF t(2)] Suc.prems ps obtain u where "alloc_n alloc n t = Ret (take n qs) u" "owns (drop n qs) u"
    by auto
  with t ps show ?case by (simp add: kern_simps)
qed

lemma alloc_n_fresh:
  assumes "owns ps s" "n \<le> length ps"
  obtains qs t where "alloc_n alloc n s = Ret qs t" "length qs = n" "distinct qs" "0 \<notin> set qs"
    "owns (drop n ps) t" "set qs \<inter> set (drop n ps) = {}"
proof -
  from alloc_n_take [OF assms] obtain t where t: "alloc_n alloc n s = Ret (take n ps) t" "owns (drop n ps) t"
    by blast
  have "distinct (take n ps)" "set (take n ps) \<inter> set (drop n ps) = {}"
    using owns_distinct [OF assms(1)] by (simp_all add: set_take_disj_set_drop_if_distinct)
  moreover have "0 \<notin> set (take n ps)"
    using owns_range [OF assms(1)] in_set_takeD by fastforce
  ultimately show ?thesis using that t assms(2) by simp
qed

lemma free_then_alloc:
  "owns ps s \<Longrightarrow> in_range s p \<Longrightarrow> p \<notin> set ps \<Longrightarrow>
     \<exists>t. bnd (free p) (\<lambda>_. alloc) s = Ret p t \<and> owns ps t"
  using free_some alloc_some by (fastforce simp: kern_simps)

end

interpretation kal: page_allocator kalloc kfree kmem_ok "\<lambda>s. good_page (kend s)"
proof
  fix ps s p
  assume ok: "kmem_ok ps s"
  then show "distinct ps" by (simp add: kmem_ok_def)
  show "good_page (kend s) p \<and> p \<noteq> 0" if "p \<in> set ps"
    using ok that good_page_nonzero [of "kend s" p] by (auto simp: kmem_ok_def)
  show "\<exists>t. kfree p s = Ret () t \<and> kmem_ok (p # ps) t \<and> good_page (kend t) = good_page (kend s)"
    if "good_page (kend s) p" "p \<notin> set ps"
    using kfree_run [OF ok that(1)] kfree_ok [OF ok that] by (simp add: frame_simps)
next
  fix s
  assume "kmem_ok [] s"
  then show "\<exists>t. kalloc s = Ret 0 t \<and> kmem_ok [] t \<and> good_page (kend t) = good_page (kend s)"
    using kalloc_empty [of s] by (simp add: kmem_ok_def frame_simps)
next
  fix p ps s
  assume "kmem_ok (p # ps) s"
  then show "\<exists>t. kalloc s = Ret p t \<and> kmem_ok ps t \<and> good_page (kend t) = good_page (kend s)"
    using kalloc_cons [of p ps s] kalloc_ok [of p ps s] by (simp add: frame_simps)
qed

subsection \<open>Properties\<close>

text \<open>Sample states: one hart, no lock held, the kernel image ending sixteen pages below \<open>PHYSTOP\<close>.\<close>

definition sample_kmem :: "mem \<Rightarrow> u64 \<Rightarrow> kmem_state" where
  "sample_kmem m f =
     \<lparr>tp = 0, sstatus = 0, cur_ctx = zero_context,
      cpus = (\<lambda>_. \<lparr>c_proc = None, c_context = zero_context, c_noff = 0, c_intena = False\<rparr>),
      locks = (\<lambda>_. \<lparr>lk_locked = False, lk_name = [], lk_cpu = None\<rparr>),
      procs = (\<lambda>_. unused_proc), initproc = None, nextpid = 1,
      mem = m, freelist = f, kend = 0x87ff0000\<rparr>"

lemma sample_kmem_simps [simp]:
  "cpu_ok (sample_kmem m f)" "lock_free lk (sample_kmem m f)" "mem (sample_kmem m f) = m"
  "freelist (sample_kmem m f) = f" "kend (sample_kmem m f) = 0x87ff0000"
  by (simp_all add: sample_kmem_def cpu_ok_def lock_free_def mach_defs)

lemma ld64_zero_mem [simp]: "ld64 (\<lambda>_. 0) a = 0"
  using le_word_zeros [of 8] by (simp add: ld64_def rd_bytes_def map_replicate_const)

lemma sample_one_page: "kmem_ok [0x87fff000] (sample_kmem (\<lambda>_. 0) 0x87fff000)"
  by (simp add: kmem_ok_def good_page_def pg_aligned_def PGSIZE_def PHYSTOP_def KERNBASE_def)

lemma sample_no_page: "kmem_ok [] (sample_kmem m 0)"
  by (simp add: kmem_ok_def)

text \<open>C6: after \<open>kinit\<close> the free list holds every page between the end of the kernel image and
  \<open>PHYSTOP\<close>, each exactly once.\<close>

theorem kinit_owns_all_pages:
  assumes "cpu_ok s" "0 < kend s" "kend s \<le> PHYSTOP" "freelist s = 0"
  shows "\<exists>t ps. kinit s = Ret () t \<and> kmem_ok ps t \<and> distinct ps \<and> set ps = {p. good_page (kend s) p}"
  using kinit_run [OF assms] set_pages_from [OF assms(2,3)] kal.owns_distinct by fastforce

theorem kinit_owns_all_pages_witness:
  "\<exists>t ps. kinit (sample_kmem (\<lambda>_. 0) 0) = Ret () t \<and> kmem_ok ps t \<and> distinct ps \<and>
     set ps = {p. good_page (kend (sample_kmem (\<lambda>_. 0) 0)) p}"
  by (rule kinit_owns_all_pages) (simp_all add: PHYSTOP_def KERNBASE_def)

text \<open>C30: successive calls of \<open>kalloc\<close> return different, non-null, page-aligned pages of the
  allocator's range, none of which stays on the free list.\<close>

theorem kalloc_fresh_pages:
  assumes "kmem_ok ps s" "n \<le> length ps"
  shows "\<exists>qs t. alloc_n kalloc n s = Ret qs t \<and> length qs = n \<and> distinct qs \<and> 0 \<notin> set qs \<and>
    (\<forall>q \<in> set qs. good_page (kend s) q) \<and> kmem_ok (drop n ps) t \<and> set qs \<inter> set (drop n ps) = {}"
proof -
  obtain t where t: "alloc_n kalloc n s = Ret (take n ps) t" "kmem_ok (drop n ps) t"
    using kal.alloc_n_take [OF assms] by blast
  have "distinct ps" by (rule kal.owns_distinct [OF assms(1)])
  moreover have "good_page (kend s) q \<and> q \<noteq> 0" if "q \<in> set (take n ps)" for q
    using kal.owns_range [OF assms(1)] in_set_takeD [OF that] by blast
  ultimately show ?thesis
    using t assms(2) by (intro exI [of _ "take n ps"] exI [of _ t]) (auto simp: set_take_disj_set_drop_if_distinct)
qed

theorem kalloc_fresh_pages_witness:
  "\<exists>qs t. alloc_n kalloc 1 (sample_kmem (\<lambda>_. 0) 0x87fff000) = Ret qs t \<and> length qs = 1 \<and> distinct qs \<and> 0 \<notin> set qs \<and>
    (\<forall>q \<in> set qs. good_page (kend (sample_kmem (\<lambda>_. 0) 0x87fff000)) q) \<and> kmem_ok (drop 1 [0x87fff000]) t \<and>
    set qs \<inter> set (drop 1 [0x87fff000]) = {}"
  by (rule kalloc_fresh_pages [OF sample_one_page]) simp

text \<open>C31: a page freed with \<open>kfree\<close> is the one the next \<open>kalloc\<close> returns, the rest of the free
  list is as before, and \<open>kfree\<close> of anything that is not a page of the range panics.\<close>

theorem kfree_kalloc_roundtrip:
  assumes "kmem_ok ps s" "p \<notin> set ps"
  shows "if good_page (kend s) p
    then \<exists>t. bnd (kfree p) (\<lambda>_. kalloc) s = Ret p t \<and> kmem_ok ps t
    else bnd (kfree p) (\<lambda>_. kalloc) s = Panic ''kfree''"
  using kal.free_then_alloc [OF assms(1) _ assms(2)] kfree_bad_panics [of s p] by (simp add: kern_simps)

theorem kfree_kalloc_roundtrip_witness:
  "if good_page (kend (sample_kmem (\<lambda>_. 0) 0)) 0x87fff000
    then \<exists>t. bnd (kfree 0x87fff000) (\<lambda>_. kalloc) (sample_kmem (\<lambda>_. 0) 0) = Ret 0x87fff000 t \<and> kmem_ok [] t
    else bnd (kfree 0x87fff000) (\<lambda>_. kalloc) (sample_kmem (\<lambda>_. 0) 0) = Panic ''kfree''"
  by (rule kfree_kalloc_roundtrip [OF sample_no_page]) simp

end
