(* ===== verification/Vm.thy ===== *)
theory Vm
  imports Kalloc
begin

text \<open>
  \<^verbatim>\<open>kernel/vm.c\<close> and the Sv39 macros of \<^verbatim>\<open>kernel/riscv.h\<close>: the code that walks,
  builds, copies and frees page tables held in physical memory, and copies bytes between the
  kernel and user address spaces. The linker symbols \<open>etext\<close> and \<open>trampoline\<close> are arguments of
  the routines that use them. A kernel buffer that bytes are copied from or into is a byte list.
\<close>

subsection \<open>Page-table entries and virtual addresses (riscv.h)\<close>

definition PTE_V :: u64 where "PTE_V = push_bit 0 1"
definition PTE_R :: u64 where "PTE_R = push_bit 1 1"
definition PTE_W :: u64 where "PTE_W = push_bit 2 1"
definition PTE_X :: u64 where "PTE_X = push_bit 3 1"
definition PTE_U :: u64 where "PTE_U = push_bit 4 1"

definition PA2PTE :: "u64 \<Rightarrow> u64" where "PA2PTE pa = push_bit 10 (drop_bit 12 pa)"

definition PTE2PA :: "u64 \<Rightarrow> u64" where "PTE2PA pte = push_bit 12 (drop_bit 10 pte)"

definition PTE_FLAGS :: "u64 \<Rightarrow> u64" where "PTE_FLAGS pte = pte AND 0x3FF"

definition PXSHIFT :: "nat \<Rightarrow> nat" where "PXSHIFT level = 12 + 9 * level"

definition PX :: "nat \<Rightarrow> u64 \<Rightarrow> u64" where "PX level va = drop_bit (PXSHIFT level) va AND 0x1FF"

definition MAXVA :: u64 where "MAXVA = push_bit (9 + 9 + 9 + 12 - 1) 1"

definition TRAMPOLINE :: u64 where "TRAMPOLINE = MAXVA - PGSIZE"

definition TRAPFRAME :: u64 where "TRAPFRAME = TRAMPOLINE - PGSIZE"

subsection \<open>Walking a page table\<close>

text \<open>\<open>&pagetable[PX(level, va)]\<close>.\<close>

definition pte_addr :: "u64 \<Rightarrow> nat \<Rightarrow> u64 \<Rightarrow> u64" where
  "pte_addr pagetable level va = pagetable + 8 * PX level va"

fun walk_loop :: "nat \<Rightarrow> u64 \<Rightarrow> u64 \<Rightarrow> bool \<Rightarrow> ('a kmem_state_scheme, u64) kern" where
  "walk_loop 0 pagetable va alloc = ret (pte_addr pagetable 0 va)"
| "walk_loop (Suc l) pagetable va alloc =
     bnd (gets (\<lambda>s. ld64 (mem s) (pte_addr pagetable (Suc l) va))) (\<lambda>pte.
     if pte AND PTE_V \<noteq> 0 then walk_loop l (PTE2PA pte) va alloc
     else if \<not> alloc then ret 0
     else
       bnd kalloc (\<lambda>new.
       if new = 0 then ret 0 else
       bnd (modf (\<lambda>s. s\<lparr>mem := memset new 0 4096 (mem s)\<rparr>)) (\<lambda>_.
       bnd (modf (\<lambda>s. s\<lparr>mem := sd64 (mem s) (pte_addr pagetable (Suc l) va) (PA2PTE new OR PTE_V)\<rparr>)) (\<lambda>_.
       walk_loop l new va alloc))))"

definition walk :: "u64 \<Rightarrow> u64 \<Rightarrow> bool \<Rightarrow> ('a kmem_state_scheme, u64) kern" where
  "walk pagetable va alloc =
     (if va \<ge> MAXVA then panic ''walk'' else walk_loop 2 pagetable va alloc)"

definition walkaddr :: "u64 \<Rightarrow> u64 \<Rightarrow> ('a kmem_state_scheme, u64) kern" where
  "walkaddr pagetable va =
     (if va \<ge> MAXVA then ret 0 else
      bnd (walk pagetable va False) (\<lambda>pte.
      if pte = 0 then ret 0 else
      bnd (gets (\<lambda>s. ld64 (mem s) pte)) (\<lambda>e.
      if e AND PTE_V = 0 then ret 0
      else if e AND PTE_U = 0 then ret 0
      else ret (PTE2PA e))))"

lemma walk_Ret_bound: "walk pagetable va alloc s = Ret a t \<Longrightarrow> va < MAXVA"
  by (auto simp: walk_def panic_def split: if_splits)

lemma unat_MAXVA [simp]: "unat MAXVA = 274877906944"
  by (simp add: MAXVA_def)

lemma page_step_measure:
  assumes "va < MAXVA"
  shows "274877911040 - unat (va + PGSIZE) < 274877911040 - unat va"
proof -
  have "unat va < 274877906944" using assms by (simp add: word_less_nat_alt)
  moreover from this have "unat (va + PGSIZE) = unat va + 4096"
    using unat_add_lt [of va 4096] by (simp add: PGSIZE_def)
  ultimately show ?thesis by simp
qed

subsection \<open>Installing and removing mappings\<close>

text \<open>The loop of \<open>mappages\<close> stops: \<open>walk\<close> panics at or beyond \<open>MAXVA\<close>.\<close>

function mappages_loop :: "u64 \<Rightarrow> u64 \<Rightarrow> u64 \<Rightarrow> u64 \<Rightarrow> u64 \<Rightarrow> ('a kmem_state_scheme, int) kern" where
  "mappages_loop pagetable a lst pa perm s =
     bnd (walk pagetable a True) (\<lambda>pte t.
       if pte = 0 then Ret (-1) t
       else if ld64 (mem t) pte AND PTE_V \<noteq> 0 then Panic ''mappages: remap''
       else let u = t\<lparr>mem := sd64 (mem t) pte (PA2PTE pa OR perm OR PTE_V)\<rparr> in
         if a = lst then Ret 0 u
         else mappages_loop pagetable (a + PGSIZE) lst (pa + PGSIZE) perm u) s"
  by pat_completeness auto
termination
  by (relation "measure (\<lambda>(_, a, _). 274877911040 - unat a)")
     (auto simp: page_step_measure dest!: walk_Ret_bound simp del: unat_PGSIZE)

declare mappages_loop.simps [simp del]

definition mappages :: "u64 \<Rightarrow> u64 \<Rightarrow> u64 \<Rightarrow> u64 \<Rightarrow> u64 \<Rightarrow> ('a kmem_state_scheme, int) kern" where
  "mappages pagetable va sz pa perm =
     (if va mod PGSIZE \<noteq> 0 then panic ''mappages: va not aligned''
      else if sz mod PGSIZE \<noteq> 0 then panic ''mappages: size not aligned''
      else if sz = 0 then panic ''mappages: size''
      else mappages_loop pagetable va (va + sz - PGSIZE) pa perm)"

definition kvmmap :: "u64 \<Rightarrow> u64 \<Rightarrow> u64 \<Rightarrow> u64 \<Rightarrow> u64 \<Rightarrow> ('a kmem_state_scheme, unit) kern" where
  "kvmmap kpgtbl va pa sz perm =
     bnd (mappages kpgtbl va sz pa perm) (\<lambda>r. if r \<noteq> 0 then panic ''kvmmap'' else ret ())"

function uvmunmap_loop :: "u64 \<Rightarrow> u64 \<Rightarrow> u64 \<Rightarrow> bool \<Rightarrow> ('a kmem_state_scheme, unit) kern" where
  "uvmunmap_loop pagetable a lim do_free s =
     (if a < lim then
        bnd (walk pagetable a False) (\<lambda>pte t.
          if pte = 0 then Panic ''uvmunmap: walk''
          else let e = ld64 (mem t) pte in
            if e AND PTE_V = 0 then Panic ''uvmunmap: not mapped''
            else if PTE_FLAGS e = PTE_V then Panic ''uvmunmap: not a leaf''
            else bnd (kwhen do_free (kfree (PTE2PA e))) (\<lambda>_ u.
              uvmunmap_loop pagetable (a + PGSIZE) lim do_free (u\<lparr>mem := sd64 (mem u) pte 0\<rparr>)) t) s
      else Ret () s)"
  by pat_completeness auto
termination
  by (relation "measure (\<lambda>(_, a, _). 274877911040 - unat a)")
     (auto simp: page_step_measure dest!: walk_Ret_bound simp del: unat_PGSIZE)

declare uvmunmap_loop.simps [simp del]

definition uvmunmap :: "u64 \<Rightarrow> u64 \<Rightarrow> u64 \<Rightarrow> bool \<Rightarrow> ('a kmem_state_scheme, unit) kern" where
  "uvmunmap pagetable va npages do_free =
     (if va mod PGSIZE \<noteq> 0 then panic ''uvmunmap: not aligned''
      else uvmunmap_loop pagetable va (va + npages * PGSIZE) do_free)"

definition uvmcreate :: "('a kmem_state_scheme, u64) kern" where
  "uvmcreate =
     bnd kalloc (\<lambda>pagetable.
     if pagetable = 0 then ret 0 else
     bnd (modf (\<lambda>s. s\<lparr>mem := memset pagetable 0 4096 (mem s)\<rparr>)) (\<lambda>_.
     ret pagetable))"

text \<open>\<open>src\<close> is the kernel buffer of \<open>sz\<close> bytes; a failed \<open>kalloc\<close> is not checked by the code.\<close>

definition uvmfirst :: "u64 \<Rightarrow> u8 list \<Rightarrow> ('a kmem_state_scheme, unit) kern" where
  "uvmfirst pagetable src =
     (if length src \<ge> unat PGSIZE then panic ''uvmfirst: more than a page'' else
      bnd kalloc (\<lambda>pa.
      bnd (modf (\<lambda>s. s\<lparr>mem := memset pa 0 4096 (mem s)\<rparr>)) (\<lambda>_.
      bnd (mappages pagetable 0 PGSIZE pa (PTE_W OR PTE_R OR PTE_X OR PTE_U)) (\<lambda>_.
      modf (\<lambda>s. s\<lparr>mem := wr_bytes (mem s) pa src\<rparr>)))))"

subsection \<open>Growing, shrinking and freeing a user address space\<close>

definition uvmdealloc :: "u64 \<Rightarrow> u64 \<Rightarrow> u64 \<Rightarrow> ('a kmem_state_scheme, u64) kern" where
  "uvmdealloc pagetable oldsz newsz =
     (if newsz \<ge> oldsz then ret oldsz else
      bnd (if PGROUNDUP newsz < PGROUNDUP oldsz
           then let npages = ucast ((PGROUNDUP oldsz - PGROUNDUP newsz) div PGSIZE) :: u32
                in uvmunmap pagetable (PGROUNDUP newsz) (scast npages) True
           else ret ()) (\<lambda>_.
      ret newsz))"

lemma mappages_Ret_bound:
  assumes "mappages pagetable va sz pa perm s = Ret r t"
  shows "va < MAXVA"
proof -
  from assms have "mappages_loop pagetable va (va + sz - PGSIZE) pa perm s = Ret r t"
    by (simp add: mappages_def panic_def split: if_splits)
  then show ?thesis
    by (subst (asm) mappages_loop.simps) (auto simp: bnd_Ret_iff dest: walk_Ret_bound)
qed

function uvmalloc_loop :: "u64 \<Rightarrow> u64 \<Rightarrow> u64 \<Rightarrow> u64 \<Rightarrow> u64 \<Rightarrow> ('a kmem_state_scheme, u64) kern" where
  "uvmalloc_loop pagetable oldsz newsz xperm a s =
     (if a < newsz then
        bnd kalloc (\<lambda>pg t.
          if pg = 0 then bnd (uvmdealloc pagetable a oldsz) (\<lambda>_. ret 0) t
          else bnd (mappages pagetable a PGSIZE pg (PTE_R OR PTE_U OR xperm)) (\<lambda>r u.
            if r \<noteq> 0 then bnd (kfree pg) (\<lambda>_. bnd (uvmdealloc pagetable a oldsz) (\<lambda>_. ret 0)) u
            else uvmalloc_loop pagetable oldsz newsz xperm (a + PGSIZE) u)
            (t\<lparr>mem := memset pg 0 4096 (mem t)\<rparr>)) s
      else Ret newsz s)"
  by pat_completeness auto
termination
  by (relation "measure (\<lambda>(_, _, _, _, a, _). 274877911040 - unat a)")
     (auto simp: page_step_measure dest!: mappages_Ret_bound simp del: unat_PGSIZE)

declare uvmalloc_loop.simps [simp del]

definition uvmalloc :: "u64 \<Rightarrow> u64 \<Rightarrow> u64 \<Rightarrow> u64 \<Rightarrow> ('a kmem_state_scheme, u64) kern" where
  "uvmalloc pagetable oldsz newsz xperm =
     (if newsz < oldsz then ret oldsz
      else uvmalloc_loop pagetable (PGROUNDUP oldsz) newsz xperm (PGROUNDUP oldsz))"

text \<open>\<open>freewalk\<close> recurses into every lower-level table. A well-formed table is three levels deep; the
  depth argument only makes the recursion well-founded. On a table that reaches itself the code does
  not return (its stack runs out), which is the outcome \<open>Spin\<close>.\<close>

fun freewalk_depth :: "nat \<Rightarrow> u64 \<Rightarrow> ('a kmem_state_scheme, unit) kern" where
  "freewalk_depth 0 pagetable = (\<lambda>_. Spin)"
| "freewalk_depth (Suc d) pagetable =
     bnd (for_each [0..<512] (\<lambda>i.
        bnd (gets (\<lambda>s. ld64 (mem s) (pagetable + 8 * of_nat i))) (\<lambda>pte.
        if pte AND PTE_V \<noteq> 0 \<and> pte AND (PTE_R OR PTE_W OR PTE_X) = 0 then
          bnd (freewalk_depth d (PTE2PA pte)) (\<lambda>_.
          modf (\<lambda>s. s\<lparr>mem := sd64 (mem s) (pagetable + 8 * of_nat i) 0\<rparr>))
        else if pte AND PTE_V \<noteq> 0 then panic ''freewalk: leaf''
        else ret ()))) (\<lambda>_.
     kfree pagetable)"

definition freewalk :: "u64 \<Rightarrow> ('a kmem_state_scheme, unit) kern" where
  "freewalk pagetable = freewalk_depth 64 pagetable"

definition uvmfree :: "u64 \<Rightarrow> u64 \<Rightarrow> ('a kmem_state_scheme, unit) kern" where
  "uvmfree pagetable sz =
     bnd (kwhen (sz > 0) (uvmunmap pagetable 0 (PGROUNDUP sz div PGSIZE) True)) (\<lambda>_.
     freewalk pagetable)"

function uvmcopy_loop :: "u64 \<Rightarrow> u64 \<Rightarrow> u64 \<Rightarrow> u64 \<Rightarrow> ('a kmem_state_scheme, int) kern" where
  "uvmcopy_loop old new sz i s =
     (if i < sz then
        bnd (walk old i False) (\<lambda>pte t.
          if pte = 0 then Panic ''uvmcopy: pte should exist''
          else let e = ld64 (mem t) pte in
            if e AND PTE_V = 0 then Panic ''uvmcopy: page not present''
            else bnd kalloc (\<lambda>pg u.
              if pg = 0 then bnd (uvmunmap new 0 (i div PGSIZE) True) (\<lambda>_. ret (-1)) u
              else bnd (mappages new i PGSIZE pg (PTE_FLAGS e)) (\<lambda>r v.
                if r \<noteq> 0 then
                  bnd (kfree pg) (\<lambda>_. bnd (uvmunmap new 0 (i div PGSIZE) True) (\<lambda>_. ret (-1))) v
                else uvmcopy_loop old new sz (i + PGSIZE) v)
                (u\<lparr>mem := memmove pg (PTE2PA e) 4096 (mem u)\<rparr>)) t) s
      else Ret 0 s)"
  by pat_completeness auto
termination
  by (relation "measure (\<lambda>(_, _, _, i, _). 274877911040 - unat i)")
     (auto simp: page_step_measure dest!: walk_Ret_bound simp del: unat_PGSIZE)

declare uvmcopy_loop.simps [simp del]

definition uvmcopy :: "u64 \<Rightarrow> u64 \<Rightarrow> u64 \<Rightarrow> ('a kmem_state_scheme, int) kern" where
  "uvmcopy old new sz = uvmcopy_loop old new sz 0"

definition uvmclear :: "u64 \<Rightarrow> u64 \<Rightarrow> ('a kmem_state_scheme, unit) kern" where
  "uvmclear pagetable va =
     bnd (walk pagetable va False) (\<lambda>pte.
     if pte = 0 then panic ''uvmclear'' else
     modf (\<lambda>s. s\<lparr>mem := sd64 (mem s) pte (ld64 (mem s) pte AND NOT PTE_U)\<rparr>))"

subsection \<open>Copying between kernel and user memory\<close>

text \<open>The number of bytes a pass of the copy loops moves: up to the end of the page of \<open>va\<close>, and at
  most \<open>len\<close>.\<close>

definition copy_chunk :: "u64 \<Rightarrow> nat \<Rightarrow> nat" where
  "copy_chunk va len = min (unat (PGSIZE - (va - PGROUNDDOWN va))) len"

lemma page_offset: "unat (va - PGROUNDDOWN va) = unat va mod 4096"
proof -
  have "unat (PGROUNDDOWN va) \<le> unat va" by (simp add: PGROUNDDOWN_unat)
  then have "unat (va - PGROUNDDOWN va) = unat va - unat (PGROUNDDOWN va)"
    by (simp add: unat_sub word_le_nat_alt)
  then show ?thesis by (simp add: PGROUNDDOWN_unat minus_div_mult_eq_mod)
qed

lemma copy_chunk_eq: "copy_chunk va len = min (4096 - unat va mod 4096) len"
proof -
  have "va - PGROUNDDOWN va \<le> PGSIZE" by (simp add: word_le_nat_alt page_offset)
  then show ?thesis by (simp add: copy_chunk_def unat_sub page_offset)
qed

lemma copy_chunk_pos: "0 < len \<Longrightarrow> 0 < copy_chunk va len"
  by (simp add: copy_chunk_eq)

function copyout :: "u64 \<Rightarrow> u64 \<Rightarrow> u8 list \<Rightarrow> ('a kmem_state_scheme, int) kern" where
  "copyout pagetable dstva src s =
     (if 0 < length src then
        let va0 = PGROUNDDOWN dstva in
        if va0 \<ge> MAXVA then Ret (-1) s
        else bnd (walk pagetable va0 False) (\<lambda>pte t.
          if pte = 0 \<or> ld64 (mem t) pte AND PTE_V = 0 \<or> ld64 (mem t) pte AND PTE_U = 0 \<or>
             ld64 (mem t) pte AND PTE_W = 0 then Ret (-1) t
          else
            let pa0 = PTE2PA (ld64 (mem t) pte);
                n = copy_chunk dstva (length src)
            in copyout pagetable (va0 + PGSIZE) (drop n src)
                 (t\<lparr>mem := wr_bytes (mem t) (pa0 + (dstva - va0)) (take n src)\<rparr>)) s
      else Ret 0 s)"
  by pat_completeness auto
termination
  by (relation "measure (\<lambda>(_, _, src, _). length src)") (auto simp: copy_chunk_pos)

declare copyout.simps [simp del]

text \<open>\<open>copyin\<close> and \<open>copyinstr\<close> give, with their result, the bytes they stored at \<open>dst\<close>.\<close>

function copyin :: "u64 \<Rightarrow> u64 \<Rightarrow> nat \<Rightarrow> ('a kmem_state_scheme, int \<times> u8 list) kern" where
  "copyin pagetable srcva len s =
     (if 0 < len then
        let va0 = PGROUNDDOWN srcva in
        bnd (walkaddr pagetable va0) (\<lambda>pa0 t.
          if pa0 = 0 then Ret (-1, []) t
          else
            let n = copy_chunk srcva len;
                bs = rd_bytes (mem t) (pa0 + (srcva - va0)) n
            in bnd (copyin pagetable (va0 + PGSIZE) (len - n)) (\<lambda>(r, cs). ret (r, bs @ cs)) t) s
      else Ret (0, []) s)"
  by pat_completeness auto
termination
  by (relation "measure (\<lambda>(_, _, len, _). len)") (auto simp: copy_chunk_pos)

declare copyin.simps [simp del]

text \<open>The inner loop: copy until a NUL, which is stored too and reported.\<close>

primrec copyinstr_run :: "u8 list \<Rightarrow> u8 list \<times> bool" where
  "copyinstr_run [] = ([], False)"
| "copyinstr_run (b # bs) =
     (if b = 0 then ([0], True) else (case copyinstr_run bs of (cs, got_null) \<Rightarrow> (b # cs, got_null)))"

function copyinstr :: "u64 \<Rightarrow> u64 \<Rightarrow> nat \<Rightarrow> ('a kmem_state_scheme, int \<times> u8 list) kern" where
  "copyinstr pagetable srcva max_len s =
     (if 0 < max_len then
        let va0 = PGROUNDDOWN srcva in
        bnd (walkaddr pagetable va0) (\<lambda>pa0 t.
          if pa0 = 0 then Ret (-1, []) t
          else
            let n = copy_chunk srcva max_len;
                (bs, got_null) = copyinstr_run (rd_bytes (mem t) (pa0 + (srcva - va0)) n)
            in if got_null then Ret (0, bs) t
               else bnd (copyinstr pagetable (va0 + PGSIZE) (max_len - n)) (\<lambda>(r, cs). ret (r, bs @ cs)) t) s
      else Ret (-1, []) s)"
  by pat_completeness auto
termination
  by (relation "measure (\<lambda>(_, _, len, _). len)") (auto simp: copy_chunk_pos)

declare copyinstr.simps [simp del]

subsection \<open>The kernel's own page table\<close>

definition UART0 :: u64 where "UART0 = 0x10000000"
definition VIRTIO0 :: u64 where "VIRTIO0 = 0x10001000"
definition PLIC :: u64 where "PLIC = 0x0c000000"

definition proc_mapstacks :: "u64 \<Rightarrow> ('a kmem_state_scheme, unit) kern" where
  "proc_mapstacks kpgtbl =
     for_each [0..<NPROC] (\<lambda>p.
       bnd kalloc (\<lambda>pa.
       if pa = 0 then panic ''kalloc''
       else kvmmap kpgtbl (KSTACK p) pa PGSIZE (PTE_R OR PTE_W)))"

definition kvmmake :: "u64 \<Rightarrow> u64 \<Rightarrow> ('a kmem_state_scheme, u64) kern" where
  "kvmmake etext trampoline =
     bnd kalloc (\<lambda>kpgtbl.
     bnd (modf (\<lambda>s. s\<lparr>mem := memset kpgtbl 0 4096 (mem s)\<rparr>)) (\<lambda>_.
     bnd (kvmmap kpgtbl UART0 UART0 PGSIZE (PTE_R OR PTE_W)) (\<lambda>_.
     bnd (kvmmap kpgtbl VIRTIO0 VIRTIO0 PGSIZE (PTE_R OR PTE_W)) (\<lambda>_.
     bnd (kvmmap kpgtbl PLIC PLIC 0x4000000 (PTE_R OR PTE_W)) (\<lambda>_.
     bnd (kvmmap kpgtbl KERNBASE KERNBASE (etext - KERNBASE) (PTE_R OR PTE_X)) (\<lambda>_.
     bnd (kvmmap kpgtbl etext etext (PHYSTOP - etext) (PTE_R OR PTE_W)) (\<lambda>_.
     bnd (kvmmap kpgtbl TRAMPOLINE trampoline PGSIZE (PTE_R OR PTE_X)) (\<lambda>_.
     bnd (proc_mapstacks kpgtbl) (\<lambda>_.
     ret kpgtbl)))))))))"

end
