(* ===== verification/Page_Table.thy ===== *)
theory Page_Table
  imports Vm
begin

text \<open>
  What the routines of \<^verbatim>\<open>kernel/vm.c\<close> do to the mapping a page table stands for. A table in
  memory is described by the map \<open>N\<close> of its nodes: \<open>N (l, k)\<close> is the page that holds the
  level-\<open>l\<close> table for the \<open>k\<close>-th region of that level.  \<open>vmap\<close> reads the leaf entries: the
  abstract mapping from virtual page numbers to entries.
\<close>

subsection \<open>Entries\<close>

lemma and_bit_zero: "(e :: 'a::len word) AND push_bit n 1 = 0 \<longleftrightarrow> \<not> bit e n"
proof
  assume z: "e AND push_bit n 1 = 0"
  show "\<not> bit e n"
  proof
    assume b: "bit e n"
    then have "n < LENGTH('a)" by (rule bit_imp_le_length)
    with b have "bit (e AND push_bit n 1) n" by (simp add: bit_simps)
    with z show False by simp
  qed
next
  assume nb: "\<not> bit e n"
  show "e AND push_bit n 1 = 0"
    by (rule bit_word_eqI) (use nb in \<open>auto simp: bit_simps\<close>)
qed

lemma PTE_V_bit: "e AND PTE_V = 0 \<longleftrightarrow> \<not> bit e 0"
  unfolding PTE_V_def by (rule and_bit_zero)

lemma PTE_U_bit: "e AND PTE_U = 0 \<longleftrightarrow> \<not> bit e 4"
  unfolding PTE_U_def by (rule and_bit_zero)

lemma PTE_W_bit: "e AND PTE_W = 0 \<longleftrightarrow> \<not> bit e 2"
  unfolding PTE_W_def by (rule and_bit_zero)

definition flags_ok :: "u64 \<Rightarrow> bool" where
  "flags_ok f \<longleftrightarrow> f AND NOT 0x3FF = 0"

lemma mask10: "(0x3FF :: u64) = mask 10"
  by (simp add: mask_eq_exp_minus_1)

lemma flags_ok_bit: "flags_ok f \<longleftrightarrow> (\<forall>n \<ge> 10. \<not> bit f n)"
proof -
  have "flags_ok f \<longleftrightarrow> (\<forall>n<64. \<not> (bit f n \<and> \<not> n < 10))"
    unfolding flags_ok_def mask10 by (auto simp: bit_eq_iff bit_simps)
  also have "\<dots> \<longleftrightarrow> (\<forall>n \<ge> 10. \<not> bit f n)"
    using bit_imp_le_length [of f] by (simp, meson not_less)
  finally show ?thesis .
qed

lemma pg_aligned_bit: "pg_aligned p \<longleftrightarrow> (\<forall>n<12. \<not> bit p n)"
proof -
  have "p mod PGSIZE = take_bit 12 p" by (simp add: PGSIZE_def take_bit_eq_mod)
  then have "pg_aligned p \<longleftrightarrow> take_bit 12 p = 0" by (simp add: pg_aligned_def)
  also have "\<dots> \<longleftrightarrow> (\<forall>n<12. \<not> bit p n)"
    by (auto simp: bit_eq_iff bit_simps)
  finally show ?thesis .
qed

lemma PTE2PA_PA2PTE:
  assumes "pg_aligned pa" "flags_ok f"
  shows "PTE2PA (PA2PTE pa OR f) = pa"
proof (rule bit_word_eqI)
  fix n
  assume "n < LENGTH(64)"
  then show "bit (PTE2PA (PA2PTE pa OR f)) n = bit pa n"
    using assms by (cases "n < 12") (auto simp: PTE2PA_def PA2PTE_def bit_simps pg_aligned_bit flags_ok_bit)
qed

lemma PTE_FLAGS_PA2PTE:
  assumes "flags_ok f"
  shows "PTE_FLAGS (PA2PTE pa OR f) = f"
proof (rule bit_word_eqI)
  fix n
  assume "n < LENGTH(64)"
  then show "bit (PTE_FLAGS (PA2PTE pa OR f)) n = bit f n"
    using assms unfolding PTE_FLAGS_def mask10
    by (cases "n < 10") (auto simp: PA2PTE_def bit_simps flags_ok_bit)
qed

lemma bit_PA2PTE: "n < 10 \<Longrightarrow> bit (PA2PTE pa OR f) n = bit f n"
  by (auto simp: PA2PTE_def bit_simps)

lemma bit_PTE_V [simp]: "bit PTE_V n \<longleftrightarrow> n = 0"
  by (auto simp: PTE_V_def bit_simps)

lemma flags_ok_PTE_V [simp]: "flags_ok PTE_V"
  by (simp add: flags_ok_bit)

lemma flags_ok_or [simp]: "flags_ok (f OR g) \<longleftrightarrow> flags_ok f \<and> flags_ok g"
  by (auto simp: flags_ok_bit bit_simps)

lemma flags_ok_PTE_FLAGS [simp]: "flags_ok (PTE_FLAGS e)"
  unfolding PTE_FLAGS_def mask10 by (simp add: flags_ok_bit bit_simps)

lemma pg_aligned_PTE2PA [simp]: "pg_aligned (PTE2PA e)"
  by (simp add: pg_aligned_bit PTE2PA_def bit_simps)

lemma flags_ok_perms [simp]: "flags_ok PTE_R" "flags_ok PTE_W" "flags_ok PTE_X" "flags_ok PTE_U" "flags_ok 0"
  by (simp_all add: flags_ok_def PTE_R_def PTE_W_def PTE_X_def PTE_U_def)

subsection \<open>Virtual page numbers\<close>

definition vpn :: "u64 \<Rightarrow> nat" where "vpn va = unat va div 4096"

definition slot :: "u64 \<Rightarrow> nat \<Rightarrow> u64" where "slot p i = p + 8 * of_nat i"

lemma PX_vpn: "PX l va = of_nat (vpn va div 512 ^ l mod 512)" if "l \<le> 2"
proof -
  have "drop_bit (PXSHIFT l) va = of_nat (unat (drop_bit (PXSHIFT l) va))" by simp
  also have "unat (drop_bit (PXSHIFT l) va) = unat va div 2 ^ (12 + 9 * l)"
    unfolding unsigned_drop_bit_eq PXSHIFT_def
    by (subst take_bit_nat_eq_self) (simp_all add: drop_bit_eq_div unat_bound [where 'a = 64, simplified])
  also have "\<dots> = vpn va div 512 ^ l"
    by (simp add: vpn_def div_mult2_eq [symmetric] power_add power_mult)
  finally have d: "drop_bit (PXSHIFT l) va = of_nat (vpn va div 512 ^ l)" .
  have "PX l va = take_bit 9 (drop_bit (PXSHIFT l) va)"
    by (simp add: PX_def take_bit_eq_mask mask_eq_exp_minus_1)
  also have "\<dots> = of_nat (take_bit 9 (vpn va div 512 ^ l))"
    unfolding d by (rule take_bit_of_nat)
  finally show ?thesis by (simp add: take_bit_eq_mod)
qed

lemma pte_addr_slot: "l \<le> 2 \<Longrightarrow> pte_addr pt l va = slot pt (vpn va div 512 ^ l mod 512)"
  by (simp add: pte_addr_def slot_def PX_vpn)

lemma vpn_bound: "va < MAXVA \<Longrightarrow> vpn va < 512 ^ 3"
proof -
  assume "va < MAXVA"
  then have "unat va < 67108864 * 4096" by (simp add: word_less_nat_alt)
  then have "vpn va < 67108864" unfolding vpn_def by (rule less_mult_imp_div_less)
  then show ?thesis by simp
qed

subsection \<open>The nodes of a table\<close>

type_synonym nodes = "nat \<times> nat \<Rightarrow> u64 option"

text \<open>The interior entries point to the next level's nodes and nothing else, every node hangs off
  the root, and no page serves as two nodes.\<close>

definition pt_ok :: "nodes \<Rightarrow> u64 \<Rightarrow> mem \<Rightarrow> bool" where
  "pt_ok N root m \<longleftrightarrow>
     N (2, 0) = Some root \<and>
     (\<forall>l k p. N (l, k) = Some p \<longrightarrow> pg_aligned p \<and> p \<noteq> 0 \<and> l \<le> 2 \<and> (l = 2 \<longrightarrow> k = 0)) \<and>
     (\<forall>l k. l < 2 \<longrightarrow> N (l, k) \<noteq> None \<longrightarrow> N (Suc l, k div 512) \<noteq> None) \<and>
     (\<forall>x y p. N x = Some p \<longrightarrow> N y = Some p \<longrightarrow> x = y) \<and>
     (\<forall>l k p i. N (Suc l, k) = Some p \<longrightarrow> i < 512 \<longrightarrow>
        (case N (l, 512 * k + i) of
           None \<Rightarrow> \<not> bit (ld64 m (slot p i)) 0
         | Some q \<Rightarrow> ld64 m (slot p i) = PA2PTE q OR PTE_V))"

definition leaf_slot :: "nodes \<Rightarrow> nat \<Rightarrow> u64" where
  "leaf_slot N v = (case N (0, v div 512) of None \<Rightarrow> 0 | Some p \<Rightarrow> slot p (v mod 512))"

definition vmap :: "nodes \<Rightarrow> mem \<Rightarrow> nat \<Rightarrow> u64 option" where
  "vmap N m v = (case N (0, v div 512) of
      None \<Rightarrow> None
    | Some p \<Rightarrow> let e = ld64 m (slot p (v mod 512)) in if bit e 0 then Some e else None)"

lemma pt_okD:
  assumes "pt_ok N root m"
  shows pt_ok_root: "N (2, 0) = Some root"
    and pt_ok_node: "\<And>l k p. N (l, k) = Some p \<Longrightarrow> pg_aligned p \<and> p \<noteq> 0 \<and> l \<le> 2 \<and> (l = 2 \<longrightarrow> k = 0)"
    and pt_ok_parent: "\<And>l k. l < 2 \<Longrightarrow> N (l, k) \<noteq> None \<Longrightarrow> N (Suc l, k div 512) \<noteq> None"
    and pt_ok_inj: "\<And>x y p. N x = Some p \<Longrightarrow> N y = Some p \<Longrightarrow> x = y"
    and pt_ok_entry: "\<And>l k p i q. N (Suc l, k) = Some p \<Longrightarrow> i < 512 \<Longrightarrow> N (l, 512 * k + i) = Some q \<Longrightarrow>
        ld64 m (slot p i) = PA2PTE q OR PTE_V"
    and pt_ok_hole: "\<And>l k p i. N (Suc l, k) = Some p \<Longrightarrow> i < 512 \<Longrightarrow> N (l, 512 * k + i) = None \<Longrightarrow>
        \<not> bit (ld64 m (slot p i)) 0"
proof -
  note a = assms [unfolded pt_ok_def]
  show "N (2, 0) = Some root" using a by blast
  show "\<And>l k p. N (l, k) = Some p \<Longrightarrow> pg_aligned p \<and> p \<noteq> 0 \<and> l \<le> 2 \<and> (l = 2 \<longrightarrow> k = 0)" using a by blast
  show "\<And>l k. l < 2 \<Longrightarrow> N (l, k) \<noteq> None \<Longrightarrow> N (Suc l, k div 512) \<noteq> None" using a by blast
  show "\<And>x y p. N x = Some p \<Longrightarrow> N y = Some p \<Longrightarrow> x = y" using a by blast
  have e: "\<forall>l k p i. N (Suc l, k) = Some p \<longrightarrow> i < 512 \<longrightarrow>
        (case N (l, 512 * k + i) of
           None \<Rightarrow> \<not> bit (ld64 m (slot p i)) 0
         | Some q \<Rightarrow> ld64 m (slot p i) = PA2PTE q OR PTE_V)" using a by blast
  show "\<And>l k p i q. N (Suc l, k) = Some p \<Longrightarrow> i < 512 \<Longrightarrow> N (l, 512 * k + i) = Some q \<Longrightarrow>
        ld64 m (slot p i) = PA2PTE q OR PTE_V" using e by fastforce
  show "\<And>l k p i. N (Suc l, k) = Some p \<Longrightarrow> i < 512 \<Longrightarrow> N (l, 512 * k + i) = None \<Longrightarrow>
        \<not> bit (ld64 m (slot p i)) 0" using e by fastforce
qed

lemma pt_okI:
  assumes "N (2, 0) = Some root"
    and "\<And>l k p. N (l, k) = Some p \<Longrightarrow> pg_aligned p \<and> p \<noteq> 0 \<and> l \<le> 2 \<and> (l = 2 \<longrightarrow> k = 0)"
    and "\<And>l k p. l < 2 \<Longrightarrow> N (l, k) = Some p \<Longrightarrow> N (Suc l, k div 512) \<noteq> None"
    and "\<And>x y p. N x = Some p \<Longrightarrow> N y = Some p \<Longrightarrow> x = y"
    and "\<And>l k p i q. N (Suc l, k) = Some p \<Longrightarrow> i < 512 \<Longrightarrow> N (l, 512 * k + i) = Some q \<Longrightarrow>
        ld64 m (slot p i) = PA2PTE q OR PTE_V"
    and "\<And>l k p i. N (Suc l, k) = Some p \<Longrightarrow> i < 512 \<Longrightarrow> N (l, 512 * k + i) = None \<Longrightarrow>
        \<not> bit (ld64 m (slot p i)) 0"
  shows "pt_ok N root m"
  unfolding pt_ok_def
proof (intro conjI allI impI)
  fix l k p i
  assume "N (Suc l, k) = Some p" "i < (512 :: nat)"
  with assms(5,6) show "case N (l, 512 * k + i) of None \<Rightarrow> \<not> bit (ld64 m (slot p i)) 0
      | Some q \<Rightarrow> ld64 m (slot p i) = PA2PTE q OR PTE_V" by (auto split: option.splits)
qed (use assms in \<open>blast+\<close>)

lemma ld64_slot_cong:
  assumes "i < 512" "\<And>x. x \<in> page p \<Longrightarrow> m x = m' x"
  shows "ld64 m (slot p i) = ld64 m' (slot p i)"
  by (rule ld64_cong) (use assms slot_in_page [of i p] in \<open>auto simp: slot_def\<close>)

lemma pt_ok_cong:
  assumes "pt_ok N root m" "\<And>x p. p \<in> ran N \<Longrightarrow> x \<in> page p \<Longrightarrow> m' x = m x"
  shows "pt_ok N root m'"
proof -
  have "ld64 m' (slot p i) = ld64 m (slot p i)" if "N y = Some p" "i < 512" for y p i
    by (rule ld64_slot_cong) (use that assms(2) ranI in \<open>fastforce+\<close>)
  with pt_okD [OF assms(1)] show ?thesis by (intro pt_okI) auto
qed

lemma vmap_cong:
  assumes "\<And>x p. p \<in> ran N \<Longrightarrow> x \<in> page p \<Longrightarrow> m' x = m x"
  shows "vmap N m' = vmap N m"
proof
  fix v
  have "ld64 m' (slot p (v mod 512)) = ld64 m (slot p (v mod 512))" if "N y = Some p" for y p
    by (rule ld64_slot_cong) (use that assms ranI in \<open>fastforce+\<close>)
  then show "vmap N m' v = vmap N m v" by (simp add: vmap_def split: option.splits)
qed

text \<open>Where the nodes above a virtual page are.\<close>

lemma div_pow_step: "v div 512 ^ Suc l = v div 512 ^ l div (512 :: nat)"
  by (simp add: div_mult2_eq [symmetric] mult.commute)

lemma key_child: "512 * (v div 512 ^ Suc (Suc l)) + v div 512 ^ Suc l mod 512 = v div (512 :: nat) ^ Suc l"
  using mult_div_mod_eq [of 512 "v div 512 ^ Suc l"] by (simp only: div_pow_step [of v "Suc l"])

lemma no_leaf_below:
  assumes "pt_ok N root m" "l \<le> 1" "N (l, v div 512 ^ Suc l) = None"
  shows "N (0, v div 512) = None"
proof (cases "l = 0")
  case True
  with assms(3) show ?thesis by simp
next
  case False
  with assms have "N (Suc 0, v div 512 div 512) = None" by (auto simp: le_Suc_eq div_mult2_eq [symmetric])
  with pt_ok_parent [OF assms(1), of 0 "v div 512"] show ?thesis
    by (cases "N (0, v div 512)") auto
qed

lemma walk_loop_noalloc:
  assumes "pt_ok N root (mem s)" "l \<le> 2" "N (l, vpn va div 512 ^ Suc l) = Some pt"
  shows "walk_loop l pt va False s = Ret (leaf_slot N (vpn va)) s"
  using assms(2,3)
proof (induction l arbitrary: pt)
  case 0
  then show ?case by (simp add: kern_simps leaf_slot_def pte_addr_slot)
next
  case (Suc l)
  let ?i = "vpn va div 512 ^ Suc l mod 512"
  let ?e = "ld64 (mem s) (slot pt ?i)"
  have key: "512 * (vpn va div 512 ^ Suc (Suc l)) + ?i = vpn va div 512 ^ Suc l" by (rule key_child)
  have i: "?i < 512" by simp
  show ?case
  proof (cases "N (l, vpn va div 512 ^ Suc l)")
    case None
    with pt_ok_hole [OF assms(1) Suc.prems(2) i] key have "\<not> bit ?e 0" by simp
    moreover have "leaf_slot N (vpn va) = 0"
      using no_leaf_below [OF assms(1) _ None] Suc.prems(1) by (simp add: leaf_slot_def)
    ultimately show ?thesis
      using Suc.prems(1) by (simp add: kern_simps PTE_V_bit pte_addr_slot del: power_Suc)
  next
    case (Some q)
    with pt_ok_entry [OF assms(1) Suc.prems(2) i] key have e: "?e = PA2PTE q OR PTE_V" by simp
    have "pg_aligned q" using pt_ok_node [OF assms(1) Some] by simp
    then have "PTE2PA ?e = q" "bit ?e 0" unfolding e by (simp_all add: PTE2PA_PA2PTE bit_PA2PTE)
    with Suc.IH [OF _ Some] Suc.prems(1) show ?thesis
      by (simp add: kern_simps PTE_V_bit pte_addr_slot del: power_Suc)
  qed
qed

lemma walk_noalloc:
  assumes "pt_ok N root (mem s)" "va < MAXVA"
  shows "walk root va False s = Ret (leaf_slot N (vpn va)) s"
proof -
  have "vpn va div 512 ^ Suc 2 = 0" using vpn_bound [OF assms(2)] by simp
  then have "N (2, vpn va div 512 ^ Suc 2) = Some root"
    using pt_ok_root [OF assms(1)] by simp
  moreover have "\<not> MAXVA \<le> va" using assms(2) by simp
  ultimately show ?thesis
    using walk_loop_noalloc [OF assms(1)] by (simp add: walk_def)
qed

subsection \<open>Adding a node\<close>

lemma slot_sub_page: "i < 512 \<Longrightarrow> span (slot p i) 8 \<subseteq> page p"
  unfolding slot_def by (rule slot_in_page)

lemma ld64_sd64_slot:
  assumes "pg_aligned p" "pg_aligned q" "i < 512" "j < 512" "p \<noteq> q \<or> i \<noteq> j"
  shows "ld64 (sd64 m (slot p i) v) (slot q j) = ld64 m (slot q j)"
proof (rule ld64_sd64_other)
  show "span (slot p i) 8 \<inter> span (slot q j) 8 = {}"
  proof (cases "p = q")
    case True
    with assms slots_disjoint [of i j p] show ?thesis by (simp add: slot_def)
  next
    case False
    with pages_disjoint [of p q] slot_sub_page [of i p] slot_sub_page [of j q] assms show ?thesis by blast
  qed
qed

lemma ld64_fill_slot_same: "i < 512 \<Longrightarrow> ld64 (fill p 4096 0 m) (slot p i) = 0"
  using slot_sub_page [of i p] by (intro ld64_fill_zero) auto

lemma ld64_fill_slot_other:
  "pg_aligned p \<Longrightarrow> pg_aligned q \<Longrightarrow> p \<noteq> q \<Longrightarrow> i < 512 \<Longrightarrow>
     ld64 (fill p n b m) (slot q i) = ld64 m (slot q i)" if "n \<le> 4096"
  using pages_disjoint [of p q] slot_sub_page [of i q] span_mono [OF that, of p]
  by (intro ld64_fill_out) blast

definition link_node :: "mem \<Rightarrow> u64 \<Rightarrow> nat \<Rightarrow> u64 \<Rightarrow> mem" where
  "link_node m pt i p = sd64 (fill p 4096 0 m) (slot pt i) (PA2PTE p OR PTE_V)"

lemma link_node_entry:
  assumes "pt_ok N root m" "N x = Some pt" "N y = Some q" "p \<notin> ran N" "pg_aligned p" "i < 512" "j < 512"
  shows "ld64 (link_node m pt i p) (slot q j) =
    (if q = pt \<and> j = i then PA2PTE p OR PTE_V else ld64 m (slot q j))"
proof (cases "q = pt \<and> j = i")
  case True
  then show ?thesis by (simp add: link_node_def)
next
  case False
  have al: "pg_aligned pt" "pg_aligned q" using assms pt_ok_node by (metis surj_pair)+
  have "p \<noteq> q" using assms(3,4) ranI by metis
  then have "ld64 (fill p 4096 0 m) (slot q j) = ld64 m (slot q j)"
    using assms al by (intro ld64_fill_slot_other) auto
  then show ?thesis
    using False al assms by (auto simp: link_node_def ld64_sd64_slot)
qed

lemma link_node_new:
  assumes "pt_ok N root m" "N x = Some pt" "p \<notin> ran N" "pg_aligned p" "i < 512" "j < 512"
  shows "ld64 (link_node m pt i p) (slot p j) = 0"
proof -
  have "pg_aligned pt" using assms(1,2) pt_ok_node by (metis surj_pair)
  moreover have "pt \<noteq> p" using assms(2,3) ranI by metis
  ultimately show ?thesis
    using assms by (simp add: link_node_def ld64_sd64_slot ld64_fill_slot_same)
qed

lemma pt_ok_link:
  assumes ok: "pt_ok N root m" and pt: "N (Suc l, k) = Some pt" and i: "i < 512"
    and hole: "N (l, 512 * k + i) = None" and p: "p \<notin> ran N" "pg_aligned p" "p \<noteq> 0"
  shows "pt_ok (N((l, 512 * k + i) \<mapsto> p)) root (link_node m pt i p)"
proof (rule pt_okI)
  note D = pt_okD [OF ok]
  let ?N = "N((l, 512 * k + i) \<mapsto> p)"
  have l: "l < 2" using D(2) [OF pt] by simp
  have new: "x = (l, 512 * k + i)" if "N x = Some q" "q = p" for x q using that p(1) ranI by metis
  show "?N (2, 0) = Some root" using D(1) l by auto
  show "pg_aligned q \<and> q \<noteq> 0 \<and> l' \<le> 2 \<and> (l' = 2 \<longrightarrow> k' = 0)" if "?N (l', k') = Some q" for l' k' q
    using that D(2) l p by (auto split: if_splits)
  show "?N (Suc l', k' div 512) \<noteq> None" if "l' < 2" "?N (l', k') = Some q" for l' k' q
    using that D(3) [of l' k'] pt i by (auto split: if_splits)
  show "x = y" if "?N x = Some q" "?N y = Some q" for x y q
    using that D(4) new by (auto split: if_splits)
  have child: "l' = l \<and> 512 * k' + j = 512 * k + i \<longleftrightarrow> (q = pt \<and> j = i)"
    if q: "N (Suc l', k') = Some q" and j: "j < 512" for l' k' q j
  proof
    assume a: "l' = l \<and> 512 * k' + j = 512 * k + i"
    then have "(512 * k' + j) div 512 = (512 * k + i) div 512" by simp
    with i j have "k' = k" by simp
    with a q pt show "q = pt \<and> j = i" by simp
  next
    assume "q = pt \<and> j = i"
    with q pt D(4) [of "(Suc l', k')" pt "(Suc l, k)"] show "l' = l \<and> 512 * k' + j = 512 * k + i" by simp
  qed
  have kids: "N (l', 512 * (512 * k + i) + j) = None" if "Suc l' = l" "j < 512" for l' j
  proof (rule ccontr)
    define c where "c = 512 * k + i"
    assume "N (l', 512 * (512 * k + i) + j) \<noteq> None"
    then have "N (l', 512 * c + j) \<noteq> None" unfolding c_def .
    then have "N (Suc l', (512 * c + j) div 512) \<noteq> None" using D(3) [of l' "512 * c + j"] that(1) l by simp
    with that hole show False by (simp add: c_def [symmetric])
  qed
  show "ld64 (link_node m pt i p) (slot q j) = PA2PTE r OR PTE_V"
    if "?N (Suc l', k') = Some q" "j < 512" "?N (l', 512 * k' + j) = Some r" for l' k' q j r
  proof (cases "(Suc l', k') = (l, 512 * k + i)")
    case True
    with that kids [of l' j] show ?thesis by (auto split: if_splits)
  next
    case False
    with that(1) have q: "N (Suc l', k') = Some q" by (auto split: if_splits)
    show ?thesis
      using that(3) child [OF q that(2)] D(5) [OF q that(2)]
        link_node_entry [OF ok pt q p(1,2) i that(2)] by (auto split: if_splits)
  qed
  show "\<not> bit (ld64 (link_node m pt i p) (slot q j)) 0"
    if "?N (Suc l', k') = Some q" "j < 512" "?N (l', 512 * k' + j) = None" for l' k' q j
  proof (cases "(Suc l', k') = (l, 512 * k + i)")
    case True
    with that(1) have "q = p" by simp
    with link_node_new [OF ok pt p(1,2) i that(2)] show ?thesis by simp
  next
    case False
    with that(1) have q: "N (Suc l', k') = Some q" by (auto split: if_splits)
    show ?thesis
      using that(3) child [OF q that(2)] D(6) [OF q that(2)]
        link_node_entry [OF ok pt q p(1,2) i that(2)] by (auto split: if_splits)
  qed
qed

lemma vmap_link:
  assumes ok: "pt_ok N root m" and pt: "N (Suc l, k) = Some pt" and i: "i < 512"
    and hole: "N (l, 512 * k + i) = None" and p: "p \<notin> ran N" "pg_aligned p" "p \<noteq> 0"
  shows "vmap (N((l, 512 * k + i) \<mapsto> p)) (link_node m pt i p) = vmap N m"
proof
  fix v
  show "vmap (N((l, 512 * k + i) \<mapsto> p)) (link_node m pt i p) v = vmap N m v"
  proof (cases "N (0, v div 512)")
    case None
    then show ?thesis
      using link_node_new [OF ok pt p(1,2) i, of "v mod 512"] by (auto simp: vmap_def Let_def)
  next
    case (Some q)
    have "q \<noteq> pt" using pt_ok_inj [OF ok pt, of "(0, v div 512)"] Some by auto
    with link_node_entry [OF ok pt Some p(1,2) i, of "v mod 512"] Some hole show ?thesis
      by (auto simp: vmap_def Let_def)
  qed
qed

subsection \<open>Walking with allocation\<close>

text \<open>\<open>kframe s t\<close>: from \<open>s\<close> to \<open>t\<close> only memory and the free list changed (up to the saved interrupt
  flag that the lock routines refresh).\<close>

definition kframe :: "'a kmem_state_scheme \<Rightarrow> 'a kmem_state_scheme \<Rightarrow> bool" where
  "kframe s t \<longleftrightarrow> (\<exists>f m. settle t = (settle s)\<lparr>freelist := f, mem := m\<rparr>)"

lemma kframe_refl [simp]: "kframe s s"
  unfolding kframe_def by (rule exI [of _ "freelist (settle s)"], rule exI [of _ "mem (settle s)"]) simp

lemma kframe_trans: "kframe s t \<Longrightarrow> kframe t u \<Longrightarrow> kframe s u"
  unfolding kframe_def by fastforce

lemma kframe_mem: "kframe s (s\<lparr>mem := m\<rparr>)"
  unfolding kframe_def by (rule exI [of _ "freelist (settle s)"], rule exI [of _ m]) (simp add: frame_simps)

lemma kframe_kend: "kframe s t \<Longrightarrow> kend t = kend s"
  unfolding kframe_def
proof (elim exE)
  fix f m
  assume "settle t = (settle s)\<lparr>freelist := f, mem := m\<rparr>"
  then have "kend (settle t) = kend (settle s)" by simp
  then show "kend t = kend s" by (simp add: frame_simps)
qed

lemma settle_settle: "settle (settle s) = settle s"
  by (simp add: settle_def mach_defs intr_get_def)

lemma kframe_settle: "kframe s ((settle s)\<lparr>freelist := f, mem := m\<rparr>)"
  unfolding kframe_def by (rule exI [of _ f], rule exI [of _ m]) (simp add: frame_simps settle_settle)

lemma kmem_ok_mem:
  assumes "kmem_ok ps s" "\<And>q x. q \<in> set ps \<Longrightarrow> x \<in> page q \<Longrightarrow> m x = mem s x"
  shows "kmem_ok ps (s\<lparr>mem := m\<rparr>)"
proof -
  have "fl_rep (mem s) (freelist s) ps = fl_rep m (freelist s) ps"
    by (rule fl_rep_cong) (use assms(2) in simp)
  with assms(1) show ?thesis by (simp add: kmem_ok_def frame_simps)
qed

text \<open>A page table and a free list in the same memory, sharing no page.\<close>

definition pt_state :: "nodes \<Rightarrow> u64 \<Rightarrow> u64 list \<Rightarrow> 'a kmem_state_scheme \<Rightarrow> bool" where
  "pt_state N root ps s \<longleftrightarrow> kmem_ok ps s \<and> pt_ok N root (mem s) \<and> ran N \<inter> set ps = {}"

text \<open>\<open>agree_off\<close>: the two memories differ on the given pages at most.\<close>

definition agree_off :: "u64 set \<Rightarrow> mem \<Rightarrow> mem \<Rightarrow> bool" where
  "agree_off P m m' \<longleftrightarrow> (\<forall>x. (\<forall>p \<in> P. x \<notin> page p) \<longrightarrow> m' x = m x)"

lemma agree_off_refl [simp]: "agree_off P m m"
  by (simp add: agree_off_def)

lemma agree_off_trans: "agree_off P m m' \<Longrightarrow> agree_off Q m' m'' \<Longrightarrow> agree_off (P \<union> Q) m m''"
  by (auto simp: agree_off_def)

lemma agree_off_mono: "agree_off P m m' \<Longrightarrow> P \<subseteq> Q \<Longrightarrow> agree_off Q m m'"
  by (auto simp: agree_off_def)

lemma agree_off_fill: "p \<in> P \<Longrightarrow> agree_off P m (fill p 4096 b m)"
  by (auto simp: agree_off_def fill_out)

lemma agree_off_slot: "p \<in> P \<Longrightarrow> i < 512 \<Longrightarrow> agree_off P m (sd64 m (slot p i) v)"
  using slot_sub_page [of i p] by (auto simp: agree_off_def intro!: sd64_other)

lemma agree_offD:
  assumes "agree_off P m m'" "x \<in> page q" "pg_aligned q" "\<forall>p \<in> P. pg_aligned p" "q \<notin> P"
  shows "m' x = m x"
proof -
  have "x \<notin> page p" if "p \<in> P" for p
    using pages_disjoint [of p q] assms that by (metis disjoint_iff)
  with assms(1) show ?thesis by (simp add: agree_off_def)
qed

text \<open>\<open>pt_grow\<close>: the table gained nodes, each a page taken from the front of the free list, and only
  those pages and the table's own were written.\<close>

definition pt_grow :: "nodes \<Rightarrow> u64 list \<Rightarrow> 'a kmem_state_scheme \<Rightarrow> nodes \<Rightarrow> u64 list \<Rightarrow> 'a kmem_state_scheme \<Rightarrow> bool" where
  "pt_grow N ps s N' ps' t \<longleftrightarrow> N \<subseteq>\<^sub>m N' \<and> kframe s t \<and>
     (\<exists>qs. ps = qs @ ps' \<and> ran N' \<subseteq> ran N \<union> set qs \<and> agree_off (ran N \<union> set qs) (mem s) (mem t))"

lemma pt_grow_refl [simp]: "pt_grow N ps s N ps s"
  unfolding pt_grow_def by auto

lemma pt_grow_trans:
  assumes "pt_grow N ps s N' ps' t" "pt_grow N' ps' t N'' ps'' u"
  shows "pt_grow N ps s N'' ps'' u"
proof -
  from assms obtain qs rs where
    q: "ps = qs @ ps'" "ran N' \<subseteq> ran N \<union> set qs" "agree_off (ran N \<union> set qs) (mem s) (mem t)" and
    r: "ps' = rs @ ps''" "ran N'' \<subseteq> ran N' \<union> set rs" "agree_off (ran N' \<union> set rs) (mem t) (mem u)"
    unfolding pt_grow_def by blast
  have "agree_off (ran N \<union> set (qs @ rs)) (mem s) (mem u)"
    by (rule agree_off_mono [OF agree_off_trans [OF q(3) r(3)]]) (use q(2) in auto)
  moreover have "ran N'' \<subseteq> ran N \<union> set (qs @ rs)" using q(2) r(2) by auto
  moreover have "N \<subseteq>\<^sub>m N''" "kframe s u"
    using assms map_le_trans kframe_trans unfolding pt_grow_def by blast+
  ultimately show ?thesis unfolding pt_grow_def using q(1) r(1) by (metis append_assoc)
qed

lemma slot_nonzero: "pg_aligned p \<Longrightarrow> p \<noteq> 0 \<Longrightarrow> i < 512 \<Longrightarrow> slot p i \<noteq> 0"
proof
  assume a: "pg_aligned p" "p \<noteq> 0" "i < 512" "slot p i = 0"
  have "slot p i = p + of_nat (8 * i)" by (simp add: slot_def)
  moreover have "unat (p + of_nat (8 * i)) = unat p + 8 * i"
    by (rule unat_add_lt) (use aligned_no_wrap [OF a(1)] a(3) in simp)
  ultimately have "unat (slot p i) = unat p + 8 * i" by simp
  with a(2,4) show False by (simp add: unsigned_eq_0_iff)
qed

lemma leaf_slot_0: "pt_ok N root m \<Longrightarrow> leaf_slot N v = 0 \<longleftrightarrow> N (0, v div 512) = None"
  using slot_nonzero pt_ok_node by (fastforce simp: leaf_slot_def split: option.splits)

lemma pt_state_settle: "pt_state N root ps s \<Longrightarrow> pt_state N root ps (settle s)"
  by (simp add: pt_state_def kmem_ok_def frame_simps)

lemma kframe_settle0: "kframe s (settle s)"
  unfolding kframe_def
  by (rule exI [of _ "freelist (settle s)"], rule exI [of _ "mem (settle s)"]) (simp add: settle_settle)

lemma pt_grow_settle: "pt_grow N ps s N ps (settle s)"
  unfolding pt_grow_def by (auto simp: kframe_settle0 frame_simps)

definition link_state :: "'a kmem_state_scheme \<Rightarrow> u64 \<Rightarrow> nat \<Rightarrow> u64 \<Rightarrow> 'a kmem_state_scheme" where
  "link_state s pt i p = (settle s)\<lparr>freelist := ld64 (mem s) p, mem := link_node (fill p 4096 5 (mem s)) pt i p\<rparr>"

lemma good_page_aligned: "good_page e p \<Longrightarrow> pg_aligned p"
  by (simp add: good_page_def)

lemma pt_state_link:
  assumes st: "pt_state N root (p # ps) s" and pt: "N (Suc l, k) = Some pt" and i: "i < 512"
    and hole: "N (l, 512 * k + i) = None"
  shows "pt_state (N((l, 512 * k + i) \<mapsto> p)) root ps (link_state s pt i p)"
    and "pt_grow N (p # ps) s (N((l, 512 * k + i) \<mapsto> p)) ps (link_state s pt i p)"
    and "vmap (N((l, 512 * k + i) \<mapsto> p)) (mem (link_state s pt i p)) = vmap N (mem s)"
proof -
  let ?N = "N((l, 512 * k + i) \<mapsto> p)"
  let ?m = "fill p 4096 5 (mem s)"
  have km: "kmem_ok (p # ps) s" and ok: "pt_ok N root (mem s)" and dj: "ran N \<inter> set (p # ps) = {}"
    using st by (simp_all add: pt_state_def)
  have gp: "good_page (kend s) p" using km by (simp add: kmem_ok_def)
  have p: "p \<notin> ran N" "pg_aligned p" "p \<noteq> 0"
    using dj km gp good_page_nonzero by (auto simp: kmem_ok_def good_page_def)
  have al: "pg_aligned q" if "q \<in> ran N" for q using that pt_ok_node [OF ok] by (fastforce simp: ran_def)
  have same: "?m x = mem s x" if "q \<in> ran N" "x \<in> page q" for x q
    using agree_offD [OF agree_off_fill [of p "{p}"] that(2) al [OF that(1)]] p that by auto
  have ok5: "pt_ok N root ?m" by (rule pt_ok_cong [OF ok same])
  have vm5: "vmap N ?m = vmap N (mem s)" by (rule vmap_cong [OF same])
  show "vmap ?N (mem (link_state s pt i p)) = vmap N (mem s)"
    using vmap_link [OF ok5 pt i hole p] vm5 by (simp add: link_state_def)
  have ranN: "ran ?N = insert p (ran N)" using hole by simp
  have ag: "agree_off {p, pt} ?m (link_node ?m pt i p)"
    unfolding link_node_def
    by (rule agree_off_mono [OF agree_off_trans [OF agree_off_fill [of p "{p}"] agree_off_slot [of pt "{pt}"]]])
       (use i in auto)
  have ptr: "pt \<in> ran N" using pt by (rule ranI)
  have "kmem_ok ps (((settle s)\<lparr>freelist := ld64 (mem s) p, mem := ?m\<rparr>)\<lparr>mem := link_node ?m pt i p\<rparr>)"
  proof (rule kmem_ok_mem [OF kalloc_ok [OF km]])
    fix q x
    assume q: "q \<in> set ps" "x \<in> page q"
    have "pg_aligned q" using q(1) km by (auto simp: kmem_ok_def good_page_def)
    moreover have "q \<notin> {p, pt}" using q(1) km dj ptr by (auto simp: kmem_ok_def)
    ultimately show "link_node ?m pt i p x = mem ((settle s)\<lparr>freelist := ld64 (mem s) p, mem := ?m\<rparr>) x"
      using agree_offD [OF ag q(2)] p(2) al [OF ptr] by simp
  qed
  then have km': "kmem_ok ps (link_state s pt i p)" by (simp add: link_state_def)
  show "pt_state ?N root ps (link_state s pt i p)"
    unfolding pt_state_def
  proof (intro conjI km')
    show "pt_ok ?N root (mem (link_state s pt i p))"
      using pt_ok_link [OF ok5 pt i hole p] by (simp add: link_state_def)
    show "ran ?N \<inter> set ps = {}" using ranN dj km by (auto simp: kmem_ok_def)
  qed
  have "agree_off ({p} \<union> {p, pt}) (mem s) (link_node ?m pt i p)"
    by (rule agree_off_trans [OF agree_off_fill ag]) simp
  then have "agree_off (ran N \<union> {p}) (mem s) (mem (link_state s pt i p))"
    using ptr by (auto simp: link_state_def elim: agree_off_mono)
  moreover have "N \<subseteq>\<^sub>m ?N" using hole by (auto simp: map_le_def dom_def)
  moreover have "kframe s (link_state s pt i p)" unfolding link_state_def by (rule kframe_settle)
  ultimately show "pt_grow N (p # ps) s ?N ps (link_state s pt i p)"
    unfolding pt_grow_def using ranN by (intro conjI exI [of _ "[p]"]) auto
qed

lemma walk_loop_alloc:
  assumes "pt_state N root ps s" "l \<le> 2" "N (l, vpn va div 512 ^ Suc l) = Some pt"
  shows "\<exists>t N' ps'. walk_loop l pt va True s = Ret (leaf_slot N' (vpn va)) t \<and> pt_state N' root ps' t \<and>
    pt_grow N ps s N' ps' t \<and> vmap N' (mem t) = vmap N (mem s) \<and> (leaf_slot N' (vpn va) = 0 \<longrightarrow> ps' = [])"
  using assms
proof (induction l arbitrary: pt N ps s)
  case 0
  then have "walk_loop 0 pt va True s = Ret (leaf_slot N (vpn va)) s"
    by (simp add: kern_simps leaf_slot_def pte_addr_slot)
  moreover have "leaf_slot N (vpn va) \<noteq> 0"
    using leaf_slot_0 [of N root "mem s"] 0 by (simp add: pt_state_def)
  ultimately show ?case using 0 pt_grow_refl by blast
next
  case (Suc l)
  let ?i = "vpn va div 512 ^ Suc l mod 512"
  let ?e = "ld64 (mem s) (slot pt ?i)"
  have key: "512 * (vpn va div 512 ^ Suc (Suc l)) + ?i = vpn va div 512 ^ Suc l" by (rule key_child)
  have i: "?i < 512" by simp
  have ok: "pt_ok N root (mem s)" and km: "kmem_ok ps s" using Suc.prems(1) by (simp_all add: pt_state_def)
  show ?case
  proof (cases "N (l, vpn va div 512 ^ Suc l)")
    case None
    with pt_ok_hole [OF ok Suc.prems(3) i] key have ne: "\<not> bit ?e 0" by simp
    show ?thesis
    proof (cases ps)
      case Nil
      have "leaf_slot N (vpn va) = 0"
        using no_leaf_below [OF ok _ None] Suc.prems(2) by (simp add: leaf_slot_def)
      moreover have "walk_loop (Suc l) pt va True s = Ret 0 (settle s)"
        using ne kalloc_empty [of s] km Nil Suc.prems(2)
        by (simp add: kern_simps PTE_V_bit pte_addr_slot del: power_Suc)
      ultimately show ?thesis
        using pt_state_settle [OF Suc.prems(1)] pt_grow_settle Nil by (metis mem_settle)
    next
      case (Cons p qs)
      have hole: "N (l, 512 * (vpn va div 512 ^ Suc (Suc l)) + ?i) = None" using None key by simp
      note lk = pt_state_link [OF Suc.prems(1) [unfolded Cons] Suc.prems(3) i hole, unfolded key]
      let ?N = "N((l, vpn va div 512 ^ Suc l) \<mapsto> p)"
      have "p \<noteq> 0" using km Cons good_page_nonzero by (auto simp: kmem_ok_def)
      then have run: "walk_loop (Suc l) pt va True s = walk_loop l p va True (link_state s pt ?i p)"
        using ne kalloc_cons [of p qs s] km Cons Suc.prems(2)
        by (simp add: kern_simps PTE_V_bit pte_addr_slot link_state_def link_node_def memset_fill del: power_Suc)
      have "?N (l, vpn va div 512 ^ Suc l) = Some p" "l \<le> 2" using Suc.prems(2) by simp_all
      from Suc.IH [OF lk(1) this(2,1)] obtain t N' ps' where
        t: "walk_loop l p va True (link_state s pt ?i p) = Ret (leaf_slot N' (vpn va)) t"
          "pt_state N' root ps' t" "pt_grow ?N qs (link_state s pt ?i p) N' ps' t"
          "vmap N' (mem t) = vmap ?N (mem (link_state s pt ?i p))" "leaf_slot N' (vpn va) = 0 \<longrightarrow> ps' = []"
        by blast
      show ?thesis
        using run t lk(3) pt_grow_trans [OF lk(2) t(3)] Cons by metis
    qed
  next
    case (Some q)
    with pt_ok_entry [OF ok Suc.prems(3) i] key have e: "?e = PA2PTE q OR PTE_V" by simp
    have "pg_aligned q" using pt_ok_node [OF ok Some] by simp
    then have "PTE2PA ?e = q" "bit ?e 0" unfolding e by (simp_all add: PTE2PA_PA2PTE bit_PA2PTE)
    then have "walk_loop (Suc l) pt va True s = walk_loop l q va True s"
      using Suc.prems(2) by (simp add: kern_simps PTE_V_bit pte_addr_slot del: power_Suc)
    with Suc.IH [OF Suc.prems(1) _ Some] Suc.prems(2) show ?thesis by simp
  qed
qed

lemma walk_alloc:
  assumes "pt_state N root ps s" "va < MAXVA"
  shows "\<exists>t N' ps'. walk root va True s = Ret (leaf_slot N' (vpn va)) t \<and> pt_state N' root ps' t \<and>
    pt_grow N ps s N' ps' t \<and> vmap N' (mem t) = vmap N (mem s) \<and> (leaf_slot N' (vpn va) = 0 \<longrightarrow> ps' = [])"
proof -
  have "vpn va div 512 ^ Suc 2 = 0" using vpn_bound [OF assms(2)] by simp
  then have "N (2, vpn va div 512 ^ Suc 2) = Some root"
    using assms(1) pt_ok_root [of N root "mem s"] by (simp add: pt_state_def)
  moreover have "\<not> MAXVA \<le> va" using assms(2) by simp
  ultimately show ?thesis using walk_loop_alloc [OF assms(1)] by (simp add: walk_def)
qed

subsection \<open>Writing a leaf entry\<close>

lemma pt_ok_set_leaf:
  assumes ok: "pt_ok N root m" and p: "N (0, k) = Some p" and i: "i < 512"
  shows "pt_ok N root (sd64 m (slot p i) e)"
proof -
  have "ld64 (sd64 m (slot p i) e) (slot q j) = ld64 m (slot q j)"
    if "N (Suc l, k') = Some q" "j < 512" for l k' q j
  proof (rule ld64_sd64_slot)
    show "p \<noteq> q \<or> i \<noteq> j" using pt_ok_inj [OF ok p, of "(Suc l, k')"] that(1) by auto
  qed (use that i pt_ok_node [OF ok p] pt_ok_node [OF ok that(1)] in auto)
  with pt_okD [OF ok] show ?thesis by (intro pt_okI) auto
qed

lemma vmap_set_leaf:
  assumes ok: "pt_ok N root m" and p: "N (0, v div 512) = Some p"
  shows "vmap N (sd64 m (slot p (v mod 512)) e) = (vmap N m)(v := (if bit e 0 then Some e else None))"
proof
  fix w
  show "vmap N (sd64 m (slot p (v mod 512)) e) w = ((vmap N m)(v := (if bit e 0 then Some e else None))) w"
  proof (cases "w = v")
    case True
    then show ?thesis using p by (simp add: vmap_def)
  next
    case False
    have "ld64 (sd64 m (slot p (v mod 512)) e) (slot q (w mod 512)) = ld64 m (slot q (w mod 512))"
      if q: "N (0, w div 512) = Some q" for q
    proof (rule ld64_sd64_slot)
      show "p \<noteq> q \<or> v mod 512 \<noteq> w mod 512"
        using pt_ok_inj [OF ok p, of "(0, w div 512)"] q False by (metis div_mult_mod_eq prod.inject)
    qed (use q pt_ok_node [OF ok p] pt_ok_node [OF ok q] in auto)
    with False show ?thesis by (simp add: vmap_def split: option.splits)
  qed
qed

lemma ld64_leaf_slot:
  "N (0, v div 512) = Some p \<Longrightarrow> bit (ld64 m (leaf_slot N v)) 0 \<longleftrightarrow> vmap N m v \<noteq> None"
  by (simp add: leaf_slot_def vmap_def Let_def)

lemma vmap_Some_leaf:
  assumes "vmap N m v = Some e"
  obtains p where "N (0, v div 512) = Some p" "leaf_slot N v = slot p (v mod 512)"
    "ld64 m (leaf_slot N v) = e" "bit e 0"
  using assms by (auto simp: vmap_def leaf_slot_def Let_def split: option.splits if_splits)

definition set_leaf :: "nodes \<Rightarrow> nat \<Rightarrow> u64 \<Rightarrow> 'a kmem_state_scheme \<Rightarrow> 'a kmem_state_scheme" where
  "set_leaf N v e s = s\<lparr>mem := sd64 (mem s) (leaf_slot N v) e\<rparr>"

lemma pt_state_set_leaf:
  assumes st: "pt_state N root ps s" and p: "N (0, v div 512) = Some p"
  shows "pt_state N root ps (set_leaf N v e s)"
    and "pt_grow N ps s N ps (set_leaf N v e s)"
    and "vmap N (mem (set_leaf N v e s)) = (vmap N (mem s))(v := (if bit e 0 then Some e else None))"
proof -
  have km: "kmem_ok ps s" and ok: "pt_ok N root (mem s)" and dj: "ran N \<inter> set ps = {}"
    using st by (simp_all add: pt_state_def)
  have pr: "p \<in> ran N" using p by (rule ranI)
  have sl: "leaf_slot N v = slot p (v mod 512)" using p by (simp add: leaf_slot_def)
  have ag: "agree_off {p} (mem s) (mem (set_leaf N v e s))"
    unfolding set_leaf_def sl by (simp add: agree_off_slot)
  have "kmem_ok ps (set_leaf N v e s)"
    unfolding set_leaf_def
  proof (rule kmem_ok_mem [OF km])
    fix q x
    assume q: "q \<in> set ps" "x \<in> page q"
    then have "pg_aligned q" "q \<notin> {p}" using km dj pr by (auto simp: kmem_ok_def good_page_def)
    then show "sd64 (mem s) (leaf_slot N v) e x = mem s x"
      using agree_offD [OF ag q(2)] pt_ok_node [OF ok p] by (simp add: set_leaf_def)
  qed
  with dj pt_ok_set_leaf [OF ok p] sl show "pt_state N root ps (set_leaf N v e s)"
    by (simp add: pt_state_def set_leaf_def)
  show "vmap N (mem (set_leaf N v e s)) = (vmap N (mem s))(v := (if bit e 0 then Some e else None))"
    using vmap_set_leaf [OF ok p] sl by (simp add: set_leaf_def)
  show "pt_grow N ps s N ps (set_leaf N v e s)"
    unfolding pt_grow_def using agree_off_mono [OF ag, of "ran N"] pr
    by (auto simp: kframe_mem set_leaf_def)
qed

subsection \<open>mappages\<close>

definition map_range :: "nat \<Rightarrow> nat \<Rightarrow> u64 \<Rightarrow> u64 \<Rightarrow> (nat \<Rightarrow> u64 option) \<Rightarrow> nat \<Rightarrow> u64 option" where
  "map_range v n pa perm M w =
     (if v \<le> w \<and> w < v + n then Some (PA2PTE (pa + of_nat (4096 * (w - v))) OR perm OR PTE_V) else M w)"

lemma map_range_0 [simp]: "map_range v 0 pa perm M = M"
  by (rule ext) (auto simp: map_range_def)

lemma map_range_Suc:
  "map_range v (Suc n) pa perm M = map_range (Suc v) n (pa + PGSIZE) perm (M(v \<mapsto> PA2PTE pa OR perm OR PTE_V))"
proof
  fix w
  have "4096 * (w - v) = 4096 + 4096 * (w - Suc v)" if "v < w" using that by (simp add: algebra_simps)
  then show "map_range v (Suc n) pa perm M w =
      map_range (Suc v) n (pa + PGSIZE) perm (M(v \<mapsto> PA2PTE pa OR perm OR PTE_V)) w"
    by (cases "v < w"; cases "v = w") (auto simp: map_range_def PGSIZE_def add.assoc)
qed

lemma vpn_next: "unat a + 4096 < 2 ^ 64 \<Longrightarrow> vpn (a + PGSIZE) = Suc (vpn a)"
  using unat_add_lt [of a 4096] by (simp add: vpn_def PGSIZE_def)

lemma mappages_step:
  fixes s :: "'a kmem_state_scheme"
  assumes st: "pt_state N root ps s" and a: "a < MAXVA" and un: "vmap N (mem s) (vpn a) = None"
  shows "(\<exists>t N'. mappages_loop root a lst pa perm s = Ret (-1) t \<and> pt_state N' root [] t \<and>
        pt_grow N ps s N' [] t \<and> vmap N' (mem t) = vmap N (mem s)) \<or>
    (\<exists>t N' ps'. mappages_loop root a lst pa perm s =
          (if a = lst then Ret 0 t else mappages_loop root (a + PGSIZE) lst (pa + PGSIZE) perm t) \<and>
        pt_state N' root ps' t \<and> pt_grow N ps s N' ps' t \<and>
        vmap N' (mem t) = (vmap N (mem s))(vpn a \<mapsto> PA2PTE pa OR perm OR PTE_V))"
proof -
  let ?e = "PA2PTE pa OR perm OR PTE_V"
  from walk_alloc [OF st a] obtain t N' ps' where
    t: "walk root a True s = Ret (leaf_slot N' (vpn a)) t" "pt_state N' root ps' t"
      "pt_grow N ps s N' ps' t" "vmap N' (mem t) = vmap N (mem s)" "leaf_slot N' (vpn a) = 0 \<longrightarrow> ps' = []"
    by blast
  have ok: "pt_ok N' root (mem t)" using t(2) by (simp add: pt_state_def)
  show ?thesis
  proof (cases "leaf_slot N' (vpn a) = 0")
    case True
    then have "mappages_loop root a lst pa perm s = Ret (-1) t"
      by (simp add: mappages_loop.simps [of root a] kern_simps t(1))
    with True t show ?thesis by metis
  next
    case False
    then obtain p where p: "N' (0, vpn a div 512) = Some p" using leaf_slot_0 [OF ok] by auto
    then have "\<not> bit (ld64 (mem t) (leaf_slot N' (vpn a))) 0"
      using un t(4) ld64_leaf_slot by metis
    then have run: "mappages_loop root a lst pa perm s = (if a = lst then Ret 0 (set_leaf N' (vpn a) ?e t)
        else mappages_loop root (a + PGSIZE) lst (pa + PGSIZE) perm (set_leaf N' (vpn a) ?e t))"
      using False by (simp add: mappages_loop.simps [of root a] kern_simps t(1) PTE_V_bit Let_def set_leaf_def)
    have "bit ?e 0" by (simp add: bit_PA2PTE bit_simps)
    then show ?thesis
      using pt_state_set_leaf [OF t(2) p, of ?e] run t(4) pt_grow_trans [OF t(3)]
      by (intro disjI2 exI [of _ "set_leaf N' (vpn a) ?e t"] exI [of _ N'] exI [of _ ps']) simp
  qed
qed

lemma mappages_loop_ok:
  assumes "pt_state N root ps s" "unat a + 4096 * n < unat MAXVA"
    "\<forall>w. vpn a \<le> w \<and> w \<le> vpn a + n \<longrightarrow> vmap N (mem s) w = None"
  shows "\<exists>r t N' ps' k. mappages_loop root a (a + of_nat (4096 * n)) pa perm s = Ret r t \<and>
    pt_state N' root ps' t \<and> pt_grow N ps s N' ps' t \<and> vmap N' (mem t) = map_range (vpn a) k pa perm (vmap N (mem s)) \<and>
    (r = 0 \<and> k = Suc n \<or> r = -1 \<and> k \<le> n \<and> ps' = [])"
  using assms
proof (induction n arbitrary: a pa N ps s)
  case 0
  then have "a < MAXVA" "vmap N (mem s) (vpn a) = None" by (simp_all add: word_less_nat_alt)
  from mappages_step [OF 0(1) this, of a pa perm] show ?case
  proof (elim disjE exE conjE)
    fix t N'
    assume "mappages_loop root a a pa perm s = Ret (-1) t" "pt_state N' root [] t"
      "pt_grow N ps s N' [] t" "vmap N' (mem t) = vmap N (mem s)"
    then show ?case by (intro exI [of _ "-1 :: int"] exI [of _ t] exI [of _ N'] exI [of _ "[]"] exI [of _ 0]) simp
  next
    fix t N' ps'
    assume "mappages_loop root a a pa perm s =
        (if a = a then Ret 0 t else mappages_loop root (a + PGSIZE) a (pa + PGSIZE) perm t)"
      "pt_state N' root ps' t" "pt_grow N ps s N' ps' t"
      "vmap N' (mem t) = (vmap N (mem s))(vpn a \<mapsto> PA2PTE pa OR perm OR PTE_V)"
    then show ?case
      by (intro exI [of _ "0 :: int"] exI [of _ t] exI [of _ N'] exI [of _ ps'] exI [of _ "Suc 0"])
         (simp add: map_range_Suc)
  qed
next
  case (Suc n)
  let ?lst = "a + of_nat (4096 * Suc n)"
  have a: "a < MAXVA" "vmap N (mem s) (vpn a) = None" using Suc.prems by (simp_all add: word_less_nat_alt)
  have ua: "unat (a + PGSIZE) = unat a + 4096"
    using Suc.prems(2) unat_add_lt [of a 4096] by (simp add: PGSIZE_def)
  have va: "vpn (a + PGSIZE) = Suc (vpn a)" by (rule vpn_next) (use Suc.prems(2) in simp)
  have "unat ?lst = unat a + 4096 * Suc n" by (rule unat_add_lt) (use Suc.prems(2) in simp)
  then have ne: "a \<noteq> ?lst" by auto
  have lst: "?lst = (a + PGSIZE) + of_nat (4096 * n)" by (simp add: PGSIZE_def)
  from mappages_step [OF Suc.prems(1) a, of ?lst pa perm] show ?case
  proof (elim disjE exE conjE)
    fix t N'
    assume "mappages_loop root a ?lst pa perm s = Ret (-1) t" "pt_state N' root [] t"
      "pt_grow N ps s N' [] t" "vmap N' (mem t) = vmap N (mem s)"
    then show ?case by (intro exI [of _ "-1 :: int"] exI [of _ t] exI [of _ N'] exI [of _ "[]"] exI [of _ 0]) simp
  next
    fix t N' ps'
    assume t: "mappages_loop root a ?lst pa perm s =
        (if a = ?lst then Ret 0 t else mappages_loop root (a + PGSIZE) ?lst (pa + PGSIZE) perm t)"
      "pt_state N' root ps' t" "pt_grow N ps s N' ps' t"
      "vmap N' (mem t) = (vmap N (mem s))(vpn a \<mapsto> PA2PTE pa OR perm OR PTE_V)"
    have "\<forall>w. vpn (a + PGSIZE) \<le> w \<and> w \<le> vpn (a + PGSIZE) + n \<longrightarrow> vmap N' (mem t) w = None"
      using Suc.prems(3) by (simp add: t(4) va)
    from Suc.IH [OF t(2) _ this, of "pa + PGSIZE"] Suc.prems(2) ua obtain r u N'' ps'' k where
      u: "mappages_loop root (a + PGSIZE) ?lst (pa + PGSIZE) perm t = Ret r u" "pt_state N'' root ps'' u"
        "pt_grow N' ps' t N'' ps'' u"
        "vmap N'' (mem u) = map_range (vpn (a + PGSIZE)) k (pa + PGSIZE) perm (vmap N' (mem t))"
        "r = 0 \<and> k = Suc n \<or> r = -1 \<and> k \<le> n \<and> ps'' = []"
      unfolding lst by auto
    have "vmap N'' (mem u) = map_range (vpn a) (Suc k) pa perm (vmap N (mem s))"
      by (simp add: u(4) t(4) va map_range_Suc)
    then show ?case
      using u(2,5) pt_grow_trans [OF t(3) u(3)] t(1) ne u(1)
      by (intro exI [of _ r] exI [of _ u] exI [of _ N''] exI [of _ ps''] exI [of _ "Suc k"]) auto
  qed
qed

lemma mappages_ok:
  assumes st: "pt_state N root ps s" and al: "pg_aligned va" and n: "0 < n"
    and b: "unat va + 4096 * n \<le> unat MAXVA"
    and un: "\<forall>w. vpn va \<le> w \<and> w < vpn va + n \<longrightarrow> vmap N (mem s) w = None"
  shows "\<exists>r t N' ps' k. mappages root va (of_nat (4096 * n)) pa perm s = Ret r t \<and>
    pt_state N' root ps' t \<and> pt_grow N ps s N' ps' t \<and> vmap N' (mem t) = map_range (vpn va) k pa perm (vmap N (mem s)) \<and>
    (r = 0 \<and> k = n \<or> r = -1 \<and> k < n \<and> ps' = [])"
proof -
  obtain j where j: "n = Suc j" using n by (cases n) auto
  have u: "unat (of_nat (4096 * n) :: u64) = 4096 * n" unfolding unat_of_nat by (rule mod_less) (use b in simp)
  have "(of_nat (4096 * n) :: u64) mod PGSIZE = 0"
    by (simp only: pg_aligned_def [symmetric] pg_aligned_unat u mod_mult_self1_is_0)
  moreover have "(of_nat (4096 * n) :: u64) \<noteq> 0" using u n by (metis mult_pos_pos not_gr0 unsigned_0 zero_less_numeral)
  moreover have h: "va + of_nat (4096 * n) - PGSIZE = va + of_nat (4096 * j)" by (simp add: j PGSIZE_def)
  ultimately have run: "mappages root va (of_nat (4096 * n)) pa perm s =
      mappages_loop root va (va + of_nat (4096 * j)) pa perm s"
    using al unfolding mappages_def pg_aligned_def h by simp
  have "unat va + 4096 * j < unat MAXVA" using b j by simp
  moreover have "\<forall>w. vpn va \<le> w \<and> w \<le> vpn va + j \<longrightarrow> vmap N (mem s) w = None" using un j by simp
  ultimately show ?thesis
    using mappages_loop_ok [OF st] unfolding run [unfolded j] j less_Suc_eq_le by blast
qed

text \<open>A page that is already mapped is never remapped silently.\<close>

lemma mappages_remap:
  assumes st: "pt_state N root ps s" and al: "pg_aligned va" and va: "va < MAXVA"
    and mapped: "vmap N (mem s) (vpn va) \<noteq> None" and sz: "sz mod PGSIZE = 0" "sz \<noteq> 0"
  shows "mappages root va sz pa perm s = Panic ''mappages: remap''"
proof -
  from walk_alloc [OF st va] obtain t N' ps' where
    t: "walk root va True s = Ret (leaf_slot N' (vpn va)) t" "pt_state N' root ps' t"
      "vmap N' (mem t) = vmap N (mem s)" by blast
  from mapped t(3) obtain e where "vmap N' (mem t) (vpn va) = Some e" by auto
  then obtain p where p: "N' (0, vpn va div 512) = Some p" and e: "bit (ld64 (mem t) (leaf_slot N' (vpn va))) 0"
    by (elim vmap_Some_leaf) simp
  have "leaf_slot N' (vpn va) \<noteq> 0" using leaf_slot_0 t(2) p by (fastforce simp: pt_state_def)
  with e al sz show ?thesis
    by (simp add: mappages_def pg_aligned_def mappages_loop.simps [of root va] kern_simps t(1) PTE_V_bit)
qed

subsection \<open>uvmunmap\<close>

definition unmap_range :: "nat \<Rightarrow> nat \<Rightarrow> (nat \<Rightarrow> u64 option) \<Rightarrow> nat \<Rightarrow> u64 option" where
  "unmap_range v n M w = (if v \<le> w \<and> w < v + n then None else M w)"

definition upages :: "(nat \<Rightarrow> u64 option) \<Rightarrow> nat \<Rightarrow> nat \<Rightarrow> u64 list" where
  "upages M v n = map (\<lambda>w. PTE2PA (the (M w))) [v..<v + n]"

lemma unmap_range_0 [simp]: "unmap_range v 0 M = M"
  by (rule ext) (auto simp: unmap_range_def)

lemma unmap_range_Suc: "unmap_range v (Suc n) M = unmap_range (Suc v) n (M(v := None))"
  by (rule ext) (auto simp: unmap_range_def)

lemma upages_0 [simp]: "upages M v 0 = []"
  by (simp add: upages_def)

lemma upages_Suc: "upages M v (Suc n) = PTE2PA (the (M v)) # upages M (Suc v) n"
  by (simp add: upages_def upt_conv_Cons del: upt_Suc)

lemma upages_upd [simp]: "v < w \<Longrightarrow> upages (M(v := x)) w n = upages M w n"
  by (auto simp: upages_def)

lemma pt_state_kfree:
  assumes st: "pt_state N root ps s" and q: "good_page (kend s) q" "q \<notin> set ps" "q \<notin> ran N"
  shows "\<exists>t. kfree q s = Ret () t \<and> pt_state N root (q # ps) t \<and> vmap N (mem t) = vmap N (mem s) \<and>
    agree_off {q} (mem s) (mem t) \<and> kframe s t"
proof -
  let ?m = "sd64 (fill q 4096 1 (mem s)) q (freelist s)"
  let ?t = "(settle s)\<lparr>mem := ?m, freelist := q\<rparr>"
  have km: "kmem_ok ps s" and ok: "pt_ok N root (mem s)" and dj: "ran N \<inter> set ps = {}"
    using st by (simp_all add: pt_state_def)
  have ag: "agree_off {q} (mem s) ?m"
    using word_span8 [of q] by (auto simp: agree_off_def fill_out intro!: sd64_other [THEN trans])
  have same: "?m x = mem s x" if "p \<in> ran N" "x \<in> page p" for x p
  proof (rule agree_offD [OF ag that(2)])
    show "pg_aligned p" using that(1) pt_ok_node [OF ok] by (fastforce simp: ran_def)
  qed (use q that in \<open>auto simp: good_page_def\<close>)
  have "pt_state N root (q # ps) ?t"
    using kfree_ok [OF km q(1,2)] pt_ok_cong [OF ok same] dj q(3) by (simp add: pt_state_def)
  moreover have "kframe s ?t"
    unfolding kframe_def by (rule exI [of _ q], rule exI [of _ ?m]) (simp add: frame_simps settle_settle)
  ultimately show ?thesis
    using kfree_run [OF km q(1)] vmap_cong [OF same] ag by simp
qed

definition unmappable :: "bool \<Rightarrow> nodes \<Rightarrow> u64 list \<Rightarrow> 'a kmem_state_scheme \<Rightarrow> nat \<Rightarrow> nat \<Rightarrow> bool" where
  "unmappable do_free N ps s v n \<longleftrightarrow>
     (\<forall>w \<in> {v..<v + n}. \<exists>e. vmap N (mem s) w = Some e \<and> PTE_FLAGS e \<noteq> PTE_V) \<and>
     (do_free \<longrightarrow> distinct (upages (vmap N (mem s)) v n) \<and>
        (\<forall>q \<in> set (upages (vmap N (mem s)) v n). good_page (kend s) q \<and> q \<notin> ran N \<and> q \<notin> set ps))"

lemma uvmunmap_step:
  assumes st: "pt_state N root ps s" and a: "a < lim" "a < MAXVA" and um: "unmappable do_free N ps s (vpn a) (Suc n)"
    and vm: "vmap N (mem s) (vpn a) = Some e"
  shows "\<exists>t. uvmunmap_loop root a lim do_free s = uvmunmap_loop root (a + PGSIZE) lim do_free t \<and>
    pt_state N root (if do_free then PTE2PA e # ps else ps) t \<and> vmap N (mem t) = (vmap N (mem s))(vpn a := None) \<and>
    agree_off (ran N \<union> (if do_free then {PTE2PA e} else {})) (mem s) (mem t) \<and> kframe s t"
proof -
  let ?ps = "if do_free then PTE2PA e # ps else ps"
  have ok: "pt_ok N root (mem s)" using st by (simp add: pt_state_def)
  obtain p where p: "N (0, vpn a div 512) = Some p" "ld64 (mem s) (leaf_slot N (vpn a)) = e" "bit e 0"
    using vm by (elim vmap_Some_leaf)
  have fl: "PTE_FLAGS e \<noteq> PTE_V"
    using um vm by (auto simp: unmappable_def dest!: bspec [of _ _ "vpn a"])
  have nz: "leaf_slot N (vpn a) \<noteq> 0" using leaf_slot_0 [OF ok] p(1) by simp
  have "\<exists>u. kwhen do_free (kfree (PTE2PA e)) s = Ret () u \<and> pt_state N root ?ps u \<and>
      vmap N (mem u) = vmap N (mem s) \<and> agree_off (if do_free then {PTE2PA e} else {}) (mem s) (mem u) \<and> kframe s u"
    using pt_state_kfree [OF st, of "PTE2PA e"] um vm st
    by (auto simp: kern_simps unmappable_def upages_Suc)
  then obtain u where u: "kwhen do_free (kfree (PTE2PA e)) s = Ret () u" "pt_state N root ?ps u"
      "vmap N (mem u) = vmap N (mem s)" "agree_off (if do_free then {PTE2PA e} else {}) (mem s) (mem u)" "kframe s u"
    by blast
  let ?t = "set_leaf N (vpn a) 0 u"
  note sl = pt_state_set_leaf [OF u(2) p(1), of 0]
  have "uvmunmap_loop root a lim do_free s = uvmunmap_loop root (a + PGSIZE) lim do_free ?t"
    using a(1) nz p(2,3) fl
    by (simp add: uvmunmap_loop.simps [of root a] kern_simps walk_noalloc [OF ok a(2)] PTE_V_bit set_leaf_def
        u(1) [simplified kern_simps])
  moreover have "agree_off (ran N) (mem u) (mem ?t)" "kframe u ?t"
    using sl(2) unfolding pt_grow_def by auto
  ultimately show ?thesis
    using sl u(3) agree_off_trans [OF u(4), of "ran N"] kframe_trans [OF u(5)]
    by (intro exI [of _ ?t]) (auto simp: Un_commute)
qed

lemma uvmunmap_loop_ok:
  assumes "pt_state N root ps s" "unat a + 4096 * n \<le> unat MAXVA" "unmappable do_free N ps s (vpn a) n"
  shows "\<exists>t. uvmunmap_loop root a (a + of_nat (4096 * n)) do_free s = Ret () t \<and>
    pt_state N root (if do_free then rev (upages (vmap N (mem s)) (vpn a) n) @ ps else ps) t \<and>
    vmap N (mem t) = unmap_range (vpn a) n (vmap N (mem s)) \<and>
    agree_off (ran N \<union> (if do_free then set (upages (vmap N (mem s)) (vpn a) n) else {})) (mem s) (mem t) \<and> kframe s t"
  using assms
proof (induction n arbitrary: a ps s)
  case 0
  then show ?case by (simp add: uvmunmap_loop.simps [of root a])
next
  case (Suc n)
  let ?lim = "a + of_nat (4096 * Suc n)"
  let ?M = "vmap N (mem s)"
  have "\<exists>e. ?M (vpn a) = Some e" using Suc.prems(3) by (auto simp: unmappable_def dest: bspec [of _ _ "vpn a"])
  then obtain e where e: "?M (vpn a) = Some e" by blast
  have ul: "unat ?lim = unat a + 4096 * Suc n" by (rule unat_add_lt) (use Suc.prems(2) in simp)
  have a: "a < ?lim" "a < MAXVA" using Suc.prems(2) ul by (simp_all add: word_less_nat_alt)
  have ua: "unat (a + PGSIZE) = unat a + 4096"
    using Suc.prems(2) unat_add_lt [of a 4096] by (simp add: PGSIZE_def)
  have va: "vpn (a + PGSIZE) = Suc (vpn a)" by (rule vpn_next) (use Suc.prems(2) in simp)
  have lst: "?lim = (a + PGSIZE) + of_nat (4096 * n)" by (simp add: PGSIZE_def)
  let ?ps = "if do_free then PTE2PA e # ps else ps"
  from uvmunmap_step [OF Suc.prems(1) a Suc.prems(3) e] obtain t where
    t: "uvmunmap_loop root a ?lim do_free s = uvmunmap_loop root (a + PGSIZE) ?lim do_free t"
      "pt_state N root ?ps t" "vmap N (mem t) = ?M(vpn a := None)"
      "agree_off (ran N \<union> (if do_free then {PTE2PA e} else {})) (mem s) (mem t)" "kframe s t" by blast
  have um: "unmappable do_free N ?ps t (vpn (a + PGSIZE)) n"
    using Suc.prems(3) e kframe_kend [OF t(5)]
    by (auto simp: unmappable_def va t(3) upages_Suc)
  have b: "unat (a + PGSIZE) + 4096 * n \<le> unat MAXVA" using Suc.prems(2) ua by simp
  from Suc.IH [OF t(2) b um] obtain u where
    u: "uvmunmap_loop root (a + PGSIZE) ?lim do_free t = Ret () u"
      "pt_state N root (if do_free then rev (upages (vmap N (mem t)) (vpn (a + PGSIZE)) n) @ ?ps else ?ps) u"
      "vmap N (mem u) = unmap_range (vpn (a + PGSIZE)) n (vmap N (mem t))"
      "agree_off (ran N \<union> (if do_free then set (upages (vmap N (mem t)) (vpn (a + PGSIZE)) n) else {})) (mem t) (mem u)"
      "kframe t u"
    unfolding lst by auto
  have "agree_off (ran N \<union> (if do_free then set (upages ?M (vpn a) (Suc n)) else {})) (mem s) (mem u)"
    by (rule agree_off_mono [OF agree_off_trans [OF t(4) u(4)]]) (auto simp: va t(3) upages_Suc e)
  then show ?case
    using t(1) u(1,2,3) kframe_trans [OF t(5) u(5)]
    by (intro exI [of _ u]) (auto simp: va t(3) upages_Suc unmap_range_Suc e split: if_splits)
qed

lemma uvmunmap_ok:
  assumes "pt_state N root ps s" "pg_aligned va" "unat va + 4096 * n \<le> unat MAXVA"
    "unmappable do_free N ps s (vpn va) n"
  shows "\<exists>t. uvmunmap root va (of_nat n) do_free s = Ret () t \<and>
    pt_state N root (if do_free then rev (upages (vmap N (mem s)) (vpn va) n) @ ps else ps) t \<and>
    vmap N (mem t) = unmap_range (vpn va) n (vmap N (mem s)) \<and>
    agree_off (ran N \<union> (if do_free then set (upages (vmap N (mem s)) (vpn va) n) else {})) (mem s) (mem t) \<and> kframe s t"
proof -
  have "uvmunmap root va (of_nat n) do_free s = uvmunmap_loop root va (va + of_nat (4096 * n)) do_free s"
    using assms(2) by (simp add: uvmunmap_def pg_aligned_def PGSIZE_def mult.commute)
  with uvmunmap_loop_ok [OF assms(1,3,4)] show ?thesis by simp
qed

lemma uvmunmap_unmapped:
  assumes "pt_state N root ps s" "pg_aligned va" "va < MAXVA" "vmap N (mem s) (vpn va) = None"
    "va < va + of_nat n * PGSIZE"
  shows "\<exists>msg. uvmunmap root va (of_nat n) do_free s = Panic msg"
proof -
  have ok: "pt_ok N root (mem s)" using assms(1) by (simp add: pt_state_def)
  have "\<not> bit (ld64 (mem s) (leaf_slot N (vpn va))) 0" if "leaf_slot N (vpn va) \<noteq> 0"
    using that leaf_slot_0 [OF ok] ld64_leaf_slot assms(4) by blast
  then show ?thesis
    using assms(2,5)
    by (simp add: uvmunmap_def pg_aligned_def uvmunmap_loop.simps [of root va] kern_simps
        walk_noalloc [OF ok assms(3)] PTE_V_bit)
qed

subsection \<open>Properties\<close>

text \<open>A page-table entry gives back the physical page and the permission bits it was made of.\<close>

lemma pte_roundtrip:
  assumes "pg_aligned pa" "flags_ok perm"
  shows "PTE2PA (PA2PTE pa OR perm) = pa \<and> PTE_FLAGS (PA2PTE pa OR perm) = perm"
  by (simp add: PTE2PA_PA2PTE [OF assms] PTE_FLAGS_PA2PTE [OF assms(2)])


text \<open>A sample: an empty table at \<open>0x87ff0000\<close> and two free pages.\<close>

definition sample_nodes :: nodes where
  "sample_nodes = [(2, 0) \<mapsto> 0x87ff0000]"

definition sample_two_free :: kmem_state where
  "sample_two_free = sample_kmem (sd64 (\<lambda>_. 0) 0x87ff1000 0x87ff2000) 0x87ff1000"

lemma pt_ok_empty:
  assumes "pg_aligned root" "root \<noteq> 0" "\<And>x. x \<in> page root \<Longrightarrow> m x = 0"
  shows "pt_ok [(2, 0) \<mapsto> root] root m"
proof -
  have "ld64 m (slot root i) = 0" if "i < 512" for i
    using ld64_slot_cong [OF that, of root m "\<lambda>_. 0"] assms(3) by simp
  then show ?thesis using assms(1,2) by (intro pt_okI) (auto split: if_splits)
qed

lemma sample_pt_state: "pt_state sample_nodes 0x87ff0000 [0x87ff1000, 0x87ff2000] sample_two_free"
proof -
  have al: "pg_aligned 0x87ff0000" "pg_aligned 0x87ff1000" "pg_aligned 0x87ff2000"
    by (simp_all add: pg_aligned_def PGSIZE_def)
  have off: "sd64 (\<lambda>_. 0) 0x87ff1000 v x = 0" if "x \<in> page q" "pg_aligned q" "q \<noteq> 0x87ff1000" for v x q
    using pages_disjoint [OF that(2) al(2) that(3)] that(1) word_span8 [of "0x87ff1000"]
    by (intro sd64_other [THEN trans]) auto
  have "ld64 (sd64 (\<lambda>_. 0) 0x87ff1000 0x87ff2000) 0x87ff2000 = ld64 (\<lambda>_. 0) 0x87ff2000"
    by (rule ld64_cong) (use off [of _ "0x87ff2000"] al word_span8 [of "0x87ff2000"] in auto)
  moreover have "pt_ok sample_nodes 0x87ff0000 (sd64 (\<lambda>_. 0) 0x87ff1000 0x87ff2000)"
    unfolding sample_nodes_def by (rule pt_ok_empty) (use off al in auto)
  ultimately show ?thesis
    by (simp add: pt_state_def sample_two_free_def kmem_ok_def good_page_def al PHYSTOP_def KERNBASE_def)
       (simp add: sample_nodes_def ran_def)
qed

lemma vmap_sample: "vmap sample_nodes m = (\<lambda>_. None)"
  by (rule ext) (simp add: vmap_def sample_nodes_def)

text \<open>A sample: a table whose only mapping takes the first virtual page to \<open>0x87ff3000\<close>, readable and
  writable by the user.\<close>

definition sample_pte :: u64 where
  "sample_pte = PA2PTE 0x87ff3000 OR 0x17"

definition sample_table :: nodes where
  "sample_table = [(2, 0) \<mapsto> 0x87ff0000, (1, 0) \<mapsto> 0x87ff1000, (0, 0) \<mapsto> 0x87ff2000]"

definition sample_umem :: mem where
  "sample_umem = sd64 (link_node (link_node (\<lambda>_. 0) 0x87ff0000 0 0x87ff1000) 0x87ff1000 0 0x87ff2000)
     (slot 0x87ff2000 0) sample_pte"

lemma sample_table_ok: "pt_ok sample_table 0x87ff0000 sample_umem" "vmap sample_table sample_umem = [0 \<mapsto> sample_pte]"
proof -
  let ?N0 = "[(2, 0) \<mapsto> 0x87ff0000] :: nodes"
  let ?m1 = "link_node (\<lambda>_. 0) 0x87ff0000 0 0x87ff1000"
  let ?m2 = "link_node ?m1 0x87ff1000 0 0x87ff2000"
  have al: "pg_aligned 0x87ff0000" "pg_aligned 0x87ff1000" "pg_aligned 0x87ff2000"
    by (simp_all add: pg_aligned_def PGSIZE_def)
  have ok0: "pt_ok ?N0 0x87ff0000 (\<lambda>_. 0)" by (rule pt_ok_empty) (use al in simp_all)
  have h0: "?N0 (Suc 1, 0) = Some 0x87ff0000" by simp
  have r0: "?N0 (1, 512 * 0 + 0) = None" "0x87ff1000 \<notin> ran ?N0" by (auto simp: ran_def split: if_splits)
  have ok1: "pt_ok (?N0((1, 0) \<mapsto> 0x87ff1000)) 0x87ff0000 ?m1"
    using pt_ok_link [OF ok0 h0 _ r0 al(2)] by simp
  have v1: "vmap (?N0((1, 0) \<mapsto> 0x87ff1000)) ?m1 = vmap ?N0 (\<lambda>_. 0)"
    using vmap_link [OF ok0 h0 _ r0 al(2)] by simp
  have h1: "(?N0((1, 0) \<mapsto> 0x87ff1000)) (Suc 0, 0) = Some 0x87ff1000" by simp
  have r1: "(?N0((1, 0) \<mapsto> 0x87ff1000)) (0, 512 * 0 + 0) = None" "0x87ff2000 \<notin> ran (?N0((1, 0) \<mapsto> 0x87ff1000))"
    by (auto simp: ran_def split: if_splits)
  have "pt_ok (?N0((1, 0) \<mapsto> 0x87ff1000, (0, 0) \<mapsto> 0x87ff2000)) 0x87ff0000 ?m2"
    using pt_ok_link [OF ok1 h1 _ r1 al(3)] by simp
  moreover have "vmap (?N0((1, 0) \<mapsto> 0x87ff1000, (0, 0) \<mapsto> 0x87ff2000)) ?m2 = vmap (?N0((1, 0) \<mapsto> 0x87ff1000)) ?m1"
    using vmap_link [OF ok1 h1 _ r1 al(3)] by simp
  ultimately have ok2: "pt_ok sample_table 0x87ff0000 ?m2" and v2: "vmap sample_table ?m2 = (\<lambda>_. None)"
    using v1 by (simp_all add: sample_table_def vmap_sample [unfolded sample_nodes_def])
  have leaf: "sample_table (0, 0 div 512) = Some 0x87ff2000" by (simp add: sample_table_def)
  have bit: "bit sample_pte 0" by (simp add: sample_pte_def bit_PA2PTE)
  show "pt_ok sample_table 0x87ff0000 sample_umem"
    using pt_ok_set_leaf [OF ok2, of 0 _ 0] leaf by (simp add: sample_umem_def)
  show "vmap sample_table sample_umem = [0 \<mapsto> sample_pte]"
    using vmap_set_leaf [OF ok2 leaf, of sample_pte] v2 bit by (simp add: sample_umem_def)
qed

lemma PTE2PA_sample: "PTE2PA sample_pte = 0x87ff3000"
  unfolding sample_pte_def by (rule PTE2PA_PA2PTE) (simp_all add: pg_aligned_def PGSIZE_def flags_ok_def)

lemma sample_page_apart: "0x87ff3000 \<notin> ran sample_table"
  by (auto simp: ran_def sample_table_def split: if_splits)

lemma sample_mapped_state: "pt_state sample_table 0x87ff0000 [] (sample_kmem sample_umem 0)"
  by (simp add: pt_state_def sample_no_page sample_table_ok(1))

lemma sample_unmappable: "unmappable True sample_table [] (sample_kmem sample_umem 0) (vpn 0) 1"
proof -
  have "PTE_FLAGS sample_pte \<noteq> PTE_V"
    unfolding sample_pte_def
    by (subst PTE_FLAGS_PA2PTE) (simp_all add: flags_ok_def PTE_V_def)
  then show ?thesis
    using sample_page_apart
    by (simp add: unmappable_def vpn_def upages_def sample_table_ok(2) PTE2PA_sample good_page_def pg_aligned_def
        PGSIZE_def PHYSTOP_def KERNBASE_def)
qed

text \<open>C5: \<open>mappages\<close> adds exactly the requested run of page mappings to the abstract mapping of the
  table, taking new table nodes from the free list and writing to no page but the table's; it can
  fail only when the free list is exhausted, with a prefix of the run mapped.\<close>

theorem mappages_adds_run:
  assumes "pt_state N root ps s" "pg_aligned va" "0 < n" "unat va + 4096 * n \<le> unat MAXVA"
    "\<forall>w. vpn va \<le> w \<and> w < vpn va + n \<longrightarrow> vmap N (mem s) w = None"
  shows "\<exists>r t N' ps' k. mappages root va (of_nat (4096 * n)) pa perm s = Ret r t \<and>
    pt_state N' root ps' t \<and> pt_grow N ps s N' ps' t \<and> vmap N' (mem t) = map_range (vpn va) k pa perm (vmap N (mem s)) \<and>
    (r = 0 \<and> k = n \<or> r = -1 \<and> k < n \<and> ps' = [])"
  by (rule mappages_ok [OF assms])

theorem mappages_adds_run_witness:
  "\<exists>r t N' ps' k. mappages 0x87ff0000 0x3000 (of_nat (4096 * 1)) 0x87ff3000 PTE_R sample_two_free = Ret r t \<and>
    pt_state N' 0x87ff0000 ps' t \<and> pt_grow sample_nodes [0x87ff1000, 0x87ff2000] sample_two_free N' ps' t \<and>
    vmap N' (mem t) = map_range (vpn 0x3000) k 0x87ff3000 PTE_R (vmap sample_nodes (mem sample_two_free)) \<and>
    (r = 0 \<and> k = 1 \<or> r = -1 \<and> k < 1 \<and> ps' = [])"
  by (rule mappages_adds_run [OF sample_pt_state]) (simp_all add: pg_aligned_def PGSIZE_def vmap_sample)

text \<open>C29: \<open>uvmunmap\<close> removes exactly the requested run of mappings and, when asked to free, puts
  exactly the pages they mapped on the free list.\<close>

theorem uvmunmap_removes_run:
  assumes "pt_state N root ps s" "pg_aligned va" "unat va + 4096 * n \<le> unat MAXVA"
    "unmappable do_free N ps s (vpn va) n"
  shows "\<exists>t. uvmunmap root va (of_nat n) do_free s = Ret () t \<and>
    pt_state N root (if do_free then rev (upages (vmap N (mem s)) (vpn va) n) @ ps else ps) t \<and>
    vmap N (mem t) = unmap_range (vpn va) n (vmap N (mem s)) \<and>
    agree_off (ran N \<union> (if do_free then set (upages (vmap N (mem s)) (vpn va) n) else {})) (mem s) (mem t)"
  using uvmunmap_ok [OF assms] by blast

theorem uvmunmap_removes_run_witness:
  "\<exists>t. uvmunmap 0x87ff0000 0 (of_nat 1) True (sample_kmem sample_umem 0) = Ret () t \<and>
    pt_state sample_table 0x87ff0000
      (if True then rev (upages (vmap sample_table (mem (sample_kmem sample_umem 0))) (vpn 0) 1) @ [] else []) t \<and>
    vmap sample_table (mem t) = unmap_range (vpn 0) 1 (vmap sample_table (mem (sample_kmem sample_umem 0))) \<and>
    agree_off (ran sample_table \<union> (if True then set (upages (vmap sample_table (mem (sample_kmem sample_umem 0))) (vpn 0) 1) else {}))
      (mem (sample_kmem sample_umem 0)) (mem t)"
  by (rule uvmunmap_removes_run [OF sample_mapped_state _ _ sample_unmappable]) (simp_all add: pg_aligned_def)

end
