(* ===== verification/User_Mem.thy ===== *)
theory User_Mem
  imports Page_Table
begin

text \<open>
  The routines of \<^verbatim>\<open>kernel/vm.c\<close> that move bytes between the kernel and a user address space
  (\<open>copyout\<close>, \<open>copyin\<close>, \<open>copyinstr\<close>), and the ones that grow, copy and shrink a user address
  space, against the mapping of \<open>Page_Table\<close>: a user access reaches the byte its virtual
  address translates to, or is refused.
\<close>

subsection \<open>User addresses\<close>

text \<open>The byte a user-mode access to \<open>va\<close> reaches, for the permission bits \<open>bs\<close> it needs.\<close>

definition utrans :: "nat list \<Rightarrow> (nat \<Rightarrow> u64 option) \<Rightarrow> u64 \<Rightarrow> u64 option" where
  "utrans bs M va =
     (if va < MAXVA then
        (case M (vpn va) of
           Some e \<Rightarrow> if list_all (bit e) bs then Some (PTE2PA e + of_nat (unat va mod 4096)) else None
         | None \<Rightarrow> None)
      else None)"

lemma walkaddr_ok:
  assumes "pt_ok N root (mem s)"
  shows "walkaddr root va s = Ret (if va < MAXVA then
      (case vmap N (mem s) (vpn va) of None \<Rightarrow> 0 | Some e \<Rightarrow> if bit e 4 then PTE2PA e else 0) else 0) s"
proof (cases "va < MAXVA")
  case False
  then have "MAXVA \<le> va" by simp
  with False show ?thesis by (simp add: walkaddr_def kern_simps)
next
  case True
  then have nge: "\<not> MAXVA \<le> va" by simp
  show ?thesis
  proof (cases "vmap N (mem s) (vpn va)")
    case None
    have "\<not> bit (ld64 (mem s) (leaf_slot N (vpn va))) 0" if "leaf_slot N (vpn va) \<noteq> 0"
      using that leaf_slot_0 [OF assms] ld64_leaf_slot None by blast
    with True nge None show ?thesis
      by (auto simp: walkaddr_def kern_simps walk_noalloc [OF assms True] PTE_V_bit)
  next
    case (Some e)
    then obtain p where p: "N (0, vpn va div 512) = Some p" "ld64 (mem s) (leaf_slot N (vpn va)) = e" "bit e 0"
      by (elim vmap_Some_leaf)
    have "leaf_slot N (vpn va) \<noteq> 0" using leaf_slot_0 [OF assms] p(1) by simp
    with True nge Some p show ?thesis
      by (auto simp: walkaddr_def kern_simps walk_noalloc [OF assms True] PTE_V_bit PTE_U_bit)
  qed
qed

lemma same_page:
  assumes "i < 4096 - unat va mod 4096"
  shows "unat (va + of_nat i) = unat va + i" "vpn (va + of_nat i) = vpn va"
    "unat (va + of_nat i) mod 4096 = unat va mod 4096 + i"
proof -
  have "unat va = unat (PGROUNDDOWN va) + unat va mod 4096" by (simp add: PGROUNDDOWN_unat)
  moreover have "unat (PGROUNDDOWN va) + 4096 \<le> 2 ^ 64" by (rule aligned_no_wrap) simp
  ultimately show u: "unat (va + of_nat i) = unat va + i"
    using assms by (intro unat_add_lt) simp
  define q r where "q = unat va div 4096" and "r = unat va mod 4096"
  have va: "unat va = 4096 * q + r" by (simp add: q_def r_def)
  have lt: "r + i < 4096" using assms by (simp add: r_def)
  have s: "unat va + i = 4096 * q + (r + i)" by (simp add: va)
  show "vpn (va + of_nat i) = vpn va" unfolding vpn_def u s using lt by (simp add: q_def)
  show "unat (va + of_nat i) mod 4096 = unat va mod 4096 + i" unfolding u s using lt by (simp add: r_def)
qed

lemma MAXVA_page: "va < MAXVA \<longleftrightarrow> vpn va < 67108864"
proof
  assume "va < MAXVA"
  then have "unat va < 67108864 * 4096" by (simp add: word_less_nat_alt)
  then show "vpn va < 67108864" unfolding vpn_def by (rule less_mult_imp_div_less)
next
  assume "vpn va < 67108864"
  then have "Suc (vpn va) * 4096 \<le> 67108864 * 4096" by (intro mult_le_mono1) simp
  moreover have "unat va < Suc (vpn va) * 4096"
    using div_mult_mod_eq [of "unat va" 4096] mod_less_divisor [of 4096 "unat va"] unfolding vpn_def by simp
  ultimately show "va < MAXVA" by (simp add: word_less_nat_alt)
qed

lemma vpn_PGROUNDDOWN [simp]: "vpn (PGROUNDDOWN va) = vpn va"
  by (simp add: vpn_def PGROUNDDOWN_unat)

lemma utrans_page:
  assumes "i < 4096 - unat va mod 4096" "utrans bs M va = Some pa"
  shows "utrans bs M (va + of_nat i) = Some (pa + of_nat i)"
  using assms same_page [OF assms(1)] MAXVA_page [of va] MAXVA_page [of "va + of_nat i"]
  by (auto simp: utrans_def add.assoc split: option.splits if_splits)

lemma page_offset_word: "of_nat (unat va mod 4096) = va - PGROUNDDOWN va"
  unfolding page_offset [symmetric] by simp

lemma page_end:
  assumes "copy_chunk va len < len"
  shows "PGROUNDDOWN va + PGSIZE = va + of_nat (copy_chunk va len)"
proof -
  have c: "copy_chunk va len = 4096 - unat va mod 4096" using assms by (simp add: copy_chunk_eq)
  have "va + of_nat (copy_chunk va len) = PGROUNDDOWN va + (of_nat (unat va mod 4096) + of_nat (copy_chunk va len))"
    unfolding page_offset_word by simp
  also have "\<dots> = PGROUNDDOWN va + of_nat (unat va mod 4096 + copy_chunk va len)" by simp
  also have "unat va mod 4096 + copy_chunk va len = 4096" using c mod_less_divisor [of 4096 "unat va"] by simp
  finally show ?thesis by (simp add: PGSIZE_def)
qed

lemma utrans_run:
  assumes "utrans bs M va \<noteq> None" "i < copy_chunk va len"
  shows "utrans bs M (va + of_nat i) = Some (the (utrans bs M va) + of_nat i)"
  using utrans_page [of i va bs M "the (utrans bs M va)"] assms by (auto simp: copy_chunk_eq)

subsection \<open>Copying out\<close>

definition ok_range :: "nat list \<Rightarrow> (nat \<Rightarrow> u64 option) \<Rightarrow> u64 \<Rightarrow> nat \<Rightarrow> bool" where
  "ok_range bs M va n \<longleftrightarrow> (\<forall>i<n. utrans bs M (va + of_nat i) \<noteq> None)"

lemma all_less_split:
  assumes "n \<le> (k :: nat)"
  shows "(\<forall>i<k. P i) \<longleftrightarrow> (\<forall>i<n. P i) \<and> (\<forall>i<k - n. P (n + i))"
proof (intro iffI conjI allI impI; (elim conjE)?)
  fix i
  assume "\<forall>i<n. P i" "\<forall>i<k - n. P (n + i)" "i < k"
  then show "P i" by (cases "i < n") (auto dest: spec [of _ "i - n"])
qed (use assms in auto)

lemma ok_range_split:
  assumes "n \<le> k"
  shows "ok_range bs M va k \<longleftrightarrow> ok_range bs M va n \<and> ok_range bs M (va + of_nat n) (k - n)"
proof -
  have "(\<forall>i<k. P i) \<longleftrightarrow> (\<forall>i<n. P i) \<and> (\<forall>i<k - n. P (n + i))" for P
    by (rule all_less_split [OF assms])
  from this [of "\<lambda>i. utrans bs M (va + of_nat i) \<noteq> None"] show ?thesis
    by (simp add: ok_range_def add.assoc)
qed

lemma ok_range_chunk: "0 < len \<Longrightarrow> ok_range bs M va (copy_chunk va len) \<longleftrightarrow> utrans bs M va \<noteq> None"
  using utrans_run [of bs M va] copy_chunk_pos [of len va] by (fastforce simp: ok_range_def)

text \<open>The user's view of a write: one byte after the other, each where its address maps.\<close>

primrec uwr :: "(nat \<Rightarrow> u64 option) \<Rightarrow> u64 \<Rightarrow> u8 list \<Rightarrow> mem \<Rightarrow> mem" where
  "uwr M va [] m = m"
| "uwr M va (b # bs) m = uwr M (va + 1) bs (m(the (utrans [4, 2] M va) := b))"

lemma uwr_append: "uwr M va (xs @ ys) m = uwr M (va + of_nat (length xs)) ys (uwr M va xs m)"
  by (induction xs arbitrary: va m) (simp_all add: add.assoc)

lemma wr_bytes_Cons:
  assumes "length bs < 2 ^ 64 - 1"
  shows "wr_bytes m a (b # bs) = wr_bytes (m(a := b)) (a + 1) bs"
proof
  fix x
  show "wr_bytes m a (b # bs) x = wr_bytes (m(a := b)) (a + 1) bs x"
  proof (cases "x = a")
    case True
    have "unat (a - (a + 1)) = 2 ^ 64 - 1" by (simp add: unsigned_minus_1_eq_mask mask_eq_exp_minus_1)
    with True assms show ?thesis by (simp add: wr_bytes_def)
  next
    case False
    then have "x - a \<noteq> 0" by simp
    then have "unat (x - a) = Suc (unat (x - a - 1))" by (metis Suc_pred' unat_gt_0 unat_minus_one)
    moreover have "x - a - 1 = x - (a + 1)" by simp
    ultimately show ?thesis using False by (simp add: wr_bytes_def)
  qed
qed

lemma uwr_run:
  assumes "length xs \<le> 4096 - unat va mod 4096" "utrans [4, 2] M va = Some pa"
  shows "uwr M va xs m = wr_bytes m pa xs"
  using assms
proof (induction xs arbitrary: va pa m)
  case Nil
  then show ?case by simp
next
  case (Cons b bs)
  show ?case
  proof (cases bs)
    case Nil
    with Cons.prems show ?thesis by (simp add: wr_bytes_Cons)
  next
    case (Cons c cs)
    with Cons.prems have i: "1 < 4096 - unat va mod 4096" by simp
    have n: "utrans [4, 2] M (va + 1) = Some (pa + 1)" using utrans_page [OF i Cons.prems(2)] by simp
    have "length bs \<le> 4096 - unat (va + 1) mod 4096"
      using same_page(3) [OF i] Cons.prems(1) by simp
    from Cons.IH [OF this n] Cons.prems show ?thesis by (simp add: wr_bytes_Cons fun_upd_def)
  qed
qed

lemma agree_off_wr_run:
  assumes "off + length xs \<le> 4096"
  shows "agree_off {p} m (wr_bytes m (p + of_nat off) xs)"
  unfolding agree_off_def
proof (intro allI impI)
  fix x
  assume x: "\<forall>q \<in> {p}. x \<notin> page q"
  have "x \<notin> span (p + of_nat off) (length xs)"
  proof
    assume "x \<in> span (p + of_nat off) (length xs)"
    then obtain i where i: "i < length xs" "x = p + of_nat off + of_nat i" using in_spanD by blast
    then have "x = p + of_nat (off + i)" by (simp add: add.assoc)
    moreover have "p + of_nat (off + i) \<in> page p" by (rule add_in_span) (use i(1) assms in auto)
    ultimately show False using x by simp
  qed
  then show "wr_bytes m (p + of_nat off) xs x = m x" by (rule wr_bytes_other)
qed

text \<open>No page a user may access is a node of the page table, and none is the null page.\<close>

definition isolated :: "nodes \<Rightarrow> (nat \<Rightarrow> u64 option) \<Rightarrow> bool" where
  "isolated N M \<longleftrightarrow> (\<forall>v e. M v = Some e \<longrightarrow> bit e 4 \<longrightarrow> PTE2PA e \<notin> ran N \<and> PTE2PA e \<noteq> 0)"

lemma table_unharmed:
  assumes ok: "pt_ok N root m" and iso: "isolated N M" and tr: "utrans bs M va = Some pa" and four: "4 \<in> set bs"
    and len: "length xs \<le> 4096 - unat va mod 4096"
  shows "pt_ok N root (wr_bytes m pa xs)" "vmap N (wr_bytes m pa xs) = vmap N m"
proof -
  from tr four obtain e where e: "M (vpn va) = Some e" "bit e 4" "pa = PTE2PA e + of_nat (unat va mod 4096)"
    by (auto simp: utrans_def list_all_iff split: if_splits option.splits)
  have ag: "agree_off {PTE2PA e} m (wr_bytes m pa xs)"
    unfolding e(3) by (rule agree_off_wr_run) (use len mod_less_divisor [of 4096 "unat va"] in simp)
  have "wr_bytes m pa xs x = m x" if "p \<in> ran N" "x \<in> page p" for x p
  proof (rule agree_offD [OF ag that(2)])
    show "pg_aligned p" using that(1) pt_ok_node [OF ok] by (fastforce simp: ran_def)
    show "p \<notin> {PTE2PA e}" using that(1) iso e by (auto simp: isolated_def)
  qed simp
  then show "pt_ok N root (wr_bytes m pa xs)" "vmap N (wr_bytes m pa xs) = vmap N m"
    using pt_ok_cong [OF ok] vmap_cong by blast+
qed

lemma copyout_bad:
  assumes ok: "pt_ok N root (mem s)" and src: "src \<noteq> []" and bad: "utrans [4, 2] (vmap N (mem s)) va = None"
  shows "copyout root va src s = Ret (-1) s"
proof (cases "va < MAXVA")
  case False
  then have "MAXVA \<le> PGROUNDDOWN va" using MAXVA_page [of va] MAXVA_page [of "PGROUNDDOWN va"] by simp
  with src show ?thesis by (simp add: copyout.simps [of root va])
next
  case True
  then have va0: "PGROUNDDOWN va < MAXVA" using MAXVA_page [of va] MAXVA_page [of "PGROUNDDOWN va"] by simp
  then have nge: "\<not> MAXVA \<le> PGROUNDDOWN va" by simp
  let ?a = "leaf_slot N (vpn va)"
  have "?a = 0 \<or> \<not> bit (ld64 (mem s) ?a) 0 \<or> \<not> bit (ld64 (mem s) ?a) 4 \<or> \<not> bit (ld64 (mem s) ?a) 2"
  proof (cases "vmap N (mem s) (vpn va)")
    case None
    then show ?thesis using leaf_slot_0 [OF ok] ld64_leaf_slot by blast
  next
    case (Some e)
    with bad True have "\<not> bit e 4 \<or> \<not> bit e 2" by (auto simp: utrans_def)
    moreover have "ld64 (mem s) ?a = e" using Some by (elim vmap_Some_leaf)
    ultimately show ?thesis by simp
  qed
  with src va0 show ?thesis
    by (auto simp: copyout.simps [of root va] kern_simps walk_noalloc [OF ok va0] PTE_V_bit PTE_U_bit PTE_W_bit nge
        Let_def)
qed

lemma copyout_step:
  assumes ok: "pt_ok N root (mem s)" and src: "src \<noteq> []" and tr: "utrans [4, 2] (vmap N (mem s)) va = Some pa"
  defines "n \<equiv> copy_chunk va (length src)"
  shows "copyout root va src s = copyout root (va + of_nat n) (drop n src) (s\<lparr>mem := wr_bytes (mem s) pa (take n src)\<rparr>)"
proof -
  from tr obtain e where e: "va < MAXVA" "vmap N (mem s) (vpn va) = Some e" "bit e 4" "bit e 2"
      "pa = PTE2PA e + of_nat (unat va mod 4096)"
    by (auto simp: utrans_def split: if_splits option.splits)
  have va0: "PGROUNDDOWN va < MAXVA" using e(1) MAXVA_page [of va] MAXVA_page [of "PGROUNDDOWN va"] by simp
  then have nge: "\<not> MAXVA \<le> PGROUNDDOWN va" by simp
  obtain p where p: "N (0, vpn va div 512) = Some p" "ld64 (mem s) (leaf_slot N (vpn va)) = e" "bit e 0"
    using e(2) by (elim vmap_Some_leaf)
  have nz: "leaf_slot N (vpn va) \<noteq> 0" using leaf_slot_0 [OF ok] p(1) by simp
  note off = page_offset_word [of va]
  let ?s = "s\<lparr>mem := wr_bytes (mem s) pa (take n src)\<rparr>"
  have "copyout root va src s = copyout root (PGROUNDDOWN va + PGSIZE) (drop n src) ?s"
    using src va0 e nz p
    by (simp add: copyout.simps [of root va] kern_simps walk_noalloc [OF ok va0] PTE_V_bit PTE_U_bit PTE_W_bit nge
        Let_def n_def off)
  also have "\<dots> = copyout root (va + of_nat n) (drop n src) ?s"
  proof (cases "n < length src")
    case True
    then show ?thesis using page_end [of va "length src"] by (simp add: n_def)
  next
    case False
    then show ?thesis by (simp add: copyout.simps)
  qed
  finally show ?thesis .
qed

lemma copyout_spec:
  assumes "pt_ok N root (mem s)" "isolated N M" "vmap N (mem s) = M"
  shows "\<exists>k \<le> length src. copyout root va src s =
      Ret (if ok_range [4, 2] M va (length src) then 0 else -1) (s\<lparr>mem := uwr M va (take k src) (mem s)\<rparr>) \<and>
    (ok_range [4, 2] M va (length src) \<longrightarrow> k = length src) \<and> ok_range [4, 2] M va k"
  using assms
proof (induction "length src" arbitrary: src va s rule: less_induct)
  case less
  note ok = less.prems(1) and iso = less.prems(2) and M = less.prems(3)
  show ?case
  proof (cases "src = []")
    case True
    then show ?thesis by (simp add: copyout.simps ok_range_def)
  next
    case ne: False
    let ?n = "copy_chunk va (length src)"
    have n: "0 < ?n" "?n \<le> length src" using ne copy_chunk_pos [of "length src" va] by (auto simp: copy_chunk_eq)
    show ?thesis
    proof (cases "utrans [4, 2] M va")
      case None
      then have "\<not> ok_range [4, 2] M va (length src)" using ne by (auto simp: ok_range_def intro!: exI [of _ 0])
      with copyout_bad [OF ok ne] None M show ?thesis by (auto simp: ok_range_def intro!: exI [of _ 0])
    next
      case (Some pa)
      let ?m = "wr_bytes (mem s) pa (take ?n src)"
      have tl: "length (take ?n src) \<le> 4096 - unat va mod 4096" by (simp add: copy_chunk_eq)
      note unh = table_unharmed [OF ok iso Some _ tl, simplified]
      have "\<exists>k \<le> length (drop ?n src). copyout root (va + of_nat ?n) (drop ?n src) (s\<lparr>mem := ?m\<rparr>) =
          Ret (if ok_range [4, 2] M (va + of_nat ?n) (length (drop ?n src)) then 0 else -1)
            ((s\<lparr>mem := ?m\<rparr>)\<lparr>mem := uwr M (va + of_nat ?n) (take k (drop ?n src)) (mem (s\<lparr>mem := ?m\<rparr>))\<rparr>) \<and>
          (ok_range [4, 2] M (va + of_nat ?n) (length (drop ?n src)) \<longrightarrow> k = length (drop ?n src)) \<and>
          ok_range [4, 2] M (va + of_nat ?n) k"
        by (rule less.hyps) (use n unh M iso in auto)
      then obtain k where k: "k \<le> length src - ?n" "copyout root (va + of_nat ?n) (drop ?n src) (s\<lparr>mem := ?m\<rparr>) =
          Ret (if ok_range [4, 2] M (va + of_nat ?n) (length src - ?n) then 0 else -1)
            (s\<lparr>mem := uwr M (va + of_nat ?n) (take k (drop ?n src)) ?m\<rparr>)"
          "ok_range [4, 2] M (va + of_nat ?n) (length src - ?n) \<longrightarrow> k = length src - ?n"
          "ok_range [4, 2] M (va + of_nat ?n) k" by auto
      have ch: "ok_range [4, 2] M va ?n" using ok_range_chunk [of "length src" "[4, 2]" M va] ne Some by simp
      have "uwr M va (take (?n + k) src) (mem s) = uwr M (va + of_nat ?n) (take k (drop ?n src)) ?m"
        using uwr_append [of M va "take ?n src" "take k (drop ?n src)"] uwr_run [OF tl Some] n(2)
        by (simp add: take_add)
      then show ?thesis
        using k ch n(2) copyout_step [OF ok ne] Some M ok_range_split [OF n(2), of "[4, 2]" M va]
          ok_range_split [of ?n "?n + k" "[4, 2]" M va]
        by (intro exI [of _ "?n + k"]) auto
    qed
  qed
qed

subsection \<open>Copying in\<close>

text \<open>The user's view of a read.\<close>

definition urd :: "(nat \<Rightarrow> u64 option) \<Rightarrow> u64 \<Rightarrow> nat \<Rightarrow> mem \<Rightarrow> u8 list" where
  "urd M va n m = map (\<lambda>i. m (the (utrans [4] M (va + of_nat i)))) [0..<n]"

lemma length_urd [simp]: "length (urd M va n m) = n"
  by (simp add: urd_def)

lemma urd_split: "n \<le> k \<Longrightarrow> urd M va k m = urd M va n m @ urd M (va + of_nat n) (k - n) m"
  by (rule nth_equalityI) (auto simp: urd_def nth_append add.assoc of_nat_diff)

lemma urd_run:
  assumes "n \<le> 4096 - unat va mod 4096" "utrans [4] M va = Some pa"
  shows "urd M va n m = rd_bytes m pa n"
  using assms utrans_page [of _ va "[4]" M pa] by (intro nth_equalityI) (simp_all add: urd_def)

lemma walkaddr_utrans:
  assumes ok: "pt_ok N root (mem s)" and iso: "isolated N (vmap N (mem s))"
  shows "walkaddr root (PGROUNDDOWN va) s = Ret (case utrans [4] (vmap N (mem s)) va of
      None \<Rightarrow> 0 | Some pa \<Rightarrow> pa - (va - PGROUNDDOWN va)) s"
    and "utrans [4] (vmap N (mem s)) va = Some pa \<Longrightarrow> pa - (va - PGROUNDDOWN va) \<noteq> 0"
  using walkaddr_ok [OF ok, of "PGROUNDDOWN va"] MAXVA_page [of va] MAXVA_page [of "PGROUNDDOWN va"] iso
  by (auto simp: utrans_def page_offset_word isolated_def split: option.splits if_splits)

lemma copyin_spec:
  assumes ok: "pt_ok N root (mem s)" and iso: "isolated N (vmap N (mem s))"
  defines "M \<equiv> vmap N (mem s)"
  shows "\<exists>k. copyin root va len s = Ret (if ok_range [4] M va len then 0 else -1, urd M va k (mem s)) s \<and> k \<le> len \<and>
    (ok_range [4] M va len \<longrightarrow> k = len)"
proof (induction len arbitrary: va rule: less_induct)
  case (less len)
  show ?case
  proof (cases "len = 0")
    case True
    then show ?thesis by (simp add: copyin.simps ok_range_def urd_def)
  next
    case False
    let ?n = "copy_chunk va len"
    have n: "0 < ?n" "?n \<le> len" using False copy_chunk_pos [of len va] by (auto simp: copy_chunk_eq)
    show ?thesis
    proof (cases "utrans [4] M va")
      case None
      then have "\<not> ok_range [4] M va len" using False by (auto simp: ok_range_def intro!: exI [of _ 0])
      with None False walkaddr_utrans [OF ok iso, of va] show ?thesis
        by (intro exI [of _ 0]) (simp add: copyin.simps [of root va] kern_simps M_def urd_def)
    next
      case (Some pa)
      have ch: "ok_range [4] M va ?n" using ok_range_chunk [of len "[4]" M va] False Some by simp
      obtain k where k: "copyin root (va + of_nat ?n) (len - ?n) s =
          Ret (if ok_range [4] M (va + of_nat ?n) (len - ?n) then 0 else -1, urd M (va + of_nat ?n) k (mem s)) s"
          "k \<le> len - ?n" "ok_range [4] M (va + of_nat ?n) (len - ?n) \<longrightarrow> k = len - ?n"
        using less.IH [of "len - ?n" "va + of_nat ?n"] n by auto
      have nxt: "copyin root (PGROUNDDOWN va + PGSIZE) (len - ?n) s = copyin root (va + of_nat ?n) (len - ?n) s"
        using page_end [of va len] by (cases "?n < len") (simp_all add: copyin.simps)
      have rd: "rd_bytes (mem s) pa ?n = urd M va ?n (mem s)"
        using urd_run [OF _ Some, of ?n] by (simp add: copy_chunk_eq)
      have "copyin root va len s = Ret (if ok_range [4] M va len then 0 else -1, urd M va (?n + k) (mem s)) s"
        using False Some walkaddr_utrans [OF ok iso, of va] k(1) ch n(2) rd
          ok_range_split [OF n(2), of "[4]" M va] urd_split [of ?n "?n + k" M va "mem s"]
        by (simp add: copyin.simps [of root va] kern_simps M_def [symmetric] Let_def nxt)
      with k ch n(2) ok_range_split [OF n(2), of "[4]" M va] show ?thesis by (intro exI [of _ "?n + k"]) auto
    qed
  qed
qed

text \<open>Pages of distinct virtual pages are distinct, so that what was written is read back.\<close>

definition unaliased :: "(nat \<Rightarrow> u64 option) \<Rightarrow> bool" where
  "unaliased M \<longleftrightarrow> (\<forall>v w e e'. M v = Some e \<longrightarrow> M w = Some e' \<longrightarrow> PTE2PA e = PTE2PA e' \<longrightarrow> v = w)"

lemma utrans_inj:
  assumes "unaliased M" "utrans bs M a = Some x" "utrans cs M b = Some x"
  shows "a = b"
proof -
  from assms(2,3) obtain e f where e: "M (vpn a) = Some e" "x = PTE2PA e + of_nat (unat a mod 4096)"
    and f: "M (vpn b) = Some f" "x = PTE2PA f + of_nat (unat b mod 4096)"
    by (auto simp: utrans_def split: if_splits option.splits)
  have "x \<in> page (PTE2PA e)" by (simp add: e(2))
  moreover have "x \<in> page (PTE2PA f)" by (simp add: f(2))
  ultimately have ef: "PTE2PA e = PTE2PA f" using pages_disjoint [of "PTE2PA e" "PTE2PA f"] by auto
  then have v: "vpn a = vpn b" using assms(1) e(1) f(1) by (simp add: unaliased_def)
  have "(of_nat (unat a mod 4096) :: u64) = of_nat (unat b mod 4096)" using e(2) f(2) ef by simp
  then have "unat a mod 4096 = unat b mod 4096"
    using word_add_of_nat_inj [of "unat a mod 4096" "unat b mod 4096" "0 :: u64"] mod_less_divisor [of 4096 "unat a"]
      mod_less_divisor [of 4096 "unat b"] by simp
  with v show ?thesis unfolding vpn_def by (metis div_mult_mod_eq word_unat_eq_iff)
qed

lemma utrans_weaken: "utrans [4, 2] M a = Some x \<Longrightarrow> utrans [4] M a = Some x"
  by (auto simp: utrans_def split: if_splits option.splits)

lemma uwr_other:
  assumes "ok_range [4, 2] M va (length xs)" "\<And>i. i < length xs \<Longrightarrow> utrans [4, 2] M (va + of_nat i) \<noteq> Some x"
  shows "uwr M va xs m x = m x"
  using assms
proof (induction xs arbitrary: va m)
  case Nil
  then show ?case by simp
next
  case (Cons b bs)
  have "x \<noteq> the (utrans [4, 2] M va)" using Cons.prems(1) Cons.prems(2) [of 0] by (auto simp: ok_range_def)
  moreover have "uwr M (va + 1) bs m' x = m' x" for m'
  proof (rule Cons.IH)
    show "ok_range [4, 2] M (va + 1) (length bs)"
      using Cons.prems(1) ok_range_split [of 1 "Suc (length bs)" "[4, 2]" M va] by simp
    show "utrans [4, 2] M (va + 1 + of_nat i) \<noteq> Some x" if "i < length bs" for i
      using Cons.prems(2) [of "Suc i"] that by (simp add: add.assoc)
  qed
  ultimately show ?case by simp
qed

lemma uwr_at:
  assumes "unaliased M" "ok_range [4, 2] M va (length xs)" "i < length xs" "length xs < 2 ^ 64"
  shows "uwr M va xs m (the (utrans [4, 2] M (va + of_nat i))) = xs ! i"
  using assms(2-4)
proof (induction xs arbitrary: va m i)
  case Nil
  then show ?case by simp
next
  case (Cons b bs)
  have ok: "ok_range [4, 2] M (va + 1) (length bs)"
    using Cons.prems(1) ok_range_split [of 1 "Suc (length bs)" "[4, 2]" M va] by simp
  show ?case
  proof (cases i)
    case 0
    obtain x where x: "utrans [4, 2] M va = Some x" using Cons.prems(1) by (auto simp: ok_range_def)
    have "uwr M (va + 1) bs m' x = m' x" for m'
    proof (rule uwr_other [OF ok])
      fix j
      assume j: "j < length bs"
      show "utrans [4, 2] M (va + 1 + of_nat j) \<noteq> Some x"
      proof
        assume "utrans [4, 2] M (va + 1 + of_nat j) = Some x"
        from utrans_inj [OF assms(1) this x] have "va + of_nat (Suc j) = va + of_nat 0" by (simp add: add.assoc)
        then show False using j Cons.prems(3) by (subst (asm) word_add_of_nat_inj) simp_all
      qed
    qed
    with x 0 show ?thesis by simp
  next
    case (Suc j)
    with Cons.IH [OF ok, of j] Cons.prems show ?thesis by (simp add: add.assoc)
  qed
qed

lemma urd_uwr:
  assumes "unaliased M" "ok_range [4, 2] M va (length xs)" "length xs < 2 ^ 64"
  shows "urd M va (length xs) (uwr M va xs m) = xs"
proof (rule nth_equalityI)
  fix i
  assume "i < length (urd M va (length xs) (uwr M va xs m))"
  then have i: "i < length xs" by (simp add: urd_def)
  then obtain x where x: "utrans [4, 2] M (va + of_nat i) = Some x" using assms(2) by (auto simp: ok_range_def)
  with utrans_weaken [OF x] uwr_at [OF assms(1,2) i assms(3), of m] i
  show "urd M va (length xs) (uwr M va xs m) ! i = xs ! i" by (simp add: urd_def)
qed (simp add: urd_def)

subsection \<open>Copying a string in\<close>

primrec ustr :: "(nat \<Rightarrow> u64 option) \<Rightarrow> mem \<Rightarrow> u64 \<Rightarrow> nat \<Rightarrow> u8 list option" where
  "ustr M m va 0 = None"
| "ustr M m va (Suc n) = (case utrans [4] M va of
      None \<Rightarrow> None
    | Some pa \<Rightarrow> if m pa = 0 then Some [0] else map_option (\<lambda>cs. m pa # cs) (ustr M m (va + 1) n))"

lemma append_Cons_fun: "(@) (x # xs) = (\<lambda>ys. x # xs @ ys)"
  by (rule ext) simp

lemma ustr_run:
  assumes "n \<le> k" "n \<le> 4096 - unat va mod 4096" "utrans [4] M va \<noteq> None" "n = 0 \<longrightarrow> False"
  shows "ustr M m va k = (case copyinstr_run (urd M va n m) of (bs, got_null) \<Rightarrow>
    if got_null then Some bs else map_option (\<lambda>cs. bs @ cs) (ustr M m (va + of_nat n) (k - n)))"
  using assms
proof (induction n arbitrary: va k)
  case 0
  then show ?case by simp
next
  case (Suc n)
  obtain pa where pa: "utrans [4] M va = Some pa" using Suc.prems(3) by auto
  obtain k' where k: "k = Suc k'" using Suc.prems(1) by (cases k) auto
  have u: "urd M va (Suc n) m = m pa # urd M (va + 1) n m"
    using urd_split [of 1 "Suc n" M va m] pa by (simp add: urd_def)
  show ?case
  proof (cases "n = 0")
    case True
    then show ?thesis using pa k u by (cases "ustr M m (va + 1) k'") (simp_all add: urd_def)
  next
    case False
    have i: "1 < 4096 - unat va mod 4096" using Suc.prems(2) False by simp
    have t: "utrans [4] M (va + 1) \<noteq> None" using utrans_page [OF i pa] by simp
    have le: "n \<le> 4096 - unat (va + 1) mod 4096" using same_page(3) [OF i] Suc.prems(2) by simp
    from Suc.IH [of k' "va + 1"] Suc.prems(1) k t le False pa u show ?thesis
      by (simp add: add.assoc option.map_comp comp_def append_Cons_fun split: prod.splits)
  qed
qed

lemma copyinstr_spec:
  assumes ok: "pt_ok N root (mem s)" and iso: "isolated N (vmap N (mem s))"
  defines "M \<equiv> vmap N (mem s)"
  shows "\<exists>bs. copyinstr root va max_len s =
    Ret (case ustr M (mem s) va max_len of Some cs \<Rightarrow> (0, cs) | None \<Rightarrow> (-1, bs)) s"
proof (induction max_len arbitrary: va rule: less_induct)
  case (less len)
  show ?case
  proof (cases "len = 0")
    case True
    then show ?thesis by (simp add: copyinstr.simps)
  next
    case False
    let ?n = "copy_chunk va len"
    have n: "0 < ?n" "?n \<le> len" using False copy_chunk_pos [of len va] by (auto simp: copy_chunk_eq)
    show ?thesis
    proof (cases "utrans [4] M va")
      case None
      with False walkaddr_utrans [OF ok iso, of va] show ?thesis
        by (cases len) (simp_all add: copyinstr.simps [of root va] kern_simps M_def)
    next
      case (Some pa)
      obtain bs where bs: "copyinstr root (va + of_nat ?n) (len - ?n) s =
          Ret (case ustr M (mem s) (va + of_nat ?n) (len - ?n) of Some cs \<Rightarrow> (0, cs) | None \<Rightarrow> (-1, bs)) s"
        using less.IH [of "len - ?n" "va + of_nat ?n"] n by auto
      have nxt: "copyinstr root (PGROUNDDOWN va + PGSIZE) (len - ?n) s = copyinstr root (va + of_nat ?n) (len - ?n) s"
        using page_end [of va len] by (cases "?n < len") (simp_all add: copyinstr.simps)
      have rd: "rd_bytes (mem s) pa ?n = urd M va ?n (mem s)"
        using urd_run [OF _ Some, of ?n] by (simp add: copy_chunk_eq)
      have us: "ustr M (mem s) va len = (case copyinstr_run (urd M va ?n (mem s)) of (bs, got_null) \<Rightarrow>
          if got_null then Some bs else map_option (\<lambda>cs. bs @ cs) (ustr M (mem s) (va + of_nat ?n) (len - ?n)))"
        by (rule ustr_run) (use n Some in \<open>auto simp: copy_chunk_eq\<close>)
      show ?thesis
        using False Some walkaddr_utrans [OF ok iso, of va] rd
        by (auto simp: copyinstr.simps [of root va] kern_simps M_def [symmetric] Let_def nxt bs us
            split: prod.splits option.splits)
    qed
  qed
qed

lemma ustr_terminated:
  "ustr M m va n = Some cs \<Longrightarrow> \<exists>bs. cs = bs @ [0] \<and> 0 \<notin> set bs \<and> length cs \<le> n \<and> cs = urd M va (length cs) m"
proof (induction n arbitrary: va cs)
  case 0
  then show ?case by simp
next
  case (Suc n)
  then obtain pa where pa: "utrans [4] M va = Some pa" by (auto split: option.splits)
  show ?case
  proof (cases "m pa = 0")
    case True
    with Suc.prems pa show ?thesis by (auto simp: urd_def)
  next
    case False
    with Suc.prems pa obtain ds where ds: "ustr M m (va + 1) n = Some ds" "cs = m pa # ds" by auto
    from Suc.IH [OF ds(1)] obtain bs where bs: "ds = bs @ [0]" "0 \<notin> set bs" "length ds \<le> n" "ds = urd M (va + 1) (length ds) m"
      by blast
    have "urd M va (Suc (length ds)) m = m pa # urd M (va + 1) (length ds) m"
      using urd_split [of 1 "Suc (length ds)" M va m] pa by (simp add: urd_def)
    then show ?thesis
      using ds bs False by (intro exI [of _ "m pa # bs"]) auto
  qed
qed

subsection \<open>The tables survive\<close>

lemma utrans_off_table:
  assumes "pt_ok N root m" "isolated N M" "p \<in> ran N" "x \<in> page p" "4 \<in> set bs"
  shows "utrans bs M a \<noteq> Some x"
proof
  assume "utrans bs M a = Some x"
  with assms(5) obtain e where e: "M (vpn a) = Some e" "bit e 4" "x = PTE2PA e + of_nat (unat a mod 4096)"
    by (auto simp: utrans_def list_all_iff split: if_splits option.splits)
  have "x \<in> page (PTE2PA e)" by (simp add: e(3))
  moreover have "pg_aligned p" using assms(3) pt_ok_node [OF assms(1)] by (fastforce simp: ran_def)
  moreover have "PTE2PA e \<noteq> p" using assms(2,3) e by (auto simp: isolated_def)
  ultimately show False using assms(4) pages_disjoint [of p "PTE2PA e"] by auto
qed

lemma uwr_table:
  assumes "pt_ok N root m" "isolated N M" "ok_range [4, 2] M va (length xs)"
  shows "pt_ok N root (uwr M va xs m)" "vmap N (uwr M va xs m) = vmap N m"
proof -
  have "uwr M va xs m x = m x" if "p \<in> ran N" "x \<in> page p" for x p
    by (rule uwr_other [OF assms(3)]) (use utrans_off_table [OF assms(1,2) that] in auto)
  then show "pt_ok N root (uwr M va xs m)" "vmap N (uwr M va xs m) = vmap N m"
    using pt_ok_cong [OF assms(1)] vmap_cong by blast+
qed

lemma copyout_copyin:
  assumes ok: "pt_ok N root (mem s)" and iso: "isolated N (vmap N (mem s))" and ua: "unaliased (vmap N (mem s))"
    and rng: "ok_range [4, 2] (vmap N (mem s)) va (length bs)" and len: "length bs < 2 ^ 64"
  shows "\<exists>t. copyout root va bs s = Ret 0 t \<and> copyin root va (length bs) t = Ret (0, bs) t"
proof -
  let ?M = "vmap N (mem s)"
  let ?t = "s\<lparr>mem := uwr ?M va bs (mem s)\<rparr>"
  from copyout_spec [OF ok iso refl, of bs va] rng have out: "copyout root va bs s = Ret 0 ?t" by auto
  note tab = uwr_table [OF ok iso rng]
  have rd: "ok_range [4] ?M va (length bs)"
    using rng utrans_weaken by (fastforce simp: ok_range_def)
  have "copyin root va (length bs) ?t = Ret (0, urd ?M va (length bs) (mem ?t)) ?t"
    using copyin_spec [of N root ?t va "length bs"] tab iso rd by auto
  with out urd_uwr [OF ua rng len] show ?thesis by simp
qed

subsection \<open>Properties\<close>

lemma sample_isolated:
  "isolated sample_table (vmap sample_table sample_umem)" "unaliased (vmap sample_table sample_umem)"
proof -
  show "isolated sample_table (vmap sample_table sample_umem)"
    using sample_page_apart by (auto simp: isolated_def sample_table_ok(2) PTE2PA_sample split: if_splits)
  show "unaliased (vmap sample_table sample_umem)"
    by (auto simp: unaliased_def sample_table_ok(2) split: if_splits)
qed

lemma sample_range: "ok_range [4, 2] (vmap sample_table sample_umem) 0x10 (length [1, 2, 3 :: u8])"
proof -
  have "utrans [4, 2] [0 \<mapsto> sample_pte] 0x10 \<noteq> None"
    by (simp add: utrans_def vpn_def sample_pte_def bit_PA2PTE MAXVA_def)
  moreover have "copy_chunk 0x10 3 = 3" by (simp add: copy_chunk_eq)
  ultimately show ?thesis
    using ok_range_chunk [of 3 "[4, 2]" "[0 \<mapsto> sample_pte]" "0x10"] by (simp add: sample_table_ok(2) numeral_3_eq_3)
qed

text \<open>C2: bytes \<open>copyout\<close> puts at a user address are the bytes \<open>copyin\<close> reads back from it, across
  page boundaries, for every range the user may write.\<close>

theorem copyout_copyin_roundtrip:
  assumes "pt_ok N root (mem s)" "isolated N (vmap N (mem s))" "unaliased (vmap N (mem s))"
    "ok_range [4, 2] (vmap N (mem s)) va (length bs)" "length bs < 2 ^ 64"
  shows "\<exists>t. copyout root va bs s = Ret 0 t \<and> copyin root va (length bs) t = Ret (0, bs) t"
  by (rule copyout_copyin [OF assms])

theorem copyout_copyin_roundtrip_witness:
  "\<exists>t. copyout 0x87ff0000 0x10 [1, 2, 3] (sample_kmem sample_umem 0) = Ret 0 t \<and>
     copyin 0x87ff0000 0x10 (length [1, 2, 3 :: u8]) t = Ret (0, [1, 2, 3]) t"
  by (rule copyout_copyin_roundtrip [where N = sample_table])
     (simp_all only: sample_kmem_simps sample_table_ok(1) sample_isolated sample_range, simp)

text \<open>C18: no user address or length makes \<open>copyout\<close> crash the kernel or touch a page table: it
  returns, with failure exactly when some byte of the range is not mapped writable for the user, it
  writes only a prefix of the bytes, to where their addresses map, and every mapping stays as it was.\<close>

theorem copyout_confined:
  assumes "pt_ok N root (mem s)" "isolated N (vmap N (mem s))"
  shows "\<exists>k t. copyout root va src s = Ret (if ok_range [4, 2] (vmap N (mem s)) va (length src) then 0 else -1) t \<and>
    mem t = uwr (vmap N (mem s)) va (take k src) (mem s) \<and> pt_ok N root (mem t) \<and> vmap N (mem t) = vmap N (mem s) \<and>
    (ok_range [4, 2] (vmap N (mem s)) va (length src) \<longrightarrow> take k src = src)"
proof -
  from copyout_spec [OF assms refl, of src va] obtain k where
    k: "k \<le> length src" "copyout root va src s =
      Ret (if ok_range [4, 2] (vmap N (mem s)) va (length src) then 0 else -1)
        (s\<lparr>mem := uwr (vmap N (mem s)) va (take k src) (mem s)\<rparr>)"
      "ok_range [4, 2] (vmap N (mem s)) va (length src) \<longrightarrow> k = length src" "ok_range [4, 2] (vmap N (mem s)) va k"
    by blast
  have "ok_range [4, 2] (vmap N (mem s)) va (length (take k src))" using k(1,4) by (simp add: min_def)
  from uwr_table [OF assms this] k show ?thesis by (intro exI [of _ k]) auto
qed

theorem copyout_confined_witness:
  "\<exists>k t. copyout 0x87ff0000 0xfff [1, 2, 3] (sample_kmem sample_umem 0) =
      Ret (if ok_range [4, 2] (vmap sample_table (mem (sample_kmem sample_umem 0))) 0xfff (length [1, 2, 3 :: u8]) then 0 else -1) t \<and>
    mem t = uwr (vmap sample_table (mem (sample_kmem sample_umem 0))) 0xfff (take k [1, 2, 3]) (mem (sample_kmem sample_umem 0)) \<and>
    pt_ok sample_table 0x87ff0000 (mem t) \<and> vmap sample_table (mem t) = vmap sample_table (mem (sample_kmem sample_umem 0)) \<and>
    (ok_range [4, 2] (vmap sample_table (mem (sample_kmem sample_umem 0))) 0xfff (length [1, 2, 3 :: u8]) \<longrightarrow>
      take k [1, 2, 3] = [1, 2, 3 :: u8])"
  by (rule copyout_confined [where N = sample_table]) (simp_all add: sample_table_ok(1) sample_isolated)

text \<open>C28: \<open>copyinstr\<close> succeeds exactly when a NUL is reached through readable user bytes within
  the limit, and then returns the user's bytes up to and including the first NUL.\<close>

theorem copyinstr_exact:
  assumes "pt_ok N root (mem s)" "isolated N (vmap N (mem s))"
  shows "\<exists>r bs. copyinstr root va max_len s = Ret (r, bs) s \<and>
    (r = 0 \<longleftrightarrow> ustr (vmap N (mem s)) (mem s) va max_len \<noteq> None) \<and>
    (r = 0 \<longrightarrow> (\<exists>cs. bs = cs @ [0] \<and> 0 \<notin> set cs \<and> length bs \<le> max_len \<and>
       bs = urd (vmap N (mem s)) va (length bs) (mem s)))"
proof (cases "ustr (vmap N (mem s)) (mem s) va max_len")
  case None
  with copyinstr_spec [OF assms, of va max_len] show ?thesis by auto
next
  case (Some cs)
  with copyinstr_spec [OF assms, of va max_len] ustr_terminated [OF Some] show ?thesis by auto
qed

theorem copyinstr_exact_witness:
  "\<exists>r bs. copyinstr 0x87ff0000 0x10 128 (sample_kmem sample_umem 0) = Ret (r, bs) (sample_kmem sample_umem 0) \<and>
    (r = 0 \<longleftrightarrow> ustr (vmap sample_table (mem (sample_kmem sample_umem 0))) (mem (sample_kmem sample_umem 0)) 0x10 128 \<noteq> None) \<and>
    (r = 0 \<longrightarrow> (\<exists>cs. bs = cs @ [0] \<and> 0 \<notin> set cs \<and> length bs \<le> 128 \<and>
       bs = urd (vmap sample_table (mem (sample_kmem sample_umem 0))) 0x10 (length bs) (mem (sample_kmem sample_umem 0))))"
  by (rule copyinstr_exact [where N = sample_table]) (simp_all add: sample_table_ok(1) sample_isolated)

end
