(* ===== verification/Sleeplock.thy ===== *)
theory Sleeplock
  imports Kalloc
begin

text \<open>
  \<^verbatim>\<open>kernel/sleeplock.c\<close>: locks a process can hold across a sleep. Each sits in a disk buffer or
  in an inode (\<open>slockid\<close>), with a spinlock of its own. \<open>quiet p s\<close> is the situation in which file
  system code runs: process \<open>p\<close> is on the CPU and no spinlock is held; \<open>wakes\<close> says that a
  routine changed the process table by making sleepers runnable, if at all.
\<close>

datatype slockid = S_buf nat | S_inode nat

record sleeplock =
  sl_locked :: bool
  sl_name :: string
  sl_pid :: int

record slock_state = kmem_state +
  slocks :: "slockid \<Rightarrow> sleeplock"

primrec sl_spin :: "slockid \<Rightarrow> lockid" where
  "sl_spin (S_buf i) = L_buf i"
| "sl_spin (S_inode i) = L_inode i"

primrec sl_chan :: "slockid \<Rightarrow> chan" where
  "sl_chan (S_buf i) = Ch_buflock i"
| "sl_chan (S_inode i) = Ch_inodelock i"

definition upd_slock :: "slockid \<Rightarrow> (sleeplock \<Rightarrow> sleeplock) \<Rightarrow> ('a slock_state_scheme, unit) kern" where
  "upd_slock k f = modf (\<lambda>s. s\<lparr>slocks := (slocks s)(k := f (slocks s k))\<rparr>)"

definition initsleeplock :: "slockid \<Rightarrow> string \<Rightarrow> ('a slock_state_scheme, unit) kern" where
  "initsleeplock k name =
     bnd (initlock (sl_spin k) ''sleep lock'') (\<lambda>_.
     upd_slock k (\<lambda>l. l\<lparr>sl_name := name, sl_locked := False, sl_pid := 0\<rparr>))"

text \<open>The body of \<open>acquiresleep\<close> from the test of the loop on; a process that found the lock taken
  comes back to it through \<open>acquiresleep_resume\<close>.\<close>

definition acquiresleep_loop :: "slockid \<Rightarrow> ('a slock_state_scheme, unit) kern" where
  "acquiresleep_loop k =
     bnd (gets (\<lambda>s. sl_locked (slocks s k))) (\<lambda>b.
     if b then sleep (sl_chan k) (sl_spin k)
     else
       bnd (upd_slock k (\<lambda>l. l\<lparr>sl_locked := True\<rparr>)) (\<lambda>_.
       bnd myproc_deref (\<lambda>p.
       bnd (gets (\<lambda>s. p_pid (procs s p))) (\<lambda>pid.
       bnd (upd_slock k (\<lambda>l. l\<lparr>sl_pid := pid\<rparr>)) (\<lambda>_.
       release (sl_spin k))))))"

definition acquiresleep :: "slockid \<Rightarrow> ('a slock_state_scheme, unit) kern" where
  "acquiresleep k = bnd (acquire (sl_spin k)) (\<lambda>_. acquiresleep_loop k)"

definition acquiresleep_resume :: "nat \<Rightarrow> bool \<Rightarrow> slockid \<Rightarrow> ('a slock_state_scheme, unit) kern" where
  "acquiresleep_resume p intena k =
     bnd (sleep_resume p intena (sl_spin k)) (\<lambda>_. acquiresleep_loop k)"

definition releasesleep :: "slockid \<Rightarrow> ('a slock_state_scheme, unit) kern" where
  "releasesleep k =
     bnd (acquire (sl_spin k)) (\<lambda>_.
     bnd (upd_slock k (\<lambda>l. l\<lparr>sl_locked := False\<rparr>)) (\<lambda>_.
     bnd (upd_slock k (\<lambda>l. l\<lparr>sl_pid := 0\<rparr>)) (\<lambda>_.
     bnd (wakeup (sl_chan k)) (\<lambda>_.
     release (sl_spin k)))))"

definition holdingsleep :: "slockid \<Rightarrow> ('a slock_state_scheme, bool) kern" where
  "holdingsleep k =
     bnd (acquire (sl_spin k)) (\<lambda>_.
     bnd (gets (\<lambda>s. slocks s k)) (\<lambda>l.
     bnd (if sl_locked l
          then bnd myproc_deref (\<lambda>p. gets (\<lambda>s. sl_pid l = p_pid (procs s p)))
          else ret False) (\<lambda>r.
     bnd (release (sl_spin k)) (\<lambda>_.
     ret r))))"

lemmas unfold_machine = settle_def acquired_def pushed_def pushed_cpu_def restore_def cpu_ok_def lock_free_def
  mach_defs intr_get_def Let_def

lemma slocks_frames [frame_simps]:
  "slocks (settle s) = slocks s" "slocks (acquired lk s) = slocks s"
  "settle (s\<lparr>slocks := f\<rparr>) = (settle s)\<lparr>slocks := f\<rparr>"
  "acquired lk (s\<lparr>slocks := f\<rparr>) = (acquired lk s)\<lparr>slocks := f\<rparr>"
  "restore s (t\<lparr>slocks := f\<rparr>) = (restore s t)\<lparr>slocks := f\<rparr>"
  "cpu_ok (s\<lparr>slocks := f\<rparr>) = cpu_ok s" "lock_free lk (s\<lparr>slocks := f\<rparr>) = lock_free lk s"
  "proc_locks_free (s\<lparr>slocks := f\<rparr>) = proc_locks_free s"
  by (simp_all add: unfold_machine proc_locks_free_def)

subsection \<open>Running with no spinlock held\<close>

definition quiet :: "nat \<Rightarrow> 'a machine_scheme \<Rightarrow> bool" where
  "quiet p s \<longleftrightarrow> cpu_ok s \<and> c_proc (cpus s (mycpu s)) = Some p \<and> p < NPROC \<and> (\<forall>lk. lock_free lk s)"

lemma quiet_settle [frame_simps]: "quiet p (settle s) = quiet p s"
  by (simp add: quiet_def frame_simps)

lemma quiet_procs [frame_simps]: "quiet p (s\<lparr>procs := f\<rparr>) = quiet p s"
  by (simp add: quiet_def frame_simps mach_defs)

lemma quiet_slocks [frame_simps]: "quiet p (s\<lparr>slocks := f\<rparr>) = quiet p s"
  by (simp add: quiet_def frame_simps mach_defs)

lemma quiet_mem [frame_simps]: "quiet p (s\<lparr>mem := f\<rparr>) = quiet p s" "quiet p (s\<lparr>freelist := g\<rparr>) = quiet p s"
  by (simp_all add: quiet_def frame_simps mach_defs)

lemma quietD:
  assumes "quiet p s"
  shows quiet_cpu: "cpu_ok s" and quiet_proc: "c_proc (cpus s (mycpu s)) = Some p" and quiet_lt: "p < NPROC"
    and quiet_free: "lock_free lk s" and quiet_procs_free: "proc_locks_free s"
  using assms by (simp_all add: quiet_def proc_locks_free_def)

lemma settle_acquired [frame_simps]: "cpu_ok s \<Longrightarrow> settle (acquired lk s) = acquired lk s"
  by (rule settle_nested) (auto simp: unfold_machine)

lemma cproc_acquired [frame_simps]:
  "c_proc (cpus (acquired lk s) (mycpu (acquired lk s))) = c_proc (cpus s (mycpu s))"
  by (simp add: unfold_machine)

lemma myproc_acquired:
  "quiet p s \<Longrightarrow> myproc_deref (acquired lk s) = Ret p (acquired lk s)"
  by (subst myproc_deref_run [of _ p]) (simp_all add: quietD frame_simps)

lemma proc_locks_free_acquired [frame_simps]:
  "\<forall>q. lk \<noteq> L_proc q \<Longrightarrow> proc_locks_free (acquired lk s) = proc_locks_free s"
  by (simp add: proc_locks_free_def frame_simps)

lemma sl_spin_not_proc [simp]: "sl_spin k \<noteq> L_proc q" "L_proc q \<noteq> sl_spin k"
  by (cases k; simp)+

definition wakes :: "(nat \<Rightarrow> proc) \<Rightarrow> (nat \<Rightarrow> proc) \<Rightarrow> bool" where
  "wakes f g \<longleftrightarrow> (\<forall>q. g q = f q \<or> p_state (f q) = SLEEPING \<and> g q = (f q)\<lparr>p_state := RUNNABLE\<rparr>)"

lemma wakes_refl [simp]: "wakes f f"
  by (simp add: wakes_def)

lemma wakes_trans: "wakes f g \<Longrightarrow> wakes g h \<Longrightarrow> wakes f h"
  unfolding wakes_def by (metis proc.select_convs(1) proc.surjective proc.update_convs(1) procstate.distinct)

lemma wakes_woken: "wakes f (woken ch me A f)"
  by (simp add: wakes_def woken_def)

lemma wakes_pid: "wakes f g \<Longrightarrow> p_pid (g q) = p_pid (f q)"
  unfolding wakes_def by (metis proc.select_convs(5) proc.surjective proc.update_convs(1))

subsection \<open>The routines\<close>

definition locked_by :: "int \<Rightarrow> sleeplock \<Rightarrow> bool" where
  "locked_by pid l \<longleftrightarrow> sl_locked l \<and> sl_pid l = pid"

lemma release_acquired_slocks [frame_simps]:
  "cpu_ok s \<Longrightarrow> lock_free lk s \<Longrightarrow>
     release lk ((acquired lk s)\<lparr>slocks := f\<rparr>) = Ret () ((settle s)\<lparr>slocks := f\<rparr>)"
  by (subst release_run [of s]) (simp_all add: frame_simps)

lemma release_acquired_slocks_procs [frame_simps]:
  "cpu_ok s \<Longrightarrow> lock_free lk s \<Longrightarrow>
     release lk ((acquired lk s)\<lparr>slocks := f, procs := g\<rparr>) = Ret () ((settle s)\<lparr>slocks := f, procs := g\<rparr>)"
  by (subst release_run [of s]) (simp_all add: frame_simps)

lemma myproc_slocks:
  assumes "quiet p s"
  shows "myproc_deref ((acquired lk s)\<lparr>slocks := f\<rparr>) = Ret p ((acquired lk s)\<lparr>slocks := f\<rparr>)"
proof -
  let ?A = "(acquired lk s)\<lparr>slocks := f\<rparr>"
  have "c_proc (cpus ?A (mycpu ?A)) = Some p"
    using cproc_acquired [of lk s] quiet_proc [OF assms] by (simp add: mach_defs)
  moreover have "cpu_ok ?A" "settle ?A = ?A" using quietD [OF assms] by (simp_all add: frame_simps)
  ultimately show ?thesis using myproc_deref_run [of ?A p] by simp
qed

lemma acquiresleep_run:
  assumes "quiet p s" "\<not> sl_locked (slocks s k)"
  shows "acquiresleep k s = Ret () ((settle s)\<lparr>slocks := (slocks s)(k := (slocks s k)
     \<lparr>sl_locked := True, sl_pid := p_pid (procs s p)\<rparr>)\<rparr>)"
  using assms quietD [OF assms(1)]
  by (simp add: acquiresleep_def acquiresleep_loop_def kern_simps acquire_run frame_simps upd_slock_def
      myproc_slocks [OF assms(1)])

lemma holdingsleep_run:
  assumes "quiet p s"
  shows "holdingsleep k s = Ret (locked_by (p_pid (procs s p)) (slocks s k)) (settle s)"
  using assms quietD [OF assms(1)]
  by (simp add: holdingsleep_def kern_simps acquire_run frame_simps myproc_acquired [OF assms(1)] locked_by_def)

lemma releasesleep_run:
  assumes "quiet p s"
  shows "releasesleep k s = Ret () ((settle s)\<lparr>
      slocks := (slocks s)(k := (slocks s k)\<lparr>sl_locked := False, sl_pid := 0\<rparr>),
      procs := woken (sl_chan k) (Some p) {..<NPROC} (procs s)\<rparr>)"
proof -
  let ?A = "(acquired (sl_spin k) s)\<lparr>slocks := (slocks s)(k := (slocks s k)\<lparr>sl_locked := False, sl_pid := 0\<rparr>)\<rparr>"
  have cp: "c_proc (cpus ?A (mycpu ?A)) = Some p"
    using cproc_acquired [of "sl_spin k" s] quiet_proc [OF assms] by (simp add: mach_defs)
  have ok: "cpu_ok ?A" using quietD [OF assms] by (simp add: frame_simps)
  have free: "proc_locks_free ?A" using quietD [OF assms] by (simp add: frame_simps)
  have "settle ?A = ?A" using quietD [OF assms] by (simp add: frame_simps)
  then have w: "wakeup (sl_chan k) ?A = Ret () (?A\<lparr>procs := woken (sl_chan k) (Some p) {..<NPROC} (procs s)\<rparr>)"
    using wakeup_run [OF ok free, of "sl_chan k", unfolded cp] by (simp add: frame_simps del: fun_upd_apply)
  show ?thesis
    using quietD [OF assms] w
    by (simp add: releasesleep_def kern_simps acquire_run frame_simps upd_slock_def)
qed

lemma acquiresleep_busy:
  assumes "quiet p s" "c_noff (cpus s (mycpu s)) = 0" "sl_locked (slocks s k)"
  shows "\<exists>t. acquiresleep k s = Swtch t \<and> in_crit (L_proc p) t \<and> lock_free (sl_spin k) t \<and>
    p_state (procs t p) = SLEEPING \<and> p_chan (procs t p) = Some (sl_chan k)"
proof -
  let ?A = "acquired (sl_spin k) s"
  have crit: "in_crit (sl_spin k) ?A" by (rule in_crit_acquired [OF assms(2)])
  have cp: "c_proc (cpus ?A (mycpu ?A)) = Some p" using quiet_proc [OF assms(1)] by (simp add: frame_simps)
  have lf: "lock_free (L_proc p) ?A" using quietD [OF assms(1)] by (simp add: frame_simps)
  from sleep_run [OF cp crit lf, of "sl_chan k"] obtain t where
    "(sleep (sl_chan k) (sl_spin k) ?A :: (unit, _) outcome) = Swtch t" "in_crit (L_proc p) t" "lock_free (sl_spin k) t"
    "procs t = (procs ?A)(p := (procs ?A p)\<lparr>p_chan := Some (sl_chan k), p_state := SLEEPING, p_context := cur_ctx ?A\<rparr>)"
    by auto
  moreover have "acquiresleep k s = sleep (sl_chan k) (sl_spin k) ?A"
    using quietD [OF assms(1)] assms(3)
    by (simp add: acquiresleep_def acquiresleep_loop_def kern_simps acquire_run frame_simps)
  ultimately show ?thesis by auto
qed

end
