(* ===== verification/Bio.thy ===== *)
theory Bio
  imports Sleeplock
begin

text \<open>
  \<^verbatim>\<open>kernel/bio.c\<close>: the buffer cache, a ring of \<open>NBUF\<close> buffers linked through \<open>prev\<close> and
  \<open>next\<close> with a sentinel head (index \<open>NBUF\<close> here), most recently used first.  The disk is the
  contents of its blocks; \<open>disk_rw\<close> is what \<open>virtio_disk_rw\<close> has done to a buffer when it returns,
  and \<open>dk_hist\<close> records the writes in order, for reasoning about crashes.
\<close>

definition BSIZE :: nat where "BSIZE = 1024"
definition MAXOPBLOCKS :: nat where "MAXOPBLOCKS = 10"
definition NBUF :: nat where "NBUF = MAXOPBLOCKS * 3"
definition ROOTDEV :: nat where "ROOTDEV = 1"

record disk =
  dk_blocks :: "nat \<Rightarrow> u8 list"
  dk_hist :: "(nat \<times> u8 list) list"

record buf =
  b_valid :: bool
  b_disk :: bool
  b_dev :: nat
  b_blockno :: nat
  b_refcnt :: nat
  b_prev :: nat
  b_next :: nat
  b_data :: "u8 list"

record bio_state = slock_state +
  dsk :: disk
  bufs :: "nat \<Rightarrow> buf"

abbreviation head :: nat where "head \<equiv> NBUF"

definition upd_buf :: "nat \<Rightarrow> (buf \<Rightarrow> buf) \<Rightarrow> ('a bio_state_scheme, unit) kern" where
  "upd_buf i f = modf (\<lambda>s. s\<lparr>bufs := (bufs s)(i := f (bufs s i))\<rparr>)"

definition dk_write :: "nat \<Rightarrow> u8 list \<Rightarrow> disk \<Rightarrow> disk" where
  "dk_write b d k = k\<lparr>dk_blocks := (dk_blocks k)(b := d), dk_hist := dk_hist k @ [(b, d)]\<rparr>"

definition disk_rw :: "nat \<Rightarrow> bool \<Rightarrow> ('a bio_state_scheme, unit) kern" where
  "disk_rw i write =
     bnd (gets (\<lambda>s. bufs s i)) (\<lambda>b.
     if write then modf (\<lambda>s. s\<lparr>dsk := dk_write (b_blockno b) (b_data b) (dsk s)\<rparr>)
     else bnd (gets (\<lambda>s. dk_blocks (dsk s) (b_blockno b))) (\<lambda>d. upd_buf i (\<lambda>b. b\<lparr>b_data := d\<rparr>)))"

definition binit_body :: "nat \<Rightarrow> ('a bio_state_scheme, unit) kern" where
  "binit_body i =
     bnd (gets (\<lambda>s. b_next (bufs s head))) (\<lambda>n.
     bnd (upd_buf i (\<lambda>b. b\<lparr>b_next := n\<rparr>)) (\<lambda>_.
     bnd (upd_buf i (\<lambda>b. b\<lparr>b_prev := head\<rparr>)) (\<lambda>_.
     bnd (initsleeplock (S_buf i) ''buffer'') (\<lambda>_.
     bnd (gets (\<lambda>s. b_next (bufs s head))) (\<lambda>n.
     bnd (upd_buf n (\<lambda>b. b\<lparr>b_prev := i\<rparr>)) (\<lambda>_.
     upd_buf head (\<lambda>b. b\<lparr>b_next := i\<rparr>)))))))"

definition binit :: "('a bio_state_scheme, unit) kern" where
  "binit =
     bnd (initlock L_bcache ''bcache'') (\<lambda>_.
     bnd (upd_buf head (\<lambda>b. b\<lparr>b_prev := head\<rparr>)) (\<lambda>_.
     bnd (upd_buf head (\<lambda>b. b\<lparr>b_next := head\<rparr>)) (\<lambda>_.
     for_each [0..<NBUF] binit_body)))"

text \<open>The two scans of \<open>bget\<close>: follow \<open>next\<close> (or \<open>prev\<close>) until the head, stopping at the first buffer
  that satisfies the test. \<open>Some None\<close> is a scan that reached the head; a ring that does not
  lead back to the head would be followed forever.\<close>

partial_function (option) bscan :: "(buf \<Rightarrow> nat) \<Rightarrow> (buf \<Rightarrow> bool) \<Rightarrow> (nat \<Rightarrow> buf) \<Rightarrow> nat \<Rightarrow> nat option option" where
  "bscan nx P B i = (if i = head then Some None else if P (B i) then Some (Some i) else bscan nx P B (nx (B i)))"

definition bscan_k :: "(buf \<Rightarrow> nat) \<Rightarrow> (buf \<Rightarrow> bool) \<Rightarrow> ('a bio_state_scheme, nat option) kern" where
  "bscan_k nx P = (\<lambda>s. case bscan nx P (bufs s) (nx (bufs s head)) of None \<Rightarrow> Spin | Some r \<Rightarrow> Ret r s)"

definition bget :: "nat \<Rightarrow> nat \<Rightarrow> ('a bio_state_scheme, nat) kern" where
  "bget dev blockno =
     bnd (acquire L_bcache) (\<lambda>_.
     bnd (bscan_k b_next (\<lambda>b. b_dev b = dev \<and> b_blockno b = blockno)) (\<lambda>r.
     case r of
       Some i \<Rightarrow>
         bnd (upd_buf i (\<lambda>b. b\<lparr>b_refcnt := uinc (b_refcnt b)\<rparr>)) (\<lambda>_.
         bnd (release L_bcache) (\<lambda>_.
         bnd (acquiresleep (S_buf i)) (\<lambda>_.
         ret i)))
     | None \<Rightarrow>
         bnd (bscan_k b_prev (\<lambda>b. b_refcnt b = 0)) (\<lambda>r.
         case r of
           Some i \<Rightarrow>
             bnd (upd_buf i (\<lambda>b. b\<lparr>b_dev := dev, b_blockno := blockno, b_valid := False, b_refcnt := 1\<rparr>)) (\<lambda>_.
             bnd (release L_bcache) (\<lambda>_.
             bnd (acquiresleep (S_buf i)) (\<lambda>_.
             ret i)))
         | None \<Rightarrow> panic ''bget: no buffers'')))"

definition bread :: "nat \<Rightarrow> nat \<Rightarrow> ('a bio_state_scheme, nat) kern" where
  "bread dev blockno =
     bnd (bget dev blockno) (\<lambda>i.
     bnd (gets (\<lambda>s. b_valid (bufs s i))) (\<lambda>v.
     bnd (kwhen (\<not> v)
            (bnd (disk_rw i False) (\<lambda>_.
             upd_buf i (\<lambda>b. b\<lparr>b_valid := True\<rparr>)))) (\<lambda>_.
     ret i)))"

definition bwrite :: "nat \<Rightarrow> ('a bio_state_scheme, unit) kern" where
  "bwrite i =
     bnd (holdingsleep (S_buf i)) (\<lambda>h.
     if \<not> h then panic ''bwrite'' else disk_rw i True)"

text \<open>The pointer assignments of \<open>brelse\<close> for a buffer nobody refers to any more.\<close>

definition bmove_front :: "nat \<Rightarrow> ('a bio_state_scheme, unit) kern" where
  "bmove_front i =
     bnd (gets (\<lambda>s. bufs s i)) (\<lambda>b.
     bnd (upd_buf (b_next b) (\<lambda>x. x\<lparr>b_prev := b_prev b\<rparr>)) (\<lambda>_.
     bnd (upd_buf (b_prev b) (\<lambda>x. x\<lparr>b_next := b_next b\<rparr>)) (\<lambda>_.
     bnd (gets (\<lambda>s. b_next (bufs s head))) (\<lambda>h.
     bnd (upd_buf i (\<lambda>x. x\<lparr>b_next := h\<rparr>)) (\<lambda>_.
     bnd (upd_buf i (\<lambda>x. x\<lparr>b_prev := head\<rparr>)) (\<lambda>_.
     bnd (gets (\<lambda>s. b_next (bufs s head))) (\<lambda>h.
     bnd (upd_buf h (\<lambda>x. x\<lparr>b_prev := i\<rparr>)) (\<lambda>_.
     upd_buf head (\<lambda>x. x\<lparr>b_next := i\<rparr>)))))))))"

definition brelse :: "nat \<Rightarrow> ('a bio_state_scheme, unit) kern" where
  "brelse i =
     bnd (holdingsleep (S_buf i)) (\<lambda>h.
     if \<not> h then panic ''brelse'' else
     bnd (releasesleep (S_buf i)) (\<lambda>_.
     bnd (acquire L_bcache) (\<lambda>_.
     bnd (upd_buf i (\<lambda>b. b\<lparr>b_refcnt := udec (b_refcnt b)\<rparr>)) (\<lambda>_.
     bnd (gets (\<lambda>s. b_refcnt (bufs s i))) (\<lambda>n.
     bnd (kwhen (n = 0) (bmove_front i)) (\<lambda>_.
     release L_bcache))))))"

definition bpin :: "nat \<Rightarrow> ('a bio_state_scheme, unit) kern" where
  "bpin i =
     bnd (acquire L_bcache) (\<lambda>_.
     bnd (upd_buf i (\<lambda>b. b\<lparr>b_refcnt := uinc (b_refcnt b)\<rparr>)) (\<lambda>_.
     release L_bcache))"

definition bunpin :: "nat \<Rightarrow> ('a bio_state_scheme, unit) kern" where
  "bunpin i =
     bnd (acquire L_bcache) (\<lambda>_.
     bnd (upd_buf i (\<lambda>b. b\<lparr>b_refcnt := udec (b_refcnt b)\<rparr>)) (\<lambda>_.
     release L_bcache))"

subsection \<open>The ring of buffers\<close>

text \<open>\<open>links n p a xs b\<close>: following \<open>n\<close> from \<open>a\<close> leads through \<open>xs\<close> to \<open>b\<close>, and \<open>p\<close> leads back.\<close>

primrec links :: "(nat \<Rightarrow> nat) \<Rightarrow> (nat \<Rightarrow> nat) \<Rightarrow> nat \<Rightarrow> nat list \<Rightarrow> nat \<Rightarrow> bool" where
  "links n p a [] b \<longleftrightarrow> n a = b \<and> p b = a"
| "links n p a (x # xs) b \<longleftrightarrow> n a = x \<and> p x = a \<and> links n p x xs b"

lemma links_append: "links n p a (xs @ x # ys) b \<longleftrightarrow> links n p a xs x \<and> links n p x ys b"
  by (induction xs arbitrary: a) auto

lemma links_cong:
  "(\<And>y. y \<in> insert a (set xs) \<Longrightarrow> n' y = n y) \<Longrightarrow> (\<And>y. y \<in> insert b (set xs) \<Longrightarrow> p' y = p y) \<Longrightarrow>
     links n' p' a xs b = links n p a xs b"
  by (induction xs arbitrary: a) auto

lemma links_first: "links n p a xs b \<Longrightarrow> n a = (if xs = [] then b else hd xs)"
  by (cases xs) auto

lemma links_last: "links n p a xs b \<Longrightarrow> p b = (if xs = [] then a else last xs)"
  by (induction xs arbitrary: a) auto

definition ring :: "(nat \<Rightarrow> buf) \<Rightarrow> nat list \<Rightarrow> bool" where
  "ring B xs \<longleftrightarrow> links (b_next \<circ> B) (b_prev \<circ> B) head xs head \<and> distinct xs \<and> head \<notin> set xs"

lemma bscan_next:
  "links (b_next \<circ> B) p a xs head \<Longrightarrow> head \<notin> set xs \<Longrightarrow> bscan b_next P B (b_next (B a)) = Some (find (\<lambda>i. P (B i)) xs)"
  by (induction xs arbitrary: a) (auto simp: bscan.simps)

lemma links_rev: "links n p a xs b \<Longrightarrow> links p n b (rev xs) a"
proof (induction xs arbitrary: a)
  case Nil
  then show ?case by simp
next
  case (Cons x xs)
  then have "links p n b (rev xs) x" "n a = x" "p x = a" by auto
  then show ?case by (simp add: links_append)
qed

lemma bscan_prev:
  assumes "links n (b_prev \<circ> B) head xs a" "head \<notin> set xs"
  shows "bscan b_prev P B (b_prev (B a)) = Some (find (\<lambda>i. P (B i)) (rev xs))"
proof -
  have "links (b_prev \<circ> B) n a ys head \<Longrightarrow> head \<notin> set ys \<Longrightarrow>
      bscan b_prev P B (b_prev (B a)) = Some (find (\<lambda>i. P (B i)) ys)" for ys
    by (induction ys arbitrary: a) (auto simp: bscan.simps)
  from this [OF links_rev [OF assms(1)]] assms(2) show ?thesis by simp
qed

lemma ring_scan:
  assumes "ring B xs"
  shows "bscan b_next P B (b_next (B head)) = Some (find (\<lambda>i. P (B i)) xs)"
    and "bscan b_prev P B (b_prev (B head)) = Some (find (\<lambda>i. P (B i)) (rev xs))"
  using assms bscan_next [of B "b_prev \<circ> B" head xs P] bscan_prev [of "b_next \<circ> B" B xs head P] by (simp_all add: ring_def)

lemma links_unlink:
  assumes "links n p a (xs @ x # ys) b" "distinct (xs @ x # ys)" "a \<notin> set (xs @ x # ys)" "b \<notin> set (xs @ x # ys)"
  shows "links (n(p x := n x)) (p(n x := p x)) a (xs @ ys) b"
proof -
  let ?n = "n(p x := n x)" and ?p = "p(n x := p x)"
  have l: "links n p a xs x" and r: "links n p x ys b" using assms(1) by (simp_all add: links_append)
  have px: "p x = (if xs = [] then a else last xs)" using links_last [OF l] .
  have nx: "n x = (if ys = [] then b else hd ys)" using links_first [OF r] .
  have pxm: "p x \<in> insert a (set xs)" using px by auto
  show ?thesis
  proof (cases ys)
    case Nil
    then have nb: "n x = b" using nx by simp
    show ?thesis
    proof (cases xs rule: rev_cases)
      case Nil
      with \<open>ys = []\<close> nb px show ?thesis by simp
    next
      case (snoc zs z)
      then have z: "p x = z" using px by simp
      have "links n p a zs z" using l snoc by (simp add: links_append)
      then have "links ?n ?p a zs z"
        by (subst links_cong [where n = n and p = p]) (use assms snoc z nb Nil in auto)
      then show ?thesis using Nil snoc z nb by (simp add: links_append)
    qed
  next
    case (Cons y zs)
    then have ny: "n x = y" using nx by simp
    have "links n p y zs b" using r Cons by simp
    then have r': "links ?n ?p y zs b"
      by (subst links_cong [where n = n and p = p]) (use assms Cons pxm ny in auto)
    have l': "links ?n ?p a xs y"
    proof (cases xs rule: rev_cases)
      case Nil
      then show ?thesis using px ny by simp
    next
      case (snoc ws w)
      then have w: "p x = w" using px by simp
      have "links n p a ws w" using l snoc by (simp add: links_append)
      then have "links ?n ?p a ws w"
        by (subst links_cong [where n = n and p = p]) (use assms snoc w ny Cons in auto)
      then show ?thesis using snoc w ny by (simp add: links_append)
    qed
    from l' r' show ?thesis using Cons by (simp add: links_append)
  qed
qed

lemma links_push:
  assumes "links n p h xs h" "x \<notin> set xs" "x \<noteq> h" "h \<notin> set xs" "distinct xs"
  shows "links (n(x := n h, h := x)) (p(x := h, n h := x)) h (x # xs) h"
proof (cases xs)
  case Nil
  with assms show ?thesis by simp
next
  case (Cons y ys)
  with assms have "n h = y" "links n p y ys h" by simp_all
  moreover from this have "links (n(x := n h, h := x)) (p(x := h, n h := x)) y ys h"
    by (subst links_cong [where n = n and p = p]) (use assms Cons in auto)
  ultimately show ?thesis using Cons assms by auto
qed

text \<open>The pointer surgery of \<open>brelse\<close> moves a buffer to the front of the ring.\<close>

definition move_front :: "nat \<Rightarrow> (nat \<Rightarrow> buf) \<Rightarrow> nat \<Rightarrow> buf" where
  "move_front i B =
    (let b = B i;
         B1 = B(b_next b := (B (b_next b))\<lparr>b_prev := b_prev b\<rparr>);
         B2 = B1(b_prev b := (B1 (b_prev b))\<lparr>b_next := b_next b\<rparr>);
         B3 = B2(i := (B2 i)\<lparr>b_next := b_next (B2 head)\<rparr>);
         B4 = B3(i := (B3 i)\<lparr>b_prev := head\<rparr>);
         B5 = B4(b_next (B4 head) := (B4 (b_next (B4 head)))\<lparr>b_prev := i\<rparr>)
     in B5(head := (B5 head)\<lparr>b_next := i\<rparr>))"

lemma next_upd: "b_next \<circ> (B(i := (B i)\<lparr>b_next := x\<rparr>)) = (b_next \<circ> B)(i := x)"
  "b_prev \<circ> (B(i := (B i)\<lparr>b_next := x\<rparr>)) = b_prev \<circ> B"
  "b_prev \<circ> (B(i := (B i)\<lparr>b_prev := x\<rparr>)) = (b_prev \<circ> B)(i := x)"
  "b_next \<circ> (B(i := (B i)\<lparr>b_prev := x\<rparr>)) = b_next \<circ> B"
  by (auto simp: fun_eq_iff)

lemma ring_move_front:
  assumes "ring B (xs @ i # ys)"
  shows "ring (move_front i B) (i # xs @ ys)"
proof -
  let ?n = "b_next \<circ> B" and ?p = "b_prev \<circ> B"
  let ?n1 = "?n(?p i := ?n i)" and ?p1 = "?p(?n i := ?p i)"
  have d: "distinct (xs @ i # ys)" "head \<notin> set (xs @ i # ys)" and l: "links ?n ?p head (xs @ i # ys) head"
    using assms by (auto simp: ring_def)
  have l1: "links ?n1 ?p1 head (xs @ ys) head" by (rule links_unlink [OF l d(1) d(2) d(2)])
  have l2: "links (?n1(i := ?n1 head, head := i)) (?p1(i := head, ?n1 head := i)) head (i # xs @ ys) head"
    by (rule links_push [OF l1]) (use d in auto)
  have "b_next \<circ> move_front i B = ?n1(i := ?n1 head, head := i)"
    "b_prev \<circ> move_front i B = ?p1(i := head, ?n1 head := i)"
    using d(2) unfolding move_front_def Let_def by (simp_all only: next_upd) (auto simp: fun_eq_iff)
  with l2 d show ?thesis by (simp add: ring_def)
qed

lemma link_upd_other:
  "b_valid ((B(k := (B k)\<lparr>b_next := x\<rparr>)) j) = b_valid (B j)" "b_valid ((B(k := (B k)\<lparr>b_prev := x\<rparr>)) j) = b_valid (B j)"
  "b_disk ((B(k := (B k)\<lparr>b_next := x\<rparr>)) j) = b_disk (B j)" "b_disk ((B(k := (B k)\<lparr>b_prev := x\<rparr>)) j) = b_disk (B j)"
  "b_dev ((B(k := (B k)\<lparr>b_next := x\<rparr>)) j) = b_dev (B j)" "b_dev ((B(k := (B k)\<lparr>b_prev := x\<rparr>)) j) = b_dev (B j)"
  "b_blockno ((B(k := (B k)\<lparr>b_next := x\<rparr>)) j) = b_blockno (B j)" "b_blockno ((B(k := (B k)\<lparr>b_prev := x\<rparr>)) j) = b_blockno (B j)"
  "b_refcnt ((B(k := (B k)\<lparr>b_next := x\<rparr>)) j) = b_refcnt (B j)" "b_refcnt ((B(k := (B k)\<lparr>b_prev := x\<rparr>)) j) = b_refcnt (B j)"
  "b_data ((B(k := (B k)\<lparr>b_next := x\<rparr>)) j) = b_data (B j)" "b_data ((B(k := (B k)\<lparr>b_prev := x\<rparr>)) j) = b_data (B j)"
  by simp_all

lemma move_front_other [simp]:
  "b_valid (move_front i B j) = b_valid (B j)" "b_dev (move_front i B j) = b_dev (B j)"
  "b_blockno (move_front i B j) = b_blockno (B j)" "b_refcnt (move_front i B j) = b_refcnt (B j)"
  "b_data (move_front i B j) = b_data (B j)" "b_disk (move_front i B j) = b_disk (B j)"
  unfolding move_front_def Let_def by (simp_all only: link_upd_other)

subsection \<open>The invariant of the cache\<close>

text \<open>\<open>holds_block B i b\<close>: buffer \<open>i\<close> is the cached copy of block \<open>b\<close>. \<open>lblk_of\<close> is the logical
  content of a block, \<open>bref_of\<close> its reference count.\<close>

definition holds_block :: "(nat \<Rightarrow> buf) \<Rightarrow> nat \<Rightarrow> nat \<Rightarrow> bool" where
  "holds_block B i b \<longleftrightarrow> i < NBUF \<and> b_dev (B i) = ROOTDEV \<and> b_blockno (B i) = b"

definition cached :: "(nat \<Rightarrow> buf) \<Rightarrow> nat \<Rightarrow> nat option" where
  "cached B b = first_idx (\<lambda>i. holds_block B i b) [0..<NBUF]"

definition lblk_of :: "(nat \<Rightarrow> buf) \<Rightarrow> (nat \<Rightarrow> u8 list) \<Rightarrow> nat \<Rightarrow> u8 list" where
  "lblk_of B D b = (case cached B b of Some i \<Rightarrow> if b_valid (B i) then b_data (B i) else D b | None \<Rightarrow> D b)"

definition bref_of :: "(nat \<Rightarrow> buf) \<Rightarrow> nat \<Rightarrow> nat" where
  "bref_of B b = (case cached B b of Some i \<Rightarrow> b_refcnt (B i) | None \<Rightarrow> 0)"

definition bc_inv :: "(nat \<Rightarrow> buf) \<Rightarrow> (nat \<Rightarrow> bool) \<Rightarrow> (nat \<Rightarrow> u8 list) \<Rightarrow> bool" where
  "bc_inv B L D \<longleftrightarrow>
     (\<exists>xs. ring B xs \<and> set xs = {..<NBUF}) \<and>
     (\<forall>i<NBUF. b_refcnt (B i) < 2 ^ 32 \<and> b_dev (B i) \<in> {0, ROOTDEV} \<and> length (b_data (B i)) = BSIZE) \<and>
     (\<forall>i j b. holds_block B i b \<longrightarrow> holds_block B j b \<longrightarrow> i = j) \<and>
     (\<forall>i<NBUF. b_valid (B i) \<or> 0 < b_refcnt (B i) \<longrightarrow> b_dev (B i) = ROOTDEV) \<and>
     (\<forall>i<NBUF. b_valid (B i) \<longrightarrow> b_refcnt (B i) = 0 \<longrightarrow> b_data (B i) = D (b_blockno (B i))) \<and>
     (\<forall>i<NBUF. L i \<longrightarrow> 0 < b_refcnt (B i)) \<and>
     (\<forall>b. length (D b) = BSIZE)"

lemma bc_invD:
  assumes "bc_inv B L D"
  shows bc_ring: "\<exists>xs. ring B xs \<and> set xs = {..<NBUF}"
    and bc_ref: "\<And>i. i < NBUF \<Longrightarrow> b_refcnt (B i) < 2 ^ 32"
    and bc_dev: "\<And>i. i < NBUF \<Longrightarrow> b_dev (B i) \<in> {0, ROOTDEV}"
    and bc_len: "\<And>i. i < NBUF \<Longrightarrow> length (b_data (B i)) = BSIZE"
    and bc_unique: "\<And>i j b. holds_block B i b \<Longrightarrow> holds_block B j b \<Longrightarrow> i = j"
    and bc_vdev: "\<And>i. i < NBUF \<Longrightarrow> b_valid (B i) \<or> 0 < b_refcnt (B i) \<Longrightarrow> b_dev (B i) = ROOTDEV"
    and bc_clean: "\<And>i. i < NBUF \<Longrightarrow> b_valid (B i) \<Longrightarrow> b_refcnt (B i) = 0 \<Longrightarrow> b_data (B i) = D (b_blockno (B i))"
    and bc_lock: "\<And>i. i < NBUF \<Longrightarrow> L i \<Longrightarrow> 0 < b_refcnt (B i)"
    and bc_dlen: "\<And>b. length (D b) = BSIZE"
  using assms unfolding bc_inv_def by blast+

lemma cached_Some: "bc_inv B L D \<Longrightarrow> holds_block B i b \<Longrightarrow> cached B b = Some i"
proof -
  assume inv: "bc_inv B L D" and h: "holds_block B i b"
  have "i \<in> set [0..<NBUF]" using h by (simp add: holds_block_def)
  with h have "cached B b \<noteq> None" unfolding cached_def first_idx_None by blast
  then obtain j where j: "cached B b = Some j" by blast
  then have "holds_block B j b" using first_idx_Some unfolding cached_def by blast
  with bc_unique [OF inv h] j show ?thesis by simp
qed

lemma cached_holds: "cached B b = Some i \<Longrightarrow> holds_block B i b"
  unfolding cached_def using first_idx_Some by blast

lemma cached_None: "cached B b = None \<longleftrightarrow> (\<forall>i. \<not> holds_block B i b)"
  unfolding cached_def first_idx_None by (auto simp: holds_block_def)

lemma lblk_hit: "bc_inv B L D \<Longrightarrow> holds_block B i b \<Longrightarrow> lblk_of B D b = (if b_valid (B i) then b_data (B i) else D b)"
  by (simp add: lblk_of_def cached_Some)

lemma bref_hit: "bc_inv B L D \<Longrightarrow> holds_block B i b \<Longrightarrow> bref_of B b = b_refcnt (B i)"
  by (simp add: bref_of_def cached_Some)

text \<open>Changing a buffer but not which block it holds, and not the links.\<close>

lemma holds_same:
  assumes "b_dev x = b_dev (B i)" "b_blockno x = b_blockno (B i)"
  shows "holds_block (B(i := x)) = holds_block B"
  using assms by (auto simp: holds_block_def fun_eq_iff)

lemma cached_same:
  assumes "b_dev x = b_dev (B i)" "b_blockno x = b_blockno (B i)"
  shows "cached (B(i := x)) = cached B"
  using holds_same [of x B i] assms by (intro ext) (simp add: cached_def)

lemma ring_same:
  assumes "b_next x = b_next (B i)" "b_prev x = b_prev (B i)"
  shows "ring (B(i := x)) xs = ring B xs"
proof -
  have "b_next \<circ> (B(i := x)) = b_next \<circ> B" "b_prev \<circ> (B(i := x)) = b_prev \<circ> B"
    using assms by (auto simp: fun_eq_iff)
  then show ?thesis by (simp add: ring_def)
qed

definition same_place :: "buf \<Rightarrow> buf \<Rightarrow> bool" where
  "same_place x y \<longleftrightarrow> b_dev x = b_dev y \<and> b_blockno x = b_blockno y \<and> b_next x = b_next y \<and> b_prev x = b_prev y"

lemma bc_inv_upd:
  assumes inv: "bc_inv B L D" and same: "same_place x (B i)"
    and x: "b_refcnt x < 2 ^ 32" "length (b_data x) = BSIZE" "b_valid x \<or> 0 < b_refcnt x \<longrightarrow> b_dev x = ROOTDEV"
      "b_valid x \<longrightarrow> b_refcnt x = 0 \<longrightarrow> b_data x = D (b_blockno x)" "L i \<longrightarrow> 0 < b_refcnt x"
  shows "bc_inv (B(i := x)) L D"
proof -
  have s: "holds_block (B(i := x)) = holds_block B" "\<And>xs. ring (B(i := x)) xs = ring B xs"
    using same holds_same [of x B i] ring_same [of x B i] by (simp_all add: same_place_def)
  have at_i: "b_dev x = b_dev (B i)" "b_blockno x = b_blockno (B i)" using same by (simp_all add: same_place_def)
  show ?thesis
    unfolding bc_inv_def s
  proof (intro conjI)
    show "\<forall>j<NBUF. b_refcnt ((B(i := x)) j) < 2 ^ 32 \<and> b_dev ((B(i := x)) j) \<in> {0, ROOTDEV} \<and> length (b_data ((B(i := x)) j)) = BSIZE"
      using bc_ref [OF inv] bc_dev [OF inv] bc_len [OF inv] x(1,2) at_i(1) by auto
    show "\<exists>xs. ring B xs \<and> set xs = {..<NBUF}" by (rule bc_ring [OF inv])
    show "\<forall>i j b. holds_block B i b \<longrightarrow> holds_block B j b \<longrightarrow> i = j" using bc_unique [OF inv] by blast
    show "\<forall>j<NBUF. b_valid ((B(i := x)) j) \<or> 0 < b_refcnt ((B(i := x)) j) \<longrightarrow> b_dev ((B(i := x)) j) = ROOTDEV" using bc_vdev [OF inv] x(3) by simp
    show "\<forall>j<NBUF. b_valid ((B(i := x)) j) \<longrightarrow> b_refcnt ((B(i := x)) j) = 0 \<longrightarrow> b_data ((B(i := x)) j) = D (b_blockno ((B(i := x)) j))"
      using bc_clean [OF inv] x(4) by simp
    show "\<forall>j<NBUF. L j \<longrightarrow> 0 < b_refcnt ((B(i := x)) j)" using bc_lock [OF inv] x(5) by simp
    show "\<forall>b. length (D b) = BSIZE" using bc_dlen [OF inv] by simp
  qed
qed

lemma lblk_upd:
  assumes inv: "bc_inv B L D" and h: "holds_block B i b" and same: "same_place x (B i)"
  shows "lblk_of (B(i := x)) D = (lblk_of B D)(b := (if b_valid x then b_data x else D b))"
    and "bref_of (B(i := x)) = (bref_of B)(b := b_refcnt x)"
proof -
  have c: "cached (B(i := x)) = cached B" using same by (intro cached_same) (simp_all add: same_place_def)
  have ib: "c = b" if "cached B c = Some i" for c
    using cached_holds [OF that] h by (simp add: holds_block_def)
  have "lblk_of (B(i := x)) D d = ((lblk_of B D)(b := (if b_valid x then b_data x else D b))) d \<and>
      bref_of (B(i := x)) d = ((bref_of B)(b := b_refcnt x)) d" for d
  proof (cases "d = b")
    case True
    with cached_Some [OF inv h] show ?thesis by (simp add: lblk_of_def bref_of_def c)
  next
    case False
    then have "cached B d \<noteq> Some i" using ib by auto
    with False show ?thesis by (simp add: lblk_of_def bref_of_def c split: option.splits)
  qed
  then show "lblk_of (B(i := x)) D = (lblk_of B D)(b := (if b_valid x then b_data x else D b))"
    "bref_of (B(i := x)) = (bref_of B)(b := b_refcnt x)" by blast+
qed

definition recycled :: "nat \<Rightarrow> buf \<Rightarrow> buf" where
  "recycled b x = x\<lparr>b_dev := ROOTDEV, b_blockno := b, b_valid := False, b_refcnt := 1\<rparr>"

lemma recycle:
  assumes inv: "bc_inv B L D" and i: "i < NBUF" "b_refcnt (B i) = 0" and none: "cached B b = None"
  defines "B' \<equiv> B(i := recycled b (B i))"
  shows "bc_inv B' L D" "lblk_of B' D = lblk_of B D" "bref_of B' = (bref_of B)(b := 1)" "holds_block B' i b"
  unfolding B'_def
proof -
  let ?B = "B(i := recycled b (B i))"
  show h: "holds_block ?B i b" using i by (simp add: holds_block_def recycled_def)
  have ho: "holds_block ?B j c \<longleftrightarrow> (if j = i then c = b else holds_block B j c)" for j c
    using i by (auto simp: holds_block_def recycled_def)
  have nob: "\<not> holds_block B j b" for j using none by (simp add: cached_None)
  have rg: "ring ?B xs = ring B xs" for xs by (rule ring_same) (simp_all add: recycled_def)
  have noL: "\<not> L i" using bc_lock [OF inv i(1)] i(2) by auto
  show inv': "bc_inv ?B L D"
    unfolding bc_inv_def
  proof (intro conjI allI impI)
    show "\<exists>xs. ring ?B xs \<and> set xs = {..<NBUF}" using bc_ring [OF inv] by (simp only: rg)
    show "k = j" if "holds_block ?B k c" "holds_block ?B j c" for k j c
      using that bc_unique [OF inv] nob unfolding ho by (auto split: if_splits)
  qed (use bc_invD [OF inv] noL in \<open>auto simp: recycled_def\<close>)
  have cb: "cached ?B b = Some i" by (rule cached_Some [OF inv' h])
  have cc: "cached ?B c = (if cached B c = Some i then None else cached B c)" if "c \<noteq> b" for c
  proof (cases "cached B c")
    case None
    then have "\<And>j. \<not> holds_block ?B j c" using that unfolding cached_None ho by auto
    then have "cached ?B c = None" by (simp add: cached_None)
    with None show ?thesis by simp
  next
    case (Some j)
    then have hj: "holds_block B j c" by (rule cached_holds)
    show ?thesis
    proof (cases "j = i")
      case True
      have "\<not> holds_block ?B k c" for k
        using that bc_unique [OF inv hj, of k] True unfolding ho by auto
      then have "cached ?B c = None" by (simp add: cached_None)
      with Some True show ?thesis by simp
    next
      case False
      then have "holds_block ?B j c" using hj unfolding ho by simp
      with Some False cached_Some [OF inv'] show ?thesis by simp
    qed
  qed
  show "lblk_of ?B D = lblk_of B D"
  proof
    fix c
    show "lblk_of ?B D c = lblk_of B D c"
    proof (cases "c = b")
      case True
      then show ?thesis using cb none by (simp add: lblk_of_def recycled_def)
    next
      case False
      show ?thesis
      proof (cases "cached B c = Some i")
        case True
        then have "b_blockno (B i) = c" using cached_holds by (auto simp: holds_block_def)
        with True False cc bc_clean [OF inv i(1) _ i(2)] show ?thesis by (auto simp: lblk_of_def)
      next
        case ne: False
        with cc [OF False] show ?thesis by (auto simp: lblk_of_def split: option.splits)
      qed
    qed
  qed
  show "bref_of ?B = (bref_of B)(b := 1)"
  proof
    fix c
    show "bref_of ?B c = ((bref_of B)(b := 1)) c"
    proof (cases "c = b")
      case True
      then show ?thesis using cb by (simp add: bref_of_def recycled_def)
    next
      case False
      with cc [OF False] i(2) show ?thesis by (auto simp: bref_of_def split: option.splits)
    qed
  qed
qed

lemma bc_inv_locks: "bc_inv B L D \<Longrightarrow> (\<And>i. i < NBUF \<Longrightarrow> L' i \<Longrightarrow> 0 < b_refcnt (B i)) \<Longrightarrow> bc_inv B L' D"
  by (simp add: bc_inv_def)

lemma bc_inv_write:
  assumes inv: "bc_inv B L D" and h: "holds_block B i b" and ref: "0 < b_refcnt (B i)" and v: "b_valid (B i)"
  shows "bc_inv B L (D(b := b_data (B i)))" "lblk_of B (D(b := b_data (B i))) = lblk_of B D"
proof -
  have i: "i < NBUF" using h by (simp add: holds_block_def)
  have "b_blockno (B j) \<noteq> b" if "j < NBUF" "b_valid (B j)" "b_refcnt (B j) = 0" for j
    using that bc_unique [OF inv h, of j] bc_vdev [OF inv that(1)] ref by (auto simp: holds_block_def)
  then show "bc_inv B L (D(b := b_data (B i)))"
    using inv bc_len [OF inv i] unfolding bc_inv_def by auto
  show "lblk_of B (D(b := b_data (B i))) = lblk_of B D"
    using cached_Some [OF inv h] v by (auto simp: lblk_of_def fun_eq_iff split: option.splits)
qed

lemma move_front_inv:
  assumes inv: "bc_inv B L D" and i: "i < NBUF"
  shows "bc_inv (move_front i B) L D" "lblk_of (move_front i B) D = lblk_of B D" "bref_of (move_front i B) = bref_of B"
    "holds_block (move_front i B) = holds_block B"
proof -
  show h: "holds_block (move_front i B) = holds_block B" by (simp add: holds_block_def fun_eq_iff)
  then have c: "cached (move_front i B) = cached B" by (intro ext) (simp add: cached_def)
  obtain zs where zs: "ring B zs" "set zs = {..<NBUF}" using bc_ring [OF inv] by blast
  then obtain xs ys where xy: "zs = xs @ i # ys" using i by (metis lessThan_iff split_list)
  have "ring (move_front i B) (i # xs @ ys)" using ring_move_front zs(1) xy by simp
  moreover have "set (i # xs @ ys) = {..<NBUF}" using zs(2) xy by auto
  ultimately have "\<exists>xs. ring (move_front i B) xs \<and> set xs = {..<NBUF}" by blast
  then show "bc_inv (move_front i B) L D" using inv unfolding bc_inv_def h by simp
  show "lblk_of (move_front i B) D = lblk_of B D" by (auto simp: lblk_of_def c fun_eq_iff split: option.split)
  show "bref_of (move_front i B) = bref_of B" by (auto simp: bref_of_def c fun_eq_iff split: option.split)
qed

subsection \<open>The routines on a well-formed cache\<close>

definition bc_ok :: "'a bio_state_scheme \<Rightarrow> bool" where
  "bc_ok s \<longleftrightarrow> bc_inv (bufs s) (\<lambda>i. sl_locked (slocks s (S_buf i))) (dk_blocks (dsk s))"

abbreviation lblk :: "'a bio_state_scheme \<Rightarrow> nat \<Rightarrow> u8 list" where
  "lblk s \<equiv> lblk_of (bufs s) (dk_blocks (dsk s))"

abbreviation bref :: "'a bio_state_scheme \<Rightarrow> nat \<Rightarrow> nat" where
  "bref s \<equiv> bref_of (bufs s)"

lemma bufs_frames [frame_simps]:
  "bufs (settle s) = bufs s" "bufs (acquired lk s) = bufs s"
  "settle (s\<lparr>bufs := f\<rparr>) = (settle s)\<lparr>bufs := f\<rparr>"
  "acquired lk (s\<lparr>bufs := f\<rparr>) = (acquired lk s)\<lparr>bufs := f\<rparr>"
  "restore s (t\<lparr>bufs := f\<rparr>) = (restore s t)\<lparr>bufs := f\<rparr>"
  "cpu_ok (s\<lparr>bufs := f\<rparr>) = cpu_ok s" "lock_free lk (s\<lparr>bufs := f\<rparr>) = lock_free lk s"
  by (simp_all add: unfold_machine)

lemma dsk_frames [frame_simps]:
  "dsk (settle s) = dsk s" "dsk (acquired lk s) = dsk s"
  "settle (s\<lparr>dsk := g\<rparr>) = (settle s)\<lparr>dsk := g\<rparr>"
  "cpu_ok (s\<lparr>dsk := g\<rparr>) = cpu_ok s" "lock_free lk (s\<lparr>dsk := g\<rparr>) = lock_free lk s"
  by (simp_all add: unfold_machine)

lemma quiet_bufs [frame_simps]: "quiet p (s\<lparr>bufs := f\<rparr>) = quiet p s" "quiet p (s\<lparr>dsk := g\<rparr>) = quiet p s"
  by (simp_all add: quiet_def frame_simps mach_defs)

lemma release_acquired_bufs [frame_simps]:
  "cpu_ok s \<Longrightarrow> lock_free lk s \<Longrightarrow>
     release lk ((acquired lk s)\<lparr>bufs := f\<rparr>) = Ret () ((settle s)\<lparr>bufs := f\<rparr>)"
  by (subst release_run [of s]) (simp_all add: frame_simps)

lemma find_cached:
  assumes inv: "bc_inv B L D" and r: "ring B xs" "set xs = {..<NBUF}"
  shows "find (\<lambda>i. b_dev (B i) = ROOTDEV \<and> b_blockno (B i) = b) xs = cached B b"
proof (cases "find (\<lambda>i. b_dev (B i) = ROOTDEV \<and> b_blockno (B i) = b) xs")
  case None
  then have "\<forall>i. \<not> holds_block B i b" using r(2) by (auto simp: find_None_iff holds_block_def)
  then have "cached B b = None" by (simp add: cached_None)
  with None show ?thesis by simp
next
  case (Some i)
  then have "i \<in> set xs" "b_dev (B i) = ROOTDEV" "b_blockno (B i) = b"
    by (auto simp: find_Some_iff)
  then have "holds_block B i b" using r(2) by (simp add: holds_block_def)
  with Some cached_Some [OF inv] show ?thesis by simp
qed

definition bump :: "buf \<Rightarrow> buf" where
  "bump x = x\<lparr>b_refcnt := uinc (b_refcnt x)\<rparr>"

definition lock_slot :: "int \<Rightarrow> nat \<Rightarrow> (slockid \<Rightarrow> sleeplock) \<Rightarrow> slockid \<Rightarrow> sleeplock" where
  "lock_slot pid i S = S(S_buf i := (S (S_buf i))\<lparr>sl_locked := True, sl_pid := pid\<rparr>)"

lemma lock_slot_locked: "(\<lambda>j. sl_locked (lock_slot pid i S (S_buf j))) = (\<lambda>j. j = i \<or> sl_locked (S (S_buf j)))"
  by (auto simp: lock_slot_def)

lemma bget_hit:
  assumes q: "quiet p s" and ok: "bc_ok s" and h: "holds_block (bufs s) i b" and nl: "\<not> sl_locked (slocks s (S_buf i))"
  shows "bget ROOTDEV b s = Ret i ((settle s)\<lparr>bufs := (bufs s)(i := bump (bufs s i)),
      slocks := lock_slot (p_pid (procs s p)) i (slocks s)\<rparr>)"
proof -
  have inv: "bc_inv (bufs s) (\<lambda>i. sl_locked (slocks s (S_buf i))) (dk_blocks (dsk s))" using ok by (simp add: bc_ok_def)
  obtain xs where xs: "ring (bufs s) xs" "set xs = {..<NBUF}" using bc_ring [OF inv] by blast
  have "bscan b_next (\<lambda>x. b_dev x = ROOTDEV \<and> b_blockno x = b) (bufs s) (b_next (bufs s head)) = Some (Some i)"
    by (simp only: ring_scan(1) [OF xs(1)] find_cached [OF inv xs] cached_Some [OF inv h])
  moreover have "acquiresleep (S_buf i) ((settle s)\<lparr>bufs := (bufs s)(i := bump (bufs s i))\<rparr>) =
      Ret () ((settle s)\<lparr>bufs := (bufs s)(i := bump (bufs s i)), slocks := lock_slot (p_pid (procs s p)) i (slocks s)\<rparr>)"
    using acquiresleep_run [of p "(settle s)\<lparr>bufs := (bufs s)(i := bump (bufs s i))\<rparr>" "S_buf i"] q nl
    by (simp add: frame_simps lock_slot_def)
  ultimately show ?thesis
    using quietD [OF q]
    by (simp add: bget_def kern_simps acquire_run frame_simps bscan_k_def upd_buf_def bump_def)
qed

lemma bget_miss:
  assumes q: "quiet p s" and ok: "bc_ok s" and none: "cached (bufs s) b = None" and room: "\<exists>i<NBUF. b_refcnt (bufs s i) = 0"
  shows "\<exists>i<NBUF. b_refcnt (bufs s i) = 0 \<and> bget ROOTDEV b s = Ret i ((settle s)\<lparr>bufs := (bufs s)(i := recycled b (bufs s i)),
      slocks := lock_slot (p_pid (procs s p)) i (slocks s)\<rparr>)"
proof -
  have inv: "bc_inv (bufs s) (\<lambda>i. sl_locked (slocks s (S_buf i))) (dk_blocks (dsk s))" using ok by (simp add: bc_ok_def)
  obtain xs where xs: "ring (bufs s) xs" "set xs = {..<NBUF}" using bc_ring [OF inv] by blast
  have scan1: "bscan b_next (\<lambda>x. b_dev x = ROOTDEV \<and> b_blockno x = b) (bufs s) (b_next (bufs s head)) = Some None"
    by (simp only: ring_scan(1) [OF xs(1)] find_cached [OF inv xs] none)
  have scan2: "bscan b_prev (\<lambda>x. b_refcnt x = 0) (bufs s) (b_prev (bufs s head)) = Some (find (\<lambda>i. b_refcnt (bufs s i) = 0) (rev xs))"
    by (rule ring_scan(2) [OF xs(1)])
  have "find (\<lambda>i. b_refcnt (bufs s i) = 0) (rev xs) \<noteq> None"
    using room xs(2) by (auto simp: find_None_iff)
  then obtain i where f: "find (\<lambda>i. b_refcnt (bufs s i) = 0) (rev xs) = Some i" by blast
  then have i: "i \<in> set (rev xs)" "b_refcnt (bufs s i) = 0" unfolding find_Some_iff by (metis nth_mem)+
  have lt: "i < NBUF" using i(1) xs(2) by auto
  have nl: "\<not> sl_locked (slocks s (S_buf i))" using bc_lock [OF inv lt] i(2) by auto
  have "acquiresleep (S_buf i) ((settle s)\<lparr>bufs := (bufs s)(i := recycled b (bufs s i))\<rparr>) =
      Ret () ((settle s)\<lparr>bufs := (bufs s)(i := recycled b (bufs s i)), slocks := lock_slot (p_pid (procs s p)) i (slocks s)\<rparr>)"
    using acquiresleep_run [of p "(settle s)\<lparr>bufs := (bufs s)(i := recycled b (bufs s i))\<rparr>" "S_buf i"] q nl
    by (simp add: frame_simps lock_slot_def)
  then show ?thesis
    using quietD [OF q] scan1 scan2 f i(2) lt
    by (intro exI [of _ i]) (simp add: bget_def kern_simps acquire_run frame_simps bscan_k_def upd_buf_def recycled_def)
qed

definition busy :: "'a bio_state_scheme \<Rightarrow> nat set" where
  "busy s = {b. 0 < bref s b}"

lemma busyD: "b \<in> busy s \<Longrightarrow> \<exists>i. holds_block (bufs s) i b \<and> 0 < b_refcnt (bufs s i)"
  by (auto simp: busy_def bref_of_def dest: cached_holds split: option.splits)

lemma busyI: "bc_ok s \<Longrightarrow> holds_block (bufs s) i b \<Longrightarrow> 0 < b_refcnt (bufs s i) \<Longrightarrow> b \<in> busy s"
  by (simp add: busy_def bref_hit bc_ok_def)

lemma finite_busy: "finite (busy s)"
proof -
  have "busy s \<subseteq> (\<lambda>i. b_blockno (bufs s i)) ` {..<NBUF}"
    using busyD by (fastforce simp: holds_block_def)
  then show ?thesis by (rule finite_subset) simp
qed

lemma room_left:
  assumes ok: "bc_ok s" and card: "card (busy s) < NBUF"
  shows "\<exists>i<NBUF. b_refcnt (bufs s i) = 0"
proof (rule ccontr)
  assume "\<not> ?thesis"
  then have all: "\<And>i. i < NBUF \<Longrightarrow> 0 < b_refcnt (bufs s i)" by auto
  have inv: "bc_inv (bufs s) (\<lambda>i. sl_locked (slocks s (S_buf i))) (dk_blocks (dsk s))" using ok by (simp add: bc_ok_def)
  have h: "holds_block (bufs s) i (b_blockno (bufs s i))" if "i < NBUF" for i
    using bc_vdev [OF inv that] all [OF that] that by (simp add: holds_block_def)
  have "inj_on (\<lambda>i. b_blockno (bufs s i)) {..<NBUF}"
  proof (rule inj_onI)
    fix i j
    assume "i \<in> {..<NBUF}" "j \<in> {..<NBUF}" "b_blockno (bufs s i) = b_blockno (bufs s j)"
    with h [of i] h [of j] bc_unique [OF inv, of i _ j] show "i = j" by simp
  qed
  moreover have "(\<lambda>i. b_blockno (bufs s i)) ` {..<NBUF} \<subseteq> busy s"
    using busyI [OF ok h] all by auto
  ultimately have "card {..<NBUF} \<le> card (busy s)"
    using card_inj_on_le [OF _ _ finite_busy] by blast
  with card show False by simp
qed

text \<open>What a cache routine leaves alone: everything but the buffers, their locks, the disk and the
  sleepers it wakes.\<close>

definition bframe :: "'a bio_state_scheme \<Rightarrow> 'a bio_state_scheme \<Rightarrow> bool" where
  "bframe s t \<longleftrightarrow> wakes (procs s) (procs t) \<and> tp t = tp s \<and> cur_ctx t = cur_ctx s \<and> initproc t = initproc s \<and>
     nextpid t = nextpid s \<and> mem t = mem s \<and> freelist t = freelist s \<and> kend t = kend s \<and>
     (\<forall>i. slocks t (S_inode i) = slocks s (S_inode i)) \<and> bio_state.more t = bio_state.more s"

lemma bframe_refl [simp]: "bframe s s"
  by (simp add: bframe_def)

lemma bframe_trans: "bframe s t \<Longrightarrow> bframe t u \<Longrightarrow> bframe s u"
  using wakes_trans by (simp add: bframe_def) blast

lemma bframe_pid: "bframe s t \<Longrightarrow> p_pid (procs t q) = p_pid (procs s q)"
  by (simp add: bframe_def wakes_pid)

text \<open>\<open>owns s pid i b\<close>: the process holds buffer \<open>i\<close>, the cached copy of block \<open>b\<close>.\<close>

definition owns :: "'a bio_state_scheme \<Rightarrow> int \<Rightarrow> nat \<Rightarrow> nat \<Rightarrow> bool" where
  "owns s pid i b \<longleftrightarrow> holds_block (bufs s) i b \<and> b_valid (bufs s i) \<and> 0 < b_refcnt (bufs s i) \<and>
     locked_by pid (slocks s (S_buf i))"

definition unlocked :: "'a bio_state_scheme \<Rightarrow> nat \<Rightarrow> bool" where
  "unlocked s b \<longleftrightarrow> (\<forall>i. holds_block (bufs s) i b \<longrightarrow> \<not> sl_locked (slocks s (S_buf i)))"

lemma bget_ok:
  assumes q: "quiet p s" and ok: "bc_ok s" and ul: "unlocked s b" and room: "b \<in> busy s \<or> card (busy s) < NBUF"
    and small: "bref s b + 1 < 2 ^ 32"
  shows "\<exists>i B'. bget ROOTDEV b s = Ret i ((settle s)\<lparr>bufs := B', slocks := lock_slot (p_pid (procs s p)) i (slocks s)\<rparr>) \<and>
    bc_inv B' (\<lambda>j. j = i \<or> sl_locked (slocks s (S_buf j))) (dk_blocks (dsk s)) \<and> lblk_of B' (dk_blocks (dsk s)) = lblk s \<and>
    bref_of B' = (bref s)(b := Suc (bref s b)) \<and> holds_block B' i b \<and> 0 < b_refcnt (B' i) \<and>
    (\<forall>j. j \<noteq> i \<longrightarrow> B' j = bufs s j) \<and> \<not> sl_locked (slocks s (S_buf i))"
proof -
  have inv: "bc_inv (bufs s) (\<lambda>i. sl_locked (slocks s (S_buf i))) (dk_blocks (dsk s))" using ok by (simp add: bc_ok_def)
  show ?thesis
  proof (cases "cached (bufs s) b")
    case (Some i)
    then have h: "holds_block (bufs s) i b" by (rule cached_holds)
    then have i: "i < NBUF" by (simp add: holds_block_def)
    have nl: "\<not> sl_locked (slocks s (S_buf i))" using ul h by (simp add: unlocked_def)
    have ref: "bref s b = b_refcnt (bufs s i)" by (rule bref_hit [OF inv h])
    then have u: "b_refcnt (bump (bufs s i)) = Suc (b_refcnt (bufs s i))" using small by (simp add: bump_def)
    have sp: "same_place (bump (bufs s i)) (bufs s i)" by (simp add: same_place_def bump_def)
    have "bc_inv ((bufs s)(i := bump (bufs s i))) (\<lambda>i. sl_locked (slocks s (S_buf i))) (dk_blocks (dsk s))"
    proof (rule bc_inv_upd [OF inv sp])
      show "b_refcnt (bump (bufs s i)) < 2 ^ 32" using u ref small by simp
    qed (use u bc_len [OF inv i] h in \<open>auto simp: bump_def holds_block_def\<close>)
    then have inv': "bc_inv ((bufs s)(i := bump (bufs s i))) (\<lambda>j. j = i \<or> sl_locked (slocks s (S_buf j))) (dk_blocks (dsk s))"
      by (rule bc_inv_locks) (use u bc_lock [OF inv] in auto)
    have "lblk_of ((bufs s)(i := bump (bufs s i))) (dk_blocks (dsk s)) = lblk s"
      using lblk_upd(1) [OF inv h sp] lblk_hit [OF inv h] by (auto simp: bump_def fun_eq_iff)
    then show ?thesis
      using bget_hit [OF q ok h nl] inv' lblk_upd(2) [OF inv h sp] u ref nl h
      by (intro exI [of _ i] exI [of _ "(bufs s)(i := bump (bufs s i))"]) (auto simp: bump_def holds_block_def)
  next
    case None
    then have "b \<notin> busy s" by (simp add: busy_def bref_of_def)
    with room room_left [OF ok] have "\<exists>i<NBUF. b_refcnt (bufs s i) = 0" by blast
    from bget_miss [OF q ok None this] obtain i where
      i: "i < NBUF" "b_refcnt (bufs s i) = 0" "bget ROOTDEV b s = Ret i ((settle s)\<lparr>bufs := (bufs s)(i := recycled b (bufs s i)),
        slocks := lock_slot (p_pid (procs s p)) i (slocks s)\<rparr>)" by blast
    note r = recycle [OF inv i(1,2) None]
    have inv': "bc_inv ((bufs s)(i := recycled b (bufs s i))) (\<lambda>j. j = i \<or> sl_locked (slocks s (S_buf j))) (dk_blocks (dsk s))"
      by (rule bc_inv_locks [OF r(1)]) (use bc_lock [OF inv] in \<open>auto simp: recycled_def\<close>)
    have "bref s b = 0" using None by (simp add: bref_of_def)
    moreover have "\<not> sl_locked (slocks s (S_buf i))" using bc_lock [OF inv i(1)] i(2) by auto
    ultimately show ?thesis
      using i(3) inv' r(2-4)
      by (intro exI [of _ i] exI [of _ "(bufs s)(i := recycled b (bufs s i))"]) (auto simp: recycled_def)
  qed
qed

definition filled :: "u8 list \<Rightarrow> buf \<Rightarrow> buf" where
  "filled d x = x\<lparr>b_data := d, b_valid := True\<rparr>"

lemma bread_ok:
  assumes q: "quiet p s" and ok: "bc_ok s" and ul: "unlocked s b" and room: "b \<in> busy s \<or> card (busy s) < NBUF"
    and small: "bref s b + 1 < 2 ^ 32"
  shows "\<exists>i t. bread ROOTDEV b s = Ret i t \<and> quiet p t \<and> bc_ok t \<and> bframe s t \<and> dsk t = dsk s \<and>
    owns t (p_pid (procs s p)) i b \<and> b_data (bufs t i) = lblk s b \<and> lblk t = lblk s \<and>
    bref t = (bref s)(b := Suc (bref s b)) \<and> slocks t = lock_slot (p_pid (procs s p)) i (slocks s) \<and>
    (\<forall>j. j \<noteq> i \<longrightarrow> bufs t j = bufs s j) \<and> \<not> sl_locked (slocks s (S_buf i))"
proof -
  let ?D = "dk_blocks (dsk s)"
  from bget_ok [OF assms] obtain i B' where
    g: "bget ROOTDEV b s = Ret i ((settle s)\<lparr>bufs := B', slocks := lock_slot (p_pid (procs s p)) i (slocks s)\<rparr>)"
      "bc_inv B' (\<lambda>j. j = i \<or> sl_locked (slocks s (S_buf j))) ?D" "lblk_of B' ?D = lblk s"
      "bref_of B' = (bref s)(b := Suc (bref s b))" "holds_block B' i b" "0 < b_refcnt (B' i)"
      "\<forall>j. j \<noteq> i \<longrightarrow> B' j = bufs s j" "\<not> sl_locked (slocks s (S_buf i))" by blast
  have i: "i < NBUF" and bno: "b_blockno (B' i) = b" using g(5) by (simp_all add: holds_block_def)
  define B'' where "B'' = (if b_valid (B' i) then B' else B'(i := filled (?D b) (B' i)))"
  let ?t = "(settle s)\<lparr>bufs := B'', slocks := lock_slot (p_pid (procs s p)) i (slocks s)\<rparr>"
  have run: "bread ROOTDEV b s = Ret i ?t"
    using g(1) bno by (simp add: bread_def kern_simps disk_rw_def upd_buf_def B''_def filled_def frame_simps)
  have sp: "same_place (filled (?D b) (B' i)) (B' i)" by (simp add: same_place_def filled_def)
  have B'': "bc_inv B'' (\<lambda>j. j = i \<or> sl_locked (slocks s (S_buf j))) ?D \<and> lblk_of B'' ?D = lblk s \<and>
      bref_of B'' = (bref s)(b := Suc (bref s b)) \<and> holds_block B'' i b \<and> b_valid (B'' i) \<and> 0 < b_refcnt (B'' i) \<and>
      (\<forall>j. j \<noteq> i \<longrightarrow> B'' j = bufs s j)"
  proof (cases "b_valid (B' i)")
    case True
    then show ?thesis using g by (simp add: B''_def)
  next
    case False
    have "bc_inv (B'(i := filled (?D b) (B' i))) (\<lambda>j. j = i \<or> sl_locked (slocks s (S_buf j))) ?D"
      by (rule bc_inv_upd [OF g(2) sp])
         (use g(5,6) bc_ref [OF g(2) i] bc_dlen [OF g(2)] in \<open>auto simp: filled_def holds_block_def\<close>)
    moreover have "lblk_of (B'(i := filled (?D b) (B' i))) ?D = lblk s"
      using lblk_upd(1) [OF g(2,5) sp] lblk_hit [OF g(2,5)] False g(3) by (auto simp: filled_def fun_eq_iff)
    moreover have "bref_of (B'(i := filled (?D b) (B' i))) = (bref s)(b := Suc (bref s b))"
      using lblk_upd(2) [OF g(2,5) sp] bref_hit [OF g(2,5)] g(4) by (auto simp: filled_def fun_eq_iff)
    ultimately show ?thesis using False g(5-7) by (simp add: B''_def filled_def holds_block_def)
  qed
  have "bc_ok ?t"
    using B'' by (simp add: bc_ok_def lock_slot_locked frame_simps)
  moreover have "quiet p ?t" using q by (simp add: frame_simps)
  moreover have "bframe s ?t"
    by (simp add: bframe_def frame_simps lock_slot_def settle_def)
  moreover have "b_data (B'' i) = lblk s b"
    using B'' lblk_hit [of B'' _ ?D i b] by metis
  ultimately show ?thesis
    using run B'' g(8) by (intro exI [of _ i] exI [of _ ?t]) (simp add: owns_def locked_by_def lock_slot_def frame_simps)
qed

lemma owns_holds: "owns s pid i b \<Longrightarrow> holds_block (bufs s) i b"
  by (simp add: owns_def)

lemma bwrite_ok:
  assumes q: "quiet p s" and ok: "bc_ok s" and o: "owns s (p_pid (procs s p)) i b"
  shows "\<exists>t. bwrite i s = Ret () t \<and> quiet p t \<and> bc_ok t \<and> bframe s t \<and> lblk t = lblk s \<and>
    bufs t = bufs s \<and> slocks t = slocks s \<and> dsk t = dk_write b (lblk s b) (dsk s)"
proof -
  have inv: "bc_inv (bufs s) (\<lambda>i. sl_locked (slocks s (S_buf i))) (dk_blocks (dsk s))" using ok by (simp add: bc_ok_def)
  have h: "holds_block (bufs s) i b" "b_valid (bufs s i)" "0 < b_refcnt (bufs s i)"
    "locked_by (p_pid (procs s p)) (slocks s (S_buf i))" using o by (simp_all add: owns_def)
  have d: "b_data (bufs s i) = lblk s b" using lblk_hit [OF inv h(1)] h(2) by simp
  let ?t = "(settle s)\<lparr>dsk := dk_write b (lblk s b) (dsk s)\<rparr>"
  have "bwrite i s = Ret () ?t"
    using h d by (simp add: bwrite_def kern_simps holdingsleep_run [OF q] disk_rw_def frame_simps holds_block_def)
  moreover have "bc_ok ?t" "lblk ?t = lblk s"
    using bc_inv_write [OF inv h(1,3,2)] d by (simp_all add: bc_ok_def frame_simps dk_write_def)
  moreover have "quiet p ?t" using q by (simp add: frame_simps)
  moreover have "bframe s ?t" by (simp add: bframe_def frame_simps settle_def)
  ultimately show ?thesis by (intro exI [of _ ?t]) (simp add: frame_simps)
qed

text \<open>Writing into the data of a buffer the process holds.\<close>

definition bset :: "nat \<Rightarrow> (u8 list \<Rightarrow> u8 list) \<Rightarrow> ('a bio_state_scheme, unit) kern" where
  "bset i f = upd_buf i (\<lambda>x. x\<lparr>b_data := f (b_data x)\<rparr>)"

lemma bset_ok:
  assumes q: "quiet p s" and ok: "bc_ok s" and o: "owns s pid i b" and len: "length (f (lblk s b)) = BSIZE"
  shows "\<exists>t. bset i f s = Ret () t \<and> quiet p t \<and> bc_ok t \<and> bframe s t \<and> dsk t = dsk s \<and> slocks t = slocks s \<and>
    procs t = procs s \<and> lblk t = (lblk s)(b := f (lblk s b)) \<and> bref t = bref s \<and> owns t pid i b \<and>
    (\<forall>j. j \<noteq> i \<longrightarrow> bufs t j = bufs s j)"
proof -
  have inv: "bc_inv (bufs s) (\<lambda>i. sl_locked (slocks s (S_buf i))) (dk_blocks (dsk s))" using ok by (simp add: bc_ok_def)
  have h: "holds_block (bufs s) i b" "b_valid (bufs s i)" "0 < b_refcnt (bufs s i)" using o by (simp_all add: owns_def)
  have i: "i < NBUF" using h(1) by (simp add: holds_block_def)
  have d: "b_data (bufs s i) = lblk s b" using lblk_hit [OF inv h(1)] h(2) by simp
  let ?x = "(bufs s i)\<lparr>b_data := f (b_data (bufs s i))\<rparr>"
  let ?t = "s\<lparr>bufs := (bufs s)(i := ?x)\<rparr>"
  have sp: "same_place ?x (bufs s i)" by (simp add: same_place_def)
  have "bc_inv ((bufs s)(i := ?x)) (\<lambda>i. sl_locked (slocks s (S_buf i))) (dk_blocks (dsk s))"
    by (rule bc_inv_upd [OF inv sp]) (use h len d bc_ref [OF inv i] in \<open>auto simp: holds_block_def\<close>)
  moreover have "bset i f s = Ret () ?t" by (simp add: bset_def upd_buf_def kern_simps)
  moreover have "lblk ?t = (lblk s)(b := f (lblk s b))"
    using lblk_upd(1) [OF inv h(1) sp] h(2) d by simp
  moreover have "bref ?t = bref s"
    using lblk_upd(2) [OF inv h(1) sp] bref_hit [OF inv h(1)] by (auto simp: fun_eq_iff)
  moreover have "owns ?t pid i b" using o by (simp add: owns_def holds_block_def)
  moreover have "quiet p ?t" using q by (simp add: frame_simps)
  moreover have "bframe s ?t" by (simp add: bframe_def)
  ultimately show ?thesis by (intro exI [of _ ?t]) (simp add: bc_ok_def)
qed

text \<open>Giving back a reference: the block is on disk as it is in the cache, or somebody else still
  refers to it.\<close>

lemma drop_ref:
  assumes inv: "bc_inv B L D" and h: "holds_block B i b" and ref: "0 < b_refcnt (B i)"
    and clean: "lblk_of B D b = D b \<or> 1 < b_refcnt (B i)" and L: "\<not> L i \<or> 1 < b_refcnt (B i)"
  defines "B' \<equiv> B(i := (B i)\<lparr>b_refcnt := udec (b_refcnt (B i))\<rparr>)"
  shows "bc_inv B' L D" "lblk_of B' D = lblk_of B D" "bref_of B' = (bref_of B)(b := bref_of B b - 1)"
    "holds_block B' = holds_block B" "b_refcnt (B' i) = b_refcnt (B i) - 1"
proof -
  let ?x = "(B i)\<lparr>b_refcnt := udec (b_refcnt (B i))\<rparr>"
  have i: "i < NBUF" using h by (simp add: holds_block_def)
  have u: "udec (b_refcnt (B i)) = b_refcnt (B i) - 1" using bc_ref [OF inv i] ref by simp
  have sp: "same_place ?x (B i)" by (simp add: same_place_def)
  have dat: "b_valid (B i) \<Longrightarrow> b_data (B i) = lblk_of B D b" using lblk_hit [OF inv h] by simp
  show "bc_inv B' L D"
    unfolding B'_def
    by (rule bc_inv_upd [OF inv sp])
       (use u bc_ref [OF inv i] bc_len [OF inv i] h clean L dat ref in \<open>auto simp: holds_block_def\<close>)
  show "lblk_of B' D = lblk_of B D"
    unfolding B'_def using lblk_upd(1) [OF inv h sp] lblk_hit [OF inv h] by (auto simp: fun_eq_iff)
  show "bref_of B' = (bref_of B)(b := bref_of B b - 1)"
    unfolding B'_def using lblk_upd(2) [OF inv h sp] bref_hit [OF inv h] u by simp
  show "holds_block B' = holds_block B" unfolding B'_def by (rule holds_same) simp_all
  show "b_refcnt (B' i) = b_refcnt (B i) - 1" using u by (simp add: B'_def)
qed

definition free_slot :: "nat \<Rightarrow> (slockid \<Rightarrow> sleeplock) \<Rightarrow> slockid \<Rightarrow> sleeplock" where
  "free_slot i S = S(S_buf i := (S (S_buf i))\<lparr>sl_locked := False, sl_pid := 0\<rparr>)"

lemma bmove_front_run: "bmove_front i s = Ret () (s\<lparr>bufs := move_front i (bufs s)\<rparr>)"
  by (simp add: bmove_front_def kern_simps upd_buf_def move_front_def Let_def del: fun_upd_apply)

lemma brelse_run:
  assumes q: "quiet p s" and l: "locked_by (p_pid (procs s p)) (slocks s (S_buf i))"
  defines "B1 \<equiv> (bufs s)(i := (bufs s i)\<lparr>b_refcnt := udec (b_refcnt (bufs s i))\<rparr>)"
  shows "brelse i s = Ret () ((settle s)\<lparr>slocks := free_slot i (slocks s),
      procs := woken (Ch_buflock i) (Some p) {..<NPROC} (procs s),
      bufs := (if b_refcnt (B1 i) = 0 then move_front i B1 else B1)\<rparr>)"
proof -
  let ?u = "(settle s)\<lparr>slocks := free_slot i (slocks s), procs := woken (Ch_buflock i) (Some p) {..<NPROC} (procs s)\<rparr>"
  have rs: "releasesleep (S_buf i) (settle s) = Ret () ?u"
    using releasesleep_run [of p "settle s" "S_buf i"] q by (simp add: frame_simps free_slot_def)
  have qu: "quiet p ?u" using q by (simp add: frame_simps)
  have B1: "(bufs s)(i := (bufs s i)\<lparr>b_refcnt := udec (b_refcnt (bufs s i))\<rparr>) = B1" by (simp add: B1_def)
  have ra: "release L_bcache ((acquired L_bcache ?u)\<lparr>bufs := f\<rparr>) = Ret () ((settle ?u)\<lparr>bufs := f\<rparr>)" for f
    using quietD [OF qu] by (intro release_acquired_bufs)
  show ?thesis
    using quietD [OF qu] l ra
    by (simp add: brelse_def kern_simps holdingsleep_run [OF q] rs acquire_run upd_buf_def
        bmove_front_run frame_simps B1 del: fun_upd_apply)
qed

lemma free_slot_locked: "(\<lambda>j. sl_locked (free_slot i S (S_buf j))) = (\<lambda>j. j \<noteq> i \<and> sl_locked (S (S_buf j)))"
  by (auto simp: free_slot_def)

lemma brelse_ok:
  assumes q: "quiet p s" and ok: "bc_ok s" and o: "owns s (p_pid (procs s p)) i b"
    and clean: "lblk s b = dk_blocks (dsk s) b \<or> 1 < bref s b"
  shows "\<exists>t. brelse i s = Ret () t \<and> quiet p t \<and> bc_ok t \<and> bframe s t \<and> dsk t = dsk s \<and> lblk t = lblk s \<and>
    bref t = (bref s)(b := bref s b - 1) \<and> slocks t = free_slot i (slocks s) \<and>
    (\<forall>pid j c. j \<noteq> i \<longrightarrow> owns t pid j c = owns s pid j c) \<and> (\<forall>j c. holds_block (bufs t) j c = holds_block (bufs s) j c)"
proof -
  let ?L = "\<lambda>j. j \<noteq> i \<and> sl_locked (slocks s (S_buf j))"
  have inv0: "bc_inv (bufs s) (\<lambda>i. sl_locked (slocks s (S_buf i))) (dk_blocks (dsk s))" using ok by (simp add: bc_ok_def)
  then have inv: "bc_inv (bufs s) ?L (dk_blocks (dsk s))" by (rule bc_inv_locks) (use bc_lock [OF inv0] in auto)
  have h: "holds_block (bufs s) i b" "b_valid (bufs s i)" "0 < b_refcnt (bufs s i)"
    "locked_by (p_pid (procs s p)) (slocks s (S_buf i))" using o by (simp_all add: owns_def)
  have i: "i < NBUF" using h(1) by (simp add: holds_block_def)
  define B1 where "B1 = (bufs s)(i := (bufs s i)\<lparr>b_refcnt := udec (b_refcnt (bufs s i))\<rparr>)"
  define B2 where "B2 = (if b_refcnt (B1 i) = 0 then move_front i B1 else B1)"
  have cl: "lblk s b = dk_blocks (dsk s) b \<or> 1 < b_refcnt (bufs s i)"
    using clean bref_hit [OF inv h(1)] by simp
  have nL: "\<not> ?L i \<or> 1 < b_refcnt (bufs s i)" by simp
  note dr = drop_ref [OF inv h(1,3) cl nL, folded B1_def]
  have B2: "bc_inv B2 ?L (dk_blocks (dsk s))" "lblk_of B2 (dk_blocks (dsk s)) = lblk s"
    "bref_of B2 = (bref s)(b := bref s b - 1)" "holds_block B2 = holds_block (bufs s)"
    unfolding B2_def using dr move_front_inv [OF dr(1) i] by simp_all
  let ?t = "(settle s)\<lparr>slocks := free_slot i (slocks s), procs := woken (Ch_buflock i) (Some p) {..<NPROC} (procs s), bufs := B2\<rparr>"
  have "brelse i s = Ret () ?t"
    using brelse_run [OF q h(4)] by (simp add: B1_def B2_def)
  moreover have "bc_ok ?t" using B2(1) by (simp add: bc_ok_def free_slot_locked frame_simps)
  moreover have "quiet p ?t" using q by (simp add: frame_simps)
  moreover have "bframe s ?t" by (simp add: bframe_def frame_simps wakes_woken free_slot_def settle_def)
  moreover have "owns ?t pid j c = owns s pid j c" if "j \<noteq> i" for pid j c
  proof -
    have "b_valid (B2 j) = b_valid (bufs s j)" "b_refcnt (B2 j) = b_refcnt (bufs s j)"
      using that by (simp_all add: B2_def B1_def)
    with that B2(4) show ?thesis by (simp add: owns_def frame_simps free_slot_def)
  qed
  ultimately show ?thesis
    using B2 by (intro exI [of _ ?t]) (simp add: frame_simps)
qed

lemma bpin_ok:
  assumes q: "quiet p s" and ok: "bc_ok s" and h: "holds_block (bufs s) i b" and small: "bref s b + 1 < 2 ^ 32"
  shows "\<exists>t. bpin i s = Ret () t \<and> quiet p t \<and> bc_ok t \<and> bframe s t \<and> dsk t = dsk s \<and> slocks t = slocks s \<and>
    procs t = procs s \<and> lblk t = lblk s \<and> bref t = (bref s)(b := bref s b + 1) \<and> (\<forall>pid j c. owns s pid j c \<longrightarrow> owns t pid j c) \<and>
    (\<forall>j c. holds_block (bufs t) j c = holds_block (bufs s) j c)"
proof -
  have inv: "bc_inv (bufs s) (\<lambda>i. sl_locked (slocks s (S_buf i))) (dk_blocks (dsk s))" using ok by (simp add: bc_ok_def)
  have i: "i < NBUF" using h by (simp add: holds_block_def)
  let ?x = "bump (bufs s i)"
  let ?t = "(settle s)\<lparr>bufs := (bufs s)(i := ?x)\<rparr>"
  have ref: "bref s b = b_refcnt (bufs s i)" by (rule bref_hit [OF inv h])
  then have u: "b_refcnt ?x = Suc (b_refcnt (bufs s i))" using small by (simp add: bump_def)
  have sp: "same_place ?x (bufs s i)" by (simp add: same_place_def bump_def)
  have "bpin i s = Ret () ?t"
    using quietD [OF q] by (simp add: bpin_def kern_simps acquire_run frame_simps upd_buf_def bump_def)
  moreover have "bc_inv ((bufs s)(i := ?x)) (\<lambda>i. sl_locked (slocks s (S_buf i))) (dk_blocks (dsk s))"
  proof (rule bc_inv_upd [OF inv sp])
    show "b_refcnt ?x < 2 ^ 32" using u ref small by simp
  qed (use u bc_len [OF inv i] h in \<open>auto simp: bump_def holds_block_def\<close>)
  moreover have "lblk ?t = lblk s"
    using lblk_upd(1) [OF inv h sp] lblk_hit [OF inv h] by (auto simp: bump_def fun_eq_iff frame_simps)
  moreover have "bref ?t = (bref s)(b := bref s b + 1)" using lblk_upd(2) [OF inv h sp] u ref by simp
  moreover have hs: "holds_block ((bufs s)(i := ?x)) = holds_block (bufs s)" by (rule holds_same) (simp_all add: bump_def)
  moreover have "owns ?t pid j c" if "owns s pid j c" for pid j c
    using that u by (cases "j = i") (auto simp: owns_def holds_block_def frame_simps bump_def)
  moreover have "quiet p ?t" using q by (simp add: frame_simps)
  moreover have "bframe s ?t" by (simp add: bframe_def frame_simps settle_def)
  ultimately show ?thesis by (intro exI [of _ ?t]) (simp add: bc_ok_def frame_simps)
qed

lemma bunpin_ok:
  assumes q: "quiet p s" and ok: "bc_ok s" and h: "holds_block (bufs s) i b" and ref: "1 < bref s b"
  shows "\<exists>t. bunpin i s = Ret () t \<and> quiet p t \<and> bc_ok t \<and> bframe s t \<and> dsk t = dsk s \<and> slocks t = slocks s \<and>
    procs t = procs s \<and> lblk t = lblk s \<and> bref t = (bref s)(b := bref s b - 1) \<and> (\<forall>pid j c. owns s pid j c \<longrightarrow> owns t pid j c) \<and>
    (\<forall>j c. holds_block (bufs t) j c = holds_block (bufs s) j c)"
proof -
  have inv: "bc_inv (bufs s) (\<lambda>i. sl_locked (slocks s (S_buf i))) (dk_blocks (dsk s))" using ok by (simp add: bc_ok_def)
  let ?B = "(bufs s)(i := (bufs s i)\<lparr>b_refcnt := udec (b_refcnt (bufs s i))\<rparr>)"
  let ?t = "(settle s)\<lparr>bufs := ?B\<rparr>"
  have r: "1 < b_refcnt (bufs s i)" using ref bref_hit [OF inv h] by simp
  then have r0: "0 < b_refcnt (bufs s i)" by simp
  have run: "bunpin i s = Ret () ?t"
    using quietD [OF q] by (simp add: bunpin_def kern_simps acquire_run frame_simps upd_buf_def)
  note dr = drop_ref [OF inv h r0 disjI2 [OF r] disjI2 [OF r]]
  have "owns ?t pid j c" if "owns s pid j c" for pid j c
    using that r dr(4,5) by (cases "j = i") (auto simp: owns_def frame_simps)
  moreover have "quiet p ?t" using q by (simp add: frame_simps)
  moreover have "bframe s ?t" by (simp add: bframe_def frame_simps settle_def)
  ultimately show ?thesis
    using run dr by (intro exI [of _ ?t]) (simp add: bc_ok_def frame_simps)
qed

text \<open>Reading a block keeps what the process already holds.\<close>

lemma owns_bread:
  assumes "\<forall>j. j \<noteq> i \<longrightarrow> bufs t j = bufs s j" "slocks t = lock_slot pid' i (slocks s)" "\<not> sl_locked (slocks s (S_buf i))"
    "owns s pid j c"
  shows "owns t pid j c" "j \<noteq> i"
proof -
  show ne: "j \<noteq> i" using assms(3,4) by (auto simp: owns_def locked_by_def)
  then show "owns t pid j c" using assms by (auto simp: owns_def lock_slot_def holds_block_def)
qed

subsection \<open>Initialisation\<close>

definition push_front :: "nat \<Rightarrow> (nat \<Rightarrow> buf) \<Rightarrow> nat \<Rightarrow> buf" where
  "push_front i B =
    (let B1 = B(i := (B i)\<lparr>b_next := b_next (B head)\<rparr>);
         B2 = B1(i := (B1 i)\<lparr>b_prev := head\<rparr>);
         B3 = B2(b_next (B2 head) := (B2 (b_next (B2 head)))\<lparr>b_prev := i\<rparr>)
     in B3(head := (B3 head)\<lparr>b_next := i\<rparr>))"

lemma push_front_other [simp]:
  "b_valid (push_front i B j) = b_valid (B j)" "b_dev (push_front i B j) = b_dev (B j)"
  "b_blockno (push_front i B j) = b_blockno (B j)" "b_refcnt (push_front i B j) = b_refcnt (B j)"
  "b_data (push_front i B j) = b_data (B j)"
  unfolding push_front_def Let_def by (simp_all only: link_upd_other)

lemma ring_push_front:
  assumes "ring B xs" "i \<notin> set xs" "i \<noteq> head"
  shows "ring (push_front i B) (i # xs)"
proof -
  let ?n = "b_next \<circ> B" and ?p = "b_prev \<circ> B"
  have "links (?n(i := ?n head, head := i)) (?p(i := head, ?n head := i)) head (i # xs) head"
    by (rule links_push) (use assms in \<open>auto simp: ring_def\<close>)
  moreover have "b_next \<circ> push_front i B = ?n(i := ?n head, head := i)"
    "b_prev \<circ> push_front i B = ?p(i := head, ?n head := i)"
    using assms(3) unfolding push_front_def Let_def by (simp_all only: next_upd) (auto simp: fun_eq_iff)
  ultimately show ?thesis using assms by (simp add: ring_def)
qed

lemma binit_body_run:
  "binit_body i s = Ret () (s\<lparr>bufs := push_front i (bufs s),
     locks := (locks s)(L_buf i := (locks s (L_buf i))\<lparr>lk_name := ''sleep lock'', lk_locked := False, lk_cpu := None\<rparr>),
     slocks := (slocks s)(S_buf i := (slocks s (S_buf i))\<lparr>sl_name := ''buffer'', sl_locked := False, sl_pid := 0\<rparr>)\<rparr>)"
  by (simp add: binit_body_def kern_simps upd_buf_def push_front_def Let_def initsleeplock_def initlock_def upd_lock_def
      upd_slock_def del: fun_upd_apply)

definition fresh_bufs :: "'a bio_state_scheme \<Rightarrow> bool" where
  "fresh_bufs s \<longleftrightarrow> (\<forall>i<NBUF. \<not> b_valid (bufs s i) \<and> b_refcnt (bufs s i) = 0 \<and> b_dev (bufs s i) = 0 \<and>
     length (b_data (bufs s i)) = BSIZE) \<and> (\<forall>b. length (dk_blocks (dsk s) b) = BSIZE)"

lemma binit_upto:
  assumes "fresh_bufs s" "ring (bufs s) []" "n \<le> NBUF"
  shows "\<exists>t. for_each [0..<n] binit_body s = Ret () t \<and> fresh_bufs t \<and> ring (bufs t) (rev [0..<n]) \<and>
    (\<forall>i<n. \<not> sl_locked (slocks t (S_buf i))) \<and> dsk t = dsk s"
  using assms(3)
proof (induction n)
  case 0
  then show ?case using assms by (simp add: kern_simps)
next
  case (Suc n)
  then obtain t where t: "for_each [0..<n] binit_body s = Ret () t" "fresh_bufs t" "ring (bufs t) (rev [0..<n])"
    "\<forall>i<n. \<not> sl_locked (slocks t (S_buf i))" "dsk t = dsk s" by auto
  from binit_body_run [of n t] obtain u where u: "binit_body n t = Ret () u" "bufs u = push_front n (bufs t)"
    "slocks u = (slocks t)(S_buf n := (slocks t (S_buf n))\<lparr>sl_name := ''buffer'', sl_locked := False, sl_pid := 0\<rparr>)"
    "dsk u = dsk t" by simp
  have "for_each ([0..<n] @ [n]) binit_body s = Ret () u" by (rule for_each_snoc [OF t(1) u(1)])
  moreover have "ring (bufs u) (n # rev [0..<n])"
    unfolding u(2) by (rule ring_push_front [OF t(3)]) (use Suc.prems in auto)
  moreover have "fresh_bufs u" using t(2) by (simp add: fresh_bufs_def u(2,4))
  moreover have "\<forall>i<Suc n. \<not> sl_locked (slocks u (S_buf i))" using t(4) by (auto simp: u(3) less_Suc_eq)
  ultimately show ?case using t(5) u(4) by (intro exI [of _ u]) simp
qed

lemma binit_ok:
  assumes "fresh_bufs s"
  shows "\<exists>t. binit s = Ret () t \<and> bc_ok t \<and> dsk t = dsk s \<and> lblk t = dk_blocks (dsk s) \<and> busy t = {}"
proof -
  let ?B = "(bufs s)(head := (bufs s head)\<lparr>b_prev := head, b_next := head\<rparr>)"
  let ?u = "s\<lparr>locks := (locks s)(L_bcache := (locks s L_bcache)\<lparr>lk_name := ''bcache'', lk_locked := False, lk_cpu := None\<rparr>), bufs := ?B\<rparr>"
  have run: "binit s = for_each [0..<NBUF] binit_body ?u"
    by (simp add: binit_def kern_simps initlock_def upd_lock_def upd_buf_def)
  have "fresh_bufs ?u" using assms by (simp add: fresh_bufs_def)
  moreover have "ring (bufs ?u) []" by (simp add: ring_def)
  ultimately obtain t where t: "binit s = Ret () t" "fresh_bufs t" "ring (bufs t) (rev [0..<NBUF])"
    "\<forall>i<NBUF. \<not> sl_locked (slocks t (S_buf i))" "dsk t = dsk s"
    using binit_upto [of ?u NBUF] run by auto
  have none: "\<not> holds_block (bufs t) i b" for i b using t(2) by (auto simp: fresh_bufs_def holds_block_def ROOTDEV_def)
  then have c: "cached (bufs t) b = None" for b by (simp add: cached_None)
  have "set (rev [0..<NBUF]) = {..<NBUF}" by (auto simp: lessThan_atLeast0)
  with t(3) have "\<exists>xs. ring (bufs t) xs \<and> set xs = {..<NBUF}" by blast
  then have "bc_ok t" using t(2,4) none by (simp add: bc_ok_def bc_inv_def fresh_bufs_def)
  moreover have "lblk t = dk_blocks (dsk s)" by (rule ext) (simp add: lblk_of_def c t(5))
  moreover have "busy t = {}" by (simp add: busy_def bref_of_def c)
  ultimately show ?thesis using t(1,5) by blast
qed

end
