(* ===== verification/Block_Cache.thy ===== *)
theory Block_Cache
  imports Bio
begin

text \<open>
  The interface of the buffer cache (\<^verbatim>\<open>kernel/bio.c\<close>) as the log and the file system use it: the
  locale \<open>block_cache\<close>, the block copies of \<^verbatim>\<open>kernel/log.c\<close> proved against it, and its
  interpretation on the routines of \<open>Bio\<close>.
\<close>

subsection \<open>The contract of the cache\<close>

text \<open>What the log and the file system rely on: blocks have contents (\<open>lb\<close>), reference counts
  (\<open>rf\<close>) and holders (\<open>hl\<close>, the set of held blocks); reading a block holds it and changes no contents,
  a held block can be changed, written to disk and given back.\<close>

text \<open>The two ways the log copies a block: from the cache to the log, and from the log home.\<close>

definition copy_to_log :: "(nat \<Rightarrow> ('s, nat) kern) \<Rightarrow> (nat \<Rightarrow> ('s, unit) kern) \<Rightarrow> (nat \<Rightarrow> (u8 list \<Rightarrow> u8 list) \<Rightarrow> ('s, unit) kern) \<Rightarrow>
    (nat \<Rightarrow> ('s, unit) kern) \<Rightarrow> ('s \<Rightarrow> nat \<Rightarrow> u8 list) \<Rightarrow> nat \<Rightarrow> nat \<Rightarrow> ('s, unit) kern" where
  "copy_to_log rd wr st rel dat b1 b2 =
     bnd (rd b1) (\<lambda>to.
     bnd (rd b2) (\<lambda>from.
     bnd (gets (\<lambda>s. dat s from)) (\<lambda>d.
     bnd (st to (\<lambda>_. d)) (\<lambda>_.
     bnd (wr to) (\<lambda>_.
     bnd (rel from) (\<lambda>_.
     rel to))))))"

definition copy_home :: "(nat \<Rightarrow> ('s, nat) kern) \<Rightarrow> (nat \<Rightarrow> ('s, unit) kern) \<Rightarrow> (nat \<Rightarrow> (u8 list \<Rightarrow> u8 list) \<Rightarrow> ('s, unit) kern) \<Rightarrow>
    (nat \<Rightarrow> ('s, unit) kern) \<Rightarrow> (nat \<Rightarrow> ('s, unit) kern) \<Rightarrow> ('s \<Rightarrow> nat \<Rightarrow> u8 list) \<Rightarrow> bool \<Rightarrow> nat \<Rightarrow> nat \<Rightarrow> ('s, unit) kern" where
  "copy_home rd wr st rel unpin dat recovering b1 b2 =
     bnd (rd b1) (\<lambda>lbuf.
     bnd (rd b2) (\<lambda>dbuf.
     bnd (gets (\<lambda>s. dat s lbuf)) (\<lambda>d.
     bnd (st dbuf (\<lambda>_. d)) (\<lambda>_.
     bnd (wr dbuf) (\<lambda>_.
     bnd (kwhen (\<not> recovering) (unpin dbuf)) (\<lambda>_.
     bnd (rel lbuf) (\<lambda>_.
     rel dbuf)))))))"

locale block_cache =
  fixes rd :: "nat \<Rightarrow> ('s, nat) kern" and wr :: "nat \<Rightarrow> ('s, unit) kern"
    and st :: "nat \<Rightarrow> (u8 list \<Rightarrow> u8 list) \<Rightarrow> ('s, unit) kern" and rel :: "nat \<Rightarrow> ('s, unit) kern"
    and unpin :: "nat \<Rightarrow> ('s, unit) kern"
    and dat :: "'s \<Rightarrow> nat \<Rightarrow> u8 list" and good :: "'s \<Rightarrow> bool" and own :: "'s \<Rightarrow> nat \<Rightarrow> nat \<Rightarrow> bool"
    and lb :: "'s \<Rightarrow> nat \<Rightarrow> u8 list" and rf :: "'s \<Rightarrow> nat \<Rightarrow> nat" and hl :: "'s \<Rightarrow> nat set"
    and dk :: "'s \<Rightarrow> disk" and fr :: "'s \<Rightarrow> 's \<Rightarrow> bool"
  assumes rd_law: "good s \<Longrightarrow> b \<notin> hl s \<Longrightarrow> rf s b + 1 < 2 ^ 32 \<Longrightarrow> 0 < rf s b \<or> card {c. 0 < rf s c} < NBUF \<Longrightarrow>
      \<exists>i t. rd b s = Ret i t \<and> good t \<and> fr s t \<and> own t i b \<and> (\<forall>j c. own s j c \<longrightarrow> own t j c) \<and> dk t = dk s \<and>
        lb t = lb s \<and> rf t = (rf s)(b := Suc (rf s b)) \<and> hl t = insert b (hl s)"
    and wr_law: "good s \<Longrightarrow> own s i b \<Longrightarrow>
      \<exists>t. wr i s = Ret () t \<and> good t \<and> fr s t \<and> (\<forall>j c. own s j c \<longrightarrow> own t j c) \<and> dk t = dk_write b (lb s b) (dk s) \<and>
        lb t = lb s \<and> rf t = rf s \<and> hl t = hl s"
    and st_law: "good s \<Longrightarrow> own s i b \<Longrightarrow> length (f (lb s b)) = BSIZE \<Longrightarrow>
      \<exists>t. st i f s = Ret () t \<and> good t \<and> fr s t \<and> (\<forall>j c. own s j c \<longrightarrow> own t j c) \<and> dk t = dk s \<and>
        lb t = (lb s)(b := f (lb s b)) \<and> rf t = rf s \<and> hl t = hl s"
    and rel_law: "good s \<Longrightarrow> own s i b \<Longrightarrow> lb s b = dk_blocks (dk s) b \<or> 1 < rf s b \<Longrightarrow>
      \<exists>t. rel i s = Ret () t \<and> good t \<and> fr s t \<and> (\<forall>j c. c \<noteq> b \<longrightarrow> own s j c \<longrightarrow> own t j c) \<and> dk t = dk s \<and>
        lb t = lb s \<and> rf t = (rf s)(b := rf s b - 1) \<and> hl t = hl s - {b}"
    and unpin_law: "good s \<Longrightarrow> own s i b \<Longrightarrow> 1 < rf s b \<Longrightarrow>
      \<exists>t. unpin i s = Ret () t \<and> good t \<and> fr s t \<and> (\<forall>j c. own s j c \<longrightarrow> own t j c) \<and> dk t = dk s \<and>
        lb t = lb s \<and> rf t = (rf s)(b := rf s b - 1) \<and> hl t = hl s"
    and dat_law: "good s \<Longrightarrow> own s i b \<Longrightarrow> dat s i = lb s b"
    and len_law: "good s \<Longrightarrow> length (lb s b) = BSIZE"
    and own_pos: "good s \<Longrightarrow> own s i b \<Longrightarrow> 0 < rf s b"
    and fr_refl: "fr s s"
    and fr_trans: "fr s t \<Longrightarrow> fr t u \<Longrightarrow> fr s u"
    and rf_fin: "finite {c. 0 < rf s c}"

begin

lemma card_busy_upd: "card {c. 0 < ((rf s)(b := Suc (rf s b))) c} \<le> Suc (card {c. 0 < rf s c})"
proof -
  have "{c. 0 < ((rf s)(b := Suc (rf s b))) c} = insert b {c. 0 < rf s c}" by auto
  then show ?thesis by (simp add: card_insert_if rf_fin)
qed

lemma read_two:
  assumes g: "good s" "hl s = {}" and ne: "b1 \<noteq> b2" and small: "rf s b1 + 1 < 2 ^ 32" "rf s b2 + 1 < 2 ^ 32"
    and room: "card {c. 0 < rf s c} < NBUF" "0 < rf s b2 \<or> card {c. 0 < rf s c} + 1 < NBUF"
  shows "\<exists>i j t u. rd b1 s = Ret i t \<and> rd b2 t = Ret j u \<and> good u \<and> fr s u \<and> own u i b1 \<and> own u j b2 \<and> dk u = dk s \<and>
    lb u = lb s \<and> rf u = (rf s)(b1 := Suc (rf s b1), b2 := Suc (rf s b2)) \<and> hl u = {b1, b2}"
proof -
  obtain i t where t: "rd b1 s = Ret i t" "good t" "fr s t" "own t i b1" "dk t = dk s" "lb t = lb s"
      "rf t = (rf s)(b1 := Suc (rf s b1))" "hl t = {b1}"
    using rd_law [OF g(1), of b1] g(2) small(1) room(1) by auto
  have "card {c. 0 < rf t c} \<le> Suc (card {c. 0 < rf s c})" unfolding t(7) by (rule card_busy_upd)
  moreover have r2: "rf t b2 = rf s b2" using ne by (simp add: t(7))
  ultimately have rm: "0 < rf t b2 \<or> card {c. 0 < rf t c} < NBUF" using room(2) by linarith
  have nb: "b2 \<notin> hl t" using ne by (simp add: t(8))
  have sm: "rf t b2 + 1 < 2 ^ 32" using small(2) by (simp add: r2)
  from rd_law [OF t(2) nb sm rm]
  obtain j u where u: "rd b2 t = Ret j u" "good u" "fr t u" "own u j b2" "\<forall>j c. own t j c \<longrightarrow> own u j c"
      "dk u = dk t" "lb u = lb t" "rf u = (rf t)(b2 := Suc (rf t b2))" "hl u = insert b2 (hl t)"
    by blast
  have "rf u = (rf s)(b1 := Suc (rf s b1), b2 := Suc (rf s b2))" using u(8) t(7) ne by simp
  moreover have "hl u = {b1, b2}" using u(9) t(8) by auto
  moreover have "fr s u" by (rule fr_trans [OF t(3) u(3)])
  moreover have "own u i b1" using u(5) t(4) by blast
  ultimately show ?thesis
    using t(1,5,6) u(1,2,4,6,7) by (intro exI [of _ i] exI [of _ j] exI [of _ t] exI [of _ u]) simp
qed

lemma rel_two:
  assumes g: "good s" "hl s = {b1, b2}" and o: "own s i b1" "own s j b2" and ne: "b1 \<noteq> b2"
    and c1: "lb s b1 = dk_blocks (dk s) b1 \<or> 1 < rf s b1" and c2: "lb s b2 = dk_blocks (dk s) b2 \<or> 1 < rf s b2"
  shows "\<exists>t u. rel i s = Ret () t \<and> rel j t = Ret () u \<and> good u \<and> fr s u \<and> dk u = dk s \<and> lb u = lb s \<and>
    rf u = (rf s)(b1 := rf s b1 - 1, b2 := rf s b2 - 1) \<and> hl u = {}"
proof -
  obtain t where t: "rel i s = Ret () t" "good t" "fr s t" "\<forall>j c. c \<noteq> b1 \<longrightarrow> own s j c \<longrightarrow> own t j c" "dk t = dk s"
      "lb t = lb s" "rf t = (rf s)(b1 := rf s b1 - 1)" "hl t = hl s - {b1}"
    using rel_law [OF g(1) o(1) c1] by blast
  have oj: "own t j b2" using t(4) o(2) ne by auto
  have "lb t b2 = dk_blocks (dk t) b2 \<or> 1 < rf t b2" using c2 ne by (auto simp: t(5-7))
  then obtain u where u: "rel j t = Ret () u" "good u" "fr t u" "dk u = dk t" "lb u = lb t"
      "rf u = (rf t)(b2 := rf t b2 - 1)" "hl u = hl t - {b2}"
    using rel_law [OF t(2) oj] by blast
  have "rf u = (rf s)(b1 := rf s b1 - 1, b2 := rf s b2 - 1)" using u(6) t(7) ne by simp
  moreover have "hl u = {}" using u(7) t(8) g(2) by auto
  moreover have "fr s u" by (rule fr_trans [OF t(3) u(3)])
  ultimately show ?thesis using t(1,5,6) u(1,2,4,5) by (intro exI [of _ t] exI [of _ u]) simp
qed

lemma set_write:
  assumes g: "good s" and o: "own s i b" and len: "length d = BSIZE"
  shows "\<exists>t u. st i (\<lambda>_. d) s = Ret () t \<and> wr i t = Ret () u \<and> good u \<and> fr s u \<and> (\<forall>j c. own s j c \<longrightarrow> own u j c) \<and>
    dk u = dk_write b d (dk s) \<and> lb u = (lb s)(b := d) \<and> rf u = rf s \<and> hl u = hl s"
proof -
  obtain t where t: "st i (\<lambda>_. d) s = Ret () t" "good t" "fr s t" "\<forall>j c. own s j c \<longrightarrow> own t j c" "dk t = dk s"
      "lb t = (lb s)(b := d)" "rf t = rf s" "hl t = hl s"
    using st_law [OF g o, of "\<lambda>_. d"] len by auto
  then obtain u where u: "wr i t = Ret () u" "good u" "fr t u" "\<forall>j c. own t j c \<longrightarrow> own u j c"
      "dk u = dk_write b (lb t b) (dk t)" "lb u = lb t" "rf u = rf t" "hl u = hl t"
    using wr_law [OF t(2), of i b] o by blast
  have "fr s u" by (rule fr_trans [OF t(3) u(3)])
  moreover have "\<forall>j c. own s j c \<longrightarrow> own u j c" using t(4) u(4) by blast
  ultimately show ?thesis using t u by (intro exI [of _ t] exI [of _ u]) simp
qed

lemma copy_to_log_ok:
  assumes g: "good s" "hl s = {}" and ne: "b1 \<noteq> b2" and small: "rf s b1 + 1 < 2 ^ 32" "rf s b2 + 1 < 2 ^ 32"
    and room: "card {c. 0 < rf s c} < NBUF" "0 < rf s b2"
  shows "\<exists>t. copy_to_log rd wr st rel dat b1 b2 s = Ret () t \<and> good t \<and> fr s t \<and> hl t = {} \<and>
    dk t = dk_write b1 (lb s b2) (dk s) \<and> lb t = (lb s)(b1 := lb s b2) \<and> rf t = rf s"
proof -
  obtain i j t u where u: "rd b1 s = Ret i t" "rd b2 t = Ret j u" "good u" "fr s u" "own u i b1" "own u j b2" "dk u = dk s"
      "lb u = lb s" "rf u = (rf s)(b1 := Suc (rf s b1), b2 := Suc (rf s b2))" "hl u = {b1, b2}"
    using read_two [OF g ne small room(1) disjI1 [OF room(2)]] by blast
  obtain v w where w: "st i (\<lambda>_. lb s b2) u = Ret () v" "wr i v = Ret () w" "good w" "fr u w"
      "\<forall>j c. own u j c \<longrightarrow> own w j c" "dk w = dk_write b1 (lb s b2) (dk u)" "lb w = (lb u)(b1 := lb s b2)" "rf w = rf u" "hl w = hl u"
    using set_write [OF u(3,5) len_law [OF g(1), of b2]] by blast
  have "hl w = {b2, b1}" using w(9) u(10) by auto
  moreover have "own w j b2" "own w i b1" using w(5) u(5,6) by blast+
  moreover have "lb w b2 = dk_blocks (dk w) b2 \<or> 1 < rf w b2" using w(8) u(9) room(2) by simp
  moreover have "lb w b1 = dk_blocks (dk w) b1 \<or> 1 < rf w b1" using w(6,7) by (simp add: dk_write_def)
  ultimately obtain x y where y: "rel j w = Ret () x" "rel i x = Ret () y" "good y" "fr w y" "dk y = dk w" "lb y = lb w"
      "rf y = (rf w)(b2 := rf w b2 - 1, b1 := rf w b1 - 1)" "hl y = {}"
    using rel_two [OF w(3), of b2 b1 j i] ne by metis
  have "copy_to_log rd wr st rel dat b1 b2 s = Ret () y"
    using u w(1,2) y(1,2) dat_law [OF u(3,6)] by (simp add: copy_to_log_def kern_simps)
  moreover have "rf y = rf s" using ne by (auto simp: y(7) w(8) u(9) fun_eq_iff)
  moreover have "fr s y" using fr_trans u(4) w(4) y(4) by blast
  ultimately show ?thesis using y w u by (intro exI [of _ y]) simp
qed

lemma copy_home_ok:
  assumes g: "good s" "hl s = {}" and ne: "b1 \<noteq> b2" and small: "rf s b1 + 1 < 2 ^ 32" "rf s b2 + 1 < 2 ^ 32"
    and room: "card {c. 0 < rf s c} < NBUF" "0 < rf s b2 \<or> card {c. 0 < rf s c} + 1 < NBUF"
    and clean: "lb s b1 = dk_blocks (dk s) b1" and pin: "\<not> recovering \<longrightarrow> 0 < rf s b2"
  shows "\<exists>t. copy_home rd wr st rel unpin dat recovering b1 b2 s = Ret () t \<and> good t \<and> fr s t \<and> hl t = {} \<and>
    dk t = dk_write b2 (lb s b1) (dk s) \<and> lb t = (lb s)(b2 := lb s b1) \<and>
    rf t = (if recovering then rf s else (rf s)(b2 := rf s b2 - 1))"
proof -
  obtain i j t u where u: "rd b1 s = Ret i t" "rd b2 t = Ret j u" "good u" "fr s u" "own u i b1" "own u j b2" "dk u = dk s"
      "lb u = lb s" "rf u = (rf s)(b1 := Suc (rf s b1), b2 := Suc (rf s b2))" "hl u = {b1, b2}"
    using read_two [OF g ne small room] by blast
  obtain v w where w: "st j (\<lambda>_. lb s b1) u = Ret () v" "wr j v = Ret () w" "good w" "fr u w"
      "\<forall>j c. own u j c \<longrightarrow> own w j c" "dk w = dk_write b2 (lb s b1) (dk u)" "lb w = (lb u)(b2 := lb s b1)" "rf w = rf u" "hl w = hl u"
    using set_write [OF u(3,6) len_law [OF g(1), of b1]] by blast
  have ow: "own w i b1" "own w j b2" using w(5) u(5,6) by blast+
  define k where "k = (if recovering then Suc (rf s b2) else rf s b2)"
  have "\<exists>x. kwhen (\<not> recovering) (unpin j) w = Ret () x \<and> good x \<and> fr w x \<and> own x i b1 \<and> own x j b2 \<and> dk x = dk w \<and>
      lb x = lb w \<and> rf x = (rf s)(b1 := Suc (rf s b1), b2 := k) \<and> hl x = hl w"
  proof (cases recovering)
    case True
    then show ?thesis using w(3,8) ow u(9) fr_refl by (intro exI [of _ w]) (simp add: kern_simps k_def)
  next
    case False
    then have "1 < rf w b2" using pin by (simp add: w(8) u(9))
    from unpin_law [OF w(3) ow(2) this] obtain x where x: "unpin j w = Ret () x" "good x" "fr w x"
      "\<forall>j c. own w j c \<longrightarrow> own x j c" "dk x = dk w" "lb x = lb w" "rf x = (rf w)(b2 := rf w b2 - 1)" "hl x = hl w" by blast
    have "rf x = (rf s)(b1 := Suc (rf s b1), b2 := k)" using False by (simp add: x(7) w(8) u(9) k_def)
    moreover have "own x i b1" "own x j b2" using x(4) ow by blast+
    ultimately show ?thesis using False x by (intro exI [of _ x]) (simp add: kern_simps)
  qed
  then obtain x where x: "kwhen (\<not> recovering) (unpin j) w = Ret () x" "good x" "fr w x" "own x i b1" "own x j b2" "dk x = dk w"
      "lb x = lb w" "rf x = (rf s)(b1 := Suc (rf s b1), b2 := k)" "hl x = hl w" by blast
  have hx: "hl x = {b1, b2}" using x(9) w(9) u(10) by simp
  have c1: "lb x b1 = dk_blocks (dk x) b1 \<or> 1 < rf x b1"
    using clean ne by (simp add: x(6,7) w(6,7) u(7,8) dk_write_def)
  have c2: "lb x b2 = dk_blocks (dk x) b2 \<or> 1 < rf x b2" by (simp add: x(6,7) w(6,7) dk_write_def)
  from rel_two [OF x(2) hx x(4,5) ne c1 c2] obtain y z where z: "rel i x = Ret () y" "rel j y = Ret () z" "good z" "fr x z" "dk z = dk x"
      "lb z = lb x" "rf z = (rf x)(b1 := rf x b1 - 1, b2 := rf x b2 - 1)" "hl z = {}" by blast
  have "copy_home rd wr st rel unpin dat recovering b1 b2 s = Ret () z"
    using u(1,2) w(1,2) x(1) z(1,2) dat_law [OF u(3,5)] u(8)
    by (auto simp: copy_home_def kern_simps split: if_splits)
  moreover have "rf z = (if recovering then rf s else (rf s)(b2 := rf s b2 - 1))"
    using ne by (auto simp: z(7) x(8) k_def fun_eq_iff)
  moreover have "fr s z" using fr_trans u(4) w(4) x(3) z(4) by blast
  ultimately show ?thesis using z(3,5,6,8) x(6,7) w(6,7) u(7,8) by (intro exI [of _ z]) simp
qed

lemma update_block:
  assumes g: "good s" and nh: "b \<notin> hl s" and small: "rf s b + 1 < 2 ^ 32" and room: "0 < rf s b \<or> card {c. 0 < rf s c} < NBUF"
    and len: "length (f (lb s b)) = BSIZE"
  shows "\<exists>t. bnd (rd b) (\<lambda>i. bnd (st i f) (\<lambda>_. bnd (wr i) (\<lambda>_. rel i))) s = Ret () t \<and> good t \<and> fr s t \<and>
    dk t = dk_write b (f (lb s b)) (dk s) \<and> lb t = (lb s)(b := f (lb s b)) \<and> rf t = rf s \<and> hl t = hl s"
proof -
  from rd_law [OF g nh small room] obtain i u where u: "rd b s = Ret i u" "good u" "fr s u" "own u i b" "dk u = dk s"
    "lb u = lb s" "rf u = (rf s)(b := Suc (rf s b))" "hl u = insert b (hl s)" by blast
  from st_law [OF u(2,4), of f] len u(6) obtain v where v: "st i f u = Ret () v" "good v" "fr u v" "\<forall>j c. own u j c \<longrightarrow> own v j c"
    "dk v = dk u" "lb v = (lb u)(b := f (lb u b))" "rf v = rf u" "hl v = hl u" by auto
  from v(4) u(4) have ov: "own v i b" by blast
  from wr_law [OF v(2) ov] obtain w where w: "wr i v = Ret () w" "good w" "fr v w" "\<forall>j c. own v j c \<longrightarrow> own w j c"
    "dk w = dk_write b (lb v b) (dk v)" "lb w = lb v" "rf w = rf v" "hl w = hl v" by blast
  from w(4) ov have ow: "own w i b" by blast
  have "lb w b = dk_blocks (dk w) b \<or> 1 < rf w b" by (simp add: w(5,6) dk_write_def)
  from rel_law [OF w(2) ow this] obtain t where t: "rel i w = Ret () t" "good t" "fr w t" "dk t = dk w" "lb t = lb w"
    "rf t = (rf w)(b := rf w b - 1)" "hl t = hl w - {b}" by blast
  have "bnd (rd b) (\<lambda>i. bnd (st i f) (\<lambda>_. bnd (wr i) (\<lambda>_. rel i))) s = Ret () t"
    using u(1) v(1) w(1) t(1) by (simp add: kern_simps)
  moreover have "fr s t" using fr_trans u(3) v(3) w(3) t(3) by blast
  moreover have "hl t = hl s" using nh by (auto simp: t(7) w(8) v(8) u(8))
  ultimately show ?thesis using t(2,4-6) w(5-7) v(5-7) u(5-7) by (intro exI [of _ t]) simp
qed

end

subsection \<open>The buffer cache implements the contract\<close>

definition held_blocks :: "'a bio_state_scheme \<Rightarrow> nat set" where
  "held_blocks s = {b. \<exists>i. holds_block (bufs s) i b \<and> sl_locked (slocks s (S_buf i))}"

lemma bc_disk_len: "bc_ok s \<Longrightarrow> length (lblk s b) = BSIZE"
proof -
  assume "bc_ok s"
  then have inv: "bc_inv (bufs s) (\<lambda>i. sl_locked (slocks s (S_buf i))) (dk_blocks (dsk s))" by (simp add: bc_ok_def)
  show ?thesis
    using bc_dlen [OF inv] bc_len [OF inv] cached_holds [of "bufs s" b]
    by (auto simp: lblk_of_def holds_block_def split: option.splits)
qed

lemma bread_law:
  assumes q: "quiet p s" and ok: "bc_ok s" and nh: "b \<notin> held_blocks s" and small: "bref s b + 1 < 2 ^ 32"
    and room: "0 < bref s b \<or> card {c. 0 < bref s c} < NBUF"
  shows "\<exists>i t. bread ROOTDEV b s = Ret i t \<and> (quiet p t \<and> bc_ok t) \<and> bframe s t \<and> owns t (p_pid (procs t p)) i b \<and>
    (\<forall>j c. owns s (p_pid (procs s p)) j c \<longrightarrow> owns t (p_pid (procs t p)) j c) \<and> dsk t = dsk s \<and>
    lblk t = lblk s \<and> bref t = (bref s)(b := Suc (bref s b)) \<and> held_blocks t = insert b (held_blocks s)"
proof -
  have "unlocked s b" using nh by (simp add: unlocked_def held_blocks_def)
  moreover have "b \<in> busy s \<or> card (busy s) < NBUF" using room by (simp add: busy_def)
  ultimately obtain i t where t: "bread ROOTDEV b s = Ret i t" "quiet p t" "bc_ok t" "bframe s t" "dsk t = dsk s"
    "owns t (p_pid (procs s p)) i b" "lblk t = lblk s" "bref t = (bref s)(b := Suc (bref s b))"
    "slocks t = lock_slot (p_pid (procs s p)) i (slocks s)" "\<forall>j. j \<noteq> i \<longrightarrow> bufs t j = bufs s j" "\<not> sl_locked (slocks s (S_buf i))"
    using bread_ok [OF q ok _ _ small] by blast
  have pid: "p_pid (procs t p) = p_pid (procs s p)" by (rule bframe_pid [OF t(4)])
  have hb: "holds_block (bufs t) j c \<longleftrightarrow> (if j = i then c = b else holds_block (bufs s) j c)" for j c
    using t(6,10) by (auto simp: owns_def holds_block_def)
  have lk: "sl_locked (slocks t (S_buf j)) \<longleftrightarrow> j = i \<or> sl_locked (slocks s (S_buf j))" for j
    by (simp add: t(9) lock_slot_def)
  have "held_blocks t = insert b (held_blocks s)"
    unfolding held_blocks_def hb lk using t(11) by (auto split: if_splits)
  moreover have "\<forall>j c. owns s (p_pid (procs s p)) j c \<longrightarrow> owns t (p_pid (procs s p)) j c"
    using owns_bread [OF t(10,9,11)] by blast
  ultimately show ?thesis using t(1-8) pid by (intro exI [of _ i] exI [of _ t]) simp
qed

lemma owns_frame:
  assumes "bufs t = bufs s" "slocks t = slocks s" "bframe s t"
  shows "owns t (p_pid (procs t p)) j c = owns s (p_pid (procs s p)) j c"
  using assms(1,2) bframe_pid [OF assms(3), of p] by (simp add: owns_def)

lemma owns_unique:
  assumes "bc_ok s" "owns s pid i b" "owns s pid' j b"
  shows "i = j"
  using assms bc_unique [of "bufs s" _ _ i b j] by (auto simp: bc_ok_def owns_def)

lemma bwrite_law:
  assumes q: "quiet p s" and ok: "bc_ok s" and o: "owns s (p_pid (procs s p)) i b"
  shows "\<exists>t. bwrite i s = Ret () t \<and> (quiet p t \<and> bc_ok t) \<and> bframe s t \<and>
    (\<forall>j c. owns s (p_pid (procs s p)) j c \<longrightarrow> owns t (p_pid (procs t p)) j c) \<and> dsk t = dk_write b (lblk s b) (dsk s) \<and>
    lblk t = lblk s \<and> bref t = bref s \<and> held_blocks t = held_blocks s"
proof -
  from bwrite_ok [OF q ok o] obtain t where t: "bwrite i s = Ret () t" "quiet p t" "bc_ok t" "bframe s t" "lblk t = lblk s"
    "bufs t = bufs s" "slocks t = slocks s" "dsk t = dk_write b (lblk s b) (dsk s)" by blast
  have "bref t = bref s" "held_blocks t = held_blocks s" by (simp_all add: held_blocks_def t(6,7))
  then show ?thesis using t(1-5,8) owns_frame [OF t(6,7,4)] by (intro exI [of _ t] conjI allI impI) simp_all
qed

lemma bset_law:
  assumes q: "quiet p s" and ok: "bc_ok s" and o: "owns s (p_pid (procs s p)) i b" and len: "length (f (lblk s b)) = BSIZE"
  shows "\<exists>t. bset i f s = Ret () t \<and> (quiet p t \<and> bc_ok t) \<and> bframe s t \<and>
    (\<forall>j c. owns s (p_pid (procs s p)) j c \<longrightarrow> owns t (p_pid (procs t p)) j c) \<and> dsk t = dsk s \<and>
    lblk t = (lblk s)(b := f (lblk s b)) \<and> bref t = bref s \<and> held_blocks t = held_blocks s"
proof -
  have h: "holds_block (bufs s) i b" using o by (rule owns_holds)
  from bset_ok [of p s "p_pid (procs s p)" i b f, OF q ok o len]
  obtain t where t: "bset i f s = Ret () t" "quiet p t" "bc_ok t" "bframe s t" "dsk t = dsk s" "slocks t = slocks s"
    "procs t = procs s" "lblk t = (lblk s)(b := f (lblk s b))" "bref t = bref s" "owns t (p_pid (procs s p)) i b"
    "\<forall>j. j \<noteq> i \<longrightarrow> bufs t j = bufs s j" by blast
  have "holds_block (bufs t) j c = holds_block (bufs s) j c" for j c
    using t(10,11) h by (cases "j = i") (auto simp: owns_def holds_block_def)
  then have "held_blocks t = held_blocks s" by (simp add: held_blocks_def t(6))
  moreover have "owns t (p_pid (procs t p)) j c" if "owns s (p_pid (procs s p)) j c" for j c
    using that t(6,7,10,11) h by (cases "j = i") (auto simp: owns_def holds_block_def)
  ultimately show ?thesis using t(1-5,8,9) by (intro exI [of _ t] conjI allI impI) simp_all
qed

lemma brelse_law:
  assumes q: "quiet p s" and ok: "bc_ok s" and o: "owns s (p_pid (procs s p)) i b"
    and clean: "lblk s b = dk_blocks (dsk s) b \<or> 1 < bref s b"
  shows "\<exists>t. brelse i s = Ret () t \<and> (quiet p t \<and> bc_ok t) \<and> bframe s t \<and>
    (\<forall>j c. c \<noteq> b \<longrightarrow> owns s (p_pid (procs s p)) j c \<longrightarrow> owns t (p_pid (procs t p)) j c) \<and> dsk t = dsk s \<and>
    lblk t = lblk s \<and> bref t = (bref s)(b := bref s b - 1) \<and> held_blocks t = held_blocks s - {b}"
proof -
  have inv: "bc_inv (bufs s) (\<lambda>i. sl_locked (slocks s (S_buf i))) (dk_blocks (dsk s))" using ok by (simp add: bc_ok_def)
  have h: "holds_block (bufs s) i b" using o by (rule owns_holds)
  from brelse_ok [OF q ok o clean]
  obtain t where t: "brelse i s = Ret () t" "quiet p t" "bc_ok t" "bframe s t" "dsk t = dsk s" "lblk t = lblk s"
    "bref t = (bref s)(b := bref s b - 1)" "slocks t = free_slot i (slocks s)"
    "\<forall>pid j c. j \<noteq> i \<longrightarrow> owns t pid j c = owns s pid j c" "\<forall>j c. holds_block (bufs t) j c = holds_block (bufs s) j c" by blast
  have own: "owns t (p_pid (procs t p)) j c" if "c \<noteq> b" "owns s (p_pid (procs s p)) j c" for j c
  proof -
    have "j \<noteq> i" using that h by (auto simp: owns_def holds_block_def)
    then show ?thesis using t(9) that(2) bframe_pid [OF t(4), of p] by simp
  qed
  have lk: "sl_locked (slocks t (S_buf j)) \<longleftrightarrow> j \<noteq> i \<and> sl_locked (slocks s (S_buf j))" for j
    by (simp add: t(8) free_slot_def)
  have one: "holds_block (bufs s) j b \<longleftrightarrow> j = i" for j using bc_unique [OF inv h] h by blast
  have fn: "holds_block (bufs s) i c \<longleftrightarrow> c = b" for c using h by (auto simp: holds_block_def)
  have "held_blocks t = held_blocks s - {b}"
    unfolding held_blocks_def lk t(10) [rule_format]
  proof (rule set_eqI)
    fix c
    show "c \<in> {b. \<exists>j. holds_block (bufs s) j b \<and> j \<noteq> i \<and> sl_locked (slocks s (S_buf j))} \<longleftrightarrow>
        c \<in> {b. \<exists>i. holds_block (bufs s) i b \<and> sl_locked (slocks s (S_buf i))} - {b}"
      by (cases "c = b") (use one fn in auto)
  qed
  then show ?thesis using t(1-7) own by (intro exI [of _ t] conjI allI impI) simp_all
qed

lemma bunpin_law:
  assumes q: "quiet p s" and ok: "bc_ok s" and o: "owns s (p_pid (procs s p)) i b" and r: "1 < bref s b"
  shows "\<exists>t. bunpin i s = Ret () t \<and> (quiet p t \<and> bc_ok t) \<and> bframe s t \<and>
    (\<forall>j c. owns s (p_pid (procs s p)) j c \<longrightarrow> owns t (p_pid (procs t p)) j c) \<and> dsk t = dsk s \<and>
    lblk t = lblk s \<and> bref t = (bref s)(b := bref s b - 1) \<and> held_blocks t = held_blocks s"
proof -
  from bunpin_ok [OF q ok owns_holds [OF o] r]
  obtain t where t: "bunpin i s = Ret () t" "quiet p t" "bc_ok t" "bframe s t" "dsk t = dsk s" "slocks t = slocks s"
    "procs t = procs s" "lblk t = lblk s" "bref t = (bref s)(b := bref s b - 1)" "\<forall>pid j c. owns s pid j c \<longrightarrow> owns t pid j c"
    "\<forall>j c. holds_block (bufs t) j c = holds_block (bufs s) j c" by blast
  have "held_blocks t = held_blocks s" by (simp add: held_blocks_def t(6,11))
  then show ?thesis using t(1-5,7-10) by (intro exI [of _ t] conjI allI impI) simp_all
qed

lemma owns_facts:
  assumes ok: "bc_ok s" and o: "owns s pid i b"
  shows "b_data (bufs s i) = lblk s b" "0 < bref s b"
proof -
  have inv: "bc_inv (bufs s) (\<lambda>i. sl_locked (slocks s (S_buf i))) (dk_blocks (dsk s))" using ok by (simp add: bc_ok_def)
  have h: "holds_block (bufs s) i b" using o by (rule owns_holds)
  show "b_data (bufs s i) = lblk s b" using o lblk_hit [OF inv h] by (simp add: owns_def)
  show "0 < bref s b" using o bref_hit [OF inv h] by (simp add: owns_def)
qed

interpretation bc: block_cache "bread ROOTDEV" bwrite bset brelse bunpin "\<lambda>s i. b_data (bufs s i)"
  "\<lambda>s. quiet p s \<and> bc_ok s" "\<lambda>s. owns s (p_pid (procs s p))" lblk bref held_blocks dsk bframe for p
proof (unfold_locales, goal_cases)
  case (1 s b) then show ?case by (intro bread_law) simp_all
next
  case (2 s i b) then show ?case by (intro bwrite_law) simp_all
next
  case (3 s i b f) then show ?case by (intro bset_law) simp_all
next
  case (4 s i b) then show ?case by (intro brelse_law) simp_all
next
  case (5 s i b) then show ?case by (intro bunpin_law) simp_all
next
  case (6 s i b) then show ?case by (intro owns_facts(1)) simp_all
next
  case (7 s b) then show ?case by (intro bc_disk_len) simp_all
next
  case (8 s i b) then show ?case using owns_facts(2) by blast
next
  case (9 s) show ?case by simp
next
  case (10 s t u) then show ?case by (rule bframe_trans)
next
  case (11 s) show ?case using finite_busy [of s] by (simp add: busy_def)
qed

subsection \<open>What the cache guarantees\<close>

text \<open>A sample state: process 3 (identifier 7) runs with no lock held, the cache is linked in
  the order of the indices, buffer \<open>i\<close> refers to block \<open>f i\<close> if that is given, and the disk is zero.\<close>

definition sample_buf :: "(nat \<Rightarrow> nat option) \<Rightarrow> nat \<Rightarrow> buf" where
  "sample_buf f i =
     \<lparr>b_valid = False, b_disk = False, b_dev = (if f i = None then 0 else ROOTDEV),
      b_blockno = (case f i of None \<Rightarrow> 0 | Some b \<Rightarrow> b), b_refcnt = (if f i = None then 0 else 1),
      b_prev = (if i = 0 then head else i - 1), b_next = (if i = head then 0 else i + 1),
      b_data = replicate BSIZE 0\<rparr>"

definition sample_bio :: "(nat \<Rightarrow> nat option) \<Rightarrow> bio_state" where
  "sample_bio f =
     \<lparr>tp = 0, sstatus = 0, cur_ctx = zero_context,
      cpus = (\<lambda>_. \<lparr>c_proc = Some 3, c_context = zero_context, c_noff = 0, c_intena = False\<rparr>),
      locks = (\<lambda>_. \<lparr>lk_locked = False, lk_name = [], lk_cpu = None\<rparr>),
      procs = (\<lambda>p. if p = 3 then unused_proc\<lparr>p_state := RUNNING, p_pid := 7\<rparr> else unused_proc),
      initproc = None, nextpid = 8, mem = (\<lambda>_. 0), freelist = 0, kend = 0x87ff0000,
      slocks = (\<lambda>_. \<lparr>sl_locked = False, sl_name = [], sl_pid = 0\<rparr>),
      dsk = \<lparr>dk_blocks = (\<lambda>_. replicate BSIZE 0), dk_hist = []\<rparr>, bufs = sample_buf f\<rparr>"

lemma sample_links: "m \<le> NBUF \<Longrightarrow> links (b_next \<circ> sample_buf f) (b_prev \<circ> sample_buf f) (if m = 0 then head else m - 1) [m..<NBUF] head"
proof (induction "NBUF - m" arbitrary: m)
  case 0
  then show ?case by (simp add: sample_buf_def NBUF_def MAXOPBLOCKS_def)
next
  case (Suc n)
  then have m: "m < NBUF" by simp
  have "links (b_next \<circ> sample_buf f) (b_prev \<circ> sample_buf f) m [Suc m..<NBUF] head"
    using Suc(1) [of "Suc m"] Suc(2) m by simp
  then show ?case using m by (auto simp: upt_conv_Cons sample_buf_def)
qed

lemma sample_ring: "ring (sample_buf f) [0..<NBUF]"
  using sample_links [of 0 f] by (simp add: ring_def)

lemma sample_bio_bufs: "bufs (sample_bio f) = sample_buf f"
  by (simp add: sample_bio_def)

lemma sample_quiet: "quiet 3 (sample_bio f)"
  by (simp add: quiet_def cpu_ok_def lock_free_def mach_defs sample_bio_def NPROC_def)

lemma sample_holds: "holds_block (sample_buf f) i b \<Longrightarrow> i < NBUF \<and> f i = Some b"
  by (cases "f i") (simp_all add: holds_block_def sample_buf_def ROOTDEV_def)

lemma sample_bc_inv:
  assumes "inj_on f {i. i < NBUF \<and> f i \<noteq> None}" and D: "\<And>b. length (D b) = BSIZE"
  shows "bc_inv (sample_buf f) (\<lambda>_. False) D"
proof -
  have one: "i = j" if h: "holds_block (sample_buf f) i b" "holds_block (sample_buf f) j b" for i j b
    using h [THEN sample_holds] inj_onD [OF assms(1), of i j] by simp
  have "set [0..<NBUF] = {..<NBUF}" by (simp add: lessThan_atLeast0)
  with sample_ring have r: "\<exists>xs. ring (sample_buf f) xs \<and> set xs = {..<NBUF}" by blast
  have "b_refcnt (sample_buf f i) < 2 ^ 32 \<and> b_dev (sample_buf f i) \<in> {0, ROOTDEV} \<and> length (b_data (sample_buf f i)) = BSIZE"
    "b_valid (sample_buf f i) \<or> 0 < b_refcnt (sample_buf f i) \<longrightarrow> b_dev (sample_buf f i) = ROOTDEV"
    "\<not> b_valid (sample_buf f i)" for i by (simp_all add: sample_buf_def)
  with r one D show ?thesis unfolding bc_inv_def by simp
qed

lemma sample_bc_ok:
  assumes "inj_on f {i. i < NBUF \<and> f i \<noteq> None}"
  shows "bc_ok (sample_bio f)"
proof -
  have sl: "sl_locked (slocks (sample_bio f) k) = False" "dk_blocks (dsk (sample_bio f)) b = replicate BSIZE 0" for k b
    by (simp_all add: sample_bio_def)
  have "bc_inv (sample_buf f) (\<lambda>_. False) (dk_blocks (dsk (sample_bio f)))" by (rule sample_bc_inv [OF assms]) (simp add: sl(2))
  then show ?thesis unfolding bc_ok_def sample_bio_bufs sl .
qed

lemma sample_cached: "cached (sample_buf (\<lambda>_. None)) b = None"
  by (simp add: cached_None holds_block_def sample_buf_def ROOTDEV_def)

lemma sample_empty: "bc_ok (sample_bio (\<lambda>_. None))" "lblk (sample_bio (\<lambda>_. None)) b = replicate BSIZE 0"
  "bref (sample_bio (\<lambda>_. None)) b = 0" "held_blocks (sample_bio (\<lambda>_. None)) = {}"
proof -
  show "bc_ok (sample_bio (\<lambda>_. None))" by (rule sample_bc_ok) simp
  show "lblk (sample_bio (\<lambda>_. None)) b = replicate BSIZE 0"
    by (simp add: lblk_of_def sample_bio_bufs sample_cached) (simp add: sample_bio_def)
  show "bref (sample_bio (\<lambda>_. None)) b = 0" by (simp add: bref_of_def sample_bio_bufs sample_cached)
  show "held_blocks (sample_bio (\<lambda>_. None)) = {}" by (simp add: held_blocks_def sample_bio_def)
qed

text \<open>C27: reading a block, changing it, writing it and giving the buffer back changes that block,
  in the cache and on the disk, to the new contents and no other block, and leaves the cache in
  order with the reference counts and the held buffers it had; the buffer the block was read into held its current contents.\<close>

theorem cache_write_through:
  assumes "quiet p s" "bc_ok s" "b \<notin> held_blocks s" "bref s b + 1 < 2 ^ 32" "0 < bref s b \<or> card {c. 0 < bref s c} < NBUF"
    "length (f (lblk s b)) = BSIZE"
  shows "\<exists>t. bnd (bread ROOTDEV b) (\<lambda>i. bnd (bset i f) (\<lambda>_. bnd (bwrite i) (\<lambda>_. brelse i))) s = Ret () t \<and> quiet p t \<and> bc_ok t \<and>
    dsk t = dk_write b (f (lblk s b)) (dsk s) \<and> lblk t = (lblk s)(b := f (lblk s b)) \<and> bref t = bref s \<and> held_blocks t = held_blocks s"
  using bc.update_block [of p s b f] assms by blast

theorem cache_write_through_witness:
  "\<exists>t. bnd (bread ROOTDEV 46) (\<lambda>i. bnd (bset i (\<lambda>d. 1 # tl d)) (\<lambda>_. bnd (bwrite i) (\<lambda>_. brelse i))) (sample_bio (\<lambda>_. None)) = Ret () t \<and>
    bc_ok t \<and> lblk t 46 = 1 # replicate 1023 0"
proof -
  have "length (tl (replicate BSIZE (0 :: u8))) = 1023" by (simp add: BSIZE_def)
  then show ?thesis
    using cache_write_through [of 3 "sample_bio (\<lambda>_. None)" 46 "\<lambda>d. 1 # tl d"] sample_quiet [of "\<lambda>_. None"] sample_empty
    by (auto simp: NBUF_def MAXOPBLOCKS_def BSIZE_def)
qed

lemma all_busy:
  assumes "card (busy s) = NBUF" "i < NBUF"
  shows "0 < b_refcnt (bufs s i)"
proof (rule ccontr)
  assume z: "\<not> 0 < b_refcnt (bufs s i)"
  have "busy s \<subseteq> (\<lambda>i. b_blockno (bufs s i)) ` ({..<NBUF} - {i})"
  proof
    fix b assume "b \<in> busy s"
    from busyD [OF this] obtain j where j: "holds_block (bufs s) j b" "0 < b_refcnt (bufs s j)" by blast
    then have "b = b_blockno (bufs s j)" "j \<in> {..<NBUF} - {i}" using z by (auto simp: holds_block_def)
    then show "b \<in> (\<lambda>i. b_blockno (bufs s i)) ` ({..<NBUF} - {i})" by (rule image_eqI)
  qed
  then have "card (busy s) \<le> card ({..<NBUF} - {i})" by (rule surj_card_le [rotated]) simp
  then show False using assms by simp
qed

text \<open>With every buffer referenced and the block in none of them, \<open>bget\<close> panics: it never takes a
  buffer somebody refers to.\<close>

lemma bget_never_steals:
  assumes "quiet p s" "bc_ok s" "cached (bufs s) b = None" "card (busy s) = NBUF"
  shows "bget ROOTDEV b s = Panic ''bget: no buffers''"
proof -
  have inv: "bc_inv (bufs s) (\<lambda>i. sl_locked (slocks s (S_buf i))) (dk_blocks (dsk s))" using assms(2) by (simp add: bc_ok_def)
  obtain xs where xs: "ring (bufs s) xs" "set xs = {..<NBUF}" using bc_ring [OF inv] by blast
  have scan1: "bscan b_next (\<lambda>x. b_dev x = ROOTDEV \<and> b_blockno x = b) (bufs s) (b_next (bufs s head)) = Some None"
    by (simp only: ring_scan(1) [OF xs(1)] find_cached [OF inv xs] assms(3))
  have "find (\<lambda>i. b_refcnt (bufs s i) = 0) (rev xs) = None"
    using all_busy [OF assms(4)] xs(2) by (auto simp: find_None_iff)
  then have scan2: "bscan b_prev (\<lambda>x. b_refcnt x = 0) (bufs s) (b_prev (bufs s head)) = Some None"
    by (simp only: ring_scan(2) [OF xs(1)])
  show ?thesis
    using quietD [OF assms(1)] scan1 scan2 by (simp add: bget_def kern_simps acquire_run frame_simps bscan_k_def)
qed


end
