(* ===== verification/Byte_Fields.thy ===== *)
theory Byte_Fields
  imports Phys_Mem
begin

text \<open>
  Little-endian integer fields inside a block of bytes. The code reaches them by casting the data
  of a buffer to a structure (\<^verbatim>\<open>struct logheader\<close>, \<^verbatim>\<open>struct superblock\<close>,
  \<^verbatim>\<open>struct dinode\<close>, \<^verbatim>\<open>struct dirent\<close>) or to an array of \<^verbatim>\<open>uint\<close>.
\<close>

definition sub_bytes :: "u8 list \<Rightarrow> nat \<Rightarrow> nat \<Rightarrow> u8 list" where
  "sub_bytes d off n = take n (drop off d)"

definition put_bytes :: "u8 list \<Rightarrow> nat \<Rightarrow> u8 list \<Rightarrow> u8 list" where
  "put_bytes d off xs = take off d @ xs @ drop (off + length xs) d"

definition get32 :: "u8 list \<Rightarrow> nat \<Rightarrow> u32" where
  "get32 d off = le_word (sub_bytes d off 4)"

definition put32 :: "u8 list \<Rightarrow> nat \<Rightarrow> u32 \<Rightarrow> u8 list" where
  "put32 d off w = put_bytes d off (le_bytes 4 w)"

definition get16 :: "u8 list \<Rightarrow> nat \<Rightarrow> 16 word" where
  "get16 d off = le_word (sub_bytes d off 2)"

definition put16 :: "u8 list \<Rightarrow> nat \<Rightarrow> 16 word \<Rightarrow> u8 list" where
  "put16 d off w = put_bytes d off (le_bytes 2 w)"

lemma length_put_bytes [simp]: "off + length xs \<le> length d \<Longrightarrow> length (put_bytes d off xs) = length d"
  by (simp add: put_bytes_def)

lemma nth_put_bytes:
  assumes "off + length xs \<le> length d" "i < length d"
  shows "put_bytes d off xs ! i = (if off \<le> i \<and> i < off + length xs then xs ! (i - off) else d ! i)"
proof -
  have "drop (off + length xs) d ! (i - off - length xs) = d ! i" if "off + length xs \<le> i"
    using that assms by (simp add: add.commute)
  then show ?thesis using assms by (auto simp: put_bytes_def nth_append min_def)
qed

lemma nth_sub_bytes: "i < n \<Longrightarrow> off + n \<le> length d \<Longrightarrow> sub_bytes d off n ! i = d ! (off + i)"
  by (simp add: sub_bytes_def)

lemma length_sub_bytes [simp]: "off + n \<le> length d \<Longrightarrow> length (sub_bytes d off n) = n"
  by (simp add: sub_bytes_def)

lemma sub_put_same: "off + length xs \<le> length d \<Longrightarrow> sub_bytes (put_bytes d off xs) off (length xs) = xs"
  by (simp add: sub_bytes_def put_bytes_def min_def)

lemma sub_put_other:
  assumes "off + length xs \<le> length d" "o2 + n \<le> length d" "o2 + n \<le> off \<or> off + length xs \<le> o2"
  shows "sub_bytes (put_bytes d off xs) o2 n = sub_bytes d o2 n"
proof (rule nth_equalityI)
  show "length (sub_bytes (put_bytes d off xs) o2 n) = length (sub_bytes d o2 n)" using assms by simp
next
  fix i assume "i < length (sub_bytes (put_bytes d off xs) o2 n)"
  then have i: "i < n" using assms by simp
  then show "sub_bytes (put_bytes d off xs) o2 n ! i = sub_bytes d o2 n ! i"
    using assms by (auto simp: nth_sub_bytes nth_put_bytes)
qed

lemma put_sub_id: "off + n \<le> length d \<Longrightarrow> put_bytes d off (sub_bytes d off n) = d"
  by (rule nth_equalityI) (auto simp: nth_put_bytes nth_sub_bytes)

lemma length_put32 [simp]: "off + 4 \<le> length d \<Longrightarrow> length (put32 d off w) = length d"
  by (simp add: put32_def)

lemma length_put16 [simp]: "off + 2 \<le> length d \<Longrightarrow> length (put16 d off w) = length d"
  by (simp add: put16_def)

lemma get_put32_same [simp]: "off + 4 \<le> length d \<Longrightarrow> get32 (put32 d off w) off = w"
  using sub_put_same [of off "le_bytes 4 w" d] by (simp add: get32_def put32_def le_word_bytes)

lemma get_put16_same [simp]: "off + 2 \<le> length d \<Longrightarrow> get16 (put16 d off w) off = w"
  using sub_put_same [of off "le_bytes 2 w" d] by (simp add: get16_def put16_def le_word_bytes)

lemma get_put32_other:
  "off + 4 \<le> length d \<Longrightarrow> o2 + 4 \<le> length d \<Longrightarrow> o2 + 4 \<le> off \<or> off + 4 \<le> o2 \<Longrightarrow> get32 (put32 d off w) o2 = get32 d o2"
  using sub_put_other [of off "le_bytes 4 w" d o2 4] by (simp add: get32_def put32_def)

text \<open>An array of 32-bit words stored one after the other.\<close>

definition put32s :: "nat \<Rightarrow> (nat \<Rightarrow> u32) \<Rightarrow> nat \<Rightarrow> u8 list \<Rightarrow> u8 list" where
  "put32s off f n d = fold (\<lambda>i d. put32 d (off + 4 * i) (f i)) [0..<n] d"

lemma put32s_Suc: "put32s off f (Suc n) d = put32 (put32s off f n d) (off + 4 * n) (f n)"
  by (simp add: put32s_def)

lemma length_put32s [simp]: "off + 4 * n \<le> length d \<Longrightarrow> length (put32s off f n d) = length d"
  by (induction n) (simp_all add: put32s_Suc, simp add: put32s_def)

lemma get_put32s:
  "off + 4 * n \<le> length d \<Longrightarrow> i < n \<Longrightarrow> get32 (put32s off f n d) (off + 4 * i) = f i"
proof (induction n)
  case (Suc n)
  then show ?case by (cases "i = n") (simp_all add: put32s_Suc get_put32_other)
qed simp

lemma get_put32s_below:
  "off + 4 * n \<le> length d \<Longrightarrow> o2 + 4 \<le> off \<Longrightarrow> get32 (put32s off f n d) o2 = get32 d o2"
  by (induction n) (simp_all add: put32s_Suc get_put32_other, simp add: put32s_def)

lemma get32_zeros: "off + 4 \<le> n \<Longrightarrow> get32 (replicate n 0) off = 0"
  by (simp add: get32_def sub_bytes_def min_def le_word_zeros)

end
