(* ===== verification/Log.thy ===== *)
theory Log
  imports Block_Cache Byte_Fields
begin

text \<open>
  \<^verbatim>\<open>kernel/log.c\<close>: the write-ahead log. A transaction's blocks are pinned in the cache by
  \<open>log_write\<close>; \<open>commit\<close> copies them to the log area, writes the header (the commit point), installs
  them at home and clears the header; \<open>recover_from_log\<close> replays a committed log after a crash.
  The \<open>int\<close> fields of the C structures are integers, converted to the block numbers (\<open>uint\<close>) that
  \<open>bread\<close> takes by \<open>to_uint\<close>.
\<close>

definition LOGSIZE :: nat where "LOGSIZE = MAXOPBLOCKS * 3"

record superblock =
  sb_magic :: nat
  sb_size :: nat
  sb_nblocks :: nat
  sb_ninodes :: nat
  sb_nlog :: nat
  sb_logstart :: nat
  sb_inodestart :: nat
  sb_bmapstart :: nat

record logheader =
  lh_n :: int
  lh_block :: "nat \<Rightarrow> nat"

record log =
  lg_start :: int
  lg_size :: int
  lg_outstanding :: int
  lg_committing :: bool
  lg_dev :: int
  lg_lh :: logheader

record log_state = bio_state +
  lg :: log

definition to_uint :: "int \<Rightarrow> nat" where
  "to_uint i = nat (i mod 2 ^ 32)"

definition upd_log :: "(log \<Rightarrow> log) \<Rightarrow> ('a log_state_scheme, unit) kern" where
  "upd_log f = modf (\<lambda>s. s\<lparr>lg := f (lg s)\<rparr>)"

text \<open>The block number of the log block for entry \<open>tail\<close>, and of its home.\<close>

definition log_block :: "log \<Rightarrow> nat \<Rightarrow> nat" where
  "log_block l tail = to_uint (lg_start l + int tail + 1)"

definition home_block :: "log \<Rightarrow> nat \<Rightarrow> nat" where
  "home_block l tail = lh_block (lg_lh l) tail"

definition buf_data :: "nat \<Rightarrow> ('a bio_state_scheme, u8 list) kern" where
  "buf_data i = gets (\<lambda>s. b_data (bufs s i))"

definition install_trans :: "bool \<Rightarrow> ('a log_state_scheme, unit) kern" where
  "install_trans recovering =
     bnd (gets (\<lambda>s. lh_n (lg_lh (lg s)))) (\<lambda>n.
     for_each [0..<nat n] (\<lambda>tail.
       bnd (gets lg) (\<lambda>l.
       bnd (bread (to_uint (lg_dev l)) (log_block l tail)) (\<lambda>lbuf.
       bnd (bread (to_uint (lg_dev l)) (home_block l tail)) (\<lambda>dbuf.
       bnd (buf_data lbuf) (\<lambda>d.
       bnd (bset dbuf (\<lambda>_. d)) (\<lambda>_.
       bnd (bwrite dbuf) (\<lambda>_.
       bnd (kwhen (\<not> recovering) (bunpin dbuf)) (\<lambda>_.
       bnd (brelse lbuf) (\<lambda>_.
       brelse dbuf))))))))))"

definition lh_get :: "u8 list \<Rightarrow> logheader" where
  "lh_get d = \<lparr>lh_n = sint (get32 d 0), lh_block = (\<lambda>i. unat (get32 d (4 + 4 * i)))\<rparr>"

text \<open>The copy of the header into memory: the count, then that many entries; the others keep
  what they were.\<close>

definition load_head :: "logheader \<Rightarrow> ('a log_state_scheme, unit) kern" where
  "load_head g =
     bnd (upd_log (\<lambda>l. l\<lparr>lg_lh := (lg_lh l)\<lparr>lh_n := lh_n g\<rparr>\<rparr>)) (\<lambda>_.
     for_each [0..<nat (lh_n g)] (\<lambda>i.
       upd_log (\<lambda>l. l\<lparr>lg_lh := (lg_lh l)\<lparr>lh_block := (lh_block (lg_lh l))(i := lh_block g i)\<rparr>\<rparr>)))"

definition read_head :: "('a log_state_scheme, unit) kern" where
  "read_head =
     bnd (gets lg) (\<lambda>l.
     bnd (bread (to_uint (lg_dev l)) (to_uint (lg_start l))) (\<lambda>b.
     bnd (buf_data b) (\<lambda>d.
     bnd (load_head (lh_get d)) (\<lambda>_.
     brelse b))))"

definition lh_put :: "logheader \<Rightarrow> u8 list \<Rightarrow> u8 list" where
  "lh_put h d = put32s 4 (\<lambda>i. of_nat (lh_block h i)) (nat (lh_n h)) (put32 d 0 (of_int (lh_n h)))"

definition write_head :: "('a log_state_scheme, unit) kern" where
  "write_head =
     bnd (gets lg) (\<lambda>l.
     bnd (bread (to_uint (lg_dev l)) (to_uint (lg_start l))) (\<lambda>b.
     bnd (bset b (lh_put (lg_lh l))) (\<lambda>_.
     bnd (bwrite b) (\<lambda>_.
     brelse b))))"

definition set_lh_n :: "int \<Rightarrow> ('a log_state_scheme, unit) kern" where
  "set_lh_n n = upd_log (\<lambda>l. l\<lparr>lg_lh := (lg_lh l)\<lparr>lh_n := n\<rparr>\<rparr>)"

definition recover_from_log :: "('a log_state_scheme, unit) kern" where
  "recover_from_log =
     bnd read_head (\<lambda>_.
     bnd (install_trans True) (\<lambda>_.
     bnd (set_lh_n 0) (\<lambda>_.
     write_head)))"

definition initlog :: "nat \<Rightarrow> superblock \<Rightarrow> ('a log_state_scheme, unit) kern" where
  "initlog dev sb =
     (if 4 + 4 * LOGSIZE \<ge> BSIZE then panic ''initlog: too big logheader'' else
      bnd (initlock L_log ''log'') (\<lambda>_.
      bnd (upd_log (\<lambda>l. l\<lparr>lg_start := int (sb_logstart sb), lg_size := int (sb_nlog sb), lg_dev := int dev\<rparr>)) (\<lambda>_.
      recover_from_log)))"

text \<open>\<open>begin_op\<close> from the test of its loop on; a process that slept comes back to it through
  \<open>begin_op_resume\<close>.\<close>

definition begin_op_loop :: "('a log_state_scheme, unit) kern" where
  "begin_op_loop =
     bnd (gets lg) (\<lambda>l.
     if lg_committing l then sleep Ch_log L_log
     else if lh_n (lg_lh l) + (lg_outstanding l + 1) * int MAXOPBLOCKS > int LOGSIZE then sleep Ch_log L_log
     else
       bnd (upd_log (\<lambda>l. l\<lparr>lg_outstanding := lg_outstanding l + 1\<rparr>)) (\<lambda>_.
       release L_log))"

definition begin_op :: "('a log_state_scheme, unit) kern" where
  "begin_op = bnd (acquire L_log) (\<lambda>_. begin_op_loop)"

definition begin_op_resume :: "nat \<Rightarrow> bool \<Rightarrow> ('a log_state_scheme, unit) kern" where
  "begin_op_resume p intena = bnd (sleep_resume p intena L_log) (\<lambda>_. begin_op_loop)"

definition write_log :: "('a log_state_scheme, unit) kern" where
  "write_log =
     bnd (gets (\<lambda>s. lh_n (lg_lh (lg s)))) (\<lambda>n.
     for_each [0..<nat n] (\<lambda>tail.
       bnd (gets lg) (\<lambda>l.
       bnd (bread (to_uint (lg_dev l)) (log_block l tail)) (\<lambda>to.
       bnd (bread (to_uint (lg_dev l)) (home_block l tail)) (\<lambda>from.
       bnd (buf_data from) (\<lambda>d.
       bnd (bset to (\<lambda>_. d)) (\<lambda>_.
       bnd (bwrite to) (\<lambda>_.
       bnd (brelse from) (\<lambda>_.
       brelse to)))))))))"

definition commit :: "('a log_state_scheme, unit) kern" where
  "commit =
     bnd (gets (\<lambda>s. lh_n (lg_lh (lg s)))) (\<lambda>n.
     kwhen (n > 0)
       (bnd write_log (\<lambda>_.
        bnd write_head (\<lambda>_.
        bnd (install_trans False) (\<lambda>_.
        bnd (set_lh_n 0) (\<lambda>_.
        write_head))))))"

text \<open>\<open>end_op\<close> up to its first \<open>release\<close>, with the value of \<open>do_commit\<close>, and what the last operation does then.\<close>

definition end_op_enter :: "('a log_state_scheme, bool) kern" where
  "end_op_enter =
     bnd (acquire L_log) (\<lambda>_.
     bnd (upd_log (\<lambda>l. l\<lparr>lg_outstanding := lg_outstanding l - 1\<rparr>)) (\<lambda>_.
     bnd (gets lg) (\<lambda>l.
     if lg_committing l then panic ''log.committing'' else
     bnd (if lg_outstanding l = 0 then upd_log (\<lambda>l. l\<lparr>lg_committing := True\<rparr>) else wakeup Ch_log) (\<lambda>_.
     bnd (release L_log) (\<lambda>_.
     ret (lg_outstanding l = 0))))))"

definition end_op_commit :: "('a log_state_scheme, unit) kern" where
  "end_op_commit =
     bnd commit (\<lambda>_.
     bnd (acquire L_log) (\<lambda>_.
     bnd (upd_log (\<lambda>l. l\<lparr>lg_committing := False\<rparr>)) (\<lambda>_.
     bnd (wakeup Ch_log) (\<lambda>_.
     release L_log))))"

definition end_op :: "('a log_state_scheme, unit) kern" where
  "end_op =
     bnd end_op_enter (\<lambda>do_commit.
     kwhen do_commit end_op_commit)"

definition log_find :: "logheader \<Rightarrow> nat \<Rightarrow> nat" where
  "log_find h b = (case first_idx (\<lambda>i. lh_block h i = b) [0..<nat (lh_n h)] of Some i \<Rightarrow> i | None \<Rightarrow> nat (lh_n h))"

definition log_write :: "nat \<Rightarrow> ('a log_state_scheme, unit) kern" where
  "log_write b =
     bnd (acquire L_log) (\<lambda>_.
     bnd (gets lg) (\<lambda>l.
     if lh_n (lg_lh l) \<ge> int LOGSIZE \<or> lh_n (lg_lh l) \<ge> lg_size l - 1 then panic ''too big a transaction'' else
     if lg_outstanding l < 1 then panic ''log_write outside of trans'' else
     bnd (gets (\<lambda>s. b_blockno (bufs s b))) (\<lambda>blockno.
     bnd (ret (log_find (lg_lh l) blockno)) (\<lambda>i.
     bnd (upd_log (\<lambda>l. l\<lparr>lg_lh := (lg_lh l)\<lparr>lh_block := (lh_block (lg_lh l))(i := blockno)\<rparr>\<rparr>)) (\<lambda>_.
     bnd (kwhen (int i = lh_n (lg_lh l))
            (bnd (bpin b) (\<lambda>_.
             upd_log (\<lambda>l. l\<lparr>lg_lh := (lg_lh l)\<lparr>lh_n := lh_n (lg_lh l) + 1\<rparr>\<rparr>)))) (\<lambda>_.
     release L_log))))))"

subsection \<open>Sequences of block writes\<close>

definition wr_blocks :: "(nat \<times> u8 list) list \<Rightarrow> (nat \<Rightarrow> u8 list) \<Rightarrow> nat \<Rightarrow> u8 list" where
  "wr_blocks ws D = fold (\<lambda>(b, d) D. D(b := d)) ws D"

definition dk_writes :: "(nat \<times> u8 list) list \<Rightarrow> disk \<Rightarrow> disk" where
  "dk_writes ws k = fold (\<lambda>(b, d). dk_write b d) ws k"

lemma wr_blocks_simps [simp]:
  "wr_blocks [] D = D" "wr_blocks (ws @ vs) D = wr_blocks vs (wr_blocks ws D)" "wr_blocks ((b, d) # ws) D = wr_blocks ws (D(b := d))"
  by (simp_all add: wr_blocks_def)

lemma dk_writes_simps [simp]:
  "dk_writes [] k = k" "dk_writes (ws @ vs) k = dk_writes vs (dk_writes ws k)" "dk_writes ((b, d) # ws) k = dk_writes ws (dk_write b d k)"
  by (simp_all add: dk_writes_def)

lemma dk_write_fields: "dk_blocks (dk_write b d k) = (dk_blocks k)(b := d)" "dk_hist (dk_write b d k) = dk_hist k @ [(b, d)]"
  by (simp_all add: dk_write_def)

lemma dk_writes_blocks: "dk_blocks (dk_writes ws k) = wr_blocks ws (dk_blocks k)"
proof (induction ws arbitrary: k)
  case (Cons w ws)
  then show ?case by (cases w) (simp add: dk_write_fields fun_upd_def)
qed simp

lemma dk_writes_hist: "dk_hist (dk_writes ws k) = dk_hist k @ ws"
proof (induction ws arbitrary: k)
  case (Cons w ws)
  then show ?case by (cases w) (simp add: dk_write_fields fun_upd_def)
qed simp

lemma wr_blocks_other: "b \<notin> fst ` set ws \<Longrightarrow> wr_blocks ws D b = D b"
proof (induction ws arbitrary: D)
  case (Cons w ws)
  then show ?case by (cases w) simp
qed simp

lemma wr_blocks_in: "(b, d) \<in> set ws \<Longrightarrow> (\<And>d'. (b, d') \<in> set ws \<Longrightarrow> d' = d) \<Longrightarrow> wr_blocks ws D b = d"
proof (induction ws arbitrary: D)
  case (Cons w ws)
  obtain c e where w: "w = (c, e)" by (cases w)
  show ?case
  proof (cases "(b, d) \<in> set ws")
    case True
    then have "wr_blocks ws (D(c := e)) b = d" by (rule Cons.IH) (use Cons.prems(2) in auto)
    then show ?thesis by (simp add: w)
  next
    case False
    have "b \<notin> fst ` set ws"
    proof
      assume "b \<in> fst ` set ws"
      then obtain d' where "(b, d') \<in> set ws" by auto
      then show False using Cons.prems(2) [of d'] False by auto
    qed
    moreover have "c = b" "e = d" using Cons.prems(1) False w by auto
    ultimately show ?thesis by (simp add: w wr_blocks_other)
  qed
qed simp

subsection \<open>The header block\<close>

lemma lh_put_get:
  assumes len: "length d = BSIZE" and n: "0 \<le> lh_n h" "lh_n h \<le> int LOGSIZE" and small: "\<forall>i<nat (lh_n h). lh_block h i < 2 ^ 32"
  shows "lh_n (lh_get (lh_put h d)) = lh_n h" "i < nat (lh_n h) \<Longrightarrow> lh_block (lh_get (lh_put h d)) i = lh_block h i"
proof -
  have room: "4 + 4 * nat (lh_n h) \<le> length d" using n len by (simp add: LOGSIZE_def MAXOPBLOCKS_def BSIZE_def)
  have "sint (of_int (lh_n h) :: u32) = lh_n h"
    using n by (simp add: LOGSIZE_def MAXOPBLOCKS_def sint_sbintrunc' signed_take_bit_int_eq_self)
  then show "lh_n (lh_get (lh_put h d)) = lh_n h" using room by (simp add: lh_get_def lh_put_def get_put32s_below)
  assume i: "i < nat (lh_n h)"
  have "unat (of_nat (lh_block h i) :: u32) = lh_block h i" using small i by (simp add: unat_of_nat)
  then show "lh_block (lh_get (lh_put h d)) i = lh_block h i" using room i by (simp add: lh_get_def lh_put_def get_put32s)
qed

lemma length_lh_put: "length d = BSIZE \<Longrightarrow> lh_n h \<le> int LOGSIZE \<Longrightarrow> length (lh_put h d) = BSIZE"
  by (simp add: lh_put_def LOGSIZE_def MAXOPBLOCKS_def BSIZE_def)

subsection \<open>The log area\<close>

definition log_geom :: "nat \<Rightarrow> nat \<Rightarrow> log \<Rightarrow> bool" where
  "log_geom st sz l \<longleftrightarrow> lg_start l = int st \<and> lg_size l = int sz \<and> lg_dev l = int ROOTDEV \<and> 0 < sz \<and> st + sz < 2 ^ 31"

definition outside :: "nat \<Rightarrow> nat \<Rightarrow> nat \<Rightarrow> bool" where
  "outside st sz b \<longleftrightarrow> b < st \<or> st + sz \<le> b"

definition logged :: "logheader \<Rightarrow> nat list" where
  "logged h = map (lh_block h) [0..<nat (lh_n h)]"

definition fits :: "nat \<Rightarrow> nat \<Rightarrow> logheader \<Rightarrow> bool" where
  "fits st sz h \<longleftrightarrow> 0 \<le> lh_n h \<and> lh_n h < int NBUF \<and> lh_n h < int sz \<and> (\<forall>b \<in> set (logged h). outside st sz b \<and> b < 2 ^ 32)"

lemma log_geomD:
  assumes "log_geom st sz l"
  shows "to_uint (lg_dev l) = ROOTDEV" "to_uint (lg_start l) = st" "i < sz \<Longrightarrow> log_block l i = st + i + 1"
  using assms by (simp_all add: log_geom_def to_uint_def log_block_def ROOTDEV_def nat_mod_distrib)

lemma outside_log: "outside st sz b \<Longrightarrow> i < sz \<Longrightarrow> b \<noteq> st + i"
  by (auto simp: outside_def)

lemma logged_nth: "i < nat (lh_n h) \<Longrightarrow> lh_block h i \<in> set (logged h)"
  by (simp add: logged_def)

lemma length_logged [simp]: "length (logged h) = nat (lh_n h)"
  by (simp add: logged_def)

subsection \<open>The copying loops\<close>

text \<open>Between the block operations of the log: the process runs with no spinlock, the cache is
  in order, and no buffer is held.\<close>

definition idle :: "nat \<Rightarrow> 'a bio_state_scheme \<Rightarrow> bool" where
  "idle p s \<longleftrightarrow> quiet p s \<and> bc_ok s \<and> held_blocks s = {}"

lemma bframe_log:
  assumes "bframe s t"
  shows "lg t = lg s" "log_state.more t = log_state.more s"
proof -
  have "bio_state.more t = bio_state.more s" using assms by (simp add: bframe_def)
  then show "lg t = lg s" "log_state.more t = log_state.more s" by (cases s; cases t; simp)+
qed

lemma bref_zero_clean:
  assumes "bc_ok s" "bref s b = 0"
  shows "lblk s b = dk_blocks (dsk s) b"
proof (cases "cached (bufs s) b")
  case None
  then show ?thesis by (simp add: lblk_of_def)
next
  case (Some i)
  have inv: "bc_inv (bufs s) (\<lambda>i. sl_locked (slocks s (S_buf i))) (dk_blocks (dsk s))" using assms(1) by (simp add: bc_ok_def)
  have h: "holds_block (bufs s) i b" using Some by (rule cached_holds)
  then have "b_refcnt (bufs s i) = 0" using bref_hit [OF inv h] assms(2) by simp
  then have "b_valid (bufs s i) \<longrightarrow> b_data (bufs s i) = dk_blocks (dsk s) b"
    using bc_clean [OF inv, of i] h by (simp add: holds_block_def)
  then show ?thesis using lblk_hit [OF inv h] by simp
qed

definition pins :: "nat list \<Rightarrow> nat \<Rightarrow> nat" where
  "pins bs b = (if b \<in> set bs then 1 else 0)"

lemma pins_simps [simp]: "pins [] = (\<lambda>_. 0)" "b \<in> set bs \<Longrightarrow> pins bs b = 1" "pins bs b + 1 < 2 ^ 32" "(0 < pins bs b) = (b \<in> set bs)"
  by (auto simp: pins_def)

lemma card_pins: "card {b. 0 < pins bs b} \<le> length bs"
  using card_length [of bs] by simp

definition log_writes :: "nat \<Rightarrow> logheader \<Rightarrow> (nat \<Rightarrow> u8 list) \<Rightarrow> nat \<Rightarrow> (nat \<times> u8 list) list" where
  "log_writes st h D k = map (\<lambda>i. (st + i + 1, D (lh_block h i))) [0..<k]"

definition home_writes :: "nat \<Rightarrow> logheader \<Rightarrow> (nat \<Rightarrow> u8 list) \<Rightarrow> nat \<Rightarrow> (nat \<times> u8 list) list" where
  "home_writes st h D k = map (\<lambda>i. (lh_block h i, D (st + i + 1))) [0..<k]"

lemma log_writes_Suc: "log_writes st h D (Suc k) = log_writes st h D k @ [(st + k + 1, D (lh_block h k))]"
  by (simp add: log_writes_def)

lemma home_writes_Suc: "home_writes st h D (Suc k) = home_writes st h D k @ [(lh_block h k, D (st + k + 1))]"
  by (simp add: home_writes_def)

lemma log_writes_keys: "fst ` set (log_writes st h D k) = (\<lambda>i. st + i + 1) ` {..<k}"
  by (simp add: log_writes_def image_image lessThan_atLeast0)

lemma home_writes_keys: "k \<le> nat (lh_n h) \<Longrightarrow> fst ` set (home_writes st h D k) \<subseteq> set (logged h)"
  by (auto simp: home_writes_def logged_def)

lemma fitsD:
  assumes "fits st sz h" "i < nat (lh_n h)"
  shows "i + 1 < sz" "outside st sz (lh_block h i)" "lh_block h i < 2 ^ 32"
  using assms logged_nth [OF assms(2)] by (auto simp: fits_def)

lemma fits_len: "fits st sz h \<Longrightarrow> length (logged h) < NBUF"
  unfolding fits_def length_logged by linarith

lemma bnd_gets: "bnd (gets f) g s = g (f s) s"
  by (simp add: kern_simps)

lemma write_log_upto:
  assumes id: "idle p s" and geo: "log_geom st sz (lg s)" and fit: "fits st sz (lg_lh (lg s))"
    and ref: "bref s = pins (logged (lg_lh (lg s)))" and k: "k \<le> nat (lh_n (lg_lh (lg s)))"
  defines "h \<equiv> lg_lh (lg s)"
  shows "\<exists>t. for_each [0..<k] (\<lambda>tail.
       bnd (gets lg) (\<lambda>l.
       bnd (bread (to_uint (lg_dev l)) (log_block l tail)) (\<lambda>to.
       bnd (bread (to_uint (lg_dev l)) (home_block l tail)) (\<lambda>from.
       bnd (buf_data from) (\<lambda>d.
       bnd (bset to (\<lambda>_. d)) (\<lambda>_.
       bnd (bwrite to) (\<lambda>_.
       bnd (brelse from) (\<lambda>_.
       brelse to)))))))) s = Ret () t \<and> idle p t \<and> bframe s t \<and>
    dsk t = dk_writes (log_writes st h (lblk s) k) (dsk s) \<and> lblk t = wr_blocks (log_writes st h (lblk s) k) (lblk s) \<and> bref t = bref s"
    (is "\<exists>t. for_each _ ?body s = _ \<and> _")
  using k
proof (induction k)
  case 0
  then show ?case using id by (intro exI [of _ s]) (simp add: kern_simps log_writes_def)
next
  case (Suc k)
  then have k: "k < nat (lh_n h)" by (simp add: h_def)
  from Suc obtain t where t: "for_each [0..<k] ?body s = Ret () t" "idle p t" "bframe s t"
    "dsk t = dk_writes (log_writes st h (lblk s) k) (dsk s)" "lblk t = wr_blocks (log_writes st h (lblk s) k) (lblk s)" "bref t = bref s"
    by auto
  note f = fitsD [OF fit, folded h_def, OF k]
  have lg: "lg t = lg s" by (rule bframe_log [OF t(3)])
  have b1: "log_block (lg s) k = st + k + 1" using log_geomD(3) [OF geo] f(1) by simp
  have b2: "home_block (lg s) k = lh_block h k" by (simp add: home_block_def h_def)
  have body: "?body k t = copy_to_log (bread ROOTDEV) bwrite bset brelse (\<lambda>s i. b_data (bufs s i)) (st + k + 1) (lh_block h k) t"
    by (simp only: bnd_gets lg b1 b2 log_geomD(1) [OF geo] copy_to_log_def buf_data_def)
  have out: "lh_block h k \<noteq> st + i + 1" if "i \<le> k" for i using outside_log [OF f(2), of "i + 1"] f(1) that by simp
  have in_l: "lh_block h k \<in> set (logged h)" by (rule logged_nth [OF k])
  have rt: "bref t = pins (logged h)" using t(6) ref by (simp add: h_def)
  have "card {c. 0 < bref t c} < NBUF" using card_pins [of "logged h"] fits_len [OF fit] unfolding rt h_def by simp
  then have room: "card {c. 0 < bref t c} < NBUF" "0 < bref t (lh_block h k)" using in_l by (simp_all add: rt)
  have g: "quiet p t \<and> bc_ok t" "held_blocks t = {}" using t(2) by (simp_all add: idle_def)
  have ne: "st + k + 1 \<noteq> lh_block h k" using out [of k] by simp
  have sm: "bref t b + 1 < 2 ^ 32" for b unfolding rt by (simp add: pins_def)
  from bc.copy_to_log_ok [OF g ne sm [of "st + k + 1"] sm [of "lh_block h k"] room]
  obtain u where u: "?body k t = Ret () u" "quiet p u \<and> bc_ok u" "bframe t u" "held_blocks u = {}"
    "dsk u = dk_write (st + k + 1) (lblk t (lh_block h k)) (dsk t)" "lblk u = (lblk t)(st + k + 1 := lblk t (lh_block h k))" "bref u = bref t"
    unfolding body by blast
  have same: "lblk t (lh_block h k) = lblk s (lh_block h k)"
    unfolding t(5)
  proof (rule wr_blocks_other)
    show "lh_block h k \<notin> fst ` set (log_writes st h (lblk s) k)"
      unfolding log_writes_keys
    proof
      assume "lh_block h k \<in> (\<lambda>i. st + i + 1) ` {..<k}"
      then obtain i where "i < k" "lh_block h k = st + i + 1" by (elim imageE) simp
      then show False using out [of i] by simp
    qed
  qed
  have "for_each [0..<Suc k] ?body s = Ret () u" using for_each_snoc [of "[0..<k]" ?body s t k u, OF t(1) u(1)] by simp
  moreover have "bframe s u" by (rule bframe_trans [OF t(3) u(3)])
  moreover have "idle p u" using u(2,4) by (simp add: idle_def)
  ultimately show ?case
    using u(5-7) t(4-6) same by (intro exI [of _ u]) (simp add: log_writes_Suc)
qed

lemma pins_drop: "distinct bs \<Longrightarrow> k < length bs \<Longrightarrow> (pins (drop k bs))(bs ! k := 0) = pins (drop (Suc k) bs)"
proof -
  assume d: "distinct bs" and k: "k < length bs"
  then have e: "drop k bs = bs ! k # drop (Suc k) bs" by (simp add: Cons_nth_drop_Suc)
  moreover have "bs ! k \<notin> set (drop (Suc k) bs)" using d e by (metis distinct.simps(2) distinct_drop)
  ultimately show ?thesis by (auto simp: pins_def fun_eq_iff)
qed

lemma install_upto:
  assumes id: "idle p s" and geo: "log_geom st sz (lg s)" and fit: "fits st sz (lg_lh (lg s))"
    and ref: "bref s = (if recovering then (\<lambda>_. 0) else pins (logged (lg_lh (lg s))))"
    and dist: "\<not> recovering \<longrightarrow> distinct (logged (lg_lh (lg s)))"
    and clean: "\<forall>i. i + 1 < sz \<longrightarrow> lblk s (st + i + 1) = dk_blocks (dsk s) (st + i + 1)"
    and k: "k \<le> nat (lh_n (lg_lh (lg s)))"
  defines "h \<equiv> lg_lh (lg s)"
  shows "\<exists>t. for_each [0..<k] (\<lambda>tail.
       bnd (gets lg) (\<lambda>l.
       bnd (bread (to_uint (lg_dev l)) (log_block l tail)) (\<lambda>lbuf.
       bnd (bread (to_uint (lg_dev l)) (home_block l tail)) (\<lambda>dbuf.
       bnd (buf_data lbuf) (\<lambda>d.
       bnd (bset dbuf (\<lambda>_. d)) (\<lambda>_.
       bnd (bwrite dbuf) (\<lambda>_.
       bnd (kwhen (\<not> recovering) (bunpin dbuf)) (\<lambda>_.
       bnd (brelse lbuf) (\<lambda>_.
       brelse dbuf))))))))) s = Ret () t \<and> idle p t \<and> bframe s t \<and>
    dsk t = dk_writes (home_writes st h (lblk s) k) (dsk s) \<and> lblk t = wr_blocks (home_writes st h (lblk s) k) (lblk s) \<and>
    bref t = (if recovering then (\<lambda>_. 0) else pins (drop k (logged h)))"
    (is "\<exists>t. for_each _ ?body s = _ \<and> _")
  using k
proof (induction k)
  case 0
  then show ?case using id ref by (intro exI [of _ s]) (simp add: kern_simps home_writes_def h_def)
next
  case (Suc k)
  then have k: "k < nat (lh_n h)" by (simp add: h_def)
  from Suc obtain t where t: "for_each [0..<k] ?body s = Ret () t" "idle p t" "bframe s t"
    "dsk t = dk_writes (home_writes st h (lblk s) k) (dsk s)" "lblk t = wr_blocks (home_writes st h (lblk s) k) (lblk s)"
    "bref t = (if recovering then (\<lambda>_. 0) else pins (drop k (logged h)))"
    by auto
  note f = fitsD [OF fit, folded h_def, OF k]
  have lg: "lg t = lg s" by (rule bframe_log [OF t(3)])
  have b1: "log_block (lg s) k = st + k + 1" using log_geomD(3) [OF geo] f(1) by simp
  have b2: "home_block (lg s) k = lh_block h k" by (simp add: home_block_def h_def)
  have body: "?body k t = copy_home (bread ROOTDEV) bwrite bset brelse bunpin (\<lambda>s i. b_data (bufs s i)) recovering (st + k + 1) (lh_block h k) t"
    by (simp only: bnd_gets lg b1 b2 log_geomD(1) [OF geo] copy_home_def buf_data_def)
  have out: "st + k + 1 \<notin> set (logged h)" using fit outside_log [of st sz "st + k + 1" "k + 1"] f(1) by (auto simp: fits_def h_def)
  have nth: "logged h ! k = lh_block h k" using k by (simp add: logged_def)
  have ink: "lh_block h k \<in> set (drop k (logged h))" using k nth by (metis Cons_nth_drop_Suc length_logged list.set_intros(1))
  have keep: "b \<notin> set (logged h) \<Longrightarrow> b \<notin> fst ` set (home_writes st h (lblk s) k)" for b
    using home_writes_keys [of k h st "lblk s"] k by auto
  have lbs: "lblk t (st + k + 1) = lblk s (st + k + 1)" unfolding t(5) by (rule wr_blocks_other [OF keep [OF out]])
  have dks: "dk_blocks (dsk t) (st + k + 1) = dk_blocks (dsk s) (st + k + 1)"
    unfolding t(4) dk_writes_blocks by (rule wr_blocks_other [OF keep [OF out]])
  have cl: "lblk t (st + k + 1) = dk_blocks (dsk t) (st + k + 1)" using clean f(1) lbs dks by simp
  have n: "length (drop k (logged h)) < NBUF" using fits_len [OF fit] by (simp add: h_def)
  have room: "card {c. 0 < bref t c} < NBUF" "0 < bref t (lh_block h k) \<or> card {c. 0 < bref t c} + 1 < NBUF"
    unfolding t(6) using card_pins [of "drop k (logged h)"] n ink by (cases recovering; simp add: NBUF_def MAXOPBLOCKS_def)+
  have ne: "st + k + 1 \<noteq> lh_block h k" using outside_log [OF f(2), of "k + 1"] f(1) by auto
  have sm: "bref t b + 1 < 2 ^ 32" for b unfolding t(6) by (simp add: pins_def)
  have pin: "\<not> recovering \<longrightarrow> 0 < bref t (lh_block h k)" using ink by (simp add: t(6))
  have g: "quiet p t \<and> bc_ok t" "held_blocks t = {}" using t(2) by (simp_all add: idle_def)
  from bc.copy_home_ok [OF g ne sm [of "st + k + 1"] sm [of "lh_block h k"] room cl pin] obtain u where u: "?body k t = Ret () u" "quiet p u \<and> bc_ok u" "bframe t u" "held_blocks u = {}"
    "dsk u = dk_write (lh_block h k) (lblk t (st + k + 1)) (dsk t)" "lblk u = (lblk t)(lh_block h k := lblk t (st + k + 1))"
    "bref u = (if recovering then bref t else (bref t)(lh_block h k := bref t (lh_block h k) - 1))"
    unfolding body by blast
  have "bref u = (if recovering then (\<lambda>_. 0) else pins (drop (Suc k) (logged h)))"
  proof (cases recovering)
    case True
    then show ?thesis by (simp add: u(7) t(6))
  next
    case False
    then have "(pins (drop k (logged h)))(lh_block h k := 0) = pins (drop (Suc k) (logged h))"
      using pins_drop [of "logged h" k] dist k nth by (simp add: h_def)
    moreover have "bref t (lh_block h k) - 1 = 0" using ink False by (simp add: t(6))
    ultimately show ?thesis using False by (simp only: u(7) t(6) if_False)
  qed
  moreover have "for_each [0..<Suc k] ?body s = Ret () u" using for_each_snoc [of "[0..<k]" ?body s t k u, OF t(1) u(1)] by simp
  moreover have "bframe s u" by (rule bframe_trans [OF t(3) u(3)])
  moreover have "idle p u" using u(2,4) by (simp add: idle_def)
  ultimately show ?case
    using u(5,6) t(4,5) lbs by (intro exI [of _ u]) (simp add: home_writes_Suc)
qed

subsection \<open>Frames\<close>

definition lframe :: "'a log_state_scheme \<Rightarrow> 'a log_state_scheme \<Rightarrow> bool" where
  "lframe s t \<longleftrightarrow> wakes (procs s) (procs t) \<and> tp t = tp s \<and> cur_ctx t = cur_ctx s \<and> initproc t = initproc s \<and>
     nextpid t = nextpid s \<and> mem t = mem s \<and> freelist t = freelist s \<and> kend t = kend s \<and>
     (\<forall>i. slocks t (S_inode i) = slocks s (S_inode i)) \<and> log_state.more t = log_state.more s"

lemma lframe_refl [simp]: "lframe s s"
  by (simp add: lframe_def)

lemma lframe_trans: "lframe s t \<Longrightarrow> lframe t u \<Longrightarrow> lframe s u"
  using wakes_trans by (simp add: lframe_def) blast

lemma bframe_lframe: "bframe s t \<Longrightarrow> lframe s t"
  using bframe_log(2) [of s t] by (simp add: bframe_def lframe_def)

lemma lg_frames [frame_simps]:
  "lg (settle s) = lg s" "lg (acquired lk s) = lg s"
  "settle (s\<lparr>lg := l\<rparr>) = (settle s)\<lparr>lg := l\<rparr>"
  "acquired lk (s\<lparr>lg := l\<rparr>) = (acquired lk s)\<lparr>lg := l\<rparr>"
  "restore s (t\<lparr>lg := l\<rparr>) = (restore s t)\<lparr>lg := l\<rparr>"
  "cpu_ok (s\<lparr>lg := l\<rparr>) = cpu_ok s" "lock_free lk (s\<lparr>lg := l\<rparr>) = lock_free lk s"
  "proc_locks_free (s\<lparr>lg := l\<rparr>) = proc_locks_free s"
  by (simp_all add: unfold_machine proc_locks_free_def)

lemma quiet_lg [frame_simps]: "quiet p (s\<lparr>lg := l\<rparr>) = quiet p s"
  by (simp add: quiet_def frame_simps mach_defs)

lemma idle_lg [frame_simps]: "idle p (s\<lparr>lg := l\<rparr>) = idle p s"
  by (simp add: idle_def frame_simps bc_ok_def held_blocks_def)

lemma lframe_lg [simp]: "lframe s (s\<lparr>lg := l\<rparr>)"
  by (simp add: lframe_def)

subsection \<open>Reading and writing the header\<close>

lemma write_head_ok:
  assumes id: "idle p s" and geo: "log_geom st sz (lg s)" and n: "lh_n (lg_lh (lg s)) \<le> int LOGSIZE"
    and small: "bref s st + 1 < 2 ^ 32" and room: "card {c. 0 < bref s c} < NBUF"
  shows "\<exists>t. write_head s = Ret () t \<and> idle p t \<and> bframe s t \<and> dsk t = dk_write st (lh_put (lg_lh (lg s)) (lblk s st)) (dsk s) \<and>
    lblk t = (lblk s)(st := lh_put (lg_lh (lg s)) (lblk s st)) \<and> bref t = bref s"
proof -
  have g: "quiet p s \<and> bc_ok s" and nh: "st \<notin> held_blocks s" using id by (simp_all add: idle_def)
  have len: "length (lh_put (lg_lh (lg s)) (lblk s st)) = BSIZE"
    using g n by (simp add: length_lh_put bc_disk_len)
  have run: "write_head s = bnd (bread ROOTDEV st) (\<lambda>i. bnd (bset i (lh_put (lg_lh (lg s)))) (\<lambda>_. bnd (bwrite i) (\<lambda>_. brelse i))) s"
    by (simp only: write_head_def bnd_gets log_geomD [OF geo])
  from bc.update_block [of p s st "lh_put (lg_lh (lg s))", OF g nh small disjI2 [OF room] len] id
  show ?thesis unfolding run idle_def by auto
qed

lemma read_entries:
  "for_each [0..<m] (\<lambda>i. upd_log (\<lambda>l. l\<lparr>lg_lh := (lg_lh l)\<lparr>lh_block := (lh_block (lg_lh l))(i := g i)\<rparr>\<rparr>)) s =
     Ret () (s\<lparr>lg := (lg s)\<lparr>lg_lh := (lg_lh (lg s))\<lparr>lh_block := (\<lambda>i. if i < m then g i else lh_block (lg_lh (lg s)) i)\<rparr>\<rparr>\<rparr>)"
    (is "for_each _ ?body s = _")
proof (induction m)
  case 0
  then show ?case by (simp add: kern_simps)
next
  case (Suc m)
  let ?t = "s\<lparr>lg := (lg s)\<lparr>lg_lh := (lg_lh (lg s))\<lparr>lh_block := (\<lambda>i. if i < m then g i else lh_block (lg_lh (lg s)) i)\<rparr>\<rparr>\<rparr>"
  have e: "(\<lambda>i. if i < m then g i else lh_block (lg_lh (lg s)) i)(m := g m) = (\<lambda>i. if i < Suc m then g i else lh_block (lg_lh (lg s)) i)"
    by (auto simp: fun_eq_iff)
  have "?body m ?t = Ret () (s\<lparr>lg := (lg s)\<lparr>lg_lh := (lg_lh (lg s))\<lparr>lh_block := (\<lambda>i. if i < Suc m then g i else lh_block (lg_lh (lg s)) i)\<rparr>\<rparr>\<rparr>)"
    by (simp add: upd_log_def kern_simps e del: fun_upd_apply)
  from for_each_snoc [of "[0..<m]" ?body s ?t m, OF Suc this] show ?case by (simp only: upt_Suc_append [OF le0])
qed

definition head_read :: "logheader \<Rightarrow> logheader \<Rightarrow> logheader" where
  "head_read h g = h\<lparr>lh_n := lh_n g, lh_block := (\<lambda>i. if i < nat (lh_n g) then lh_block g i else lh_block h i)\<rparr>"

lemma logged_head_read [simp]: "logged (head_read h g) = logged g" "lh_n (head_read h g) = lh_n g"
  by (simp_all add: logged_def head_read_def)

lemma load_head_run: "load_head g s = Ret () (s\<lparr>lg := (lg s)\<lparr>lg_lh := head_read (lg_lh (lg s)) g\<rparr>\<rparr>)"
proof -
  let ?t = "s\<lparr>lg := (lg s)\<lparr>lg_lh := (lg_lh (lg s))\<lparr>lh_n := lh_n g\<rparr>\<rparr>\<rparr>"
  have "upd_log (\<lambda>l. l\<lparr>lg_lh := (lg_lh l)\<lparr>lh_n := lh_n g\<rparr>\<rparr>) s = Ret () ?t" by (simp add: upd_log_def kern_simps)
  then have "load_head g s = for_each [0..<nat (lh_n g)] (\<lambda>i.
       upd_log (\<lambda>l. l\<lparr>lg_lh := (lg_lh l)\<lparr>lh_block := (lh_block (lg_lh l))(i := lh_block g i)\<rparr>\<rparr>)) ?t"
    by (simp only: load_head_def bnd_run outcome.case)
  then show ?thesis unfolding read_entries by (simp add: head_read_def cong: if_cong)
qed

lemma read_head_ok:
  assumes id: "idle p s" and geo: "log_geom st sz (lg s)" and ref: "bref s = (\<lambda>_. 0)"
  shows "\<exists>t. read_head s = Ret () t \<and> idle p t \<and> lframe s t \<and> dsk t = dsk s \<and> lblk t = lblk s \<and> bref t = bref s \<and>
    lg t = (lg s)\<lparr>lg_lh := head_read (lg_lh (lg s)) (lh_get (lblk s st))\<rparr>"
proof -
  have g: "quiet p s \<and> bc_ok s" and nh: "st \<notin> held_blocks s" using id by (simp_all add: idle_def)
  have small: "bref s st + 1 < 2 ^ 32" and room: "0 < bref s st \<or> card {c. 0 < bref s c} < NBUF"
    by (simp_all add: ref NBUF_def MAXOPBLOCKS_def)
  from bc.rd_law [of p s st, OF g nh small room] obtain i t where t: "bread ROOTDEV st s = Ret i t" "quiet p t \<and> bc_ok t" "bframe s t"
    "owns t (p_pid (procs t p)) i st" "dsk t = dsk s" "lblk t = lblk s" "bref t = (bref s)(st := Suc (bref s st))"
    "held_blocks t = insert st (held_blocks s)" by blast
  have d: "b_data (bufs t i) = lblk s st" using bc.dat_law [OF t(2,4)] t(6) by simp
  have lg: "lg t = lg s" by (rule bframe_log [OF t(3)])
  define l where "l = (lg s)\<lparr>lg_lh := head_read (lg_lh (lg s)) (lh_get (lblk s st))\<rparr>"
  let ?u = "t\<lparr>lg := l\<rparr>"
  have o: "owns ?u (p_pid (procs ?u p)) i st" using t(4) by (simp add: owns_def)
  have gu: "quiet p ?u \<and> bc_ok ?u" using t(2) by (simp add: frame_simps bc_ok_def)
  have "lblk ?u st = dk_blocks (dsk ?u) st \<or> 1 < bref ?u st"
    using id ref t(6) bref_zero_clean [of s st] by (simp add: t(5) idle_def)
  from bc.rel_law [OF gu o this] obtain v where v: "brelse i ?u = Ret () v" "quiet p v \<and> bc_ok v" "bframe ?u v" "dsk v = dsk ?u"
    "lblk v = lblk ?u" "bref v = (bref ?u)(st := bref ?u st - 1)" "held_blocks v = held_blocks ?u - {st}" by blast
  have "read_head s = Ret () v"
    using t(1) d lg v(1)
    by (simp add: read_head_def kern_simps log_geomD [OF geo] buf_data_def load_head_run l_def)
  moreover have "held_blocks v = {}" using v(7) t(8) id by (auto simp: idle_def held_blocks_def)
  moreover have "lframe s v" using lframe_trans [OF bframe_lframe [OF t(3)] lframe_trans [OF lframe_lg bframe_lframe [OF v(3)]]] .
  moreover have "bref v = bref s" using v(6) t(7) by (simp add: fun_upd_idem)
  moreover have "lg v = l" using bframe_log(1) [OF v(3)] by simp
  ultimately show ?thesis using v(2,4,5) t(5,6) by (intro exI [of _ v]) (simp add: idle_def l_def)
qed

end
