(* ===== verification/Log_Crash.thy ===== *)
theory Log_Crash
  imports Log
begin

text \<open>
  What \<open>commit\<close> and \<open>recover_from_log\<close> of \<^verbatim>\<open>kernel/log.c\<close> do to the disk, and what is left of a
  transaction when the machine stops between any two of the block writes of a commit.
\<close>

subsection \<open>Commit and recovery\<close>

lemma wr_blocks_agree: "D b = E b \<Longrightarrow> wr_blocks ws D b = wr_blocks ws E b"
proof (induction ws arbitrary: D E)
  case (Cons w ws)
  obtain c d where w: "w = (c, d)" by (cases w)
  have "wr_blocks ws (D(c := d)) b = wr_blocks ws (E(c := d)) b" by (rule Cons.IH) (simp add: Cons.prems)
  then show ?case by (simp add: w)
qed simp

definition copies :: "logheader \<Rightarrow> (nat \<Rightarrow> u8 list) \<Rightarrow> nat \<Rightarrow> (nat \<times> u8 list) list" where
  "copies h D k = map (\<lambda>i. (lh_block h i, D (lh_block h i))) [0..<k]"

text \<open>The block writes of a commit, in the order they reach the disk.\<close>

definition commit_writes :: "nat \<Rightarrow> logheader \<Rightarrow> (nat \<Rightarrow> u8 list) \<Rightarrow> (nat \<times> u8 list) list" where
  "commit_writes st h D =
     (let n = nat (lh_n h); hdr = lh_put h (D st) in
      log_writes st h D n @ [(st, hdr)] @ copies h D n @ [(st, lh_put (h\<lparr>lh_n := 0\<rparr>) hdr)])"

lemma log_writes_at:
  assumes "i < k"
  shows "wr_blocks (log_writes st h D k) E (st + i + 1) = D (lh_block h i)"
proof (rule wr_blocks_in)
  show "(st + i + 1, D (lh_block h i)) \<in> set (log_writes st h D k)"
    unfolding log_writes_def set_map by (rule image_eqI [of _ _ i]) (use assms in simp_all)
qed (auto simp: log_writes_def)

lemma log_writes_off:
  assumes "fits st sz h" "k \<le> nat (lh_n h)" "b = st \<or> outside st sz b"
  shows "wr_blocks (log_writes st h D k) E b = E b"
proof (rule wr_blocks_other)
  have "b \<noteq> st + i + 1" if "i < k" for i
    using assms(3) that fitsD(1) [OF assms(1), of i] assms(2) by (auto simp: outside_def)
  then show "b \<notin> fst ` set (log_writes st h D k)" unfolding log_writes_keys by blast
qed

lemma copies_keys: "fst ` set (copies h D k) = lh_block h ` {..<k}"
  by (simp add: copies_def image_image lessThan_atLeast0)

lemma copies_at: "k \<le> nat (lh_n h) \<Longrightarrow> wr_blocks (copies h D k) E b = (if b \<in> lh_block h ` {..<k} then D b else E b)"
proof (cases "b \<in> lh_block h ` {..<k}")
  case True
  then have "wr_blocks (copies h D k) E b = D b" by (intro wr_blocks_in) (auto simp: copies_def)
  with True show ?thesis by simp
next
  case False
  then show ?thesis using wr_blocks_other [of b "copies h D k" E] by (simp add: copies_keys)
qed

lemma logged_set: "set (logged h) = lh_block h ` {..<nat (lh_n h)}"
  by (simp add: logged_def lessThan_atLeast0)

lemma copies_area:
  assumes "fits st sz h" "k \<le> nat (lh_n h)" "\<not> outside st sz b"
  shows "wr_blocks (copies h D k) E b = E b"
proof -
  have "b \<notin> set (logged h)" using assms by (auto simp: fits_def)
  then have "b \<notin> lh_block h ` {..<k}" using assms(2) by (auto simp: logged_set)
  then show ?thesis by (simp add: copies_at [OF assms(2)])
qed

lemma not_outside: "i < sz \<Longrightarrow> \<not> outside st sz (st + i)"
  by (simp add: outside_def)

lemma home_copies:
  assumes "fits st sz h" "\<And>i. i < nat (lh_n h) \<Longrightarrow> E (st + i + 1) = D (lh_block h i)"
  shows "home_writes st h E (nat (lh_n h)) = copies h D (nat (lh_n h))"
  using assms by (simp add: home_writes_def copies_def)

lemma commit_ok:
  assumes id: "idle p s" and geo: "log_geom st sz (lg s)" and fit: "fits st sz (lg_lh (lg s))"
    and dist: "distinct (logged (lg_lh (lg s)))" and ref: "bref s = pins (logged (lg_lh (lg s)))"
    and clean: "\<forall>b. b \<notin> set (logged (lg_lh (lg s))) \<longrightarrow> lblk s b = dk_blocks (dsk s) b" and pos: "0 < lh_n (lg_lh (lg s))"
  defines "h \<equiv> lg_lh (lg s)"
  shows "\<exists>t. commit s = Ret () t \<and> idle p t \<and> lframe s t \<and> dsk t = dk_writes (commit_writes st h (lblk s)) (dsk s) \<and>
    lblk t = wr_blocks (commit_writes st h (lblk s)) (lblk s) \<and> bref t = (\<lambda>_. 0) \<and> lg t = (lg s)\<lparr>lg_lh := h\<lparr>lh_n := 0\<rparr>\<rparr>"
proof -
  let ?n = "nat (lh_n h)" and ?D = "lblk s" and ?hdr = "lh_put h (lblk s st)"
  let ?L = "log_writes st h ?D ?n"
  have n: "lh_n h \<le> int LOGSIZE" using fit by (simp add: fits_def h_def LOGSIZE_def NBUF_def)
  have sz: "0 < sz" using geo by (simp add: log_geom_def)
  obtain s1 where s1: "write_log s = Ret () s1" "idle p s1" "bframe s s1" "dsk s1 = dk_writes ?L (dsk s)" "lblk s1 = wr_blocks ?L ?D" "bref s1 = bref s"
    using write_log_upto [OF id geo fit ref order_refl] by (auto simp: write_log_def bnd_gets h_def)
  have l1: "lg s1 = lg s" by (rule bframe_log [OF s1(3)])
  have c1: "card {c. 0 < bref s1 c} < NBUF" using card_pins [of "logged h"] fits_len [OF fit] unfolding s1(6) ref h_def by simp
  have r1: "bref s1 st + 1 < 2 ^ 32" unfolding s1(6) ref by (simp add: pins_def)
  have h1: "lblk s1 st = ?D st" unfolding s1(5) by (rule log_writes_off [OF fit [folded h_def] order_refl]) simp
  obtain s2 where s2: "write_head s1 = Ret () s2" "idle p s2" "bframe s1 s2" "dsk s2 = dk_write st ?hdr (dsk s1)"
    "lblk s2 = (lblk s1)(st := ?hdr)" "bref s2 = bref s1"
    using write_head_ok [OF s1(2) geo [folded l1] n [unfolded h_def, folded l1] r1 c1] h1 by (auto simp: l1 h_def)
  have l2: "lg s2 = lg s" using bframe_log(1) [OF s2(3)] l1 by simp
  have k2: "lblk s2 (st + i + 1) = dk_blocks (dsk s2) (st + i + 1)" if "i + 1 < sz" for i
  proof -
    have "st + i + 1 \<notin> set (logged h)" using fit not_outside [OF that, of st] by (auto simp: fits_def h_def)
    then have "?D (st + i + 1) = dk_blocks (dsk s) (st + i + 1)" using clean by (simp add: h_def)
    from wr_blocks_agree [of ?D _ "dk_blocks (dsk s)" ?L, OF this]
    have "lblk s2 (st + i + 1) = wr_blocks ?L (dk_blocks (dsk s)) (st + i + 1)" by (simp add: s2(5) s1(5))
    then show ?thesis by (simp add: s2(4) s1(4) dk_write_fields dk_writes_blocks)
  qed
  have d2: "lblk s2 (st + i + 1) = ?D (lh_block h i)" if "i < ?n" for i
    using log_writes_at [OF that, of st h ?D ?D] by (simp add: s2(5) s1(5))
  have hc: "home_writes st h (lblk s2) ?n = copies h ?D ?n" by (rule home_copies [OF fit [folded h_def]]) (rule d2)
  have i2: "log_geom st sz (lg s2)" "fits st sz (lg_lh (lg s2))" "bref s2 = (if False then (\<lambda>_. 0) else pins (logged (lg_lh (lg s2))))"
    "\<not> False \<longrightarrow> distinct (logged (lg_lh (lg s2)))"
    using geo fit ref dist by (simp_all only: l2 s2(6) s1(6) if_False simp_thms)
  have k2': "\<forall>i. i + 1 < sz \<longrightarrow> lblk s2 (st + i + 1) = dk_blocks (dsk s2) (st + i + 1)" using k2 by blast
  obtain s3 where s3: "install_trans False s2 = Ret () s3" "idle p s3" "bframe s2 s3" "dsk s3 = dk_writes (copies h ?D ?n) (dsk s2)"
    "lblk s3 = wr_blocks (copies h ?D ?n) (lblk s2)" "bref s3 = (\<lambda>_. 0)"
    using install_upto [OF s2(2) i2 k2' order_refl] by (auto simp: install_trans_def bnd_gets l2 h_def [symmetric] hc)
  let ?l = "(lg s)\<lparr>lg_lh := h\<lparr>lh_n := 0\<rparr>\<rparr>"
  let ?s4 = "s3\<lparr>lg := ?l\<rparr>"
  have l3: "lg s3 = lg s" using bframe_log(1) [OF s3(3)] l2 by simp
  have s4: "set_lh_n 0 s3 = Ret () ?s4" by (simp add: set_lh_n_def upd_log_def kern_simps l3 h_def)
  have h4: "lblk ?s4 st = ?hdr"
    using copies_area [OF fit [folded h_def] order_refl, of st] not_outside [OF sz, of st] by (simp add: s3(5) s2(5))
  have "idle p ?s4" "log_geom st sz (lg ?s4)" "lh_n (lg_lh (lg ?s4)) \<le> int LOGSIZE" "bref ?s4 st + 1 < 2 ^ 32" "card {c. 0 < bref ?s4 c} < NBUF"
    using s3(2,6) geo by (simp_all add: frame_simps log_geom_def NBUF_def MAXOPBLOCKS_def)
  from write_head_ok [OF this] obtain t where t: "write_head ?s4 = Ret () t" "idle p t" "bframe ?s4 t"
    "dsk t = dk_write st (lh_put (h\<lparr>lh_n := 0\<rparr>) ?hdr) (dsk ?s4)" "lblk t = (lblk ?s4)(st := lh_put (h\<lparr>lh_n := 0\<rparr>) ?hdr)" "bref t = bref ?s4"
    using h4 by auto
  have run: "commit s = Ret () t" using s1(1) s2(1) s3(1) s4 t(1) pos by (simp add: commit_def kern_simps)
  have fr: "lframe s t"
    using bframe_lframe [OF s1(3)] bframe_lframe [OF s2(3)] bframe_lframe [OF s3(3)] lframe_lg [of s3 ?l] bframe_lframe [OF t(3)]
      lframe_trans by blast
  have "lg t = ?l" using bframe_log(1) [OF t(3)] by simp
  moreover have "dsk t = dk_writes (commit_writes st h ?D) (dsk s)" by (simp add: t(4) s3(4) s2(4) s1(4) commit_writes_def Let_def)
  moreover have "lblk t = wr_blocks (commit_writes st h ?D) ?D" by (simp only: t(5) commit_writes_def Let_def wr_blocks_simps s1(5) [symmetric] s2(5) [symmetric] s3(5) [symmetric]) simp
  moreover have "bref t = (\<lambda>_. 0)" using t(6) s3(6) by simp
  ultimately show ?thesis using run t(2) fr by (intro exI [of _ t] conjI)
qed

text \<open>The block writes of a recovery that finds header \<open>g\<close>.\<close>

definition recover_writes :: "nat \<Rightarrow> logheader \<Rightarrow> logheader \<Rightarrow> (nat \<Rightarrow> u8 list) \<Rightarrow> (nat \<times> u8 list) list" where
  "recover_writes st h g D = home_writes st g D (nat (lh_n g)) @ [(st, lh_put ((head_read h g)\<lparr>lh_n := 0\<rparr>) (D st))]"

lemma fits_head_read [simp]: "fits st sz (head_read h g) = fits st sz g"
  by (simp add: fits_def)

lemma home_writes_head_read: "home_writes st (head_read h g) D (nat (lh_n g)) = home_writes st g D (nat (lh_n g))"
  by (simp add: home_writes_def head_read_def)

lemma home_writes_st:
  assumes "fits st sz g" "0 < sz"
  shows "wr_blocks (home_writes st g D (nat (lh_n g))) E st = E st"
proof (rule wr_blocks_other)
  have "st \<notin> set (logged g)" using assms not_outside [of 0 sz st] by (auto simp: fits_def)
  then show "st \<notin> fst ` set (home_writes st g D (nat (lh_n g)))" using home_writes_keys [of "nat (lh_n g)" g st D] by blast
qed

lemma recover_ok:
  assumes id: "idle p s" and geo: "log_geom st sz (lg s)" and ref: "bref s = (\<lambda>_. 0)" and fit: "fits st sz (lh_get (lblk s st))"
  shows "\<exists>t. recover_from_log s = Ret () t \<and> idle p t \<and> lframe s t \<and> bref t = (\<lambda>_. 0) \<and>
    dsk t = dk_writes (recover_writes st (lg_lh (lg s)) (lh_get (lblk s st)) (lblk s)) (dsk s) \<and>
    lg t = (lg s)\<lparr>lg_lh := (head_read (lg_lh (lg s)) (lh_get (lblk s st)))\<lparr>lh_n := 0\<rparr>\<rparr>"
proof -
  let ?g = "lh_get (lblk s st)"
  let ?h = "head_read (lg_lh (lg s)) ?g"
  let ?n = "nat (lh_n ?g)"
  let ?H = "home_writes st ?g (lblk s) ?n"
  have sz: "0 < sz" using geo by (simp add: log_geom_def)
  from read_head_ok [OF id geo ref] obtain s1 where s1: "read_head s = Ret () s1" "idle p s1" "lframe s s1" "dsk s1 = dsk s" "lblk s1 = lblk s"
    "bref s1 = bref s" "lg s1 = (lg s)\<lparr>lg_lh := ?h\<rparr>" by blast
  have l1: "log_geom st sz (lg s1)" "fits st sz (lg_lh (lg s1))" "bref s1 = (if True then (\<lambda>_. 0) else pins (logged (lg_lh (lg s1))))"
    "\<not> True \<longrightarrow> distinct (logged (lg_lh (lg s1)))" using geo fit ref by (simp_all add: s1(6,7) log_geom_def)
  have cl: "lblk s1 b = dk_blocks (dsk s1) b" for b using bref_zero_clean [of s1 b] s1(2,6) ref by (simp add: idle_def)
  have c1: "\<forall>i. i + 1 < sz \<longrightarrow> lblk s1 (st + i + 1) = dk_blocks (dsk s1) (st + i + 1)" using cl by blast
  from install_upto [OF s1(2) l1 c1 order_refl] obtain s2 where s2: "install_trans True s1 = Ret () s2" "idle p s2" "bframe s1 s2"
    "dsk s2 = dk_writes ?H (dsk s1)" "lblk s2 = wr_blocks ?H (lblk s1)" "bref s2 = (\<lambda>_. 0)"
    by (auto simp: install_trans_def bnd_gets s1(5,7) home_writes_head_read)
  let ?l = "(lg s)\<lparr>lg_lh := ?h\<lparr>lh_n := 0\<rparr>\<rparr>"
  let ?s3 = "s2\<lparr>lg := ?l\<rparr>"
  have s3: "set_lh_n 0 s2 = Ret () ?s3" using bframe_log(1) [OF s2(3)] by (simp add: set_lh_n_def upd_log_def kern_simps s1(7))
  have h3: "lblk ?s3 st = lblk s st" using home_writes_st [OF fit sz] by (simp add: s2(5) s1(5))
  have "idle p ?s3" "log_geom st sz (lg ?s3)" "lh_n (lg_lh (lg ?s3)) \<le> int LOGSIZE" "bref ?s3 st + 1 < 2 ^ 32" "card {c. 0 < bref ?s3 c} < NBUF"
    using s2(2,6) geo by (simp_all add: frame_simps log_geom_def NBUF_def MAXOPBLOCKS_def)
  from write_head_ok [OF this] obtain t where t: "write_head ?s3 = Ret () t" "idle p t" "bframe ?s3 t"
    "dsk t = dk_write st (lh_put (?h\<lparr>lh_n := 0\<rparr>) (lblk s st)) (dsk ?s3)" "bref t = bref ?s3"
    using h3 by auto
  have "recover_from_log s = Ret () t" using s1(1) s2(1) s3 t(1) by (simp add: recover_from_log_def kern_simps)
  moreover have "lframe s t"
    using s1(3) bframe_lframe [OF s2(3)] lframe_lg [of s2 ?l] bframe_lframe [OF t(3)] lframe_trans by blast
  moreover have "lg t = ?l" using bframe_log(1) [OF t(3)] by simp
  moreover have "dsk t = dk_writes (recover_writes st (lg_lh (lg s)) ?g (lblk s)) (dsk s)"
    by (simp add: t(4) s2(4) s1(4) recover_writes_def)
  moreover have "bref t = (\<lambda>_. 0)" using t(5) s2(6) by simp
  ultimately show ?thesis using t(2) by (intro exI [of _ t] conjI)
qed

lemma initlog_ok:
  assumes id: "idle p s" and geo: "sb_logstart sb = st" "sb_nlog sb = sz" "0 < sz" "st + sz < 2 ^ 31" and ref: "bref s = (\<lambda>_. 0)"
    and fit: "fits st sz (lh_get (lblk s st))"
  shows "\<exists>t. initlog ROOTDEV sb s = Ret () t \<and> idle p t \<and> bref t = (\<lambda>_. 0) \<and> log_geom st sz (lg t) \<and> lh_n (lg_lh (lg t)) = 0 \<and>
    dsk t = dk_writes (recover_writes st (lg_lh (lg s)) (lh_get (lblk s st)) (lblk s)) (dsk s) \<and>
    lg_outstanding (lg t) = lg_outstanding (lg s) \<and> lg_committing (lg t) = lg_committing (lg s)"
proof -
  let ?l = "(lg s)\<lparr>lg_start := int st, lg_size := int sz, lg_dev := int ROOTDEV\<rparr>"
  let ?s = "s\<lparr>locks := (locks s)(L_log := (locks s L_log)\<lparr>lk_name := ''log'', lk_locked := False, lk_cpu := None\<rparr>), lg := ?l\<rparr>"
  have id': "idle p ?s"
    using id by (auto simp: idle_def quiet_def cpu_ok_def lock_free_def mach_defs intr_get_def bc_ok_def held_blocks_def)
  have "log_geom st sz (lg ?s)" "bref ?s = (\<lambda>_. 0)" "fits st sz (lh_get (lblk ?s st))"
    using geo ref fit by (simp_all add: log_geom_def)
  from recover_ok [OF id' this] obtain t where t: "recover_from_log ?s = Ret () t" "idle p t" "bref t = (\<lambda>_. 0)"
    "dsk t = dk_writes (recover_writes st (lg_lh (lg s)) (lh_get (lblk s st)) (lblk s)) (dsk s)"
    "lg t = ?l\<lparr>lg_lh := (head_read (lg_lh (lg s)) (lh_get (lblk s st)))\<lparr>lh_n := 0\<rparr>\<rparr>" by auto
  have "initlog ROOTDEV sb s = recover_from_log ?s"
    using geo by (simp add: initlog_def kern_simps initlock_def upd_lock_def upd_log_def LOGSIZE_def MAXOPBLOCKS_def BSIZE_def)
  then show ?thesis using t geo by (intro exI [of _ t]) (simp add: log_geom_def)
qed

subsection \<open>Crashes\<close>

lemma recovered_empty:
  assumes "lh_n g = 0" "outside st sz b" "0 < sz"
  shows "wr_blocks (recover_writes st h g D) E b = E b"
  using assms not_outside [of 0 sz st] by (auto simp: recover_writes_def home_writes_def)

lemma recovered_full:
  assumes fit: "fits st sz h" and g: "lh_n g = lh_n h" "\<And>i. i < nat (lh_n h) \<Longrightarrow> lh_block g i = lh_block h i"
    and log: "\<And>i. i < nat (lh_n h) \<Longrightarrow> D (st + i + 1) = N (lh_block h i)" and out: "outside st sz b" "0 < sz"
  shows "wr_blocks (recover_writes st h' g D) D b = (if b \<in> set (logged h) then N b else D b)"
proof -
  have "home_writes st g D (nat (lh_n g)) = copies h N (nat (lh_n h))" using g log by (simp add: home_writes_def copies_def)
  moreover have "b \<noteq> st" using out not_outside [of 0 sz st] by auto
  ultimately show ?thesis by (simp add: recover_writes_def copies_at logged_set)
qed

lemma fits_empty: "lh_n g = 0 \<Longrightarrow> 0 < sz \<Longrightarrow> fits st sz g"
  by (simp add: fits_def logged_def NBUF_def MAXOPBLOCKS_def)

text \<open>The disk after a prefix of a commit's writes, and what a recovery makes of it.\<close>

definition crash_point :: "nat \<Rightarrow> logheader \<Rightarrow> (nat \<Rightarrow> u8 list) \<Rightarrow> (nat \<Rightarrow> u8 list) \<Rightarrow> nat \<Rightarrow> nat \<Rightarrow> u8 list" where
  "crash_point st h N D k = wr_blocks (take k (commit_writes st h N)) D"

lemma take_commit_writes:
  fixes h N st defines "n \<equiv> nat (lh_n h)" and "hdr \<equiv> lh_put h (N st)"
  shows "take k (commit_writes st h N) =
    (if k \<le> n then log_writes st h N k
     else if k \<le> 2 * n + 1 then log_writes st h N n @ [(st, hdr)] @ copies h N (k - n - 1)
     else log_writes st h N n @ [(st, hdr)] @ copies h N n @ [(st, lh_put (h\<lparr>lh_n := 0\<rparr>) hdr)])"
proof -
  have t: "take j (log_writes st h N n) = log_writes st h N (min j n)" "take j (copies h N n) = copies h N (min j n)"
    "length (log_writes st h N n) = n" "length (copies h N n) = n" for j
    by (simp_all add: log_writes_def copies_def take_map min_def)
  show ?thesis
    unfolding commit_writes_def Let_def n_def [symmetric] hdr_def [symmetric]
    by (auto simp: t min_def take_Cons' not_le)
qed

lemma crash_recovers:
  fixes k :: nat
  assumes fit: "fits st sz h" and sz: "0 < sz" and lenN: "length (N st) = BSIZE" and old: "lh_n (lh_get (D st)) = 0"
    and clean: "\<And>b. b \<notin> set (logged h) \<Longrightarrow> N b = D b"
  defines "E \<equiv> crash_point st h N D k"
  shows "fits st sz (lh_get (E st))"
    "outside st sz b \<Longrightarrow> wr_blocks (recover_writes st h' (lh_get (E st)) E) E b = (if k \<le> nat (lh_n h) then D b else N b)"
proof -
  let ?n = "nat (lh_n h)" and ?hdr = "lh_put h (N st)"
  have n: "0 \<le> lh_n h" "lh_n h \<le> int LOGSIZE" using fit by (simp_all add: fits_def LOGSIZE_def NBUF_def)
  have sm: "\<forall>i<?n. lh_block h i < 2 ^ 32" using fitsD(3) [OF fit] by blast
  note hp = lh_put_get [OF lenN n sm]
  have st: "\<not> outside st sz st" using not_outside [OF sz, of st] by simp
  consider (1) "k \<le> ?n" | (2) "?n < k" "k \<le> 2 * ?n + 1" | (3) "2 * ?n + 1 < k" by linarith
  then have "fits st sz (lh_get (E st)) \<and> (outside st sz b \<longrightarrow>
      wr_blocks (recover_writes st h' (lh_get (E st)) E) E b = (if k \<le> ?n then D b else N b))"
  proof cases
    case 1
    then have E: "E = wr_blocks (log_writes st h N k) D" by (simp add: E_def crash_point_def take_commit_writes)
    have off: "E c = D c" if "c = st \<or> outside st sz c" for c unfolding E by (rule log_writes_off [OF fit 1 that])
    show ?thesis using 1 off old fits_empty [OF _ sz] recovered_empty [OF _ _ sz] by simp
  next
    case 2
    let ?C = "copies h N (k - ?n - 1)"
    have j: "k - ?n - 1 \<le> ?n" using 2 by simp
    have E: "E = wr_blocks ?C ((wr_blocks (log_writes st h N ?n) D)(st := ?hdr))"
      using 2 by (simp add: E_def crash_point_def take_commit_writes)
    have "E st = ?hdr" unfolding E by (subst copies_area [OF fit j st]) simp
    with hp have g: "lh_n (lh_get (E st)) = lh_n h" "\<And>i. i < ?n \<Longrightarrow> lh_block (lh_get (E st)) i = lh_block h i" by simp_all
    have lE: "E (st + i + 1) = N (lh_block h i)" if "i < ?n" for i
    proof -
      have "\<not> outside st sz (st + i + 1)" using not_outside [of "i + 1" sz st] fitsD(1) [OF fit that] by simp
      then show ?thesis unfolding E using log_writes_at [OF that, of st h N D] by (subst copies_area [OF fit j]) simp_all
    qed
    have lg: "logged (lh_get (E st)) = logged h" using g by (simp add: logged_def)
    have "(if b \<in> set (logged h) then N b else E b) = N b" if "outside st sz b"
    proof -
      have "((wr_blocks (log_writes st h N ?n) D)(st := ?hdr)) b = D b" using log_writes_off [OF fit order_refl] that st by auto
      then show ?thesis unfolding E copies_at [OF j] using clean [of b] by auto
    qed
    moreover have "wr_blocks (recover_writes st h' (lh_get (E st)) E) E b = (if b \<in> set (logged h) then N b else E b)" if "outside st sz b"
      by (rule recovered_full [OF fit g(1)]) (use g(2) lE that sz in blast)+
    ultimately show ?thesis using 2(1) fit by (simp add: fits_def g(1) lg)
  next
    case 3
    have E: "E = (wr_blocks (copies h N ?n) ((wr_blocks (log_writes st h N ?n) D)(st := ?hdr)))(st := lh_put (h\<lparr>lh_n := 0\<rparr>) ?hdr)"
      using 3 by (simp add: E_def crash_point_def take_commit_writes)
    have "length ?hdr = BSIZE" by (rule length_lh_put [OF lenN n(2)])
    then have g: "lh_n (lh_get (E st)) = 0" unfolding E using lh_put_get(1) [of ?hdr "h\<lparr>lh_n := 0\<rparr>"] by simp
    have "E b = N b" if "outside st sz b"
    proof -
      have "b \<noteq> st" using st that by auto
      moreover have "wr_blocks (log_writes st h N ?n) D b = D b" using log_writes_off [OF fit order_refl] that by simp
      ultimately show ?thesis unfolding E using clean [of b] copies_at [OF order_refl, of h N] by (simp add: logged_set)
    qed
    then show ?thesis using 3 g fits_empty [OF g sz] recovered_empty [OF g _ sz] by simp
  qed
  then show "fits st sz (lh_get (E st))"
    "outside st sz b \<Longrightarrow> wr_blocks (recover_writes st h' (lh_get (E st)) E) E b = (if k \<le> ?n then D b else N b)" by blast+
qed

lemma wr_blocks_length:
  "(\<And>w. w \<in> set ws \<Longrightarrow> length (snd w) = n) \<Longrightarrow> (\<And>b. length (D b) = n) \<Longrightarrow> length (wr_blocks ws D b) = n"
proof (induction ws arbitrary: D)
  case (Cons w ws)
  obtain c d where w: "w = (c, d)" by (cases w)
  have "length d = n" using Cons.prems(1) [of w] w by simp
  then have "length (wr_blocks ws (D(c := d)) b) = n" using Cons.prems by (intro Cons.IH) auto
  then show ?case by (simp add: w)
qed simp

lemma commit_writes_at:
  assumes fit: "fits st sz h" and sz: "0 < sz" and out: "outside st sz b"
  shows "wr_blocks (commit_writes st h N) D b = (if b \<in> set (logged h) then N b else D b)"
proof -
  have "b \<noteq> st" using out not_outside [OF sz, of st] by auto
  then show ?thesis
    using log_writes_off [OF fit order_refl, of b N D] out
    by (simp add: commit_writes_def Let_def copies_at [OF order_refl] logged_set)
qed

subsection \<open>Properties\<close>

text \<open>A transaction ready to commit: the pinned buffers are those of the logged blocks, and every
  other block in the cache agrees with the disk.\<close>

definition txn_ready :: "nat \<Rightarrow> nat \<Rightarrow> nat \<Rightarrow> 'a log_state_scheme \<Rightarrow> bool" where
  "txn_ready p st sz s \<longleftrightarrow> idle p s \<and> log_geom st sz (lg s) \<and> fits st sz (lg_lh (lg s)) \<and> distinct (logged (lg_lh (lg s))) \<and>
     bref s = pins (logged (lg_lh (lg s))) \<and> (\<forall>b. b \<notin> set (logged (lg_lh (lg s))) \<longrightarrow> lblk s b = dk_blocks (dsk s) b)"

lemma txn_readyD:
  assumes "txn_ready p st sz s"
  shows "idle p s" "log_geom st sz (lg s)" "fits st sz (lg_lh (lg s))" "distinct (logged (lg_lh (lg s)))"
    "bref s = pins (logged (lg_lh (lg s)))" "\<forall>b. b \<notin> set (logged (lg_lh (lg s))) \<longrightarrow> lblk s b = dk_blocks (dsk s) b" "0 < sz"
  using assms by (auto simp: txn_ready_def log_geom_def)

lemma commit_done:
  assumes "txn_ready p st sz s"
  shows "\<exists>t. commit s = Ret () t \<and> idle p t \<and> lframe s t \<and> lg t = (lg s)\<lparr>lg_lh := (lg_lh (lg s))\<lparr>lh_n := 0\<rparr>\<rparr> \<and> bref t = (\<lambda>_. 0) \<and>
    (\<forall>b. outside st sz b \<longrightarrow> lblk t b = lblk s b \<and> dk_blocks (dsk t) b = lblk s b)"
proof (cases "0 < lh_n (lg_lh (lg s))")
  case True
  note r = txn_readyD [OF assms]
  from commit_ok [OF r(1-6) True] obtain t where t: "commit s = Ret () t" "idle p t" "lframe s t"
    "dsk t = dk_writes (commit_writes st (lg_lh (lg s)) (lblk s)) (dsk s)" "lblk t = wr_blocks (commit_writes st (lg_lh (lg s)) (lblk s)) (lblk s)"
    "bref t = (\<lambda>_. 0)" "lg t = (lg s)\<lparr>lg_lh := (lg_lh (lg s))\<lparr>lh_n := 0\<rparr>\<rparr>" by blast
  have "lblk t b = lblk s b" if "outside st sz b" for b using commit_writes_at [OF r(3,7) that] by (simp add: t(5))
  moreover have "lblk t b = dk_blocks (dsk t) b" for b using bref_zero_clean [of t b] t(2,6) by (simp add: idle_def)
  ultimately show ?thesis using t(1-3,6,7) by (intro exI [of _ t]) simp
next
  case False
  note r = txn_readyD [OF assms]
  then have n: "lh_n (lg_lh (lg s)) = 0" using False by (simp add: fits_def)
  then have "logged (lg_lh (lg s)) = []" by (simp add: logged_def)
  moreover have "(lg s)\<lparr>lg_lh := (lg_lh (lg s))\<lparr>lh_n := 0\<rparr>\<rparr> = lg s" using n by simp
  ultimately show ?thesis using n r by (intro exI [of _ s]) (simp add: commit_def kern_simps)
qed

text \<open>C19: a commit returns with every block of the file system on disk as the cache has it, an
  empty log, and no buffer pinned.\<close>

theorem commit_installs:
  assumes "txn_ready p st sz s"
  shows "\<exists>t. commit s = Ret () t \<and> idle p t \<and> lh_n (lg_lh (lg t)) = 0 \<and> bref t = (\<lambda>_. 0) \<and>
    (\<forall>b. outside st sz b \<longrightarrow> lblk t b = lblk s b \<and> dk_blocks (dsk t) b = lblk s b)"
  using commit_done [OF assms] by auto

definition sample_txn :: log_state where
  "sample_txn =
     (let f = (\<lambda>i. if i = 0 then Some 46 else None); s = sample_bio f in
      bio_state.extend (s\<lparr>bufs := (bufs s)(0 := (bufs s 0)\<lparr>b_valid := True, b_data := replicate BSIZE 7\<rparr>)\<rparr>)
        (log_state.fields \<lparr>lg_start = 2, lg_size = 30, lg_outstanding = 0, lg_committing = True, lg_dev = 1,
           lg_lh = \<lparr>lh_n = 1, lh_block = (\<lambda>_. 46)\<rparr>\<rparr>))"

definition sample_boot :: "(nat \<Rightarrow> u8 list) \<Rightarrow> log_state" where
  "sample_boot D =
     bio_state.extend ((sample_bio (\<lambda>_. None))\<lparr>dsk := \<lparr>dk_blocks = D, dk_hist = []\<rparr>\<rparr>)
       (log_state.fields \<lparr>lg_start = 0, lg_size = 0, lg_outstanding = 0, lg_committing = False, lg_dev = 0,
          lg_lh = \<lparr>lh_n = 0, lh_block = (\<lambda>_. 0)\<rparr>\<rparr>)"

lemma sample_txn_ready: "txn_ready 3 2 30 sample_txn" "lblk sample_txn 46 = replicate BSIZE 7" "dk_blocks (dsk sample_txn) b = replicate BSIZE 0"
proof -
  let ?f = "\<lambda>i. if i = (0 :: nat) then Some (46 :: nat) else None"
  let ?B = "sample_buf ?f" and ?x = "(sample_buf ?f 0)\<lparr>b_valid := True, b_data := replicate BSIZE 7\<rparr>"
  have B: "bufs sample_txn = ?B(0 := ?x)" "slocks sample_txn = slocks (sample_bio ?f)" "dsk sample_txn = dsk (sample_bio ?f)"
    by (simp_all add: sample_txn_def Let_def bio_state.defs sample_bio_bufs)
  have D: "dk_blocks (dsk (sample_bio ?f)) b = replicate BSIZE 0" for b by (simp add: sample_bio_def)
  show "dk_blocks (dsk sample_txn) b = replicate BSIZE 0" by (simp only: B(3) D)
  have inj: "inj_on ?f {i. i < NBUF \<and> ?f i \<noteq> None}" by (auto intro: inj_onI)
  have inv0: "bc_inv ?B (\<lambda>i. sl_locked (slocks (sample_bio ?f) (S_buf i))) (dk_blocks (dsk (sample_bio ?f)))"
    using sample_bc_ok [OF inj] by (simp add: bc_ok_def sample_bio_bufs)
  have h: "holds_block ?B 0 46" by (simp add: holds_block_def sample_buf_def NBUF_def MAXOPBLOCKS_def)
  have only: "holds_block ?B i b \<longleftrightarrow> i = 0 \<and> b = 46" for i b using sample_holds [of ?f i b] h by (auto split: if_splits)
  have sp: "same_place ?x (?B 0)" by (simp add: same_place_def)
  have r: "b_refcnt ?x = 1" "b_dev ?x = ROOTDEV" by (simp_all add: sample_buf_def)
  have inv: "bc_inv (?B(0 := ?x)) (\<lambda>i. sl_locked (slocks (sample_bio ?f) (S_buf i))) (dk_blocks (dsk (sample_bio ?f)))"
    by (rule bc_inv_upd [OF inv0 sp]) (simp_all add: r)
  have c0: "cached ?B b = None" if "b \<noteq> 46" for b using only that by (simp add: cached_None)
  have l: "lblk sample_txn = (\<lambda>b. if b = 46 then replicate BSIZE 7 else replicate BSIZE 0)"
    unfolding B lblk_upd(1) [OF inv0 h sp] by (rule ext) (simp add: lblk_of_def c0 D)
  have rf: "bref sample_txn = (\<lambda>b. if b = 46 then 1 else 0)"
    unfolding B lblk_upd(2) [OF inv0 h sp] by (rule ext) (simp add: bref_of_def c0 r(1))
  show "lblk sample_txn 46 = replicate BSIZE 7" by (simp add: l)
  have lg: "lg sample_txn = \<lparr>lg_start = 2, lg_size = 30, lg_outstanding = 0, lg_committing = True, lg_dev = 1,
      lg_lh = \<lparr>lh_n = 1, lh_block = (\<lambda>_. 46)\<rparr>\<rparr>" by (simp add: sample_txn_def Let_def log_state.defs bio_state.defs)
  have "quiet 3 sample_txn"
    by (simp add: quiet_def cpu_ok_def lock_free_def mach_defs sample_txn_def sample_bio_def NPROC_def Let_def bio_state.defs)
  moreover have "held_blocks sample_txn = {}" by (simp add: held_blocks_def B(2)) (simp add: sample_bio_def)
  moreover have "bc_ok sample_txn" unfolding bc_ok_def B by (rule inv)
  ultimately have "idle 3 sample_txn" by (simp add: idle_def)
  moreover have "log_geom 2 30 (lg sample_txn)" by (simp add: lg log_geom_def ROOTDEV_def)
  moreover have lgd: "logged (lg_lh (lg sample_txn)) = [46]" by (simp add: lg logged_def)
  moreover have "fits 2 30 (lg_lh (lg sample_txn))" unfolding fits_def lgd by (simp add: lg NBUF_def MAXOPBLOCKS_def outside_def)
  moreover have "bref sample_txn = pins [46]" by (rule ext) (simp add: rf pins_def)
  moreover have "lblk sample_txn b = dk_blocks (dsk sample_txn) b" if "b \<noteq> 46" for b using that by (simp add: l) (simp only: B(3) D)
  ultimately show "txn_ready 3 2 30 sample_txn" by (simp add: txn_ready_def)
qed

theorem commit_installs_witness:
  "\<exists>t. commit sample_txn = Ret () t \<and> dk_blocks (dsk sample_txn) 46 = replicate BSIZE 0 \<and> dk_blocks (dsk t) 46 = replicate BSIZE 7"
  using commit_installs [OF sample_txn_ready(1)] sample_txn_ready(2) sample_txn_ready(3) [of 46] by (auto simp: outside_def)

text \<open>C1: a transaction is atomic under crashes. Stop the machine after any number \<open>k\<close> of the block
  writes that a commit issues; when the kernel boots on that disk and runs \<open>initlog\<close>, every block of
  the file system has its old contents if the header had not been written yet, and every block has
  its new contents if it had; the log is empty again.\<close>

theorem commit_crash_safe:
  assumes ready: "txn_ready p st sz s" and empty: "lh_n (lh_get (dk_blocks (dsk s) st)) = 0"
    and run: "commit s = Ret () t" and ws: "dk_hist (dsk t) = dk_hist (dsk s) @ ws"
    and boot: "idle q r" "bref r = (\<lambda>_. 0)" "dk_blocks (dsk r) = wr_blocks (take k ws) (dk_blocks (dsk s))"
    and sb: "sb_logstart sb = st" "sb_nlog sb = sz"
  shows "\<exists>u. initlog ROOTDEV sb r = Ret () u \<and> idle q u \<and> lh_n (lg_lh (lg u)) = 0 \<and>
    (\<forall>b. outside st sz b \<longrightarrow> dk_blocks (dsk u) b = (if k \<le> nat (lh_n (lg_lh (lg s))) then dk_blocks (dsk s) b else lblk s b))"
proof -
  let ?h = "lg_lh (lg s)"
  note rd = txn_readyD [OF ready]
  have sz: "st + sz < 2 ^ 31" using rd(2) by (simp add: log_geom_def)
  define F where "F = dk_blocks (dsk r)"
  have cl: "lblk r = F" using bref_zero_clean [of r] boot(1,2) by (auto simp: idle_def F_def)
  have D: "fits st sz (lh_get (F st)) \<and> (\<forall>b. outside st sz b \<longrightarrow>
      wr_blocks (recover_writes st (lg_lh (lg r)) (lh_get (F st)) F) F b = (if k \<le> nat (lh_n ?h) then dk_blocks (dsk s) b else lblk s b))"
  proof (cases "0 < lh_n ?h")
    case True
    from commit_ok [OF rd(1-6) True] run have "dsk t = dk_writes (commit_writes st ?h (lblk s)) (dsk s)" by auto
    then have "ws = commit_writes st ?h (lblk s)" using ws by (simp add: dk_writes_hist)
    then have E: "F = crash_point st ?h (lblk s) (dk_blocks (dsk s)) k" by (simp add: F_def boot(3) crash_point_def)
    have len: "length (lblk s st) = BSIZE" using rd(1) bc_disk_len by (auto simp: idle_def)
    have "b \<notin> set (logged ?h) \<Longrightarrow> lblk s b = dk_blocks (dsk s) b" for b using rd(6) by blast
    note cr = crash_recovers [of st sz ?h "lblk s" "dk_blocks (dsk s)", OF rd(3,7) len empty this]
    show ?thesis unfolding E by (intro conjI allI impI cr)
  next
    case False
    then have n: "lh_n ?h = 0" using rd(3) by (simp add: fits_def)
    then have "t = s" using run by (simp add: commit_def kern_simps)
    then have E: "F = dk_blocks (dsk s)" using ws boot(3) by (simp add: F_def)
    have "lblk s b = dk_blocks (dsk s) b" for b using n rd(6) by (simp add: logged_def)
    then show ?thesis
      unfolding E using fits_empty [OF empty rd(7)] recovered_empty [OF empty _ rd(7)] by simp
  qed
  have fit: "fits st sz (lh_get (lblk r st))" using D by (simp add: cl)
  from initlog_ok [OF boot(1) sb rd(7) sz boot(2) fit] obtain u where u: "initlog ROOTDEV sb r = Ret () u" "idle q u" "lh_n (lg_lh (lg u)) = 0"
    "dsk u = dk_writes (recover_writes st (lg_lh (lg r)) (lh_get (F st)) F) (dsk r)" unfolding cl by blast
  then show ?thesis using D by (intro exI [of _ u]) (simp add: dk_writes_blocks F_def [symmetric])
qed

lemma sample_boot_ok:
  assumes "\<And>b. length (D b) = BSIZE"
  shows "idle 3 (sample_boot D)" "bref (sample_boot D) = (\<lambda>_. 0)" "dk_blocks (dsk (sample_boot D)) = D"
proof -
  have B: "bufs (sample_boot D) = sample_buf (\<lambda>_. None)" "slocks (sample_boot D) = slocks (sample_bio (\<lambda>_. None))"
    by (simp_all add: sample_boot_def bio_state.defs sample_bio_bufs)
  show d: "dk_blocks (dsk (sample_boot D)) = D" by (simp add: sample_boot_def bio_state.defs)
  show "bref (sample_boot D) = (\<lambda>_. 0)" by (rule ext) (simp add: bref_of_def B(1) sample_cached)
  have "quiet 3 (sample_boot D)"
    by (simp add: quiet_def cpu_ok_def lock_free_def mach_defs sample_boot_def sample_bio_def NPROC_def bio_state.defs)
  moreover have "held_blocks (sample_boot D) = {}" by (simp add: held_blocks_def B(2)) (simp add: sample_bio_def)
  moreover have sl: "(\<lambda>i. sl_locked (slocks (sample_bio (\<lambda>_. None)) (S_buf i))) = (\<lambda>_. False)" by (simp add: sample_bio_def)
  have "bc_ok (sample_boot D)" unfolding bc_ok_def B d sl by (rule sample_bc_inv) (simp_all add: assms)
  ultimately show "idle 3 (sample_boot D)" by (simp add: idle_def)
qed

theorem commit_crash_safe_witness:
  "\<exists>t ws u. commit sample_txn = Ret () t \<and> dk_hist (dsk t) = dk_hist (dsk sample_txn) @ ws \<and>
    initlog ROOTDEV \<lparr>sb_magic = 0, sb_size = 0, sb_nblocks = 0, sb_ninodes = 0, sb_nlog = 30, sb_logstart = 2, sb_inodestart = 0, sb_bmapstart = 0\<rparr>
      (sample_boot (wr_blocks (take 2 ws) (dk_blocks (dsk sample_txn)))) = Ret () u \<and>
    dk_blocks (dsk u) 46 = replicate BSIZE 7"
proof -
  note rd = txn_readyD [OF sample_txn_ready(1)]
  let ?h = "lg_lh (lg sample_txn)" and ?D = "dk_blocks (dsk sample_txn)"
  have h: "lh_n ?h = 1" by (simp add: sample_txn_def Let_def log_state.defs bio_state.defs)
  then have pos: "0 < lh_n ?h" by simp
  define ws where "ws = commit_writes 2 ?h (lblk sample_txn)"
  from commit_ok [OF rd(1-6) pos] obtain t where t: "commit sample_txn = Ret () t" "dsk t = dk_writes ws (dsk sample_txn)"
    by (auto simp: ws_def)
  then have hist: "dk_hist (dsk t) = dk_hist (dsk sample_txn) @ ws" by (simp add: dk_writes_hist)
  have len: "length (lblk sample_txn b) = BSIZE" for b using rd(1) bc_disk_len by (auto simp: idle_def)
  have "snd w \<in> {d. length d = BSIZE}" if "w \<in> set ws" for w
    using that len by (auto simp: ws_def commit_writes_def Let_def log_writes_def copies_def length_lh_put h LOGSIZE_def MAXOPBLOCKS_def)
  then have lw: "length (wr_blocks (take 2 ws) ?D b) = BSIZE" for b
    by (intro wr_blocks_length) (auto simp: sample_txn_ready(3) dest!: in_set_takeD)
  note bt = sample_boot_ok [of "wr_blocks (take 2 ws) ?D", OF lw]
  have e: "lh_n (lh_get (?D 2)) = 0" by (simp add: sample_txn_ready(3) lh_get_def get32_zeros BSIZE_def)
  from commit_crash_safe [OF sample_txn_ready(1) e t(1) hist bt,
      of "\<lparr>sb_magic = 0, sb_size = 0, sb_nblocks = 0, sb_ninodes = 0, sb_nlog = 30, sb_logstart = 2, sb_inodestart = 0, sb_bmapstart = 0\<rparr>"]
  show ?thesis using t(1) hist h sample_txn_ready(2) by (auto simp: outside_def)
qed

end
