(* ===== verification/Log_Ops.thy ===== *)
theory Log_Ops
  imports Log_Crash
begin

text \<open>
  The operations of \<^verbatim>\<open>kernel/log.c\<close> that system calls use: what \<open>begin_op\<close>, \<open>log_write\<close> and
  \<open>end_op\<close> do on each branch.
\<close>

subsection \<open>Beginning an operation\<close>

definition admits :: "log \<Rightarrow> bool" where
  "admits l \<longleftrightarrow> \<not> lg_committing l \<and> lh_n (lg_lh l) + (lg_outstanding l + 1) * int MAXOPBLOCKS \<le> int LOGSIZE"

lemma release_acquired_lg [frame_simps]:
  "cpu_ok s \<Longrightarrow> lock_free lk s \<Longrightarrow> release lk ((acquired lk s)\<lparr>lg := l\<rparr>) = Ret () ((settle s)\<lparr>lg := l\<rparr>)"
  by (subst release_run [of s]) (simp_all add: frame_simps)

lemma begin_op_admitted:
  assumes "quiet p s" "admits (lg s)"
  shows "begin_op s = Ret () ((settle s)\<lparr>lg := (lg s)\<lparr>lg_outstanding := lg_outstanding (lg s) + 1\<rparr>\<rparr>)"
  using quietD [OF assms(1)] assms(2)
  by (simp add: begin_op_def begin_op_loop_def kern_simps acquire_run frame_simps upd_log_def admits_def)

lemma begin_op_waits:
  assumes q: "quiet p s" and na: "\<not> admits (lg s)" and noff: "c_noff (cpus s (mycpu s)) = 0"
  shows "\<exists>t. begin_op s = Swtch t \<and> in_crit (L_proc p) t \<and> lock_free L_log t \<and>
    p_state (procs t p) = SLEEPING \<and> p_chan (procs t p) = Some Ch_log"
proof -
  let ?A = "acquired L_log s"
  have crit: "in_crit L_log ?A" by (rule in_crit_acquired [OF noff])
  have cp: "c_proc (cpus ?A (mycpu ?A)) = Some p" using quiet_proc [OF q] by (simp add: frame_simps)
  have lf: "lock_free (L_proc p) ?A" using quietD [OF q] by (simp add: frame_simps)
  from sleep_run [OF cp crit lf, of Ch_log] obtain t where
    "(sleep Ch_log L_log ?A :: (unit, _) outcome) = Swtch t" "in_crit (L_proc p) t" "lock_free L_log t"
    "procs t = (procs ?A)(p := (procs ?A p)\<lparr>p_chan := Some Ch_log, p_state := SLEEPING, p_context := cur_ctx ?A\<rparr>)"
    by auto
  moreover have "begin_op s = sleep Ch_log L_log ?A"
    using quietD [OF q] na
    by (auto simp: begin_op_def begin_op_loop_def kern_simps acquire_run frame_simps admits_def)
  ultimately show ?thesis by auto
qed

subsection \<open>Recording a block\<close>

definition log_full :: "log \<Rightarrow> bool" where
  "log_full l \<longleftrightarrow> int LOGSIZE \<le> lh_n (lg_lh l) \<or> lg_size l - 1 \<le> lh_n (lg_lh l)"

lemma log_write_full:
  assumes "quiet p s" "log_full (lg s)"
  shows "log_write b s = Panic ''too big a transaction''"
  using quietD [OF assms(1)] assms(2)
  by (simp add: log_write_def kern_simps acquire_run frame_simps log_full_def)

lemma log_write_no_op:
  assumes "quiet p s" "\<not> log_full (lg s)" "lg_outstanding (lg s) < 1"
  shows "log_write b s = Panic ''log_write outside of trans''"
  using quietD [OF assms(1)] assms(2,3)
  by (simp add: log_write_def kern_simps acquire_run frame_simps log_full_def)

text \<open>The header after a block is recorded.\<close>

definition record_block :: "nat \<Rightarrow> logheader \<Rightarrow> logheader" where
  "record_block c h = (if c \<in> set (logged h) then h else h\<lparr>lh_n := lh_n h + 1, lh_block := (lh_block h)(nat (lh_n h) := c)\<rparr>)"

lemma logged_record: "0 \<le> lh_n h \<Longrightarrow> logged (record_block c h) = (if c \<in> set (logged h) then logged h else logged h @ [c])"
  by (auto simp: record_block_def logged_def nat_add_distrib)

lemma lh_n_record: "lh_n (record_block c h) \<le> lh_n h + 1" "0 \<le> lh_n h \<Longrightarrow> 0 \<le> lh_n (record_block c h)"
  by (simp_all add: record_block_def)

lemma distinct_record: "0 \<le> lh_n h \<Longrightarrow> distinct (logged h) \<Longrightarrow> distinct (logged (record_block c h))"
  by (simp add: logged_record)

lemma log_find_hit:
  assumes "c \<in> set (logged h)"
  shows "log_find h c < nat (lh_n h)" "lh_block h (log_find h c) = c"
proof -
  obtain i where "first_idx (\<lambda>i. lh_block h i = c) [0..<nat (lh_n h)] = Some i"
    using assms first_idx_None [of "\<lambda>i. lh_block h i = c" "[0..<nat (lh_n h)]"] by (cases "first_idx (\<lambda>i. lh_block h i = c) [0..<nat (lh_n h)]") (auto simp: logged_def)
  with first_idx_Some [OF this] show "log_find h c < nat (lh_n h)" "lh_block h (log_find h c) = c" by (simp_all add: log_find_def)
qed

lemma log_find_miss:
  assumes "c \<notin> set (logged h)"
  shows "log_find h c = nat (lh_n h)"
proof -
  have "first_idx (\<lambda>i. lh_block h i = c) [0..<nat (lh_n h)] = None" unfolding first_idx_None using assms by (auto simp: logged_def)
  then show ?thesis by (simp add: log_find_def)
qed

lemma release_acquired_lg_bufs [frame_simps]:
  "cpu_ok s \<Longrightarrow> lock_free lk s \<Longrightarrow> release lk ((acquired lk s)\<lparr>lg := l, bufs := B\<rparr>) = Ret () ((settle s)\<lparr>lg := l, bufs := B\<rparr>)"
  "cpu_ok s \<Longrightarrow> lock_free lk s \<Longrightarrow> release lk ((acquired lk s)\<lparr>bufs := B, lg := l\<rparr>) = Ret () ((settle s)\<lparr>bufs := B, lg := l\<rparr>)"
  by (subst release_run [of s]; simp add: frame_simps)+

lemma bpin_under_log:
  assumes "quiet p s"
  shows "bpin i ((acquired L_log s)\<lparr>lg := l\<rparr>) = Ret () ((acquired L_log s)\<lparr>lg := l, bufs := (bufs s)(i := bump (bufs s i))\<rparr>)"
  using quietD [OF assms] by (simp add: bpin_def kern_simps acquire_run frame_simps upd_buf_def bump_def)

lemma log_write_run:
  fixes b :: nat
  assumes q: "quiet p s" and room: "\<not> log_full (lg s)" and op: "1 \<le> lg_outstanding (lg s)" and n: "0 \<le> lh_n (lg_lh (lg s))"
  defines "c \<equiv> b_blockno (bufs s b)" and "h \<equiv> lg_lh (lg s)"
  shows "log_write b s = Ret () ((settle s)\<lparr>lg := (lg s)\<lparr>lg_lh := record_block c h\<rparr>,
    bufs := (if c \<in> set (logged h) then bufs s else (bufs s)(b := bump (bufs s b)))\<rparr>)"
proof (cases "c \<in> set (logged h)")
  case True
  note f = log_find_hit [OF True]
  have u: "(lg s)\<lparr>lg_lh := h\<lparr>lh_block := (lh_block h)(log_find h c := c)\<rparr>\<rparr> = lg s" using f(2) by (simp add: h_def fun_upd_idem)
  have ne: "int (log_find h c) \<noteq> lh_n h" using f(1) by linarith
  show ?thesis
    using quietD [OF q] room op True ne u
    by (simp add: log_write_def kern_simps acquire_run frame_simps log_full_def upd_log_def c_def [symmetric] h_def [symmetric] record_block_def del: fun_upd_apply)
next
  case False
  note f = log_find_miss [OF False]
  have eq: "int (log_find h c) = lh_n h" using n f by (simp add: h_def)
  show ?thesis
    using quietD [OF q] room op False eq f
    by (simp add: log_write_def kern_simps acquire_run frame_simps log_full_def upd_log_def c_def [symmetric] h_def [symmetric] record_block_def
        bpin_under_log [OF q] del: fun_upd_apply)
qed

text \<open>Recording keeps the cache in order and pins a block that was not in the log yet.\<close>

lemma log_write_ok:
  assumes q: "quiet p s" and ok: "bc_ok s" and h: "holds_block (bufs s) b c" and small: "bref s c + 1 < 2 ^ 32"
    and room: "\<not> log_full (lg s)" and op: "1 \<le> lg_outstanding (lg s)" and n: "0 \<le> lh_n (lg_lh (lg s))"
  shows "\<exists>t. log_write b s = Ret () t \<and> quiet p t \<and> bc_ok t \<and> lframe s t \<and> dsk t = dsk s \<and> lblk t = lblk s \<and> slocks t = slocks s \<and>
    lg t = (lg s)\<lparr>lg_lh := record_block c (lg_lh (lg s))\<rparr> \<and>
    bref t = (if c \<in> set (logged (lg_lh (lg s))) then bref s else (bref s)(c := bref s c + 1)) \<and>
    (\<forall>pid j d. owns s pid j d \<longrightarrow> owns t pid j d)"
proof -
  have c: "b_blockno (bufs s b) = c" using h by (simp add: holds_block_def)
  let ?l = "(lg s)\<lparr>lg_lh := record_block c (lg_lh (lg s))\<rparr>"
  note run = log_write_run [OF q room op n, of b, unfolded c]
  show ?thesis
  proof (cases "c \<in> set (logged (lg_lh (lg s)))")
    case True
    let ?t = "(settle s)\<lparr>lg := ?l\<rparr>"
    have "log_write b s = Ret () ?t" using run True by (simp add: frame_simps)
    moreover have "lframe s ?t" by (simp add: lframe_def frame_simps settle_def)
    moreover have "bc_ok ?t" using ok by (simp add: bc_ok_def frame_simps)
    moreover have "owns ?t pid j d = owns s pid j d" for pid j d by (simp add: owns_def frame_simps)
    ultimately show ?thesis using True q by (intro exI [of _ ?t]) (simp add: frame_simps)
  next
    case False
    let ?B = "(bufs s)(b := bump (bufs s b))"
    let ?t = "(settle s)\<lparr>lg := ?l, bufs := ?B\<rparr>"
    have "bpin b s = Ret () ((settle s)\<lparr>bufs := ?B\<rparr>)"
      using quietD [OF q] by (simp add: bpin_def kern_simps acquire_run frame_simps upd_buf_def bump_def)
    with bpin_ok [OF q ok h small] have
      b: "bc_inv ?B (\<lambda>i. sl_locked (slocks s (S_buf i))) (dk_blocks (dsk s))" "lblk_of ?B (dk_blocks (dsk s)) = lblk s"
        "bref_of ?B = (bref s)(c := bref s c + 1)" "\<forall>pid j d. owns s pid j d \<longrightarrow> owns ((settle s)\<lparr>bufs := ?B\<rparr>) pid j d"
      by (auto simp: bc_ok_def frame_simps)
    have "owns ?t pid j d = owns ((settle s)\<lparr>bufs := ?B\<rparr>) pid j d" for pid j d by (simp add: owns_def)
    then have "owns ?t pid j d" if "owns s pid j d" for pid j d using b(4) that by blast
    moreover have "lframe s ?t" by (simp add: lframe_def frame_simps settle_def)
    moreover have "bc_ok ?t" using b(1) by (simp add: bc_ok_def frame_simps)
    moreover have "lblk ?t = lblk s" "bref ?t = (bref s)(c := bref s c + 1)" using b(2,3) by (simp_all add: frame_simps)
    ultimately show ?thesis using False q run by (intro exI [of _ ?t]) (simp add: frame_simps)
  qed
qed

subsection \<open>Ending an operation\<close>

lemma release_acquired_lg_procs [frame_simps]:
  "cpu_ok s \<Longrightarrow> lock_free lk s \<Longrightarrow> release lk ((acquired lk s)\<lparr>lg := l, procs := f\<rparr>) = Ret () ((settle s)\<lparr>lg := l, procs := f\<rparr>)"
  by (subst release_run [of s]) (simp_all add: frame_simps)

lemma wakeup_under_log:
  assumes q: "quiet p s"
  shows "wakeup ch ((acquired L_log s)\<lparr>lg := l\<rparr>) = Ret () ((acquired L_log s)\<lparr>lg := l, procs := woken ch (Some p) {..<NPROC} (procs s)\<rparr>)"
proof -
  let ?A = "(acquired L_log s)\<lparr>lg := l\<rparr>"
  have cp: "c_proc (cpus ?A (mycpu ?A)) = Some p" using cproc_acquired [of L_log s] quiet_proc [OF q] by (simp add: mach_defs)
  have ok: "cpu_ok ?A" "proc_locks_free ?A" "settle ?A = ?A" using quietD [OF q] by (simp_all add: frame_simps)
  show ?thesis using wakeup_run [OF ok(1,2), of ch, unfolded cp ok(3)] by (simp add: frame_simps)
qed

lemma end_op_others:
  assumes q: "quiet p s" and nc: "\<not> lg_committing (lg s)" and out: "lg_outstanding (lg s) \<noteq> 1"
  shows "end_op s = Ret () ((settle s)\<lparr>lg := (lg s)\<lparr>lg_outstanding := lg_outstanding (lg s) - 1\<rparr>,
    procs := woken Ch_log (Some p) {..<NPROC} (procs s)\<rparr>)"
  using quietD [OF q] nc out
  by (simp add: end_op_def end_op_enter_def kern_simps acquire_run frame_simps upd_log_def wakeup_under_log [OF q])

lemma end_op_last:
  assumes r: "txn_ready p st sz s" and nc: "\<not> lg_committing (lg s)" and out: "lg_outstanding (lg s) = 1"
  shows "\<exists>t. end_op s = Ret () t \<and> idle p t \<and> lframe s t \<and> bref t = (\<lambda>_. 0) \<and>
    lg t = (lg s)\<lparr>lg_outstanding := 0, lg_committing := False, lg_lh := (lg_lh (lg s))\<lparr>lh_n := 0\<rparr>\<rparr> \<and>
    (\<forall>b. outside st sz b \<longrightarrow> lblk t b = lblk s b \<and> dk_blocks (dsk t) b = lblk s b) \<and>
    (\<forall>q<NPROC. q \<noteq> p \<longrightarrow> \<not> (p_state (procs t q) = SLEEPING \<and> p_chan (procs t q) = Some Ch_log))"
proof -
  have q: "quiet p s" using txn_readyD(1) [OF r] by (simp add: idle_def)
  let ?l = "(lg s)\<lparr>lg_outstanding := 0, lg_committing := True\<rparr>"
  let ?u = "(settle s)\<lparr>lg := ?l\<rparr>"
  have enter: "end_op_enter s = Ret True ?u"
    using quietD [OF q] nc out by (simp add: end_op_enter_def kern_simps acquire_run frame_simps upd_log_def)
  have "idle p ?u" using txn_readyD(1) [OF r] by (simp add: idle_def frame_simps bc_ok_def held_blocks_def)
  then have "txn_ready p st sz ?u" using txn_readyD [OF r] by (simp add: txn_ready_def frame_simps log_geom_def)
  from commit_done [OF this] obtain v where v: "commit ?u = Ret () v" "idle p v" "lframe ?u v" "lg v = ?l\<lparr>lg_lh := (lg_lh (lg s))\<lparr>lh_n := 0\<rparr>\<rparr>"
    "bref v = (\<lambda>_. 0)" "\<forall>b. outside st sz b \<longrightarrow> lblk v b = lblk s b \<and> dk_blocks (dsk v) b = lblk s b"
    by (auto simp: frame_simps)
  have qv: "quiet p v" using v(2) by (simp add: idle_def)
  let ?W = "woken Ch_log (Some p) {..<NPROC} (procs v)"
  let ?t = "(settle v)\<lparr>lg := (lg v)\<lparr>lg_committing := False\<rparr>, procs := ?W\<rparr>"
  have "end_op s = Ret () ?t"
    using quietD [OF qv] v(1) enter
    by (simp add: end_op_def end_op_commit_def kern_simps acquire_run frame_simps upd_log_def wakeup_under_log [OF qv])
  moreover have "idle p ?t" using v(2) by (simp add: idle_def frame_simps bc_ok_def held_blocks_def)
  moreover have "lframe s ?t"
  proof -
    have "lframe s ?u" "lframe v ?t" using wakes_woken by (simp_all add: lframe_def frame_simps settle_def)
    with v(3) show ?thesis using lframe_trans by blast
  qed
  moreover have "\<not> (p_state (?W q) = SLEEPING \<and> p_chan (?W q) = Some Ch_log)" if "q < NPROC" "q \<noteq> p" for q
    using that by (simp add: woken_def)
  ultimately show ?thesis using v(4-6) by (intro exI [of _ ?t]) (simp add: frame_simps)
qed

subsection \<open>Properties\<close>

text \<open>C20: ending the last operation commits: every block is on disk as the cache has it, the log is
  empty and open again, nothing stays pinned, and no other process is left sleeping for the log.\<close>

theorem end_op_commits:
  assumes "txn_ready p st sz s" "\<not> lg_committing (lg s)" "lg_outstanding (lg s) = 1"
  shows "\<exists>t. end_op s = Ret () t \<and> idle p t \<and> bref t = (\<lambda>_. 0) \<and> admits (lg t) \<and>
    (\<forall>b. outside st sz b \<longrightarrow> lblk t b = lblk s b \<and> dk_blocks (dsk t) b = lblk s b) \<and>
    (\<forall>q<NPROC. q \<noteq> p \<longrightarrow> \<not> (p_state (procs t q) = SLEEPING \<and> p_chan (procs t q) = Some Ch_log))"
  using end_op_last [OF assms] by (auto simp: admits_def MAXOPBLOCKS_def LOGSIZE_def)

lemma txn_ready_counters:
  "txn_ready p st sz (s\<lparr>lg := (lg s)\<lparr>lg_outstanding := a, lg_committing := b\<rparr>\<rparr>) = txn_ready p st sz s"
  by (simp add: txn_ready_def frame_simps log_geom_def)

theorem end_op_commits_witness:
  "\<exists>t. end_op (sample_txn\<lparr>lg := (lg sample_txn)\<lparr>lg_outstanding := 1, lg_committing := False\<rparr>\<rparr>) = Ret () t \<and>
    dk_blocks (dsk sample_txn) 46 = replicate BSIZE 0 \<and> dk_blocks (dsk t) 46 = replicate BSIZE 7"
proof -
  let ?s = "sample_txn\<lparr>lg := (lg sample_txn)\<lparr>lg_outstanding := 1, lg_committing := False\<rparr>\<rparr>"
  have "txn_ready 3 2 30 ?s" unfolding txn_ready_counters by (rule sample_txn_ready)
  then have "\<exists>t. end_op ?s = Ret () t \<and> (\<forall>b. outside 2 30 b \<longrightarrow> dk_blocks (dsk t) b = lblk ?s b)"
    using end_op_commits [of 3 2 30 ?s] by auto
  then show ?thesis using sample_txn_ready(2) sample_txn_ready(3) [of 46] by (auto simp: outside_def)
qed

text \<open>\<open>log_write\<close> of a buffer inside an operation records its block once, pins it if it was not
  recorded before, and changes no contents; the recorded blocks stay distinct.\<close>

lemma log_write_records:
  assumes "quiet p s" "bc_ok s" "holds_block (bufs s) b c" "bref s c + 1 < 2 ^ 32" "\<not> log_full (lg s)" "1 \<le> lg_outstanding (lg s)"
    "0 \<le> lh_n (lg_lh (lg s))" "distinct (logged (lg_lh (lg s)))"
  shows "\<exists>t. log_write b s = Ret () t \<and> quiet p t \<and> bc_ok t \<and> dsk t = dsk s \<and> lblk t = lblk s \<and> distinct (logged (lg_lh (lg t))) \<and>
    set (logged (lg_lh (lg t))) = insert c (set (logged (lg_lh (lg s)))) \<and>
    bref t c = (if c \<in> set (logged (lg_lh (lg s))) then bref s c else bref s c + 1)"
proof -
  from log_write_ok [OF assms(1-7)] obtain t where t: "log_write b s = Ret () t" "quiet p t" "bc_ok t" "dsk t = dsk s" "lblk t = lblk s"
    "lg t = (lg s)\<lparr>lg_lh := record_block c (lg_lh (lg s))\<rparr>"
    "bref t = (if c \<in> set (logged (lg_lh (lg s))) then bref s else (bref s)(c := bref s c + 1))" by blast
  have "distinct (logged (lg_lh (lg t)))" "set (logged (lg_lh (lg t))) = insert c (set (logged (lg_lh (lg s))))"
    using assms(8) by (auto simp: t(6) logged_record [OF assms(7)])
  then show ?thesis using t by (intro exI [of _ t]) simp
qed

end
