(* ===== verification/Fs.thy ===== *)
theory Fs
  imports Log_Ops Vm
begin

text \<open>
  \<^verbatim>\<open>kernel/fs.c\<close>: blocks, inodes, directories and path names on top of the log and the buffer
  cache. An inode pointer is an index into the inode table; \<open>None\<close> is the null pointer. The fields the
  C structures declare \<open>short\<close> are 16-bit words. Messages the code prints are not part of the state.
\<close>

subsection \<open>On-disk format (fs.h, stat.h) and the inode table\<close>

definition ROOTINO :: nat where "ROOTINO = 1"
definition FSMAGIC :: nat where "FSMAGIC = 0x10203040"
definition NDIRECT :: nat where "NDIRECT = 12"
definition NINDIRECT :: nat where "NINDIRECT = BSIZE div 4"
definition MAXFILE :: nat where "MAXFILE = NDIRECT + NINDIRECT"
definition IPB :: nat where "IPB = BSIZE div 64"
definition BPB :: nat where "BPB = BSIZE * 8"
definition DIRSIZ :: nat where "DIRSIZ = 14"
definition NINODE :: nat where "NINODE = 50"

definition T_DIR :: "16 word" where "T_DIR = 1"
definition T_FILE :: "16 word" where "T_FILE = 2"
definition T_DEVICE :: "16 word" where "T_DEVICE = 3"

definition IBLOCK :: "nat \<Rightarrow> superblock \<Rightarrow> nat" where "IBLOCK i sb = i div IPB + sb_inodestart sb"
definition BBLOCK :: "nat \<Rightarrow> superblock \<Rightarrow> nat" where "BBLOCK b sb = b div BPB + sb_bmapstart sb"

record dinode =
  di_type :: "16 word"
  di_major :: "16 word"
  di_minor :: "16 word"
  di_nlink :: "16 word"
  di_size :: nat
  di_addrs :: "nat \<Rightarrow> nat"

definition dinode_get :: "u8 list \<Rightarrow> nat \<Rightarrow> dinode" where
  "dinode_get d off = \<lparr>di_type = get16 d off, di_major = get16 d (off + 2), di_minor = get16 d (off + 4), di_nlink = get16 d (off + 6),
     di_size = unat (get32 d (off + 8)), di_addrs = (\<lambda>i. unat (get32 d (off + 12 + 4 * i)))\<rparr>"

definition dinode_bytes :: "dinode \<Rightarrow> u8 list" where
  "dinode_bytes x = le_bytes 2 (di_type x) @ le_bytes 2 (di_major x) @ le_bytes 2 (di_minor x) @ le_bytes 2 (di_nlink x) @
     le_bytes 4 (of_nat (di_size x) :: u32) @ concat (map (\<lambda>i. le_bytes 4 (of_nat (di_addrs x i) :: u32)) [0..<NDIRECT + 1])"

definition dinode_put :: "dinode \<Rightarrow> nat \<Rightarrow> u8 list \<Rightarrow> u8 list" where
  "dinode_put x off d = put_bytes d off (dinode_bytes x)"

definition dinode_off :: "nat \<Rightarrow> nat" where
  "dinode_off inum = inum mod IPB * 64"

record inode =
  i_dev :: nat
  i_inum :: nat
  i_ref :: int
  i_valid :: bool
  i_type :: "16 word"
  i_major :: "16 word"
  i_minor :: "16 word"
  i_nlink :: "16 word"
  i_size :: nat
  i_addrs :: "nat \<Rightarrow> nat"

record fs_state = log_state +
  sb :: superblock
  itable :: "nat \<Rightarrow> inode"

definition upd_inode :: "nat \<Rightarrow> (inode \<Rightarrow> inode) \<Rightarrow> ('a fs_state_scheme, unit) kern" where
  "upd_inode ip f = modf (\<lambda>s. s\<lparr>itable := (itable s)(ip := f (itable s ip))\<rparr>)"

abbreviation geti :: "nat \<Rightarrow> (inode \<Rightarrow> 'b) \<Rightarrow> ('a fs_state_scheme, 'b) kern" where
  "geti ip f \<equiv> gets (\<lambda>s. f (itable s ip))"

subsection \<open>Superblock and blocks\<close>

definition sb_get :: "u8 list \<Rightarrow> superblock" where
  "sb_get d = \<lparr>sb_magic = unat (get32 d 0), sb_size = unat (get32 d 4), sb_nblocks = unat (get32 d 8), sb_ninodes = unat (get32 d 12),
     sb_nlog = unat (get32 d 16), sb_logstart = unat (get32 d 20), sb_inodestart = unat (get32 d 24), sb_bmapstart = unat (get32 d 28)\<rparr>"

definition readsb :: "nat \<Rightarrow> ('a fs_state_scheme, unit) kern" where
  "readsb dev =
     bnd (bread dev 1) (\<lambda>bp.
     bnd (buf_data bp) (\<lambda>d.
     bnd (modf (\<lambda>s. s\<lparr>sb := sb_get d\<rparr>)) (\<lambda>_.
     brelse bp)))"

definition fsinit :: "nat \<Rightarrow> ('a fs_state_scheme, unit) kern" where
  "fsinit dev =
     bnd (readsb dev) (\<lambda>_.
     bnd (gets sb) (\<lambda>x.
     if sb_magic x \<noteq> FSMAGIC then panic ''invalid file system''
     else initlog dev x))"

definition bzero :: "nat \<Rightarrow> nat \<Rightarrow> ('a fs_state_scheme, unit) kern" where
  "bzero dev bno =
     bnd (bread dev bno) (\<lambda>bp.
     bnd (bset bp (\<lambda>_. replicate BSIZE 0)) (\<lambda>_.
     bnd (log_write bp) (\<lambda>_.
     brelse bp)))"

text \<open>A bit of the free map, and the starts \<open>0, BPB, 2 * BPB, ...\<close> of the ranges one map block covers.\<close>

definition map_bit :: "u8 list \<Rightarrow> nat \<Rightarrow> bool" where
  "map_bit d bi = (d ! (bi div 8) AND push_bit (bi mod 8) 1 \<noteq> 0)"

definition map_set :: "nat \<Rightarrow> u8 list \<Rightarrow> u8 list" where
  "map_set bi d = d[bi div 8 := d ! (bi div 8) OR push_bit (bi mod 8) 1]"

definition map_clear :: "nat \<Rightarrow> u8 list \<Rightarrow> u8 list" where
  "map_clear bi d = d[bi div 8 := d ! (bi div 8) AND NOT (push_bit (bi mod 8) 1)]"

definition map_starts :: "nat \<Rightarrow> nat list" where
  "map_starts sz = map (\<lambda>k. BPB * k) [0..<(sz + BPB - 1) div BPB]"

text \<open>\<open>balloc\<close> looks at one block of the map after the other.\<close>

definition balloc_map :: "nat \<Rightarrow> superblock \<Rightarrow> nat \<Rightarrow> ('a fs_state_scheme, nat option) kern" where
  "balloc_map dev x b =
     bnd (bread dev (BBLOCK b x)) (\<lambda>bp.
     bnd (buf_data bp) (\<lambda>d.
     case first_idx (\<lambda>bi. \<not> map_bit d bi) [0..<min BPB (sb_size x - b)] of
       Some bi \<Rightarrow>
         bnd (bset bp (map_set bi)) (\<lambda>_.
         bnd (log_write bp) (\<lambda>_.
         bnd (brelse bp) (\<lambda>_.
         bnd (bzero dev (b + bi)) (\<lambda>_.
         ret (Some (b + bi))))))
     | None \<Rightarrow> bnd (brelse bp) (\<lambda>_. ret None)))"

definition balloc :: "nat \<Rightarrow> ('a fs_state_scheme, nat) kern" where
  "balloc dev =
     bnd (gets sb) (\<lambda>x.
     bnd (for_find (map_starts (sb_size x)) (balloc_map dev x)) (\<lambda>r.
     ret (case r of Some b \<Rightarrow> b | None \<Rightarrow> 0)))"

definition bfree :: "nat \<Rightarrow> nat \<Rightarrow> ('a fs_state_scheme, unit) kern" where
  "bfree dev b =
     bnd (gets sb) (\<lambda>x.
     bnd (bread dev (BBLOCK b x)) (\<lambda>bp.
     bnd (buf_data bp) (\<lambda>d.
     if \<not> map_bit d (b mod BPB) then panic ''freeing free block'' else
     bnd (bset bp (map_clear (b mod BPB))) (\<lambda>_.
     bnd (log_write bp) (\<lambda>_.
     brelse bp)))))"

subsection \<open>Inodes\<close>

definition iinit :: "('a fs_state_scheme, unit) kern" where
  "iinit =
     bnd (initlock L_itable ''itable'') (\<lambda>_.
     for_each [0..<NINODE] (\<lambda>i. initsleeplock (S_inode i) ''inode''))"

definition iget :: "nat \<Rightarrow> nat \<Rightarrow> ('a fs_state_scheme, nat) kern" where
  "iget dev inum =
     bnd (acquire L_itable) (\<lambda>_.
     bnd (gets itable) (\<lambda>T.
     case first_idx (\<lambda>i. 0 < i_ref (T i) \<and> i_dev (T i) = dev \<and> i_inum (T i) = inum) [0..<NINODE] of
       Some ip \<Rightarrow>
         bnd (upd_inode ip (\<lambda>x. x\<lparr>i_ref := i_ref x + 1\<rparr>)) (\<lambda>_.
         bnd (release L_itable) (\<lambda>_.
         ret ip))
     | None \<Rightarrow>
         (case first_idx (\<lambda>i. i_ref (T i) = 0) [0..<NINODE] of
            None \<Rightarrow> panic ''iget: no inodes''
          | Some ip \<Rightarrow>
              bnd (upd_inode ip (\<lambda>x. x\<lparr>i_dev := dev, i_inum := inum, i_ref := 1, i_valid := False\<rparr>)) (\<lambda>_.
              bnd (release L_itable) (\<lambda>_.
              ret ip)))))"

definition blank_dinode :: "16 word \<Rightarrow> dinode" where
  "blank_dinode ty = \<lparr>di_type = ty, di_major = 0, di_minor = 0, di_nlink = 0, di_size = 0, di_addrs = (\<lambda>_. 0)\<rparr>"

definition ialloc :: "nat \<Rightarrow> 16 word \<Rightarrow> ('a fs_state_scheme, nat option) kern" where
  "ialloc dev ty =
     bnd (gets sb) (\<lambda>x.
     for_find [1..<sb_ninodes x] (\<lambda>inum.
       bnd (bread dev (IBLOCK inum x)) (\<lambda>bp.
       bnd (buf_data bp) (\<lambda>d.
       if di_type (dinode_get d (dinode_off inum)) = 0 then
         bnd (bset bp (dinode_put (blank_dinode ty) (dinode_off inum))) (\<lambda>_.
         bnd (log_write bp) (\<lambda>_.
         bnd (brelse bp) (\<lambda>_.
         bnd (iget dev inum) (\<lambda>ip.
         ret (Some ip)))))
       else bnd (brelse bp) (\<lambda>_. ret None)))))"

definition inode_dinode :: "inode \<Rightarrow> dinode" where
  "inode_dinode x = \<lparr>di_type = i_type x, di_major = i_major x, di_minor = i_minor x, di_nlink = i_nlink x, di_size = i_size x, di_addrs = i_addrs x\<rparr>"

definition iupdate :: "nat \<Rightarrow> ('a fs_state_scheme, unit) kern" where
  "iupdate ip =
     bnd (gets sb) (\<lambda>y.
     bnd (geti ip id) (\<lambda>x.
     bnd (bread (i_dev x) (IBLOCK (i_inum x) y)) (\<lambda>bp.
     bnd (bset bp (dinode_put (inode_dinode x) (dinode_off (i_inum x)))) (\<lambda>_.
     bnd (log_write bp) (\<lambda>_.
     brelse bp)))))"

definition idup :: "nat \<Rightarrow> ('a fs_state_scheme, nat) kern" where
  "idup ip =
     bnd (acquire L_itable) (\<lambda>_.
     bnd (upd_inode ip (\<lambda>x. x\<lparr>i_ref := i_ref x + 1\<rparr>)) (\<lambda>_.
     bnd (release L_itable) (\<lambda>_.
     ret ip)))"

text \<open>\<open>ilock\<close> after it has the sleep lock; a process that had to wait for the lock comes back to it
  through \<open>ilock_resume\<close>.\<close>

definition ilock_load :: "nat \<Rightarrow> ('a fs_state_scheme, unit) kern" where
  "ilock_load ip =
     bnd (geti ip id) (\<lambda>x.
     kwhen (\<not> i_valid x)
       (bnd (gets sb) (\<lambda>y.
        bnd (bread (i_dev x) (IBLOCK (i_inum x) y)) (\<lambda>bp.
        bnd (buf_data bp) (\<lambda>d.
        bnd (ret (dinode_get d (dinode_off (i_inum x)))) (\<lambda>dip.
        bnd (upd_inode ip (\<lambda>x. x\<lparr>i_type := di_type dip, i_major := di_major dip, i_minor := di_minor dip, i_nlink := di_nlink dip,
               i_size := di_size dip, i_addrs := (\<lambda>i. if i < NDIRECT + 1 then di_addrs dip i else i_addrs x i)\<rparr>)) (\<lambda>_.
        bnd (brelse bp) (\<lambda>_.
        bnd (upd_inode ip (\<lambda>x. x\<lparr>i_valid := True\<rparr>)) (\<lambda>_.
        if di_type dip = 0 then panic ''ilock: no type'' else ret ())))))))))"

definition ilock :: "nat option \<Rightarrow> ('a fs_state_scheme, unit) kern" where
  "ilock ipp =
     (case ipp of
        None \<Rightarrow> panic ''ilock''
      | Some ip \<Rightarrow>
          bnd (geti ip i_ref) (\<lambda>r.
          if r < 1 then panic ''ilock'' else
          bnd (acquiresleep (S_inode ip)) (\<lambda>_.
          ilock_load ip)))"

definition ilock_resume :: "nat \<Rightarrow> bool \<Rightarrow> nat \<Rightarrow> ('a fs_state_scheme, unit) kern" where
  "ilock_resume p intena ip = bnd (acquiresleep_resume p intena (S_inode ip)) (\<lambda>_. ilock_load ip)"

definition iunlock :: "nat option \<Rightarrow> ('a fs_state_scheme, unit) kern" where
  "iunlock ipp =
     (case ipp of
        None \<Rightarrow> panic ''iunlock''
      | Some ip \<Rightarrow>
          bnd (holdingsleep (S_inode ip)) (\<lambda>h.
          bnd (geti ip i_ref) (\<lambda>r.
          if \<not> h \<or> r < 1 then panic ''iunlock'' else
          releasesleep (S_inode ip))))"

subsection \<open>The blocks of a file\<close>

definition bmap_indirect :: "nat \<Rightarrow> nat \<Rightarrow> nat \<Rightarrow> ('a fs_state_scheme, nat) kern" where
  "bmap_indirect dev addr bn =
     bnd (bread dev addr) (\<lambda>bp.
     bnd (buf_data bp) (\<lambda>d.
     bnd (if get32 d (4 * bn) = 0 then
            bnd (balloc dev) (\<lambda>a.
            bnd (kwhen (a \<noteq> 0)
                   (bnd (bset bp (\<lambda>d. put32 d (4 * bn) (of_nat a))) (\<lambda>_.
                    log_write bp))) (\<lambda>_.
            ret a))
          else ret (unat (get32 d (4 * bn)))) (\<lambda>a.
     bnd (brelse bp) (\<lambda>_.
     ret a))))"

text \<open>An address slot of the inode, allocating a block when it is empty; \<open>0\<close> when the disk is full.\<close>

definition addr_slot :: "nat \<Rightarrow> nat \<Rightarrow> ('a fs_state_scheme, nat) kern" where
  "addr_slot ip k =
     bnd (geti ip id) (\<lambda>x.
     if i_addrs x k = 0 then
       bnd (balloc (i_dev x)) (\<lambda>a.
       if a = 0 then ret 0 else
       bnd (upd_inode ip (\<lambda>x. x\<lparr>i_addrs := (i_addrs x)(k := a)\<rparr>)) (\<lambda>_.
       ret a))
     else ret (i_addrs x k))"

definition bmap :: "nat \<Rightarrow> nat \<Rightarrow> ('a fs_state_scheme, nat) kern" where
  "bmap ip bn =
     (if bn < NDIRECT then addr_slot ip bn
      else if bn - NDIRECT < NINDIRECT then
        bnd (addr_slot ip NDIRECT) (\<lambda>addr.
        if addr = 0 then ret 0 else
        bnd (geti ip i_dev) (\<lambda>dev.
        bmap_indirect dev addr (bn - NDIRECT)))
      else panic ''bmap: out of range'')"

definition itrunc_direct :: "nat \<Rightarrow> nat \<Rightarrow> ('a fs_state_scheme, unit) kern" where
  "itrunc_direct ip i =
     bnd (geti ip id) (\<lambda>x.
     kwhen (i_addrs x i \<noteq> 0)
       (bnd (bfree (i_dev x) (i_addrs x i)) (\<lambda>_.
        upd_inode ip (\<lambda>x. x\<lparr>i_addrs := (i_addrs x)(i := 0)\<rparr>))))"

definition itrunc_indirect :: "nat \<Rightarrow> ('a fs_state_scheme, unit) kern" where
  "itrunc_indirect ip =
     bnd (geti ip id) (\<lambda>x.
     kwhen (i_addrs x NDIRECT \<noteq> 0)
       (bnd (bread (i_dev x) (i_addrs x NDIRECT)) (\<lambda>bp.
        bnd (buf_data bp) (\<lambda>d.
        bnd (for_each [0..<NINDIRECT] (\<lambda>j. kwhen (get32 d (4 * j) \<noteq> 0) (bfree (i_dev x) (unat (get32 d (4 * j)))))) (\<lambda>_.
        bnd (brelse bp) (\<lambda>_.
        bnd (bfree (i_dev x) (i_addrs x NDIRECT)) (\<lambda>_.
        upd_inode ip (\<lambda>x. x\<lparr>i_addrs := (i_addrs x)(NDIRECT := 0)\<rparr>))))))))"

definition itrunc :: "nat \<Rightarrow> ('a fs_state_scheme, unit) kern" where
  "itrunc ip =
     bnd (for_each [0..<NDIRECT] (itrunc_direct ip)) (\<lambda>_.
     bnd (itrunc_indirect ip) (\<lambda>_.
     bnd (upd_inode ip (\<lambda>x. x\<lparr>i_size := 0\<rparr>)) (\<lambda>_.
     iupdate ip)))"

text \<open>The part of \<open>iput\<close> that frees an inode without links; it starts and ends with the table locked.\<close>

definition iput_free :: "nat \<Rightarrow> ('a fs_state_scheme, unit) kern" where
  "iput_free ip =
     bnd (acquiresleep (S_inode ip)) (\<lambda>_.
     bnd (release L_itable) (\<lambda>_.
     bnd (itrunc ip) (\<lambda>_.
     bnd (upd_inode ip (\<lambda>x. x\<lparr>i_type := 0\<rparr>)) (\<lambda>_.
     bnd (iupdate ip) (\<lambda>_.
     bnd (upd_inode ip (\<lambda>x. x\<lparr>i_valid := False\<rparr>)) (\<lambda>_.
     bnd (releasesleep (S_inode ip)) (\<lambda>_.
     acquire L_itable)))))))"

definition iput :: "nat \<Rightarrow> ('a fs_state_scheme, unit) kern" where
  "iput ip =
     bnd (acquire L_itable) (\<lambda>_.
     bnd (geti ip id) (\<lambda>x.
     bnd (kwhen (i_ref x = 1 \<and> i_valid x \<and> i_nlink x = 0) (iput_free ip)) (\<lambda>_.
     bnd (upd_inode ip (\<lambda>x. x\<lparr>i_ref := i_ref x - 1\<rparr>)) (\<lambda>_.
     release L_itable))))"

definition iunlockput :: "nat \<Rightarrow> ('a fs_state_scheme, unit) kern" where
  "iunlockput ip = bnd (iunlock (Some ip)) (\<lambda>_. iput ip)"

record stat =
  st_dev :: nat
  st_ino :: nat
  st_type :: "16 word"
  st_nlink :: "16 word"
  st_size :: nat

definition stati :: "nat \<Rightarrow> ('a fs_state_scheme, stat) kern" where
  "stati ip = geti ip (\<lambda>x. \<lparr>st_dev = i_dev x, st_ino = i_inum x, st_type = i_type x, st_nlink = i_nlink x, st_size = i_size x\<rparr>)"

subsection \<open>Copies to and from the caller (proc.c)\<close>

text \<open>Where \<open>readi\<close> puts its bytes: a user address, a kernel address (physical memory is mapped at
  itself), or a variable of the calling routine, whose bytes come back with the result. \<open>writei\<close> takes
  its bytes from a user address or from such a variable.\<close>

datatype place = User u64 | Kern u64 | Local
datatype origin = From_user u64 | From_local "u8 list"

primrec place_add :: "place \<Rightarrow> nat \<Rightarrow> place" where
  "place_add (User a) n = User (a + of_nat n)"
| "place_add (Kern a) n = Kern (a + of_nat n)"
| "place_add Local n = Local"

primrec origin_add :: "origin \<Rightarrow> nat \<Rightarrow> origin" where
  "origin_add (From_user a) n = From_user (a + of_nat n)"
| "origin_add (From_local bs) n = From_local (drop n bs)"

definition either_copyout :: "place \<Rightarrow> u8 list \<Rightarrow> ('a kmem_state_scheme, int) kern" where
  "either_copyout dst src =
     (case dst of
        User va \<Rightarrow> bnd myproc_deref (\<lambda>p. bnd (gets (\<lambda>s. p_pagetable (procs s p))) (\<lambda>pt. copyout pt va src))
      | Kern pa \<Rightarrow> bnd myproc (\<lambda>_. bnd (modf (\<lambda>s. s\<lparr>mem := wr_bytes (mem s) pa src\<rparr>)) (\<lambda>_. ret 0))
      | Local \<Rightarrow> bnd myproc (\<lambda>_. ret 0))"

definition either_copyin :: "origin \<Rightarrow> nat \<Rightarrow> ('a kmem_state_scheme, int \<times> u8 list) kern" where
  "either_copyin src len =
     (case src of
        From_user va \<Rightarrow> bnd myproc_deref (\<lambda>p. bnd (gets (\<lambda>s. p_pagetable (procs s p))) (\<lambda>pt. copyin pt va len))
      | From_local bs \<Rightarrow> bnd myproc (\<lambda>_. ret (0, take len bs)))"

subsection \<open>Reading and writing a file\<close>

definition io_chunk :: "nat \<Rightarrow> nat \<Rightarrow> nat" where
  "io_chunk left off = min left (BSIZE - off mod BSIZE)"

lemma io_chunk_pos [simp]: "0 < left \<Longrightarrow> 0 < io_chunk left off"
  by (simp add: io_chunk_def BSIZE_def)

text \<open>The loop of \<open>readi\<close>, with \<open>left\<close> for \<open>n - tot\<close>; the bytes for a \<open>Local\<close> destination accumulate in
  \<open>acc\<close>.\<close>

function readi_loop :: "nat \<Rightarrow> place \<Rightarrow> nat \<Rightarrow> nat \<Rightarrow> nat \<Rightarrow> u8 list \<Rightarrow> ('a fs_state_scheme, int \<times> u8 list) kern" where
  "readi_loop ip dst off left tot acc s =
     (if left = 0 then Ret (int tot, acc) s
      else bnd (bmap ip (off div BSIZE)) (\<lambda>addr t.
        if addr = 0 then Ret (int tot, acc) t
        else bnd (bread (i_dev (itable t ip)) addr) (\<lambda>bp t.
          let m = io_chunk left off; bs = sub_bytes (b_data (bufs t bp)) (off mod BSIZE) m in
          bnd (either_copyout dst bs) (\<lambda>r t.
            if r = -1 then bnd (brelse bp) (\<lambda>_. ret (-1, acc)) t
            else bnd (brelse bp) (\<lambda>_ t. readi_loop ip (place_add dst m) (off + m) (left - m) (tot + m) (acc @ bs) t) t) t) t) s)"
  by pat_completeness auto
termination
  by (relation "measure (\<lambda>(_, _, _, left, _). left)") auto

declare readi_loop.simps [simp del]

definition readi :: "nat \<Rightarrow> place \<Rightarrow> nat \<Rightarrow> nat \<Rightarrow> ('a fs_state_scheme, int \<times> u8 list) kern" where
  "readi ip dst off n =
     bnd (geti ip i_size) (\<lambda>sz.
     if off > sz \<or> (off + n) mod 2 ^ 32 < off then ret (0, [])
     else readi_loop ip dst off (if off + n > sz then sz - off else n) 0 [])"

function writei_loop :: "nat \<Rightarrow> origin \<Rightarrow> nat \<Rightarrow> nat \<Rightarrow> nat \<Rightarrow> ('a fs_state_scheme, nat \<times> nat) kern" where
  "writei_loop ip src off left tot s =
     (if left = 0 then Ret (tot, off) s
      else bnd (bmap ip (off div BSIZE)) (\<lambda>addr t.
        if addr = 0 then Ret (tot, off) t
        else bnd (bread (i_dev (itable t ip)) addr) (\<lambda>bp t.
          let m = io_chunk left off in
          bnd (either_copyin src m) (\<lambda>(r, bs) t.
          bnd (bset bp (\<lambda>d. put_bytes d (off mod BSIZE) bs)) (\<lambda>_ t.
            if r = -1 then bnd (brelse bp) (\<lambda>_. ret (tot, off)) t
            else bnd (log_write bp) (\<lambda>_ t.
                 bnd (brelse bp) (\<lambda>_ t. writei_loop ip (origin_add src m) (off + m) (left - m) (tot + m) t) t) t) t) t) t) s)"
  by pat_completeness auto
termination
  by (relation "measure (\<lambda>(_, _, _, left, _). left)") auto

declare writei_loop.simps [simp del]

definition writei :: "nat \<Rightarrow> origin \<Rightarrow> nat \<Rightarrow> nat \<Rightarrow> ('a fs_state_scheme, int) kern" where
  "writei ip src off n =
     bnd (geti ip i_size) (\<lambda>sz.
     if off > sz \<or> (off + n) mod 2 ^ 32 < off then ret (-1)
     else if (off + n) mod 2 ^ 32 > MAXFILE * BSIZE then ret (-1)
     else
       bnd (writei_loop ip src off n 0) (\<lambda>(tot, off).
       bnd (geti ip i_size) (\<lambda>sz.
       bnd (kwhen (off > sz) (upd_inode ip (\<lambda>x. x\<lparr>i_size := off\<rparr>))) (\<lambda>_.
       bnd (iupdate ip) (\<lambda>_.
       ret (int tot))))))"

subsection \<open>Directories\<close>

text \<open>A byte array used as a C string: its bytes, then NULs (for an array of \<open>DIRSIZ\<close> bytes the
  comparisons stop at \<open>DIRSIZ\<close>).\<close>

definition str_ptr :: "u8 list \<Rightarrow> cptr" where
  "str_ptr bs = (\<lambda>i. if i < length bs then bs ! i else 0)"

definition namecmp :: "u8 list \<Rightarrow> u8 list \<Rightarrow> int" where
  "namecmp s t = strncmp (str_ptr s) (str_ptr t) DIRSIZ"

definition de_inum :: "u8 list \<Rightarrow> nat" where
  "de_inum de = unat (get16 de 0)"

definition de_name :: "u8 list \<Rightarrow> u8 list" where
  "de_name de = sub_bytes de 2 DIRSIZ"

definition dirent_size :: nat where "dirent_size = 16"

definition dir_offs :: "nat \<Rightarrow> nat list" where
  "dir_offs sz = map (\<lambda>k. dirent_size * k) [0..<(sz + dirent_size - 1) div dirent_size]"

text \<open>\<open>dirlookup\<close> gives the inode with the offset of its entry (\<open>*poff\<close>).\<close>

definition dirlookup :: "nat \<Rightarrow> u8 list \<Rightarrow> ('a fs_state_scheme, (nat \<times> nat) option) kern" where
  "dirlookup dp name =
     bnd (geti dp id) (\<lambda>x.
     if i_type x \<noteq> T_DIR then panic ''dirlookup not DIR'' else
     for_find (dir_offs (i_size x)) (\<lambda>off.
       bnd (readi dp Local off dirent_size) (\<lambda>(r, de).
       if r \<noteq> int dirent_size then panic ''dirlookup read'' else
       if de_inum de = 0 then ret None else
       if namecmp name (de_name de) = 0 then
         bnd (iget (i_dev x) (de_inum de)) (\<lambda>ip. ret (Some (ip, off)))
       else ret None)))"

definition dirent_bytes :: "nat \<Rightarrow> u8 list \<Rightarrow> u8 list" where
  "dirent_bytes inum name = le_bytes 2 (of_nat inum :: 16 word) @ map (strncpy (\<lambda>_. 0) (str_ptr name) (int DIRSIZ)) [0..<DIRSIZ]"

definition dirlink :: "nat \<Rightarrow> u8 list \<Rightarrow> nat \<Rightarrow> ('a fs_state_scheme, int) kern" where
  "dirlink dp name inum =
     bnd (dirlookup dp name) (\<lambda>r.
     case r of
       Some (ip, _) \<Rightarrow> bnd (iput ip) (\<lambda>_. ret (-1))
     | None \<Rightarrow>
         bnd (geti dp i_size) (\<lambda>sz.
         bnd (for_find (dir_offs sz) (\<lambda>off.
           bnd (readi dp Local off dirent_size) (\<lambda>(r, de).
           if r \<noteq> int dirent_size then panic ''dirlink read'' else
           if de_inum de = 0 then ret (Some off) else ret None))) (\<lambda>r.
         bnd (writei dp (From_local (dirent_bytes inum name)) (case r of Some off \<Rightarrow> off | None \<Rightarrow> length (dir_offs sz) * dirent_size) dirent_size) (\<lambda>r.
         if r \<noteq> int dirent_size then ret (-1) else ret 0))))"

subsection \<open>Paths\<close>

definition slash :: u8 where "slash = 47"

text \<open>A path is the bytes of a C string, without its NUL; \<open>name\<close> is the caller's array of \<open>DIRSIZ\<close> bytes.\<close>

definition skipelem :: "u8 list \<Rightarrow> u8 list \<Rightarrow> (u8 list \<times> u8 list) option" where
  "skipelem path name =
     (let path = dropWhile (\<lambda>c. c = slash) path in
      if path = [] then None
      else
        let elem = takeWhile (\<lambda>c. c \<noteq> slash) path;
            len = length elem;
            rest = drop len path;
            name = (if len \<ge> DIRSIZ then put_bytes name 0 (take DIRSIZ elem) else put_bytes name 0 (elem @ [0]))
        in Some (dropWhile (\<lambda>c. c = slash) rest, name))"

lemma skipelem_shorter: "skipelem path name = Some (rest, name') \<Longrightarrow> length rest < length path"
proof -
  assume a: "skipelem path name = Some (rest, name')"
  let ?p = "dropWhile (\<lambda>c. c = slash) path"
  have ne: "?p \<noteq> []" using a by (auto simp: skipelem_def Let_def split: if_splits)
  let ?e = "takeWhile (\<lambda>c. c \<noteq> slash) ?p"
  have "hd ?p \<noteq> slash" using hd_dropWhile [OF ne] by simp
  then have "0 < length ?e" using ne by (cases ?p) auto
  moreover have "rest = dropWhile (\<lambda>c. c = slash) (drop (length ?e) ?p)" using a by (auto simp: skipelem_def Let_def split: if_splits)
  then have "length rest \<le> length ?p - length ?e" using length_dropWhile_le [of "\<lambda>c. c = slash" "drop (length ?e) ?p"] by simp
  moreover have "length ?p \<le> length path" by (rule length_dropWhile_le)
  moreover have "0 < length ?p" using ne by simp
  ultimately show ?thesis by linarith
qed

text \<open>The loop of \<open>namex\<close>. The value is the inode found, if any, with the contents of \<open>name\<close>.\<close>

function namex_loop :: "nat \<Rightarrow> bool \<Rightarrow> u8 list \<Rightarrow> u8 list \<Rightarrow> ('a fs_state_scheme, nat option \<times> u8 list) kern" where
  "namex_loop ip nameiparent path name s =
     (case skipelem path name of
        None \<Rightarrow>
          if nameiparent then bnd (iput ip) (\<lambda>_. ret (None, name)) s
          else Ret (Some ip, name) s
      | Some (path', name') \<Rightarrow>
          bnd (ilock (Some ip)) (\<lambda>_ t.
            if i_type (itable t ip) \<noteq> T_DIR then bnd (iunlockput ip) (\<lambda>_. ret (None, name')) t
            else if nameiparent \<and> path' = [] then bnd (iunlock (Some ip)) (\<lambda>_. ret (Some ip, name')) t
            else bnd (dirlookup ip name') (\<lambda>r t.
              case r of
                None \<Rightarrow> bnd (iunlockput ip) (\<lambda>_. ret (None, name')) t
              | Some nxt \<Rightarrow> bnd (iunlockput ip) (\<lambda>_ t. namex_loop (fst nxt) nameiparent path' name' t) t) t) s)"
  by pat_completeness auto
termination
  by (relation "measure (\<lambda>(_, _, path, _). length path)") (auto dest: skipelem_shorter)

declare namex_loop.simps [simp del]

definition namex :: "u8 list \<Rightarrow> bool \<Rightarrow> u8 list \<Rightarrow> ('a fs_state_scheme, nat option \<times> u8 list) kern" where
  "namex path nameiparent name =
     bnd (if path \<noteq> [] \<and> hd path = slash then iget ROOTDEV ROOTINO
          else bnd myproc_deref (\<lambda>p.
               bnd (gets (\<lambda>s. p_cwd (procs s p))) (\<lambda>c.
               case c of None \<Rightarrow> panic ''kerneltrap'' | Some ip \<Rightarrow> idup ip))) (\<lambda>ip.
     namex_loop ip nameiparent path name)"

definition namei :: "u8 list \<Rightarrow> ('a fs_state_scheme, nat option) kern" where
  "namei path = bnd (namex path False (replicate DIRSIZ 0)) (\<lambda>r. ret (fst r))"

definition nameiparent :: "u8 list \<Rightarrow> u8 list \<Rightarrow> ('a fs_state_scheme, nat option \<times> u8 list) kern" where
  "nameiparent path name = namex path True name"

end
