(* ===== verification/Ring_Buffer.thy ===== *)
theory Ring_Buffer
  imports Xv6_Prelude
begin

text \<open>
  Byte queues as the kernel keeps them: an array of \<open>N\<close> bytes and two free-running unsigned counters,
  the number of bytes put in and the number taken out, used modulo \<open>N\<close>. Pipes, the console input
  and the UART output are such queues. Since \<open>N\<close> divides the range of the counters, the queue keeps
  working when they wrap around; the locale \<open>ring_buffer\<close> proves that once.
\<close>

definition ring_list :: "nat \<Rightarrow> (nat \<Rightarrow> u8) \<Rightarrow> 'w::len word \<Rightarrow> 'w word \<Rightarrow> u8 list" where
  "ring_list N f r w = map (\<lambda>i. f (unat (r + of_nat i) mod N)) [0..<unat (w - r)]"

lemma length_ring_list [simp]: "length (ring_list N f r w) = unat (w - r)"
  by (simp add: ring_list_def)

lemma ring_list_empty [simp]: "ring_list N f r r = []"
  by (simp add: ring_list_def)

lemma ring_list_eq_Nil: "ring_list N f r w = [] \<longleftrightarrow> w = r"
proof -
  have "unat (w - r) = 0 \<longleftrightarrow> w = r" by (simp add: unat_eq_zero)
  then show ?thesis by (simp add: ring_list_def)
qed

lemma unat_add_mod: "N dvd 2 ^ LENGTH('w) \<Longrightarrow> unat (r + of_nat i :: 'w::len word) mod N = (unat r + i) mod N"
  by (simp add: unat_word_ariths unat_of_nat mod_mod_cancel mod_add_right_eq)

lemma pred_counter:
  fixes x y :: "'w::len word"
  assumes "0 < unat x" "y = of_nat (unat x - 1)"
  shows "unat x = Suc (unat y)"
proof -
  have "unat x - 1 < 2 ^ LENGTH('w)" using unat_bound [of x] by linarith
  then show ?thesis using assms(1) unfolding assms(2) unat_of_nat by simp
qed

locale ring_buffer =
  fixes N :: nat and W :: "'w::len itself"
  assumes size_pos: "0 < N" and wraps: "N dvd 2 ^ LENGTH('w)"
begin

lemma size_le: "N \<le> 2 ^ LENGTH('w)"
  using wraps by (rule dvd_imp_le) simp

text \<open>Two counters less than \<open>N\<close> apart name different slots.\<close>

lemma slots_differ:
  fixes r w :: "'w word"
  assumes "i < unat (w - r)" "unat (w - r) < N"
  shows "unat (r + of_nat i) mod N \<noteq> unat w mod N"
proof -
  let ?n = "unat (w - r)"
  have w: "w = r + of_nat ?n" by simp
  have "(unat r + i) mod N \<noteq> (unat r + ?n) mod N"
  proof
    assume "(unat r + i) mod N = (unat r + ?n) mod N"
    then have "N dvd (unat r + ?n) - (unat r + i)" by (metis mod_eq_dvd_iff_nat add_le_cancel_left assms(1) less_imp_le)
    then have "N dvd ?n - i" by simp
    moreover have "0 < ?n - i" "?n - i < N" using assms by simp_all
    ultimately show False using dvd_imp_le by fastforce
  qed
  then show ?thesis using unat_add_mod [OF wraps, of r i] unat_add_mod [OF wraps, of r ?n] w by simp
qed

lemma push:
  fixes r w :: "'w word"
  assumes "unat (w - r) < N" "N < 2 ^ LENGTH('w)"
  shows "ring_list N (f(unat w mod N := c)) r (w + 1) = ring_list N f r w @ [c]"
proof -
  let ?n = "unat (w - r)"
  have "w + 1 - r = of_nat (Suc ?n)" by (simp add: algebra_simps)
  then have "unat (w + 1 - r) = unat (of_nat (Suc ?n) :: 'w word)" by (rule arg_cong)
  then have n: "unat (w + 1 - r) = Suc ?n" using assms by (simp only: unat_of_nat) simp
  have same: "unat (r + of_nat i) mod N \<noteq> unat w mod N" if "i < ?n" for i by (rule slots_differ [OF that assms(1)])
  have last: "unat (r + of_nat ?n) mod N = unat w mod N" by simp
  show ?thesis unfolding ring_list_def n using same last by simp
qed

lemma pop:
  fixes r w :: "'w word"
  assumes "w \<noteq> r"
  shows "ring_list N f r w = f (unat r mod N) # ring_list N f (r + 1) w"
proof -
  let ?n = "unat (w - r)"
  have pos: "0 < ?n" using assms by (simp add: unat_gt_0)
  have "w - (r + 1) = of_nat (?n - 1)" using pos by (simp add: of_nat_diff algebra_simps)
  then have n: "?n = Suc (unat (w - (r + 1)))" by (rule pred_counter [OF pos])
  have "map (\<lambda>i. f (unat (r + of_nat i) mod N)) [0..<Suc m] = f (unat r mod N) # map (\<lambda>i. f (unat (r + 1 + of_nat i) mod N)) [0..<m]" for m
    by (simp add: upt_conv_Cons map_Suc_upt [symmetric] add.assoc del: upt_Suc map_Suc_upt)
  from this [of "unat (w - (r + 1))"] show ?thesis unfolding ring_list_def n .
qed

lemma unpush:
  fixes r w :: "'w word"
  assumes "w \<noteq> r"
  shows "ring_list N f r w = ring_list N f r (w - 1) @ [f (unat (w - 1) mod N)]"
proof -
  let ?n = "unat (w - r)"
  have pos: "0 < ?n" using assms by (simp add: unat_gt_0)
  have "w - 1 - r = of_nat (?n - 1)" using pos by (simp add: of_nat_diff algebra_simps)
  then have n: "?n = Suc (unat (w - 1 - r))" by (rule pred_counter [OF pos])
  have "r + of_nat (unat (w - 1 - r)) = w - 1" by simp
  then show ?thesis unfolding ring_list_def n by simp
qed

end

text \<open>The three queues: pipes, console input, UART output.\<close>

interpretation pipe_ring: ring_buffer 512 "TYPE(32)"
  by unfold_locales simp_all

interpretation cons_ring: ring_buffer 128 "TYPE(32)"
  by unfold_locales simp_all

interpretation uart_ring: ring_buffer 32 "TYPE(64)"
  by unfold_locales simp_all

end
