(* ===== verification/Uart.thy ===== *)
theory Uart
  imports Fs Ring_Buffer
begin

text \<open>
  \<^verbatim>\<open>kernel/uart.c\<close>, the serial port with its transmit queue (its interrupt handler \<open>uartintr\<close> follows the
  console's, in \<open>Console\<close>), and \<open>consputc\<close> of \<^verbatim>\<open>kernel/console.c\<close>. The state record also holds the console's input queue.

  The UART is a device. Its state here is what the driver can see of it: \<open>ut_room\<close>, how many more
  bytes the transmit register takes before the line status register stops reporting it idle; \<open>ut_out\<close>, the
  bytes handed to it; \<open>ut_in\<close>, the bytes received and not read yet; and the values written to its
  configuration registers.
\<close>

subsection \<open>The serial port (uart.c)\<close>

definition UART_TX_BUF_SIZE :: nat where "UART_TX_BUF_SIZE = 32"

record uart =
  ut_buf :: "nat \<Rightarrow> u8"
  ut_w :: u64
  ut_r :: u64
  ut_room :: nat
  ut_out :: "u8 list"
  ut_in :: "u8 list"
  ut_regs :: "(nat \<times> u8) list"

definition INPUT_BUF_SIZE :: nat where "INPUT_BUF_SIZE = 128"

record cons =
  cn_buf :: "nat \<Rightarrow> u8"
  cn_r :: u32
  cn_w :: u32
  cn_e :: u32

text \<open>The functions that \<open>consoleinit\<close> puts into \<open>devsw\<close>.\<close>

datatype devfn = Consoleread | Consolewrite

record cons_state = fs_state +
  uart :: uart
  cons :: cons
  panicked :: bool
  pr_locking :: bool
  devsw :: "nat \<Rightarrow> devfn option \<times> devfn option"

definition upd_uart :: "(uart \<Rightarrow> uart) \<Rightarrow> ('a cons_state_scheme, unit) kern" where
  "upd_uart f = modf (\<lambda>s. s\<lparr>uart := f (uart s)\<rparr>)"

definition upd_cons :: "(cons \<Rightarrow> cons) \<Rightarrow> ('a cons_state_scheme, unit) kern" where
  "upd_cons f = modf (\<lambda>s. s\<lparr>cons := f (cons s)\<rparr>)"

definition WriteReg :: "nat \<Rightarrow> u8 \<Rightarrow> ('a cons_state_scheme, unit) kern" where
  "WriteReg reg v = upd_uart (\<lambda>u. u\<lparr>ut_regs := ut_regs u @ [(reg, v)]\<rparr>)"

definition WriteTHR :: "u8 \<Rightarrow> ('a cons_state_scheme, unit) kern" where
  "WriteTHR c = upd_uart (\<lambda>u. u\<lparr>ut_room := ut_room u - 1, ut_out := ut_out u @ [c]\<rparr>)"

definition uartinit :: "('a cons_state_scheme, unit) kern" where
  "uartinit =
     bnd (WriteReg 1 0) (\<lambda>_.
     bnd (WriteReg 3 (push_bit 7 1)) (\<lambda>_.
     bnd (WriteReg 0 3) (\<lambda>_.
     bnd (WriteReg 1 0) (\<lambda>_.
     bnd (WriteReg 3 3) (\<lambda>_.
     bnd (WriteReg 2 (push_bit 0 1 OR push_bit 1 3)) (\<lambda>_.
     bnd (WriteReg 1 (push_bit 1 1 OR push_bit 0 1)) (\<lambda>_.
     initlock L_uart ''uart'')))))))"

text \<open>The loop of \<open>uartstart\<close>, counting the bytes still queued (the lock keeps others from adding any).\<close>

primrec uartstart_loop :: "nat \<Rightarrow> ('a cons_state_scheme, unit) kern" where
  "uartstart_loop 0 = ret ()"
| "uartstart_loop (Suc n) =
     bnd (gets uart) (\<lambda>u.
     if ut_room u = 0 then ret () else
     bnd (upd_uart (\<lambda>u. u\<lparr>ut_r := ut_r u + 1\<rparr>)) (\<lambda>_.
     bnd (wakeup Ch_uart_tx_r) (\<lambda>_.
     bnd (WriteTHR (ut_buf u (unat (ut_r u) mod UART_TX_BUF_SIZE))) (\<lambda>_.
     uartstart_loop n))))"

definition uartstart :: "('a cons_state_scheme, unit) kern" where
  "uartstart = bnd (gets uart) (\<lambda>u. uartstart_loop (unat (ut_w u - ut_r u)))"

definition uartputc_loop :: "u8 \<Rightarrow> ('a cons_state_scheme, unit) kern" where
  "uartputc_loop c =
     bnd (gets uart) (\<lambda>u.
     if ut_w u = ut_r u + of_nat UART_TX_BUF_SIZE then sleep Ch_uart_tx_r L_uart
     else
       bnd (upd_uart (\<lambda>u. u\<lparr>ut_buf := (ut_buf u)(unat (ut_w u) mod UART_TX_BUF_SIZE := c), ut_w := ut_w u + 1\<rparr>)) (\<lambda>_.
       bnd uartstart (\<lambda>_.
       release L_uart)))"

definition uartputc :: "u8 \<Rightarrow> ('a cons_state_scheme, unit) kern" where
  "uartputc c =
     bnd (acquire L_uart) (\<lambda>_.
     bnd (gets panicked) (\<lambda>pk.
     if pk then (\<lambda>s. Spin) else uartputc_loop c))"

definition uartputc_resume :: "nat \<Rightarrow> bool \<Rightarrow> u8 \<Rightarrow> ('a cons_state_scheme, unit) kern" where
  "uartputc_resume p intena c = bnd (sleep_resume p intena L_uart) (\<lambda>_. uartputc_loop c)"

text \<open>The polling loop of \<open>uartputc_sync\<close>: nothing in the kernel makes the transmitter idle, so with no
  room the loop goes on until the device has.\<close>

definition uartputc_sync :: "u8 \<Rightarrow> ('a cons_state_scheme, unit) kern" where
  "uartputc_sync c =
     bnd push_off (\<lambda>_.
     bnd (gets panicked) (\<lambda>pk.
     if pk then (\<lambda>s. Spin) else
     bnd (gets (\<lambda>s. ut_room (uart s))) (\<lambda>room.
     if room = 0 then (\<lambda>s. Spin) else
     bnd (WriteTHR c) (\<lambda>_.
     pop_off))))"

definition uartgetc :: "('a cons_state_scheme, u8 option) kern" where
  "uartgetc =
     bnd (gets (\<lambda>s. ut_in (uart s))) (\<lambda>i.
     case i of
       [] \<Rightarrow> ret None
     | c # cs \<Rightarrow> bnd (upd_uart (\<lambda>u. u\<lparr>ut_in := cs\<rparr>)) (\<lambda>_. ret (Some c)))"

subsection \<open>Console output\<close>

datatype conschar = Char u8 | BACKSPACE

definition consputc :: "conschar \<Rightarrow> ('a cons_state_scheme, unit) kern" where
  "consputc c =
     (case c of
        BACKSPACE \<Rightarrow> bnd (uartputc_sync 8) (\<lambda>_. bnd (uartputc_sync 32) (\<lambda>_. uartputc_sync 8))
      | Char c \<Rightarrow> uartputc_sync c)"

end
