(* ===== verification/Printf.thy ===== *)
theory Printf
  imports Uart
begin

text \<open>
  \<^verbatim>\<open>kernel/printf.c\<close>: formatted output to the console, and \<open>procdump\<close> of \<^verbatim>\<open>kernel/proc.c\<close>.

  A format is the list of its bytes before the NUL; an argument is a 64-bit register or a string (the
  bytes before its NUL, or none for a null pointer). A store past the end of an array and a missing
  argument have no defined meaning in C; the model stops with \<open>undefined\<close> there. What
  \<open>panic\<close> prints is not recorded: it is the outcome \<open>Panic\<close>.
\<close>

definition undefined_behaviour :: "('s, 'a) kern" where
  "undefined_behaviour = panic ''undefined behaviour''"

datatype varg = Num u64 | Str "u8 list option"

definition digit :: "nat \<Rightarrow> u8" where
  "digit d = (if d < 10 then 48 + of_nat d else 87 + of_nat d)"

function printint_digits :: "nat \<Rightarrow> nat \<Rightarrow> u8 list" where
  "printint_digits base x = digit (x mod base) # (if base < 2 \<or> x div base = 0 then [] else printint_digits base (x div base))"
  by auto
termination by (relation "measure snd") (auto simp: div_greater_zero_iff intro!: div_less_dividend)

declare printint_digits.simps [simp del]

definition printint_buf :: "u64 \<Rightarrow> nat \<Rightarrow> bool \<Rightarrow> u8 list" where
  "printint_buf xx base sign =
     (let neg = (sign \<and> xx <s 0); x = (if neg then - xx else xx) in
      printint_digits base (unat x) @ (if neg then [45] else []))"

definition printint :: "u64 \<Rightarrow> nat \<Rightarrow> bool \<Rightarrow> ('a cons_state_scheme, unit) kern" where
  "printint xx base sign =
     (let buf = printint_buf xx base sign in
      if 16 < length buf then undefined_behaviour
      else for_each (rev buf) (\<lambda>c. consputc (Char c)))"

text \<open>The loop shifts the number left by four bits and prints its top digit each time.\<close>

primrec printptr_digits :: "nat \<Rightarrow> u64 \<Rightarrow> u8 list" where
  "printptr_digits 0 x = []"
| "printptr_digits (Suc n) x = digit (unat (drop_bit 60 x)) # printptr_digits n (push_bit 4 x)"

definition printptr :: "u64 \<Rightarrow> ('a cons_state_scheme, unit) kern" where
  "printptr x =
     bnd (consputc (Char 48)) (\<lambda>_.
     bnd (consputc (Char 120)) (\<lambda>_.
     for_each (printptr_digits 16 x) (\<lambda>c. consputc (Char c))))"

text \<open>What a conversion asks for, from the bytes after the percent sign, and how many of them beyond
  the first it takes.\<close>

datatype conv = Int32 nat bool | Int64 nat bool | Ptr | String | Percent | Stop | Unknown u8

definition conversion :: "u8 list \<Rightarrow> conv \<times> nat" where
  "conversion f =
     (let c0 = (case f of [] \<Rightarrow> 0 | c # _ \<Rightarrow> c);
          c1 = (if c0 \<noteq> 0 \<and> 1 < length f then f ! 1 else 0);
          c2 = (if c1 \<noteq> 0 \<and> 2 < length f then f ! 2 else 0) in
      if c0 = 100 then (Int32 10 True, 0)
      else if c0 = 108 \<and> c1 = 100 then (Int64 10 True, 1)
      else if c0 = 108 \<and> c1 = 108 \<and> c2 = 100 then (Int64 10 True, 2)
      else if c0 = 117 then (Int32 10 False, 0)
      else if c0 = 108 \<and> c1 = 117 then (Int64 10 False, 1)
      else if c0 = 108 \<and> c1 = 108 \<and> c2 = 117 then (Int64 10 False, 2)
      else if c0 = 120 then (Int32 16 False, 0)
      else if c0 = 108 \<and> c1 = 120 then (Int64 16 False, 1)
      else if c0 = 108 \<and> c1 = 108 \<and> c2 = 120 then (Int64 16 False, 2)
      else if c0 = 112 then (Ptr, 0)
      else if c0 = 115 then (String, 0)
      else if c0 = 37 then (Percent, 0)
      else if c0 = 0 then (Stop, 0)
      else (Unknown c0, 0))"

definition printf_arg :: "conv \<Rightarrow> varg list \<Rightarrow> ('a cons_state_scheme, varg list) kern" where
  "printf_arg d ap =
     (case d of
        Int32 base sign \<Rightarrow> (case ap of Num w # ap' \<Rightarrow> bnd (printint (scast (ucast w :: 32 word)) base sign) (\<lambda>_. ret ap') | _ \<Rightarrow> undefined_behaviour)
      | Int64 base sign \<Rightarrow> (case ap of Num w # ap' \<Rightarrow> bnd (printint w base sign) (\<lambda>_. ret ap') | _ \<Rightarrow> undefined_behaviour)
      | Ptr \<Rightarrow> (case ap of Num w # ap' \<Rightarrow> bnd (printptr w) (\<lambda>_. ret ap') | _ \<Rightarrow> undefined_behaviour)
      | String \<Rightarrow> (case ap of
            Str x # ap' \<Rightarrow>
              bnd (for_each (case x of None \<Rightarrow> map (\<lambda>c. of_nat (of_char c)) ''(null)'' | Some s \<Rightarrow> s) (\<lambda>c. consputc (Char c))) (\<lambda>_. ret ap')
          | _ \<Rightarrow> undefined_behaviour)
      | Percent \<Rightarrow> bnd (consputc (Char 37)) (\<lambda>_. ret ap)
      | Stop \<Rightarrow> ret ap
      | Unknown c0 \<Rightarrow> bnd (consputc (Char 37)) (\<lambda>_. bnd (consputc (Char c0)) (\<lambda>_. ret ap)))"

function printf_loop :: "u8 list \<Rightarrow> varg list \<Rightarrow> ('a cons_state_scheme, unit) kern" where
  "printf_loop [] ap s = ret () s"
| "printf_loop (cx # f) ap s =
     (if cx \<noteq> 37 then bnd (consputc (Char cx)) (\<lambda>_ t. printf_loop f ap t) s
      else case conversion f of
        (d, k) \<Rightarrow> if d = Stop then ret () s else bnd (printf_arg d ap) (\<lambda>ap' t. printf_loop (drop (Suc k) f) ap' t) s)"
  by pat_completeness auto
termination by (relation "measure (\<lambda>(f, _, _). length f)") auto

definition printf :: "u8 list \<Rightarrow> varg list \<Rightarrow> ('a cons_state_scheme, int) kern" where
  "printf fmt ap =
     bnd (gets pr_locking) (\<lambda>locking.
     bnd (kwhen locking (acquire L_pr)) (\<lambda>_.
     bnd (printf_loop fmt ap) (\<lambda>_.
     bnd (kwhen locking (release L_pr)) (\<lambda>_.
     ret 0))))"

definition printfinit :: "('a cons_state_scheme, unit) kern" where
  "printfinit = bnd (initlock L_pr ''pr'') (\<lambda>_. modf (\<lambda>s. s\<lparr>pr_locking := True\<rparr>))"

definition ascii :: "string \<Rightarrow> u8 list" where
  "ascii = map (\<lambda>c. of_nat (of_char c))"

definition state_name :: "procstate \<Rightarrow> u8 list" where
  "state_name st = ascii (case st of UNUSED \<Rightarrow> ''unused'' | USED \<Rightarrow> ''used'' | SLEEPING \<Rightarrow> ''sleep ''
     | RUNNABLE \<Rightarrow> ''runble'' | RUNNING \<Rightarrow> ''run   '' | ZOMBIE \<Rightarrow> ''zombie'')"

definition procdump_line :: "nat \<Rightarrow> ('a cons_state_scheme, unit) kern" where
  "procdump_line i =
     bnd (gets (\<lambda>s. procs s i)) (\<lambda>p.
     kwhen (p_state p \<noteq> UNUSED)
       (bnd (printf (ascii ''%d %s %s'') [Num (of_int (p_pid p)), Str (Some (state_name (p_state p))), Str (Some (cstr 16 (p_name p)))]) (\<lambda>_.
        bnd (printf [10] []) (\<lambda>_. ret ()))))"

definition procdump :: "('a cons_state_scheme, unit) kern" where
  "procdump = bnd (printf [10] []) (\<lambda>_. for_each [0..<NPROC] procdump_line)"

end
