(* ===== verification/Console.thy ===== *)
theory Console
  imports Printf
begin

text \<open>
  \<^verbatim>\<open>kernel/console.c\<close>: the console with its line-edited input queue, and the interrupt handler of
  \<^verbatim>\<open>kernel/uart.c\<close>, which feeds it.
\<close>

primrec consolewrite_loop :: "nat \<Rightarrow> origin \<Rightarrow> nat \<Rightarrow> ('a cons_state_scheme, int) kern" where
  "consolewrite_loop 0 src i = ret (int i)"
| "consolewrite_loop (Suc n) src i =
     bnd (either_copyin (origin_add src i) 1) (\<lambda>rb.
     if fst rb = -1 then ret (int i) else
     bnd (uartputc (hd (snd rb))) (\<lambda>_.
     consolewrite_loop n src (Suc i)))"

definition consolewrite :: "origin \<Rightarrow> int \<Rightarrow> ('a cons_state_scheme, int) kern" where
  "consolewrite src n = consolewrite_loop (nat n) src 0"

definition consolewrite_resume :: "nat \<Rightarrow> bool \<Rightarrow> u8 \<Rightarrow> nat \<Rightarrow> origin \<Rightarrow> nat \<Rightarrow> ('a cons_state_scheme, int) kern" where
  "consolewrite_resume p intena c n src i = bnd (uartputc_resume p intena c) (\<lambda>_. consolewrite_loop n src (Suc i))"

definition ctrl :: "u8 \<Rightarrow> u8" where "ctrl c = c - 64"

definition newline :: u8 where "newline = 10"

text \<open>The loop of \<open>consoleread\<close>, with \<open>n\<close> bytes still wanted of \<open>target\<close>.\<close>

definition consoleread_done :: "nat \<Rightarrow> nat \<Rightarrow> ('a cons_state_scheme, int) kern" where
  "consoleread_done target n = bnd (release L_cons) (\<lambda>_. ret (int target - int n))"

primrec consoleread_loop :: "nat \<Rightarrow> nat \<Rightarrow> place \<Rightarrow> ('a cons_state_scheme, int) kern" where
  "consoleread_loop target 0 dst = consoleread_done target 0"
| "consoleread_loop target (Suc n) dst =
     bnd (gets cons) (\<lambda>k.
     if cn_r k = cn_w k then
       bnd myproc_deref (\<lambda>p.
       bnd (killed p) (\<lambda>dead.
       if dead then bnd (release L_cons) (\<lambda>_. ret (-1))
       else sleep Ch_cons_r L_cons))
     else
       bnd (ret (cn_buf k (unat (cn_r k) mod INPUT_BUF_SIZE))) (\<lambda>c.
       bnd (upd_cons (\<lambda>k. k\<lparr>cn_r := cn_r k + 1\<rparr>)) (\<lambda>_.
       if c = ctrl 68 then
         bnd (kwhen (Suc n < target) (upd_cons (\<lambda>k. k\<lparr>cn_r := cn_r k - 1\<rparr>))) (\<lambda>_.
         consoleread_done target (Suc n))
       else
         bnd (either_copyout dst [c]) (\<lambda>r.
         if r = -1 then consoleread_done target (Suc n)
         else if c = newline then consoleread_done target n
         else consoleread_loop target n (place_add dst 1)))))"

definition consoleread :: "place \<Rightarrow> int \<Rightarrow> ('a cons_state_scheme, int) kern" where
  "consoleread dst n = bnd (acquire L_cons) (\<lambda>_. consoleread_loop (nat n) (nat n) dst)"

definition consoleread_resume :: "nat \<Rightarrow> bool \<Rightarrow> nat \<Rightarrow> nat \<Rightarrow> place \<Rightarrow> ('a cons_state_scheme, int) kern" where
  "consoleread_resume p intena target n dst = bnd (sleep_resume p intena L_cons) (\<lambda>_. consoleread_loop target n dst)"

text \<open>The kill-line loop, counting the bytes of the line being edited.\<close>

primrec kill_line :: "nat \<Rightarrow> ('a cons_state_scheme, unit) kern" where
  "kill_line 0 = ret ()"
| "kill_line (Suc n) =
     bnd (gets cons) (\<lambda>k.
     if cn_buf k (unat (cn_e k - 1) mod INPUT_BUF_SIZE) = newline then ret () else
     bnd (upd_cons (\<lambda>k. k\<lparr>cn_e := cn_e k - 1\<rparr>)) (\<lambda>_.
     bnd (consputc BACKSPACE) (\<lambda>_.
     kill_line n)))"

definition console_input :: "u8 \<Rightarrow> ('a cons_state_scheme, unit) kern" where
  "console_input c0 =
     bnd (gets cons) (\<lambda>k.
     kwhen (c0 \<noteq> 0 \<and> cn_e k - cn_r k < of_nat INPUT_BUF_SIZE)
       (bnd (ret (if c0 = 13 then newline else c0)) (\<lambda>c.
        bnd (consputc (Char c)) (\<lambda>_.
        bnd (upd_cons (\<lambda>k. k\<lparr>cn_buf := (cn_buf k)(unat (cn_e k) mod INPUT_BUF_SIZE := c), cn_e := cn_e k + 1\<rparr>)) (\<lambda>_.
        bnd (gets cons) (\<lambda>k.
        kwhen (c = newline \<or> c = ctrl 68 \<or> cn_e k - cn_r k = of_nat INPUT_BUF_SIZE)
          (bnd (upd_cons (\<lambda>k. k\<lparr>cn_w := cn_e k\<rparr>)) (\<lambda>_.
           wakeup Ch_cons_r))))))))"

definition consoleintr :: "u8 \<Rightarrow> ('a cons_state_scheme, unit) kern" where
  "consoleintr c =
     bnd (acquire L_cons) (\<lambda>_.
     bnd (if c = ctrl 80 then procdump
          else if c = ctrl 85 then bnd (gets cons) (\<lambda>k. kill_line (unat (cn_e k - cn_w k)))
          else if c = ctrl 72 \<or> c = 127 then
            bnd (gets cons) (\<lambda>k.
            kwhen (cn_e k \<noteq> cn_w k)
              (bnd (upd_cons (\<lambda>k. k\<lparr>cn_e := cn_e k - 1\<rparr>)) (\<lambda>_.
               consputc BACKSPACE)))
          else console_input c) (\<lambda>_.
     release L_cons))"

text \<open>The receive loop of \<open>uartintr\<close>, over the bytes the device holds.\<close>

primrec uartintr_loop :: "nat \<Rightarrow> ('a cons_state_scheme, unit) kern" where
  "uartintr_loop 0 = ret ()"
| "uartintr_loop (Suc n) =
     bnd uartgetc (\<lambda>c.
     case c of
       None \<Rightarrow> ret ()
     | Some c \<Rightarrow> bnd (consoleintr c) (\<lambda>_. uartintr_loop n))"

definition uartintr :: "('a cons_state_scheme, unit) kern" where
  "uartintr =
     bnd (gets (\<lambda>s. length (ut_in (uart s)))) (\<lambda>n.
     bnd (uartintr_loop (Suc n)) (\<lambda>_.
     bnd (acquire L_uart) (\<lambda>_.
     bnd uartstart (\<lambda>_.
     release L_uart))))"

definition CONSOLE :: nat where "CONSOLE = 1"

definition consoleinit :: "('a cons_state_scheme, unit) kern" where
  "consoleinit =
     bnd (initlock L_cons ''cons'') (\<lambda>_.
     bnd uartinit (\<lambda>_.
     modf (\<lambda>s. s\<lparr>devsw := (devsw s)(CONSOLE := (Some Consoleread, Some Consolewrite))\<rparr>)))"

end
