(* ===== verification/Print_Out.thy ===== *)
theory Print_Out
  imports Printf
begin

text \<open>
  What \<open>printf\<close> (\<^verbatim>\<open>kernel/printf.c\<close>) sends to the serial port: exactly the text its format and arguments
  denote, with signed decimal output read back as the number printed; and the conversions whose digits
  do not fit into the buffer of \<open>printint\<close>.
\<close>

subsection \<open>Running the driver\<close>

lemma uart_frames [frame_simps]:
  "uart (settle s) = uart s" "uart (acquired lk s) = uart s"
  "settle (s\<lparr>uart := u\<rparr>) = (settle s)\<lparr>uart := u\<rparr>"
  "acquired lk (s\<lparr>uart := u\<rparr>) = (acquired lk s)\<lparr>uart := u\<rparr>"
  "restore s (t\<lparr>uart := u\<rparr>) = (restore s t)\<lparr>uart := u\<rparr>"
  "cpu_ok (s\<lparr>uart := u\<rparr>) = cpu_ok s" "lock_free lk (s\<lparr>uart := u\<rparr>) = lock_free lk s"
  "proc_locks_free (s\<lparr>uart := u\<rparr>) = proc_locks_free s"
  "pr_locking (settle s) = pr_locking s" "pr_locking (acquired lk s) = pr_locking s"
  "panicked (settle s) = panicked s" "panicked (acquired lk s) = panicked s"
  by (simp_all add: unfold_machine proc_locks_free_def)

definition sent :: "u8 list \<Rightarrow> uart \<Rightarrow> uart" where
  "sent cs u = u\<lparr>ut_room := ut_room u - length cs, ut_out := ut_out u @ cs\<rparr>"

lemma sent_sent [simp]: "sent ds (sent cs u) = sent (cs @ ds) u" "sent [] u = u" "ut_room (sent cs u) = ut_room u - length cs"
  by (simp_all add: sent_def)

lemma uartputc_sync_run:
  assumes "cpu_ok s" "\<not> panicked s" "0 < ut_room (uart s)"
  shows "uartputc_sync c s = Ret () ((settle s)\<lparr>uart := sent [c] (uart s)\<rparr>)"
proof -
  let ?t = "(pushed s)\<lparr>uart := sent [c] (uart s)\<rparr>"
  have "pop_off ?t = Ret () (?t\<lparr>sstatus := sstatus s, cpus := cpus (settle s)\<rparr>)"
    by (rule pop_off_pushed [OF assms(1)]) (simp_all add: pushed_def)
  moreover have "?t\<lparr>sstatus := sstatus s, cpus := cpus (settle s)\<rparr> = (settle s)\<lparr>uart := sent [c] (uart s)\<rparr>"
    by (simp add: pushed_def settle_def)
  moreover have "panicked (pushed s) = panicked s" "uart (pushed s) = uart s" by (simp_all add: pushed_def)
  ultimately show ?thesis
    using assms by (simp add: uartputc_sync_def push_off_run kern_simps WriteTHR_def upd_uart_def sent_def)
qed

definition echo :: "conschar \<Rightarrow> u8 list" where
  "echo c = (case c of BACKSPACE \<Rightarrow> [8, 32, 8] | Char c \<Rightarrow> [c])"

lemma consputc_run:
  assumes "cpu_ok s" "\<not> panicked s" "3 \<le> ut_room (uart s)"
  shows "consputc c s = Ret () ((settle s)\<lparr>uart := sent (echo c) (uart s)\<rparr>)"
proof (cases c)
  case (Char x)
  then show ?thesis using assms uartputc_sync_run [of s x] by (simp add: consputc_def echo_def)
next
  case BACKSPACE
  then show ?thesis using assms
    by (simp add: consputc_def echo_def kern_simps uartputc_sync_run frame_simps)
qed

definition same_machine :: "'a machine_scheme \<Rightarrow> 'a machine_scheme \<Rightarrow> bool" where
  "same_machine s t \<longleftrightarrow> tp t = tp s \<and> sstatus t = sstatus s \<and> cpus t = cpus s \<and> locks t = locks s"

lemma puts_run:
  assumes "cpu_ok s" "settle s = s" "\<not> panicked s" "length cs \<le> ut_room (uart s)"
  shows "for_each cs (\<lambda>c. consputc (Char c)) s = Ret () (s\<lparr>uart := sent cs (uart s)\<rparr>)"
  using assms
proof (induction cs arbitrary: s)
  case (Cons c cs)
  let ?t = "s\<lparr>uart := sent [c] (uart s)\<rparr>"
  have "consputc (Char c) s = Ret () ?t"
    using uartputc_sync_run [of s c] Cons.prems by (simp add: consputc_def)
  moreover have "for_each cs (\<lambda>c. consputc (Char c)) ?t = Ret () (?t\<lparr>uart := sent cs (uart ?t)\<rparr>)"
    by (rule Cons.IH) (use Cons.prems in \<open>simp_all add: frame_simps\<close>)
  ultimately show ?case by (simp add: kern_simps)
qed (simp add: kern_simps)

subsection \<open>Running the loop\<close>

text \<open>What the loop sends for each conversion it recognises.\<close>

fun conv_text :: "conv \<Rightarrow> varg list \<Rightarrow> (u8 list \<times> varg list) option" where
  "conv_text (Int32 base sign) (Num w # ap) =
     (let b = printint_buf (scast (ucast w :: 32 word)) base sign in if length b \<le> 16 then Some (rev b, ap) else None)"
| "conv_text (Int64 base sign) (Num w # ap) = (let b = printint_buf w base sign in if length b \<le> 16 then Some (rev b, ap) else None)"
| "conv_text Ptr (Num w # ap) = Some (48 # 120 # printptr_digits 16 w, ap)"
| "conv_text String (Str (Some cs) # ap) = Some (cs, ap)"
| "conv_text String (Str None # ap) = Some (ascii ''(null)'', ap)"
| "conv_text Percent ap = Some ([37], ap)"
| "conv_text Stop ap = Some ([], ap)"
| "conv_text (Unknown c) ap = Some ([37, c], ap)"
| "conv_text _ _ = None"

function printf_text :: "u8 list \<Rightarrow> varg list \<Rightarrow> u8 list option" where
  "printf_text [] ap = Some []"
| "printf_text (c # f) ap =
     (if c \<noteq> 37 then map_option (\<lambda>cs. c # cs) (printf_text f ap)
      else case conversion f of
        (d, k) \<Rightarrow> if d = Stop then Some [] else (case conv_text d ap of
            None \<Rightarrow> None
          | Some (cs, ap') \<Rightarrow> map_option (\<lambda>ds. cs @ ds) (printf_text (drop (Suc k) f) ap')))"
  by pat_completeness auto
termination by (relation "measure (\<lambda>(f, _). length f)") auto

lemma printf_arg_run:
  assumes "cpu_ok s" "settle s = s" "\<not> panicked s" "conv_text d ap = Some (cs, ap')" "length cs \<le> ut_room (uart s)"
  shows "printf_arg d ap s = Ret ap' (s\<lparr>uart := sent cs (uart s)\<rparr>)"
proof -
  have ptr: "printptr x = for_each (48 # 120 # printptr_digits 16 x) (\<lambda>c. consputc (Char c))" for x by (simp add: printptr_def)
  have one: "consputc (Char c) s = Ret () (s\<lparr>uart := sent [c] (uart s)\<rparr>)" if "0 < ut_room (uart s)" for c
    using uartputc_sync_run [of s c] assms that by (simp add: consputc_def)
  have two: "bnd (consputc (Char a)) (\<lambda>_. consputc (Char b)) s = Ret () (s\<lparr>uart := sent [a, b] (uart s)\<rparr>)" if "2 \<le> ut_room (uart s)" for a b
    using puts_run [OF assms(1-3), of "[a, b]"] that by (simp add: bnd_def for_each.simps ret_def split: outcome.splits)
  show ?thesis
    using assms(4,5) puts_run [OF assms(1-3)] one two
    by (cases "(d, ap)" rule: conv_text.cases)
       (auto simp: printf_arg_def printint_def kern_simps Let_def ptr ascii_def simp del: for_each.simps split: if_splits)
qed

lemma printf_loop_run:
  assumes "cpu_ok s" "settle s = s" "\<not> panicked s" "printf_text f ap = Some cs" "length cs \<le> ut_room (uart s)"
  shows "printf_loop f ap s = Ret () (s\<lparr>uart := sent cs (uart s)\<rparr>)"
  using assms
proof (induction f ap arbitrary: cs s rule: printf_text.induct)
  case (1 ap)
  then show ?case by (simp add: kern_simps)
next
  case (2 c f ap)
  show ?case
  proof (cases "c = 37")
    case False
    then obtain ds where ds: "printf_text f ap = Some ds" "cs = c # ds" using "2.prems"(4) by auto
    let ?t = "s\<lparr>uart := sent [c] (uart s)\<rparr>"
    have "consputc (Char c) s = Ret () ?t"
      using uartputc_sync_run [of s c] "2.prems" ds by (simp add: consputc_def)
    moreover have "printf_loop f ap ?t = Ret () (?t\<lparr>uart := sent ds (uart ?t)\<rparr>)"
      by (rule "2.IH"(1)) (use False ds "2.prems" in \<open>simp_all add: frame_simps\<close>)
    ultimately show ?thesis using False ds by (simp add: kern_simps)
  next
    case True
    obtain d k where dk: "conversion f = (d, k)" by fastforce
    show ?thesis
    proof (cases "d = Stop")
      case True
      then show ?thesis using \<open>c = 37\<close> dk "2.prems" by (simp add: kern_simps)
    next
      case False
      have tx: "printf_text (c # f) ap = (case conv_text d ap of None \<Rightarrow> None | Some (cs, ap') \<Rightarrow> map_option (\<lambda>ds. cs @ ds) (printf_text (drop (Suc k) f) ap'))"
        and lp: "printf_loop (c # f) ap s = bnd (printf_arg d ap) (printf_loop (drop (Suc k) f)) s"
        using True False dk by simp_all
      from tx "2.prems"(4) obtain xs ap' ds where xs: "conv_text d ap = Some (xs, ap')" "printf_text (drop (Suc k) f) ap' = Some ds" "cs = xs @ ds"
        by (auto split: option.splits)
      let ?t = "s\<lparr>uart := sent xs (uart s)\<rparr>"
      have "printf_arg d ap s = Ret ap' ?t" by (rule printf_arg_run) (use "2.prems" xs in simp_all)
      moreover have "printf_loop (drop (Suc k) f) ap' ?t = Ret () (?t\<lparr>uart := sent ds (uart ?t)\<rparr>)"
        by (rule "2.IH"(2) [OF _ dk [symmetric] _ xs(1)]) (use True False "2.prems" xs in \<open>simp_all add: frame_simps\<close>)
      ultimately show ?thesis using lp xs(3) by (simp add: kern_simps)
    qed
  qed
qed

subsection \<open>printf\<close>

lemma printf_run:
  assumes "cpu_ok s" "lock_free L_pr s" "\<not> panicked s" "pr_locking s" "printf_text f ap = Some cs" "length cs \<le> ut_room (uart s)"
  shows "printf f ap s = Ret 0 ((settle s)\<lparr>uart := sent cs (uart s)\<rparr>)"
proof -
  let ?A = "acquired L_pr s"
  have "printf_loop f ap ?A = Ret () (?A\<lparr>uart := sent cs (uart ?A)\<rparr>)"
    by (rule printf_loop_run) (use assms in \<open>simp_all add: frame_simps\<close>)
  moreover have "release L_pr (?A\<lparr>uart := u\<rparr>) = Ret () ((settle s)\<lparr>uart := u\<rparr>)" for u
    by (subst release_run [of s]) (use assms in \<open>simp_all add: frame_simps\<close>)
  ultimately show ?thesis using assms by (simp add: printf_def kern_simps acquire_run frame_simps)
qed

text \<open>Numbers printed in base ten, and read back.\<close>

definition digit_value :: "u8 \<Rightarrow> nat" where
  "digit_value c = unat c - 48"

definition read_int :: "u8 list \<Rightarrow> int" where
  "read_int cs = (case cs of
     [] \<Rightarrow> 0
   | c # ds \<Rightarrow> if c = 45 then - int (foldl (\<lambda>n c. 10 * n + digit_value c) 0 ds)
              else int (foldl (\<lambda>n c. 10 * n + digit_value c) 0 cs))"

lemma digit_range: "d < 10 \<Longrightarrow> unat (digit d) = 48 + d"
  by (simp add: digit_def unat_word_ariths unat_of_nat)

lemma digits_value: "foldr (\<lambda>c n. 10 * n + digit_value c) (printint_digits 10 x) 0 = x"
proof (induction x rule: less_induct)
  case (less x)
  have "digit_value (digit (x mod 10)) = x mod 10" by (simp add: digit_value_def digit_range)
  then show ?case using less.IH [of "x div 10"] by (subst printint_digits.simps) simp
qed

lemma digits_no_minus: "45 \<notin> set (printint_digits 10 x)"
proof (induction x rule: less_induct)
  case (less x)
  have "digit (x mod 10) \<noteq> 45" using digit_range [of "x mod 10"] by (auto dest: arg_cong [of _ _ unat])
  then show ?case using less.IH [of "x div 10"] by (subst printint_digits.simps) auto
qed

lemma digits_length_base: "1 < b \<Longrightarrow> 0 < k \<Longrightarrow> length (printint_digits b x) \<le> k \<longleftrightarrow> x < b ^ k"
proof (induction x arbitrary: k rule: less_induct)
  case (less x)
  obtain j where k: "k = Suc j" using less.prems by (cases k) auto
  have nb: "\<not> b < 2" using less.prems by simp
  show ?case
  proof (cases "x div b = 0")
    case True
    then have "x < b" using less.prems by (simp add: div_eq_0_iff)
    also have "b \<le> b ^ k" using less.prems by (simp add: k)
    finally show ?thesis using True k by (subst printint_digits.simps) simp
  next
    case False
    then have "0 < x" by (cases x) auto
    then have lt: "x div b < x" using less.prems by (intro div_less_dividend) auto
    have len: "length (printint_digits b x) = Suc (length (printint_digits b (x div b)))"
      using False nb by (subst printint_digits.simps) simp
    show ?thesis
    proof (cases "j = 0")
      case True
      have "0 < length (printint_digits b (x div b))" by (subst printint_digits.simps) simp
      then show ?thesis using True len False k less.prems by (auto simp: div_eq_0_iff)
    next
      case j: False
      have "x < b ^ k \<longleftrightarrow> x div b < b ^ j" using less.prems by (simp add: k less_mult_imp_div_less div_less_iff_less_mult mult.commute)
      then show ?thesis using less.IH [OF lt less.prems(1), of j] j len k by simp
    qed
  qed
qed

lemmas digits_length = digits_length_base [of 10, simplified]

lemma sint_bounds:
  "- 9223372036854775808 \<le> sint (w :: u64)" "sint w < 9223372036854775808"
  "- 2147483648 \<le> sint (v :: 32 word)" "sint v < 2147483648"
  using sint_ge [of w] sint_lt [of w] sint_ge [of v] sint_lt [of v] by simp_all

lemma unat_magnitude: "w <s 0 \<Longrightarrow> int (unat (- w)) = - sint w" "\<not> w <s 0 \<Longrightarrow> int (unat w) = sint w" for w :: u64
proof -
  have pos: "uint (word_of_int k :: u64) = k" if "0 \<le> k" "k \<le> 9223372036854775808" for k
    using that by (simp add: uint_word_of_int mod_pos_pos_trivial)
  show "int (unat (- w)) = - sint w" if "w <s 0"
    using pos [of "- sint w"] that sint_bounds(1) [of w] by (simp add: word_sless_alt)
  show "int (unat w) = sint w" if "\<not> w <s 0"
    using pos [of "sint w"] that sint_bounds(2) [of w] by (simp add: word_sless_alt)
qed

lemma read_int_buf: "read_int (rev (printint_buf w 10 True)) = sint w"
proof -
  have fold: "foldl (\<lambda>n c. 10 * n + digit_value c) 0 (rev (printint_digits 10 x)) = x" for x
    using digits_value [of x] by (simp add: foldl_conv_foldr)
  have hd: "rev (printint_digits 10 x) \<noteq> []" "hd (rev (printint_digits 10 x)) \<noteq> 45" for x
    using digits_no_minus [of x] hd_in_set [of "rev (printint_digits 10 x)"] by (auto simp: printint_digits.simps [of 10 x])
  show ?thesis
  proof (cases "w <s 0")
    case True
    then show ?thesis using fold unat_magnitude(1) by (simp add: printint_buf_def read_int_def)
  next
    case False
    then show ?thesis using fold [of "unat w"] hd [of "unat w"] unat_magnitude(2) [of w]
      by (cases "rev (printint_digits 10 (unat w))") (auto simp: printint_buf_def read_int_def)
  qed
qed

lemma printint_fits:
  fixes v :: "32 word"
  shows "length (printint_buf (scast v) 10 True) \<le> 11"
proof -
  let ?w = "scast v :: u64"
  have sw: "sint ?w = sint v" by (rule sint_up_scast) (simp add: is_up)
  have "unat ?w < 10 ^ 11" if "\<not> ?w <s 0" using unat_magnitude(2) [OF that] sw sint_bounds(4) [of v] by (subst of_nat_less_iff [where 'a = int, symmetric]) simp
  moreover have "unat (- ?w) < 10 ^ 10" if "?w <s 0" using unat_magnitude(1) [OF that] sw sint_bounds(3) [of v] by (subst of_nat_less_iff [where 'a = int, symmetric]) simp
  ultimately show ?thesis using digits_length [of 10] digits_length [of 11] by (simp add: printint_buf_def Let_def)
qed

subsection \<open>The text a format denotes\<close>

text \<open>A format as the pieces it is written with: literal bytes, numbers of both widths in the three notations, pointers,
  strings, the percent sign, and percent signs before a byte that begins no conversion.\<close>

datatype piece = Lit u8 | Dec "32 word" | Udec "32 word" | Hex "32 word" | Dec_l u64 | Dec_ll u64 | Udec_l u64 | Udec_ll u64
  | Hex_l u64 | Hex_ll u64 | Pointer u64 | Text "u8 list option" | Pct | Other u8 | Other_l u8

definition digit_char :: "nat \<Rightarrow> u8" where
  "digit_char k = ascii ''0123456789abcdef'' ! k"

fun nat_digits :: "nat \<Rightarrow> nat \<Rightarrow> u8 list" where
  "nat_digits base n = (if base < 2 \<or> n < base then [digit_char n] else nat_digits base (n div base) @ [digit_char (n mod base)])"

declare nat_digits.simps [simp del]

definition int_digits :: "int \<Rightarrow> u8 list" where
  "int_digits i = (if i < 0 then ascii ''-'' else []) @ nat_digits 10 (nat \<bar>i\<bar>)"

definition piece_text :: "piece \<Rightarrow> u8 list" where
  "piece_text p = (case p of
     Lit c \<Rightarrow> [c]
   | Dec v \<Rightarrow> int_digits (sint v) | Dec_l w \<Rightarrow> int_digits (sint w) | Dec_ll w \<Rightarrow> int_digits (sint w)
   | Udec v \<Rightarrow> nat_digits 10 (unat v) | Udec_l w \<Rightarrow> nat_digits 10 (unat w) | Udec_ll w \<Rightarrow> nat_digits 10 (unat w)
   | Hex v \<Rightarrow> nat_digits 16 (unat v) | Hex_l w \<Rightarrow> nat_digits 16 (unat w) | Hex_ll w \<Rightarrow> nat_digits 16 (unat w)
   | Pointer w \<Rightarrow> ascii ''0x'' @ map (\<lambda>i. digit_char (unat w div 16 ^ (15 - i) mod 16)) [0..<16]
   | Text x \<Rightarrow> (case x of None \<Rightarrow> ascii ''(null)'' | Some cs \<Rightarrow> cs)
   | Pct \<Rightarrow> ascii ''%''
   | Other c \<Rightarrow> ascii ''%'' @ [c]
   | Other_l c \<Rightarrow> ascii ''%l'' @ [c])"

primrec piece_fmt :: "piece \<Rightarrow> u8 list" where
  "piece_fmt (Lit c) = [c]"
| "piece_fmt (Dec v) = ascii ''%d''" | "piece_fmt (Dec_l w) = ascii ''%ld''" | "piece_fmt (Dec_ll w) = ascii ''%lld''"
| "piece_fmt (Udec v) = ascii ''%u''" | "piece_fmt (Udec_l w) = ascii ''%lu''" | "piece_fmt (Udec_ll w) = ascii ''%llu''"
| "piece_fmt (Hex v) = ascii ''%x''" | "piece_fmt (Hex_l w) = ascii ''%lx''" | "piece_fmt (Hex_ll w) = ascii ''%llx''"
| "piece_fmt (Pointer w) = ascii ''%p''" | "piece_fmt (Text x) = ascii ''%s''" | "piece_fmt Pct = ascii ''%%''"
| "piece_fmt (Other c) = ascii ''%'' @ [c]" | "piece_fmt (Other_l c) = ascii ''%l'' @ [c]"

text \<open>The argument, in a register: a 32-bit one is sign-extended, as the calling convention has it.\<close>

primrec piece_args :: "piece \<Rightarrow> varg list" where
  "piece_args (Lit c) = []"
| "piece_args (Dec v) = [Num (scast v)]" | "piece_args (Dec_l w) = [Num w]" | "piece_args (Dec_ll w) = [Num w]"
| "piece_args (Udec v) = [Num (scast v)]" | "piece_args (Udec_l w) = [Num w]" | "piece_args (Udec_ll w) = [Num w]"
| "piece_args (Hex v) = [Num (scast v)]" | "piece_args (Hex_l w) = [Num w]" | "piece_args (Hex_ll w) = [Num w]"
| "piece_args (Pointer w) = [Num w]" | "piece_args (Text x) = [Str x]" | "piece_args Pct = []"
| "piece_args (Other c) = []" | "piece_args (Other_l c) = []"

text \<open>Literals are not percent signs, what follows an odd percent sign begins no conversion, the digits of a number fit the
  16 bytes of \<open>printint\<close>, and the 32-bit numbers printed without a sign are below \<open>2 ^ 31\<close>.\<close>

definition piece_ok :: "piece \<Rightarrow> bool" where
  "piece_ok p = (case p of
     Lit c \<Rightarrow> c \<noteq> 37 \<and> c \<noteq> 0
   | Dec_l w \<Rightarrow> length (piece_text p) \<le> 16 | Dec_ll w \<Rightarrow> length (piece_text p) \<le> 16
   | Udec v \<Rightarrow> v < 2 ^ 31 | Udec_l w \<Rightarrow> length (piece_text p) \<le> 16 | Udec_ll w \<Rightarrow> length (piece_text p) \<le> 16
   | Hex v \<Rightarrow> v < 2 ^ 31
   | Other c \<Rightarrow> c \<notin> set (ascii ''dluxps%'') \<and> c \<noteq> 0
   | Other_l c \<Rightarrow> c \<notin> set (ascii ''dlux%'') \<and> c \<noteq> 0
   | _ \<Rightarrow> True)"

lemma digit_hex: "k < 16 \<Longrightarrow> digit k = digit_char k"
proof -
  have "\<forall>k \<in> {0..<16}. digit k = digit_char k" by (simp add: digit_def digit_char_def ascii_def atLeast0_lessThan_Suc numeral_eq_Suc)
  then show "k < 16 \<Longrightarrow> digit k = digit_char k" by simp
qed

lemma rev_digits: "1 < b \<Longrightarrow> b \<le> 16 \<Longrightarrow> rev (printint_digits b n) = nat_digits b n"
proof (induction n rule: less_induct)
  case (less n)
  have m: "n mod b < 16" using less.prems mod_less_divisor [of b n] by linarith
  show ?case
  proof (cases "n < b")
    case True
    then show ?thesis using less.prems m by (subst printint_digits.simps, subst nat_digits.simps) (simp add: digit_hex)
  next
    case False
    then have "n div b \<noteq> 0" "n div b < n" using less.prems by (auto simp: div_eq_0_iff)
    then show ?thesis using less.IH [of "n div b"] less.prems m False
      by (subst printint_digits.simps, subst nat_digits.simps) (simp add: digit_hex)
  qed
qed

lemma rev_buf:
  shows rev_buf_signed: "rev (printint_buf w 10 True) = int_digits (sint w)"
    and rev_buf_unsigned: "b = 10 \<or> b = 16 \<Longrightarrow> rev (printint_buf w b False) = nat_digits b (unat w)"
proof -
  have lt: "(sint w < 0) = (w <s 0)" by (simp add: word_sless_alt)
  have "w <s 0 \<Longrightarrow> unat (- w) = nat (- sint w)" "\<not> w <s 0 \<Longrightarrow> unat w = nat (sint w)"
    using unat_magnitude [of w] by linarith+
  then show "rev (printint_buf w 10 True) = int_digits (sint w)"
    using lt by (cases "w <s 0") (simp_all add: printint_buf_def int_digits_def rev_digits ascii_def abs_if)
  show "b = 10 \<or> b = 16 \<Longrightarrow> rev (printint_buf w b False) = nat_digits b (unat w)"
    by (auto simp: printint_buf_def rev_digits)
qed

lemma ptr_digits: "printptr_digits n x = map (\<lambda>i. digit (unat (drop_bit 60 (push_bit (4 * i) x)))) [0..<n]"
  by (induction n arbitrary: x) (simp_all add: upt_conv_Cons map_Suc_upt [symmetric] add.commute del: upt_Suc)

lemma ptr_digit:
  assumes "i < 16"
  shows "unat (drop_bit 60 (push_bit (4 * i) (x :: u64))) = unat x div 16 ^ (15 - i) mod 16"
proof -
  have "drop_bit 60 (push_bit (4 * i) x) = take_bit 4 (drop_bit (60 - 4 * i) x)"
    using assms by (intro bit_word_eqI) (auto simp: bit_simps)
  moreover have "(16 :: nat) ^ (15 - i) = 2 ^ (60 - 4 * i)" using assms power_mult [of "2 :: nat" 4 "15 - i"] by (simp add: diff_mult_distrib2)
  moreover have "unat (take_bit 4 (drop_bit k x)) = unat x div 2 ^ k mod 16" for k
    using unat_bound [of x] by (simp only: unsigned_take_bit_eq unsigned_drop_bit_eq) (simp add: take_bit_eq_mod drop_bit_eq_div)
  ultimately show ?thesis by simp
qed

lemma ptr_text: "48 # 120 # printptr_digits 16 w = piece_text (Pointer w)"
  using digit_hex by (simp add: piece_text_def ptr_digits ptr_digit ascii_def)

lemma small_scast: "v < 2 ^ 31 \<Longrightarrow> unat (scast (v :: 32 word) :: u64) = unat v"
proof -
  assume v: "v < 2 ^ 31"
  then have "\<not> bit v 31" by (simp add: bit_iff_odd div_word_less)
  then have "\<not> bit v n" if "31 \<le> n" for n using that bit_imp_le_length [of v n] by (cases "n = 31") auto
  then have "(scast v :: u64) = ucast v" by (intro bit_word_eqI) (auto simp: bit_simps min_def)
  moreover have "unat (ucast v :: u64) = unat v" using unat_bound [of v] by (simp add: unsigned_ucast_eq take_bit_nat_eq_self)
  ultimately show ?thesis by simp
qed

text \<open>Each piece is one conversion of the loop.\<close>

lemma piece_conversion:
  assumes "piece_ok p" "\<forall>c. p \<noteq> Lit c" "\<forall>c. p \<noteq> Other_l c"
  shows "\<exists>d k g. piece_fmt p = 37 # g \<and> conversion (g @ f) = (d, k) \<and> drop (Suc k) (g @ f) = f \<and> d \<noteq> Stop \<and>
    conv_text d (piece_args p @ ap) = Some (piece_text p, ap)"
proof -
  have c32: "ucast (scast v :: u64) = v" for v :: "32 word" by (intro bit_word_eqI) (auto simp: bit_simps)
  have s32: "sint (scast v :: u64) = sint v" for v :: "32 word" by (rule sint_up_scast) (simp add: is_up)
  have "length (nat_digits 16 n) \<le> 16" if "n < 2 ^ 64" for n
    using digits_length_base [of 16 16 n] that by (simp flip: rev_digits)
  then have l16: "length (nat_digits 16 (unat w)) \<le> 16" "length (nat_digits 16 (unat v)) \<le> 16" for w :: u64 and v :: "32 word"
    using unat_bound [of w] unat_bound [of v] by simp_all
  have u10: "length (nat_digits 10 (unat v)) \<le> 16" for v :: "32 word"
    using digits_length [of 16 "unat v"] unat_bound [of v] by (simp flip: rev_digits)
  have s10: "length (int_digits (sint v)) \<le> 16" for v :: "32 word"
  proof -
    have "length (rev (printint_buf (scast v) 10 True)) \<le> 16" using printint_fits [of v] by simp
    then show ?thesis by (simp only: rev_buf_signed s32)
  qed
  note num = rev_buf_signed rev_buf_unsigned
  have fit: "length (printint_buf w b s) \<le> 16 \<longleftrightarrow> length (rev (printint_buf w b s)) \<le> 16" for w b s by simp
  show ?thesis
    using assms l16 u10 s10
    by (cases p) (simp_all add: ascii_def conversion_def piece_text_def piece_ok_def fit num c32 s32 small_scast ptr_text [unfolded piece_text_def ascii_def, simplified] split: option.splits)
qed

lemma printf_text_piece:
  assumes "piece_ok p" "printf_text f ap = Some cs"
  shows "printf_text (piece_fmt p @ f) (piece_args p @ ap) = Some (piece_text p @ cs)"
proof -
  consider c where "p = Lit c" | c where "p = Other_l c" | "\<forall>c. p \<noteq> Lit c" "\<forall>c. p \<noteq> Other_l c" by blast
  then show ?thesis
  proof cases
    case 1
    then show ?thesis using assms by (simp add: piece_text_def piece_ok_def)
  next
    case 2
    then have "c \<noteq> 100" "c \<noteq> 108" "c \<noteq> 117" "c \<noteq> 120" "c \<noteq> 37" using assms(1) by (auto simp: piece_ok_def ascii_def)
    then have "conversion (108 # c # f) = (Unknown 108, 0)" by (simp add: conversion_def)
    then show ?thesis using 2 assms(2) \<open>c \<noteq> 37\<close> by (simp add: piece_text_def ascii_def)
  next
    case 3
    then obtain d k g where g: "piece_fmt p = 37 # g" "conversion (g @ f) = (d, k)" "drop (Suc k) (g @ f) = f" "d \<noteq> Stop"
      "conv_text d (piece_args p @ ap) = Some (piece_text p, ap)" using piece_conversion [OF assms(1)] by blast
    then show ?thesis using assms(2) by (simp del: drop_append)
  qed
qed

lemma printf_text_pieces:
  "list_all piece_ok ps \<Longrightarrow>
     printf_text (concat (map piece_fmt ps) @ (if lone then [37] else [])) (concat (map piece_args ps)) = Some (concat (map piece_text ps))"
proof (induction ps)
  case Nil
  then show ?case by (simp add: conversion_def)
next
  case (Cons p ps)
  then show ?case using printf_text_piece [of p] by simp
qed

text \<open>C34: for every format built from literal bytes, \<open>%d\<close>, \<open>%u\<close>, \<open>%x\<close> and their long forms, \<open>%p\<close>, \<open>%s\<close>, \<open>%%\<close> and percent signs that
  begin no conversion, also with a lone percent sign at its end, \<open>printf\<close> sends to the serial port, after everything sent
  before, the text C gives it: decimal and hexadecimal numerals, sixteen hexadecimal digits for a pointer, the string or
  \<open>(null)\<close>; and it gives its lock back. Numbers have to fit the digit buffer, and unsigned 32-bit ones the range of \<open>int\<close>.\<close>

theorem printf_prints:
  assumes "cpu_ok s" "lock_free L_pr s" "\<not> panicked s" "pr_locking s" "list_all piece_ok ps"
    "length (concat (map piece_text ps)) \<le> ut_room (uart s)"
  shows "\<exists>t. printf (concat (map piece_fmt ps) @ (if lone then [37] else [])) (concat (map piece_args ps)) s = Ret 0 t \<and>
    ut_out (uart t) = ut_out (uart s) @ concat (map piece_text ps) \<and> locks t = locks s"
  using printf_run [OF assms(1-4) printf_text_pieces [OF assms(5)] assms(6), of lone] by (simp add: sent_def settle_def)

text \<open>C35: what \<open>%d\<close> prints, read as a decimal number, is the 32-bit argument, for every argument.\<close>

theorem printf_decimal:
  assumes "cpu_ok s" "lock_free L_pr s" "\<not> panicked s" "pr_locking s" "11 \<le> ut_room (uart s)"
  shows "\<exists>t cs. printf (ascii ''%d'') [Num w] s = Ret 0 t \<and> ut_out (uart t) = ut_out (uart s) @ cs \<and>
    read_int cs = sint (ucast w :: 32 word)"
proof -
  let ?v = "ucast w :: 32 word" and ?b = "printint_buf (scast (ucast w :: 32 word)) 10 True"
  have len: "length ?b \<le> 11" by (rule printint_fits)
  then have "printf_text (ascii ''%d'') [Num w] = Some (rev ?b)"
    by (simp add: ascii_def conversion_def)
  moreover have "sint (scast ?v :: u64) = sint ?v" by (rule sint_up_scast) (simp add: is_up)
  ultimately show ?thesis
    using printf_run [OF assms(1-4), of "ascii ''%d''" "[Num w]" "rev ?b"] assms(5) len read_int_buf [of "scast ?v"]
    by (auto simp: sent_def)
qed

text \<open>C36: \<open>%u\<close> reads its argument as a signed \<open>int\<close>: given one with the top bit set it extends the sign
  to 64 bits, and the 20 digits of the result run past the end of the 16-byte buffer of \<open>printint\<close>.\<close>

theorem printf_unsigned_overrun:
  assumes "cpu_ok s" "lock_free L_pr s" "pr_locking s" "bit w 31"
  shows "printf (ascii ''%u'') [Num w] s = Panic ''undefined behaviour''"
proof -
  let ?v = "ucast w :: 32 word"
  let ?x = "scast ?v :: u64"
  have "sint ?v < 0" using bit_last_iff [of ?v] assms(4) by (simp add: bit_ucast_iff)
  moreover have "sint ?x = sint ?v" by (rule sint_up_scast) (simp add: is_up)
  ultimately have neg: "sint ?x < 0" "- 2147483648 \<le> sint ?x" using sint_bounds(3) [of ?v] by simp_all
  have "uint ?x = (sint ?x + 18446744073709551616) mod 18446744073709551616"
    using uint_word_of_int [of "sint ?x", where 'a = 64] by simp
  also have "\<dots> = sint ?x + 18446744073709551616" by (rule mod_pos_pos_trivial) (use neg in simp_all)
  finally have "uint ?x = sint ?x + 18446744073709551616" .
  then have "\<not> unat ?x < 10 ^ 16" using neg by (subst of_nat_less_iff [where 'a = int, symmetric]) simp
  then have "16 < length (printint_buf ?x 10 False)" using digits_length [of 16 "unat ?x"] by (simp add: printint_buf_def Let_def)
  then show ?thesis using assms
    by (simp add: printf_def kern_simps acquire_run frame_simps ascii_def conversion_def printf_arg_def printint_def undefined_behaviour_def)
qed

subsection \<open>procdump\<close>

definition proc_line :: "proc \<Rightarrow> u8 list" where
  "proc_line x = rev (printint_buf (scast (of_int (p_pid x) :: 32 word)) 10 True) @ [32] @ state_name (p_state x) @ [32] @ cstr 16 (p_name x)"

lemma proc_line_length: "length (proc_line x) \<le> 35"
proof -
  have "length (state_name st) \<le> 6" for st by (cases st) (simp_all add: state_name_def ascii_def)
  moreover have "length (cstr 16 f) \<le> 16" for f
    using length_takeWhile_le [of "\<lambda>b. b \<noteq> 0" "map f [0..<16]"] by (simp add: cstr_def)
  ultimately show ?thesis using printint_fits [of "of_int (p_pid x)"] add_mono [of "length (state_name (p_state x))" 6 "length (cstr 16 (p_name x))" 16]
    by (simp add: proc_line_def)
qed

lemma proc_line_text:
  "printf_text (ascii ''%d %s %s'') [Num (of_int (p_pid x)), Str (Some (state_name (p_state x))), Str (Some (cstr 16 (p_name x)))] = Some (proc_line x)"
proof -
  have "ucast (word_of_int k :: u64) = (word_of_int k :: 32 word)" for k
    by (simp add: unsigned_of_int word_of_int_eq_iff)
  then show ?thesis
    using printint_fits [of "of_int (p_pid x)"] by (simp add: ascii_def conversion_def proc_line_def)
qed

lemma printf_newline: "printf_text [10] [] = Some [10]"
  by simp

lemma procdump_lines:
  assumes "cpu_ok s" "settle s = s" "lock_free L_pr s" "\<not> panicked s" "pr_locking s" "36 * length ps \<le> ut_room (uart s)"
  shows "\<exists>cs. for_each ps procdump_line s = Ret () (s\<lparr>uart := sent cs (uart s)\<rparr>)"
  using assms
proof (induction ps arbitrary: s)
  case Nil
  then show ?case by (intro exI [of _ "[]"]) (simp add: kern_simps)
next
  case (Cons i ps)
  let ?x = "procs s i"
  define ds where "ds = (if p_state ?x = UNUSED then [] else proc_line ?x @ [10])"
  let ?t = "s\<lparr>uart := sent ds (uart s)\<rparr>"
  have len: "length (proc_line ?x) \<le> 35" by (rule proc_line_length)
  have "length ds \<le> 36" using len by (simp add: ds_def)
  then have "\<exists>cs. for_each ps procdump_line ?t = Ret () (?t\<lparr>uart := sent cs (uart ?t)\<rparr>)"
    by (intro Cons.IH) (use Cons.prems in \<open>simp_all add: frame_simps\<close>)
  then obtain cs where cs: "for_each ps procdump_line ?t = Ret () (?t\<lparr>uart := sent cs (uart ?t)\<rparr>)" by blast
  let ?u = "s\<lparr>uart := sent (proc_line ?x) (uart s)\<rparr>"
  have "printf (ascii ''%d %s %s'') [Num (of_int (p_pid ?x)), Str (Some (state_name (p_state ?x))), Str (Some (cstr 16 (p_name ?x)))] s = Ret 0 ?u"
    using printf_run [OF Cons.prems(1,3,4,5) proc_line_text [of ?x]] len Cons.prems(2,6) by simp
  moreover have "printf [10] [] ?u = Ret 0 (?u\<lparr>uart := sent [10] (uart ?u)\<rparr>)"
    using printf_run [of ?u, OF _ _ _ _ printf_newline] len Cons.prems by (simp add: frame_simps)
  ultimately have "procdump_line i s = Ret () ?t" by (simp add: kern_simps ds_def procdump_line_def)
  then show ?case using cs by (intro exI [of _ "ds @ cs"]) (simp add: kern_simps)
qed

lemma procdump_run:
  assumes "cpu_ok s" "settle s = s" "lock_free L_pr s" "\<not> panicked s" "pr_locking s" "2305 \<le> ut_room (uart s)"
  shows "\<exists>cs. procdump s = Ret () (s\<lparr>uart := sent cs (uart s)\<rparr>)"
proof -
  let ?t = "s\<lparr>uart := sent [10] (uart s)\<rparr>"
  have p: "printf [10] [] s = Ret 0 ?t" using printf_run [OF assms(1,3,4,5) printf_newline] assms(2,6) by simp
  have "\<exists>cs. for_each [0..<NPROC] procdump_line ?t = Ret () (?t\<lparr>uart := sent cs (uart ?t)\<rparr>)"
    by (rule procdump_lines) (use assms in \<open>simp_all add: frame_simps NPROC_def\<close>)
  then show ?thesis using p by (auto simp: procdump_def kern_simps)
qed

subsection \<open>A concrete console\<close>

definition sample_sb :: superblock where
  "sample_sb = \<lparr>sb_magic = FSMAGIC, sb_size = 2000, sb_nblocks = 1954, sb_ninodes = 200, sb_nlog = 30, sb_logstart = 2, sb_inodestart = 32, sb_bmapstart = 45\<rparr>"

definition sample_fs :: "(nat \<Rightarrow> u8 list) \<Rightarrow> (nat \<Rightarrow> inode) \<Rightarrow> fs_state" where
  "sample_fs D T = log_state.extend (sample_boot D) (fs_state.fields sample_sb T)"

definition free_inode :: inode where
  "free_inode = \<lparr>i_dev = 0, i_inum = 0, i_ref = 0, i_valid = False, i_type = 0, i_major = 0, i_minor = 0, i_nlink = 0, i_size = 0, i_addrs = (\<lambda>_. 0)\<rparr>"

definition sample_cons :: "cons \<Rightarrow> cons_state" where
  "sample_cons k = fs_state.extend (sample_fs (\<lambda>_. replicate BSIZE 0) (\<lambda>_. free_inode))
     (cons_state.fields \<lparr>ut_buf = (\<lambda>_. 0), ut_w = 0, ut_r = 0, ut_room = 5000, ut_out = [], ut_in = [], ut_regs = []\<rparr> k False True (\<lambda>_. (None, None)))"

lemmas sample_cons_defs = sample_cons_def sample_fs_def sample_boot_def sample_bio_def cons_state.defs fs_state.defs log_state.defs bio_state.defs

lemma sample_cons_ok:
  "cpu_ok (sample_cons k)" "lock_free lk (sample_cons k)" "proc_locks_free (sample_cons k)" "\<not> panicked (sample_cons k)" "pr_locking (sample_cons k)"
  "ut_room (uart (sample_cons k)) = 5000" "cons (sample_cons k) = k"
  by (simp_all add: cpu_ok_def lock_free_def proc_locks_free_def mach_defs sample_cons_defs)

abbreviation idle_cons :: cons_state where
  "idle_cons \<equiv> sample_cons \<lparr>cn_buf = (\<lambda>_. 0), cn_r = 0, cn_w = 0, cn_e = 0\<rparr>"

theorem printf_prints_witness:
  "\<exists>t. printf (ascii ''a%sb%x %lld%%'') [Str None, Num 255, Num (-42)] idle_cons = Ret 0 t \<and>
    ut_out (uart t) = ut_out (uart idle_cons) @ ascii ''a(null)bff -42%'' \<and> locks t = locks idle_cons"
proof -
  let ?ps = "[Lit 97, Text None, Lit 98, Hex 255, Lit 32, Dec_ll (-42), Pct]"
  have n: "nat_digits 16 255 = [102, 102]" "nat_digits 10 42 = [52, 50]" by (simp_all add: nat_digits.simps digit_char_def ascii_def)
  have ok: "list_all piece_ok ?ps" by (simp add: n piece_ok_def piece_text_def int_digits_def ascii_def)
  have e: "concat (map piece_fmt ?ps) = ascii ''a%sb%x %lld%%''" "concat (map piece_args ?ps) = [Str None, Num 255, Num (-42)]"
    "concat (map piece_text ?ps) = ascii ''a(null)bff -42%''" by (simp_all add: n piece_text_def int_digits_def ascii_def)
  show ?thesis using printf_prints [of idle_cons ?ps False, unfolded e] ok by (simp add: sample_cons_ok ascii_def)
qed

theorem printf_decimal_witness:
  "\<exists>t cs. printf (ascii ''%d'') [Num (-5)] idle_cons = Ret 0 t \<and> ut_out (uart t) = ut_out (uart idle_cons) @ cs \<and>
    read_int cs = sint (ucast (-5 :: u64) :: 32 word)"
  by (rule printf_decimal) (simp_all add: sample_cons_ok)

theorem printf_unsigned_overrun_witness:
  "printf (ascii ''%u'') [Num 0xffffffff] idle_cons = Panic ''undefined behaviour''"
  by (rule printf_unsigned_overrun) (simp_all add: sample_cons_ok)

end
