(* ===== verification/Console_Line.thy ===== *)
theory Console_Line
  imports Console Print_Out
begin

text \<open>
  The console's line discipline. The input queue of \<^verbatim>\<open>kernel/console.c\<close> stands for two lists of
  bytes: the ones a reader may take and the line still being edited. Each input interrupt acts on them
  as a line editor does, also when the queue's counters wrap around.
\<close>

definition cons_ok :: "cons \<Rightarrow> bool" where
  "cons_ok k \<longleftrightarrow> unat (cn_w k - cn_r k) \<le> unat (cn_e k - cn_r k) \<and> unat (cn_e k - cn_r k) \<le> INPUT_BUF_SIZE"

definition typed :: "cons \<Rightarrow> u8 list" where
  "typed k = ring_list INPUT_BUF_SIZE (cn_buf k) (cn_r k) (cn_w k)"

definition editing :: "cons \<Rightarrow> u8 list" where
  "editing k = ring_list INPUT_BUF_SIZE (cn_buf k) (cn_w k) (cn_e k)"

text \<open>The line editor.\<close>

definition edit :: "u8 \<Rightarrow> u8 list \<times> u8 list \<Rightarrow> u8 list \<times> u8 list" where
  "edit c = (\<lambda>(com, ed).
     if c = ctrl 80 then (com, ed)
     else if c = ctrl 85 then (com, [])
     else if c = ctrl 72 \<or> c = 127 then (com, butlast ed)
     else if c = 0 \<or> length com + length ed \<ge> INPUT_BUF_SIZE then (com, ed)
     else let c' = (if c = 13 then newline else c) in
       if c' = newline \<or> c' = ctrl 68 \<or> length com + length ed + 1 = INPUT_BUF_SIZE then (com @ ed @ [c'], [])
       else (com, ed @ [c']))"

lemma unat_split:
  fixes r w e :: "'w::len word"
  assumes "unat (w - r) \<le> unat (e - r)"
  shows "unat (e - w) = unat (e - r) - unat (w - r)"
proof -
  have "e - w = (e - r) - (w - r)" by simp
  then show ?thesis using unat_sub [of "w - r" "e - r"] assms by (simp add: word_le_nat_alt)
qed

lemma cons_lengths:
  assumes "cons_ok k"
  shows "length (typed k) = unat (cn_w k - cn_r k)" "length (editing k) = unat (cn_e k - cn_w k)"
    "length (typed k) + length (editing k) = unat (cn_e k - cn_r k)"
  using assms unat_split [of "cn_w k" "cn_r k" "cn_e k"] by (simp_all add: typed_def editing_def cons_ok_def)

lemma ring_list_append:
  fixes r w e :: "'w::len word"
  assumes "unat (w - r) \<le> unat (e - r)"
  shows "ring_list N f r e = ring_list N f r w @ ring_list N f w e"
proof -
  let ?a = "unat (w - r)" and ?b = "unat (e - w)"
  have ab: "unat (e - r) = ?a + ?b" using unat_split [OF assms] assms by simp
  have "map (\<lambda>i. f (unat (r + of_nat i) mod N)) [?a..<?a + ?b] = map (\<lambda>i. f (unat (w + of_nat i) mod N)) [0..<?b]"
    by (rule nth_equalityI) (simp_all add: add.assoc [symmetric])
  moreover have "[0..<?a + ?b] = [0..<?a] @ [?a..<?a + ?b]" by (rule upt_add_eq_append) simp
  ultimately show ?thesis unfolding ring_list_def ab by simp
qed

lemma ring_list_cong:
  assumes "\<And>i. i < unat (w - r) \<Longrightarrow> f (unat (r + of_nat i) mod N) = g (unat (r + of_nat i) mod N)"
  shows "ring_list N f r w = ring_list N g r w"
  using assms by (simp add: ring_list_def)

subsection \<open>The abstract effect of the queue updates\<close>

definition put_char :: "u8 \<Rightarrow> cons \<Rightarrow> cons" where
  "put_char c k = k\<lparr>cn_buf := (cn_buf k)(unat (cn_e k) mod INPUT_BUF_SIZE := c), cn_e := cn_e k + 1\<rparr>"

lemma put_char_lists:
  assumes ok: "cons_ok k" and room: "unat (cn_e k - cn_r k) < INPUT_BUF_SIZE"
  shows "typed (put_char c k) = typed k" "editing (put_char c k) = editing k @ [c]" "cons_ok (put_char c k)"
    "unat (cn_e (put_char c k) - cn_r (put_char c k)) = unat (cn_e k - cn_r k) + 1"
proof -
  let ?r = "cn_r k" and ?w = "cn_w k" and ?e = "cn_e k"
  have le: "unat (?w - ?r) \<le> unat (?e - ?r)" using ok by (simp add: cons_ok_def)
  have "unat (?e - ?w) < 128" using unat_split [OF le] room by (simp add: INPUT_BUF_SIZE_def)
  then show "editing (put_char c k) = editing k @ [c]"
    using cons_ring.push [of ?e ?w] by (simp add: editing_def put_char_def INPUT_BUF_SIZE_def)
  have "?e + 1 - ?r = of_nat (Suc (unat (?e - ?r)))" by (simp add: algebra_simps)
  then have "unat (?e + 1 - ?r) = unat (of_nat (Suc (unat (?e - ?r))) :: u32)" by (rule arg_cong)
  also have "\<dots> = Suc (unat (?e - ?r))" using room by (simp only: unat_of_nat) (simp add: INPUT_BUF_SIZE_def)
  finally have n: "unat (?e + 1 - ?r) = Suc (unat (?e - ?r))" .
  then show "unat (cn_e (put_char c k) - cn_r (put_char c k)) = unat (?e - ?r) + 1" by (simp add: put_char_def)
  show "cons_ok (put_char c k)" using n le room by (simp add: cons_ok_def put_char_def)
  have "unat (?r + of_nat i) mod 128 \<noteq> unat ?e mod 128" if "i < unat (?w - ?r)" for i
    by (rule cons_ring.slots_differ) (use that le room in \<open>simp_all add: INPUT_BUF_SIZE_def\<close>)
  then show "typed (put_char c k) = typed k"
    by (simp add: typed_def put_char_def INPUT_BUF_SIZE_def ring_list_def)
qed

lemma commit_line:
  assumes "cons_ok k"
  shows "typed (k\<lparr>cn_w := cn_e k\<rparr>) = typed k @ editing k" "editing (k\<lparr>cn_w := cn_e k\<rparr>) = []" "cons_ok (k\<lparr>cn_w := cn_e k\<rparr>)"
  using assms ring_list_append [of "cn_w k" "cn_r k" "cn_e k"] by (simp_all add: typed_def editing_def cons_ok_def)

lemma erase_char:
  assumes ok: "cons_ok k" and ne: "cn_e k \<noteq> cn_w k"
  shows "typed (k\<lparr>cn_e := cn_e k - 1\<rparr>) = typed k" "editing k = editing (k\<lparr>cn_e := cn_e k - 1\<rparr>) @ [cn_buf k (unat (cn_e k - 1) mod INPUT_BUF_SIZE)]"
    "cons_ok (k\<lparr>cn_e := cn_e k - 1\<rparr>)"
proof -
  let ?r = "cn_r k" and ?w = "cn_w k" and ?e = "cn_e k"
  show "typed (k\<lparr>cn_e := ?e - 1\<rparr>) = typed k" by (simp add: typed_def)
  show ed: "editing k = editing (k\<lparr>cn_e := ?e - 1\<rparr>) @ [cn_buf k (unat (?e - 1) mod INPUT_BUF_SIZE)]"
    using cons_ring.unpush [OF ne] by (simp add: editing_def INPUT_BUF_SIZE_def)
  have le: "unat (?w - ?r) \<le> unat (?e - ?r)" "unat (?e - ?r) \<le> INPUT_BUF_SIZE" using ok by (simp_all add: cons_ok_def)
  have pos: "0 < unat (?e - ?w)" using ne by (simp add: unat_gt_0)
  then have pos': "0 < unat (?e - ?r)" using unat_split [OF le(1)] by simp
  have "?e - 1 - ?r = of_nat (unat (?e - ?r) - 1)" using pos' by (simp add: of_nat_diff algebra_simps)
  from pred_counter [OF pos' this] have n: "unat (?e - 1 - ?r) = unat (?e - ?r) - 1" by simp
  then show "cons_ok (k\<lparr>cn_e := ?e - 1\<rparr>)" using le pos unat_split [OF le(1)] unfolding cons_ok_def by simp linarith
qed

subsection \<open>Running the driver\<close>

lemma cons_frames [frame_simps]:
  "cons (settle s) = cons s" "cons (acquired lk s) = cons s"
  "settle (s\<lparr>cons := k\<rparr>) = (settle s)\<lparr>cons := k\<rparr>"
  "acquired lk (s\<lparr>cons := k\<rparr>) = (acquired lk s)\<lparr>cons := k\<rparr>"
  "restore s (t\<lparr>cons := k\<rparr>) = (restore s t)\<lparr>cons := k\<rparr>"
  "cpu_ok (s\<lparr>cons := k\<rparr>) = cpu_ok s" "lock_free lk (s\<lparr>cons := k\<rparr>) = lock_free lk s"
  "proc_locks_free (s\<lparr>cons := k\<rparr>) = proc_locks_free s"
  by (simp_all add: unfold_machine proc_locks_free_def)

text \<open>Inside the console's critical section the saved interrupt flag is settled already.\<close>

lemma kill_line_run:
  assumes "cpu_ok s" "settle s = s" "\<not> panicked s" "3 * n \<le> ut_room (uart s)" "cons_ok (cons s)" "n = length (editing (cons s))"
    "newline \<notin> set (editing (cons s))"
  shows "\<exists>k u. kill_line n s = Ret () (s\<lparr>cons := k, uart := u\<rparr>) \<and> cons_ok k \<and> typed k = typed (cons s) \<and> editing k = [] \<and> cn_r k = cn_r (cons s)"
  using assms
proof (induction n arbitrary: s)
  case 0
  then show ?case by (intro exI [of _ "cons s"] exI [of _ "uart s"]) (simp add: kern_simps)
next
  case (Suc n)
  let ?k = "cons s"
  have "editing ?k \<noteq> []" using Suc.prems(6) by auto
  then have ne: "cn_e ?k \<noteq> cn_w ?k" by (auto simp: editing_def)
  note er = erase_char [OF Suc.prems(5) ne]
  let ?k' = "?k\<lparr>cn_e := cn_e ?k - 1\<rparr>"
  let ?t = "s\<lparr>cons := ?k', uart := sent (echo BACKSPACE) (uart s)\<rparr>"
  have nl: "cn_buf ?k (unat (cn_e ?k - 1) mod INPUT_BUF_SIZE) \<noteq> newline" using Suc.prems(7) er(2) by auto
  have "consputc BACKSPACE (s\<lparr>cons := ?k'\<rparr>) = Ret () ?t"
    using Suc.prems(1-4) consputc_run [of "s\<lparr>cons := ?k'\<rparr>" BACKSPACE] by (simp add: frame_simps)
  then have run: "kill_line (Suc n) s = kill_line n ?t" using nl by (simp add: kern_simps upd_cons_def)
  have "\<exists>k u. kill_line n ?t = Ret () (?t\<lparr>cons := k, uart := u\<rparr>) \<and> cons_ok k \<and> typed k = typed (cons ?t) \<and> editing k = [] \<and> cn_r k = cn_r (cons ?t)"
  proof (rule Suc.IH)
    show "cpu_ok ?t" "settle ?t = ?t" "\<not> panicked ?t" using Suc.prems by (simp_all add: frame_simps)
    show "3 * n \<le> ut_room (uart ?t)" using Suc.prems(4) by (simp add: echo_def)
    show "cons_ok (cons ?t)" using er(3) by simp
    show "n = length (editing (cons ?t))" using Suc.prems(6) er(2) by simp
    show "newline \<notin> set (editing (cons ?t))" using Suc.prems(7) er(2) by simp
  qed
  then show ?case using run er(1) by auto
qed

lemma console_input_run:
  assumes ok: "cpu_ok s" "settle s = s" "proc_locks_free s" "\<not> panicked s" "3 \<le> ut_room (uart s)" and k: "cons_ok (cons s)"
    and sp: "c0 \<noteq> ctrl 80" "c0 \<noteq> ctrl 85" "c0 \<noteq> ctrl 72" "c0 \<noteq> 127" and nl: "newline \<notin> set (editing (cons s))"
  shows "\<exists>t. console_input c0 s = Ret () t \<and> same_machine s t \<and> cons_ok (cons t) \<and> newline \<notin> set (editing (cons t)) \<and>
    (typed (cons t), editing (cons t)) = edit c0 (typed (cons s), editing (cons s))"
proof -
  let ?k = "cons s"
  have lt: "cn_e ?k - cn_r ?k < of_nat INPUT_BUF_SIZE \<longleftrightarrow> length (typed ?k) + length (editing ?k) < INPUT_BUF_SIZE"
    by (simp add: cons_lengths(3) [OF k] word_less_nat_alt INPUT_BUF_SIZE_def)
  show ?thesis
  proof (cases "c0 \<noteq> 0 \<and> length (typed ?k) + length (editing ?k) < INPUT_BUF_SIZE")
    case False
    then have "console_input c0 s = Ret () s" by (auto simp: console_input_def kern_simps lt)
    then show ?thesis using False k nl sp by (intro exI [of _ s]) (auto simp: same_machine_def edit_def)
  next
    case True
    define c where "c = (if c0 = 13 then newline else c0)"
    let ?k1 = "put_char c ?k"
    have room: "unat (cn_e ?k - cn_r ?k) < INPUT_BUF_SIZE" using True cons_lengths(3) [OF k] by simp
    note pc = put_char_lists [OF k room, of c]
    let ?u = "s\<lparr>uart := sent (echo (Char c)) (uart s), cons := ?k1\<rparr>"
    have put: "consputc (Char c) s = Ret () (s\<lparr>uart := sent (echo (Char c)) (uart s)\<rparr>)"
      using consputc_run [OF ok(1,4,5), of "Char c"] ok(2) by simp
    have full: "cn_e ?k1 - cn_r ?k1 = of_nat INPUT_BUF_SIZE \<longleftrightarrow> length (typed ?k) + length (editing ?k) + 1 = INPUT_BUF_SIZE"
      using pc(4) cons_lengths(3) [OF k] by (auto simp: word_unat_eq_iff INPUT_BUF_SIZE_def)
    have run: "console_input c0 s = (if c = newline \<or> c = ctrl 68 \<or> length (typed ?k) + length (editing ?k) + 1 = INPUT_BUF_SIZE
        then wakeup Ch_cons_r (?u\<lparr>cons := ?k1\<lparr>cn_w := cn_e ?k1\<rparr>\<rparr>) else Ret () ?u)"
      using True put full by (simp add: console_input_def kern_simps lt upd_cons_def c_def [symmetric] put_char_def [symmetric])
    show ?thesis
    proof (cases "c = newline \<or> c = ctrl 68 \<or> length (typed ?k) + length (editing ?k) + 1 = INPUT_BUF_SIZE")
      case go: True
      note cl = commit_line [OF pc(3)]
      let ?v = "?u\<lparr>cons := ?k1\<lparr>cn_w := cn_e ?k1\<rparr>\<rparr>"
      have "cpu_ok ?v" "proc_locks_free ?v" "settle ?v = ?v" using ok by (simp_all add: frame_simps)
      from wakeup_run [OF this(1,2)] this(3) obtain f where "wakeup Ch_cons_r ?v = Ret () (?v\<lparr>procs := f\<rparr>)" by simp
      then show ?thesis
        using run go cl pc True sp by (intro exI [of _ "?v\<lparr>procs := f\<rparr>"]) (auto simp: same_machine_def edit_def c_def [symmetric] Let_def)
    next
      case False
      then show ?thesis
        using run pc True sp nl by (intro exI [of _ ?u]) (auto simp: same_machine_def edit_def c_def [symmetric] Let_def)
    qed
  qed
qed

lemma consoleintr_body:
  assumes "cpu_ok s" "lock_free L_cons s" "same_machine (acquired L_cons s) t"
  shows "release L_cons t = Ret () (restore s t)"
  using assms by (intro release_run) (simp_all add: same_machine_def frame_simps)

text \<open>C24: every input interrupt acts on the console's queue as the line editor: backspace removes
  the last byte of the line being edited, control-U the whole line, a newline or end-of-file byte (or
  a full buffer) hands the line to readers, and any other byte is appended; nothing a reader may take is
  ever lost or changed, also when the 32-bit counters wrap around.\<close>

theorem consoleintr_edits:
  assumes ok: "cpu_ok s" "lock_free L_cons s" "proc_locks_free s" "\<not> panicked s" "pr_locking s" "lock_free L_pr s" "4096 \<le> ut_room (uart s)"
    and k: "cons_ok (cons s)" "newline \<notin> set (editing (cons s))"
  shows "\<exists>t. consoleintr c s = Ret () t \<and> cons_ok (cons t) \<and> newline \<notin> set (editing (cons t)) \<and>
    (typed (cons t), editing (cons t)) = edit c (typed (cons s), editing (cons s))"
proof -
  let ?A = "acquired L_cons s" and ?k = "cons s"
  let ?body = "if c = ctrl 80 then procdump
          else if c = ctrl 85 then bnd (gets cons) (\<lambda>k. kill_line (unat (cn_e k - cn_w k)))
          else if c = ctrl 72 \<or> c = 127 then
            bnd (gets cons) (\<lambda>k.
            kwhen (cn_e k \<noteq> cn_w k)
              (bnd (upd_cons (\<lambda>k. k\<lparr>cn_e := cn_e k - 1\<rparr>)) (\<lambda>_.
               consputc BACKSPACE)))
          else console_input c"
  have A: "cpu_ok ?A" "settle ?A = ?A" "proc_locks_free ?A" "\<not> panicked ?A" "uart ?A = uart s" "cons ?A = ?k" "pr_locking ?A" "lock_free L_pr ?A"
    using ok by (simp_all add: frame_simps)
  have "\<exists>t. ?body ?A = Ret () t \<and> same_machine ?A t \<and> cons_ok (cons t) \<and> newline \<notin> set (editing (cons t)) \<and>
      (typed (cons t), editing (cons t)) = edit c (typed ?k, editing ?k)"
  proof -
    consider (P) "c = ctrl 80" | (U) "c = ctrl 85" | (H) "c = ctrl 72 \<or> c = 127" | (D) "c \<noteq> ctrl 80" "c \<noteq> ctrl 85" "c \<noteq> ctrl 72" "c \<noteq> 127" by blast
    then show ?thesis
    proof cases
      case P
      from procdump_run [OF A(1,2,8,4,7)] A(5) ok(7) obtain cs where "procdump ?A = Ret () (?A\<lparr>uart := sent cs (uart s)\<rparr>)" by auto
      then show ?thesis using P k A by (intro exI [of _ "?A\<lparr>uart := sent cs (uart s)\<rparr>"]) (simp add: same_machine_def edit_def)
    next
      case U
      let ?n = "unat (cn_e ?k - cn_w ?k)"
      have n: "?n = length (editing (cons ?A))" by (simp add: A(6) editing_def)
      have "?n \<le> INPUT_BUF_SIZE" using cons_lengths [OF k(1)] k(1) by (simp add: cons_ok_def)
      then have room: "3 * ?n \<le> ut_room (uart ?A)" using ok(7) A(5) by (simp add: INPUT_BUF_SIZE_def)
      from kill_line_run [OF A(1,2,4) room _ n] k A(6) obtain k' u where
        r: "kill_line ?n ?A = Ret () (?A\<lparr>cons := k', uart := u\<rparr>)" "cons_ok k'" "typed k' = typed ?k" "editing k' = []" by auto
      then show ?thesis
        using U A by (intro exI [of _ "?A\<lparr>cons := k', uart := u\<rparr>"]) (simp add: kern_simps same_machine_def edit_def ctrl_def)
    next
      case H
      show ?thesis
      proof (cases "cn_e ?k = cn_w ?k")
        case True
        then have "editing ?k = []" by (simp add: editing_def)
        then show ?thesis using H True A k by (intro exI [of _ ?A]) (auto simp: kern_simps same_machine_def edit_def ctrl_def)
      next
        case False
        note er = erase_char [OF k(1) False]
        let ?k' = "?k\<lparr>cn_e := cn_e ?k - 1\<rparr>"
        let ?t = "?A\<lparr>cons := ?k', uart := sent (echo BACKSPACE) (uart s)\<rparr>"
        have "consputc BACKSPACE (?A\<lparr>cons := ?k'\<rparr>) = Ret () ?t"
          using ok A consputc_run [of "?A\<lparr>cons := ?k'\<rparr>" BACKSPACE] by (simp add: frame_simps INPUT_BUF_SIZE_def)
        moreover have "newline \<notin> set (editing ?k')" using k(2) er(2) by simp
        moreover have "butlast (editing ?k) = editing ?k'" using er(2) by simp
        moreover have "c \<noteq> ctrl 80" "c \<noteq> ctrl 85" using H by (auto simp: ctrl_def)
        ultimately show ?thesis
          using H False A(6) er(1,3)
          by (intro exI [of _ ?t]) (simp add: kern_simps upd_cons_def same_machine_def edit_def)
      qed
    next
      case D
      have "3 \<le> ut_room (uart ?A)" using ok(7) A(5) by (simp add: INPUT_BUF_SIZE_def)
      from console_input_run [OF A(1-4) this _ D] k A(6) show ?thesis using D by auto
    qed
  qed
  then obtain t where t: "?body ?A = Ret () t" "same_machine ?A t" "cons_ok (cons t)" "newline \<notin> set (editing (cons t))"
    "(typed (cons t), editing (cons t)) = edit c (typed ?k, editing ?k)" by blast
  have "consoleintr c s = Ret () (restore s t)"
    using acquire_run [OF ok(2)] t(1) consoleintr_body [OF ok(1,2) t(2)] by (simp only: consoleintr_def bnd_run outcome.case)
  moreover have "cons (restore s t) = cons t" by (simp add: restore_def)
  ultimately show ?thesis using t(3-5) by (intro exI [of _ "restore s t"]) simp
qed

text \<open>The witness types a letter into a queue whose counters are about to wrap around.\<close>

theorem consoleintr_edits_witness:
  "\<exists>t. consoleintr 97 (sample_cons \<lparr>cn_buf = (\<lambda>_. 98), cn_r = -2, cn_w = -1, cn_e = -1\<rparr>) = Ret () t \<and>
    typed (cons t) = [98] \<and> editing (cons t) = [97]"
proof -
  let ?k = "\<lparr>cn_buf = (\<lambda>_. 98), cn_r = -2, cn_w = -1, cn_e = -1\<rparr>"
  have k: "typed ?k = [98]" "editing ?k = []" "cons_ok ?k"
    by (simp_all add: typed_def editing_def ring_list_def cons_ok_def INPUT_BUF_SIZE_def)
  have "edit 97 ([98], []) = ([98], [97])" by (simp add: edit_def ctrl_def newline_def INPUT_BUF_SIZE_def)
  then show ?thesis
    using consoleintr_edits [of "sample_cons ?k" 97] k by (auto simp: sample_cons_ok INPUT_BUF_SIZE_def)
qed

end
