(* ===== verification/File.thy ===== *)
theory File
  imports Console_Line
begin

text \<open>
  \<^verbatim>\<open>kernel/pipe.c\<close> and \<^verbatim>\<open>kernel/file.c\<close>: pipes and the table of open files. A file pointer is an
  index into the table. A pipe is named by the address of the page it was allocated in; its fields are
  kept in the map \<open>pipes\<close>.
\<close>

definition PIPESIZE :: nat where "PIPESIZE = 512"
definition NFILE :: nat where "NFILE = 100"
definition NDEV :: nat where "NDEV = 10"

record pipe =
  pi_data :: "nat \<Rightarrow> u8"
  pi_nread :: u32
  pi_nwrite :: u32
  pi_readopen :: bool
  pi_writeopen :: bool

datatype filetype = FD_NONE | FD_PIPE | FD_INODE | FD_DEVICE

record kfile =
  f_type :: filetype
  f_ref :: int
  f_readable :: bool
  f_writable :: bool
  f_pipe :: u64
  f_ip :: nat
  f_off :: nat
  f_major :: "16 word"

record file_state = cons_state +
  ftable :: "nat \<Rightarrow> kfile"
  pipes :: "u64 \<Rightarrow> pipe"

definition upd_file :: "nat \<Rightarrow> (kfile \<Rightarrow> kfile) \<Rightarrow> ('a file_state_scheme, unit) kern" where
  "upd_file f g = modf (\<lambda>s. s\<lparr>ftable := (ftable s)(f := g (ftable s f))\<rparr>)"

definition upd_pipe :: "u64 \<Rightarrow> (pipe \<Rightarrow> pipe) \<Rightarrow> ('a file_state_scheme, unit) kern" where
  "upd_pipe pi g = modf (\<lambda>s. s\<lparr>pipes := (pipes s)(pi := g (pipes s pi))\<rparr>)"

subsection \<open>Pipes\<close>

definition pipeclose :: "u64 \<Rightarrow> bool \<Rightarrow> ('a file_state_scheme, unit) kern" where
  "pipeclose pi writable =
     bnd (acquire (L_pipe pi)) (\<lambda>_.
     bnd (if writable then
            bnd (upd_pipe pi (\<lambda>x. x\<lparr>pi_writeopen := False\<rparr>)) (\<lambda>_. wakeup (Ch_pipe_nread pi))
          else
            bnd (upd_pipe pi (\<lambda>x. x\<lparr>pi_readopen := False\<rparr>)) (\<lambda>_. wakeup (Ch_pipe_nwrite pi))) (\<lambda>_.
     bnd (gets (\<lambda>s. pipes s pi)) (\<lambda>x.
     if \<not> pi_readopen x \<and> \<not> pi_writeopen x then
       bnd (release (L_pipe pi)) (\<lambda>_. kfree pi)
     else release (L_pipe pi))))"

text \<open>The loop of \<open>pipewrite\<close> with \<open>n\<close> bytes left, after \<open>i\<close>. A process that slept on a full pipe comes
  back through \<open>pipewrite_resume\<close>.\<close>

definition pipewrite_done :: "u64 \<Rightarrow> nat \<Rightarrow> ('a file_state_scheme, int) kern" where
  "pipewrite_done pi i =
     bnd (wakeup (Ch_pipe_nread pi)) (\<lambda>_.
     bnd (release (L_pipe pi)) (\<lambda>_.
     ret (int i)))"

primrec pipewrite_loop :: "nat \<Rightarrow> nat \<Rightarrow> u64 \<Rightarrow> u64 \<Rightarrow> nat \<Rightarrow> ('a file_state_scheme, int) kern" where
  "pipewrite_loop pr 0 pi addr i = pipewrite_done pi i"
| "pipewrite_loop pr (Suc n) pi addr i =
     bnd (gets (\<lambda>s. pipes s pi)) (\<lambda>x.
     bnd (if \<not> pi_readopen x then ret True else killed pr) (\<lambda>stop.
     if stop then bnd (release (L_pipe pi)) (\<lambda>_. ret (-1))
     else if pi_nwrite x = pi_nread x + of_nat PIPESIZE then
       bnd (wakeup (Ch_pipe_nread pi)) (\<lambda>_.
       sleep (Ch_pipe_nwrite pi) (L_pipe pi))
     else
       bnd (gets (\<lambda>s. p_pagetable (procs s pr))) (\<lambda>pt.
       bnd (copyin pt (addr + of_nat i) 1) (\<lambda>rb.
       if fst rb = -1 then pipewrite_done pi i
       else
         bnd (upd_pipe pi (\<lambda>x. x\<lparr>pi_data := (pi_data x)(unat (pi_nwrite x) mod PIPESIZE := hd (snd rb)), pi_nwrite := pi_nwrite x + 1\<rparr>)) (\<lambda>_.
         pipewrite_loop pr n pi addr (Suc i))))))"

definition pipewrite :: "u64 \<Rightarrow> u64 \<Rightarrow> int \<Rightarrow> ('a file_state_scheme, int) kern" where
  "pipewrite pi addr n =
     bnd myproc_deref (\<lambda>pr.
     bnd (acquire (L_pipe pi)) (\<lambda>_.
     pipewrite_loop pr (nat n) pi addr 0))"

definition pipewrite_resume :: "nat \<Rightarrow> bool \<Rightarrow> nat \<Rightarrow> u64 \<Rightarrow> u64 \<Rightarrow> nat \<Rightarrow> ('a file_state_scheme, int) kern" where
  "pipewrite_resume pr intena n pi addr i = bnd (sleep_resume pr intena (L_pipe pi)) (\<lambda>_. pipewrite_loop pr n pi addr i)"

definition piperead_done :: "u64 \<Rightarrow> nat \<Rightarrow> ('a file_state_scheme, int) kern" where
  "piperead_done pi i =
     bnd (wakeup (Ch_pipe_nwrite pi)) (\<lambda>_.
     bnd (release (L_pipe pi)) (\<lambda>_.
     ret (int i)))"

primrec piperead_copy :: "nat \<Rightarrow> nat \<Rightarrow> u64 \<Rightarrow> u64 \<Rightarrow> nat \<Rightarrow> ('a file_state_scheme, int) kern" where
  "piperead_copy pr 0 pi addr i = piperead_done pi i"
| "piperead_copy pr (Suc n) pi addr i =
     bnd (gets (\<lambda>s. pipes s pi)) (\<lambda>x.
     if pi_nread x = pi_nwrite x then piperead_done pi i
     else
       bnd (upd_pipe pi (\<lambda>x. x\<lparr>pi_nread := pi_nread x + 1\<rparr>)) (\<lambda>_.
       bnd (gets (\<lambda>s. p_pagetable (procs s pr))) (\<lambda>pt.
       bnd (copyout pt (addr + of_nat i) [pi_data x (unat (pi_nread x) mod PIPESIZE)]) (\<lambda>r.
       if r = -1 then piperead_done pi i
       else piperead_copy pr n pi addr (Suc i)))))"

definition piperead_wait :: "nat \<Rightarrow> nat \<Rightarrow> u64 \<Rightarrow> u64 \<Rightarrow> ('a file_state_scheme, int) kern" where
  "piperead_wait pr n pi addr =
     bnd (gets (\<lambda>s. pipes s pi)) (\<lambda>x.
     if pi_nread x = pi_nwrite x \<and> pi_writeopen x then
       bnd (killed pr) (\<lambda>k.
       if k then bnd (release (L_pipe pi)) (\<lambda>_. ret (-1))
       else sleep (Ch_pipe_nread pi) (L_pipe pi))
     else piperead_copy pr n pi addr 0)"

definition piperead :: "u64 \<Rightarrow> u64 \<Rightarrow> int \<Rightarrow> ('a file_state_scheme, int) kern" where
  "piperead pi addr n =
     bnd myproc_deref (\<lambda>pr.
     bnd (acquire (L_pipe pi)) (\<lambda>_.
     piperead_wait pr (nat n) pi addr))"

definition piperead_resume :: "nat \<Rightarrow> bool \<Rightarrow> nat \<Rightarrow> u64 \<Rightarrow> u64 \<Rightarrow> ('a file_state_scheme, int) kern" where
  "piperead_resume pr intena n pi addr = bnd (sleep_resume pr intena (L_pipe pi)) (\<lambda>_. piperead_wait pr n pi addr)"

subsection \<open>The file table\<close>

definition fileinit :: "('a file_state_scheme, unit) kern" where
  "fileinit = initlock L_ftable ''ftable''"

definition filealloc :: "('a file_state_scheme, nat option) kern" where
  "filealloc =
     bnd (acquire L_ftable) (\<lambda>_.
     bnd (gets (\<lambda>s. first_idx (\<lambda>f. f_ref (ftable s f) = 0) [0..<NFILE])) (\<lambda>r.
     case r of
       Some f \<Rightarrow>
         bnd (upd_file f (\<lambda>x. x\<lparr>f_ref := 1\<rparr>)) (\<lambda>_.
         bnd (release L_ftable) (\<lambda>_.
         ret (Some f)))
     | None \<Rightarrow> bnd (release L_ftable) (\<lambda>_. ret None)))"

definition filedup :: "nat \<Rightarrow> ('a file_state_scheme, nat) kern" where
  "filedup f =
     bnd (acquire L_ftable) (\<lambda>_.
     bnd (gets (\<lambda>s. f_ref (ftable s f))) (\<lambda>r.
     if r < 1 then panic ''filedup'' else
     bnd (upd_file f (\<lambda>x. x\<lparr>f_ref := f_ref x + 1\<rparr>)) (\<lambda>_.
     bnd (release L_ftable) (\<lambda>_.
     ret f))))"

definition fileclose :: "nat \<Rightarrow> ('a file_state_scheme, unit) kern" where
  "fileclose f =
     bnd (acquire L_ftable) (\<lambda>_.
     bnd (gets (\<lambda>s. f_ref (ftable s f))) (\<lambda>r.
     if r < 1 then panic ''fileclose'' else
     bnd (upd_file f (\<lambda>x. x\<lparr>f_ref := f_ref x - 1\<rparr>)) (\<lambda>_.
     bnd (gets (\<lambda>s. ftable s f)) (\<lambda>ff.
     if f_ref ff > 0 then release L_ftable else
     bnd (upd_file f (\<lambda>x. x\<lparr>f_ref := 0, f_type := FD_NONE\<rparr>)) (\<lambda>_.
     bnd (release L_ftable) (\<lambda>_.
     if f_type ff = FD_PIPE then pipeclose (f_pipe ff) (f_writable ff)
     else if f_type ff = FD_INODE \<or> f_type ff = FD_DEVICE then
       bnd begin_op (\<lambda>_.
       bnd (iput (f_ip ff)) (\<lambda>_.
       end_op))
     else ret ()))))))"

definition pipe_file :: "bool \<Rightarrow> u64 \<Rightarrow> kfile \<Rightarrow> kfile" where
  "pipe_file wr pi x = x\<lparr>f_type := FD_PIPE, f_readable := \<not> wr, f_writable := wr, f_pipe := pi\<rparr>"

definition close_if :: "nat option \<Rightarrow> ('a file_state_scheme, unit) kern" where
  "close_if fo = (case fo of None \<Rightarrow> ret () | Some f \<Rightarrow> fileclose f)"

text \<open>The failure label of \<open>pipealloc\<close> is only reached with \<open>pi\<close> null, so it never frees a page.\<close>

definition pipealloc :: "('a file_state_scheme, (nat \<times> nat) option) kern" where
  "pipealloc =
     bnd filealloc (\<lambda>f0.
     case f0 of
       None \<Rightarrow> ret None
     | Some a \<Rightarrow>
         bnd filealloc (\<lambda>f1.
         case f1 of
           None \<Rightarrow> bnd (close_if (Some a)) (\<lambda>_. ret None)
         | Some b \<Rightarrow>
             bnd kalloc (\<lambda>pi.
             if pi = 0 then bnd (close_if (Some a)) (\<lambda>_. bnd (close_if (Some b)) (\<lambda>_. ret None))
             else
               bnd (upd_pipe pi (\<lambda>x. x\<lparr>pi_readopen := True, pi_writeopen := True, pi_nwrite := 0, pi_nread := 0\<rparr>)) (\<lambda>_.
               bnd (initlock (L_pipe pi) ''pipe'') (\<lambda>_.
               bnd (upd_file a (pipe_file False pi)) (\<lambda>_.
               bnd (upd_file b (pipe_file True pi)) (\<lambda>_.
               ret (Some (a, b)))))))))"

definition stat_bytes :: "stat \<Rightarrow> u8 list" where
  "stat_bytes st = le_bytes 4 (of_nat (st_dev st) :: u32) @ le_bytes 4 (of_nat (st_ino st) :: u32) @ le_bytes 2 (st_type st) @ le_bytes 2 (st_nlink st) @
     replicate 4 0 @ le_bytes 8 (of_nat (st_size st) :: u64)"

definition filestat :: "nat \<Rightarrow> u64 \<Rightarrow> ('a file_state_scheme, int) kern" where
  "filestat f addr =
     bnd myproc_deref (\<lambda>p.
     bnd (gets (\<lambda>s. ftable s f)) (\<lambda>x.
     if f_type x = FD_INODE \<or> f_type x = FD_DEVICE then
       bnd (ilock (Some (f_ip x))) (\<lambda>_.
       bnd (stati (f_ip x)) (\<lambda>st.
       bnd (iunlock (Some (f_ip x))) (\<lambda>_.
       bnd (gets (\<lambda>s. p_pagetable (procs s p))) (\<lambda>pt.
       bnd (copyout pt addr (stat_bytes st)) (\<lambda>r.
       ret (if r < 0 then -1 else 0))))))
     else ret (-1)))"

definition dev_call :: "devfn \<Rightarrow> u64 \<Rightarrow> int \<Rightarrow> ('a file_state_scheme, int) kern" where
  "dev_call g addr n = (case g of Consoleread \<Rightarrow> consoleread (User addr) n | Consolewrite \<Rightarrow> consolewrite (From_user addr) n)"

definition fileread :: "nat \<Rightarrow> u64 \<Rightarrow> int \<Rightarrow> ('a file_state_scheme, int) kern" where
  "fileread f addr n =
     bnd (gets (\<lambda>s. ftable s f)) (\<lambda>x.
     if \<not> f_readable x then ret (-1) else
     case f_type x of
       FD_PIPE \<Rightarrow> piperead (f_pipe x) addr n
     | FD_DEVICE \<Rightarrow>
         bnd (gets (\<lambda>s. fst (devsw s (nat (sint (f_major x)))))) (\<lambda>g.
         if sint (f_major x) < 0 \<or> sint (f_major x) \<ge> int NDEV then ret (-1) else
         case g of None \<Rightarrow> ret (-1) | Some g \<Rightarrow> dev_call g addr n)
     | FD_INODE \<Rightarrow>
         bnd (ilock (Some (f_ip x))) (\<lambda>_.
         bnd (readi (f_ip x) (User addr) (f_off x) (to_uint n)) (\<lambda>rb.
         bnd (kwhen (fst rb > 0) (upd_file f (\<lambda>x. x\<lparr>f_off := (f_off x + nat (fst rb)) mod 2 ^ 32\<rparr>))) (\<lambda>_.
         bnd (iunlock (Some (f_ip x))) (\<lambda>_.
         ret (fst rb)))))
     | FD_NONE \<Rightarrow> panic ''fileread'')"

definition write_max :: int where
  "write_max = (int MAXOPBLOCKS - 1 - 1 - 2) div 2 * int BSIZE"

text \<open>The write loop of \<open>filewrite\<close> for an inode, one transaction per round; its value is \<open>i\<close> at the end.\<close>

function filewrite_loop :: "nat \<Rightarrow> u64 \<Rightarrow> int \<Rightarrow> int \<Rightarrow> ('a file_state_scheme, int) kern" where
  "filewrite_loop f addr n i s =
     (if i < n then
        let n1 = min (n - i) write_max; ip = f_ip (ftable s f) in
        bnd begin_op (\<lambda>_.
        bnd (ilock (Some ip)) (\<lambda>_.
        bnd (gets (\<lambda>s. f_off (ftable s f))) (\<lambda>off.
        bnd (writei ip (From_user (addr + of_int i)) off (to_uint n1)) (\<lambda>r.
        bnd (kwhen (r > 0) (upd_file f (\<lambda>x. x\<lparr>f_off := (f_off x + nat r) mod 2 ^ 32\<rparr>))) (\<lambda>_.
        bnd (iunlock (Some ip)) (\<lambda>_.
        bnd end_op (\<lambda>_ t.
        if r \<noteq> n1 then Ret i t
        else filewrite_loop f addr n (i + n1) t))))))) s
      else Ret i s)"
  by pat_completeness auto
termination
  by (relation "measure (\<lambda>(_, _, n, i, _). nat (n - i))") (auto simp: write_max_def MAXOPBLOCKS_def BSIZE_def)

declare filewrite_loop.simps [simp del]

definition filewrite :: "nat \<Rightarrow> u64 \<Rightarrow> int \<Rightarrow> ('a file_state_scheme, int) kern" where
  "filewrite f addr n =
     bnd (gets (\<lambda>s. ftable s f)) (\<lambda>x.
     if \<not> f_writable x then ret (-1) else
     case f_type x of
       FD_PIPE \<Rightarrow> pipewrite (f_pipe x) addr n
     | FD_DEVICE \<Rightarrow>
         bnd (gets (\<lambda>s. snd (devsw s (nat (sint (f_major x)))))) (\<lambda>g.
         if sint (f_major x) < 0 \<or> sint (f_major x) \<ge> int NDEV then ret (-1) else
         case g of None \<Rightarrow> ret (-1) | Some g \<Rightarrow> dev_call g addr n)
     | FD_INODE \<Rightarrow> bnd (filewrite_loop f addr n 0) (\<lambda>i. ret (if i = n then n else -1))
     | FD_NONE \<Rightarrow> panic ''filewrite'')"

end
