(* ===== verification/Pipe_Fifo.thy ===== *)
theory Pipe_Fifo
  imports File User_Mem
begin

text \<open>
  Pipes (\<^verbatim>\<open>kernel/pipe.c\<close>) as first-in first-out queues of bytes: what a write appends is what the
  process' memory holds, and a read delivers the oldest bytes to the reader's memory, whatever the
  values of the free-running counters.
\<close>

definition pipe_bytes :: "pipe \<Rightarrow> u8 list" where
  "pipe_bytes x = ring_list PIPESIZE (pi_data x) (pi_nread x) (pi_nwrite x)"

lemma pipe_full_iff:
  assumes "length (pipe_bytes x) \<le> PIPESIZE"
  shows "pi_nwrite x = pi_nread x + of_nat PIPESIZE \<longleftrightarrow> length (pipe_bytes x) = PIPESIZE"
proof -
  have "pi_nwrite x = pi_nread x + of_nat PIPESIZE \<longleftrightarrow> pi_nwrite x - pi_nread x = of_nat PIPESIZE"
    by (auto simp: algebra_simps)
  also have "\<dots> \<longleftrightarrow> unat (pi_nwrite x - pi_nread x) = PIPESIZE" by (auto simp: word_unat_eq_iff PIPESIZE_def)
  finally show ?thesis by (simp add: pipe_bytes_def)
qed

definition pipe_put :: "u8 \<Rightarrow> pipe \<Rightarrow> pipe" where
  "pipe_put c x = x\<lparr>pi_data := (pi_data x)(unat (pi_nwrite x) mod PIPESIZE := c), pi_nwrite := pi_nwrite x + 1\<rparr>"

lemma pipe_put_bytes: "length (pipe_bytes x) < PIPESIZE \<Longrightarrow> pipe_bytes (pipe_put c x) = pipe_bytes x @ [c]"
  using pipe_ring.push [of "pi_nwrite x" "pi_nread x"] by (simp add: pipe_bytes_def pipe_put_def PIPESIZE_def)

lemma pipe_take:
  "pi_nread x \<noteq> pi_nwrite x \<Longrightarrow>
     pipe_bytes x = pi_data x (unat (pi_nread x) mod PIPESIZE) # pipe_bytes (x\<lparr>pi_nread := pi_nread x + 1\<rparr>)"
  using pipe_ring.pop [of "pi_nwrite x" "pi_nread x"] by (simp add: pipe_bytes_def PIPESIZE_def)

lemma pipe_empty_iff: "pi_nread x = pi_nwrite x \<longleftrightarrow> pipe_bytes x = []"
  by (auto simp: pipe_bytes_def ring_list_eq_Nil)

lemma pipes_frames [frame_simps]:
  "pipes (settle s) = pipes s" "pipes (acquired lk s) = pipes s"
  "settle (s\<lparr>pipes := f\<rparr>) = (settle s)\<lparr>pipes := f\<rparr>"
  "acquired lk (s\<lparr>pipes := f\<rparr>) = (acquired lk s)\<lparr>pipes := f\<rparr>"
  "restore s (t\<lparr>pipes := f\<rparr>) = (restore s t)\<lparr>pipes := f\<rparr>"
  "cpu_ok (s\<lparr>pipes := f\<rparr>) = cpu_ok s" "lock_free lk (s\<lparr>pipes := f\<rparr>) = lock_free lk s"
  "proc_locks_free (s\<lparr>pipes := f\<rparr>) = proc_locks_free s"
  "proc_locks_free (s\<lparr>mem := m\<rparr>) = proc_locks_free s"
  "quiet p (s\<lparr>pipes := f\<rparr>) = quiet p s"
  by (simp_all add: unfold_machine proc_locks_free_def quiet_def)

lemma copyin_byte:
  assumes "pt_ok N root (mem s)" "isolated N (vmap N (mem s))" "ok_range [4] (vmap N (mem s)) va 1"
  shows "copyin root va 1 s = Ret (0, urd (vmap N (mem s)) va 1 (mem s)) s"
  using copyin_spec [OF assms(1,2), of va 1] assms(3) by auto

lemma copyout_byte:
  assumes "pt_ok N root (mem s)" "isolated N (vmap N (mem s))" "ok_range [4, 2] (vmap N (mem s)) va 1"
  shows "copyout root va [b] s = Ret 0 (s\<lparr>mem := uwr (vmap N (mem s)) va [b] (mem s)\<rparr>)"
  using copyout_spec [OF assms(1,2) refl, of "[b]" va] assms(3) by auto

text \<open>In the critical section of a pipe: process \<open>p\<close> holds the pipe's lock and no other, and its page
  table \<open>N\<close> keeps user memory apart from the kernel's.\<close>

definition pipe_section :: "nat \<Rightarrow> nodes \<Rightarrow> 'a file_state_scheme \<Rightarrow> bool" where
  "pipe_section p N s \<longleftrightarrow> cpu_ok s \<and> settle s = s \<and> proc_locks_free s \<and> p < NPROC \<and>
     pt_ok N (p_pagetable (procs s p)) (mem s) \<and> isolated N (vmap N (mem s))"

lemma pipe_section_upd: "pipe_section p N s \<Longrightarrow> pipe_section p N (s\<lparr>pipes := f\<rparr>)"
  by (simp add: pipe_section_def frame_simps)

lemma pipewrite_loop_run:
  assumes "pipe_section p N s" "\<not> p_killed (procs s p)" "pi_readopen (pipes s pi)"
    "ok_range [4] (vmap N (mem s)) (addr + of_nat i) n" "length (pipe_bytes (pipes s pi)) + n \<le> PIPESIZE"
  shows "\<exists>x. pipewrite_loop p n pi addr i s = pipewrite_done pi (i + n) (s\<lparr>pipes := (pipes s)(pi := x)\<rparr>) \<and>
    pipe_bytes x = pipe_bytes (pipes s pi) @ urd (vmap N (mem s)) (addr + of_nat i) n (mem s) \<and>
    pi_readopen x = pi_readopen (pipes s pi) \<and> pi_writeopen x = pi_writeopen (pipes s pi)"
  using assms
proof (induction n arbitrary: i s)
  case 0
  then show ?case by (intro exI [of _ "pipes s pi"]) (simp add: urd_def)
next
  case (Suc n)
  let ?x = "pipes s pi" and ?M = "vmap N (mem s)" and ?a = "addr + of_nat i"
  have sec: "cpu_ok s" "settle s = s" "lock_free (L_proc p) s" "pt_ok N (p_pagetable (procs s p)) (mem s)" "isolated N ?M"
    using Suc.prems(1) by (simp_all add: pipe_section_def proc_locks_free_def)
  have rng: "ok_range [4] ?M ?a 1" "ok_range [4] ?M (addr + of_nat (Suc i)) n"
    using ok_range_split [of 1 "Suc n" "[4]" ?M ?a] Suc.prems(4) by (simp_all add: ac_simps)
  define c where "c = hd (urd ?M ?a 1 (mem s))"
  have u1: "urd ?M ?a 1 (mem s) = [c]" by (simp add: c_def urd_def)
  have lt: "length (pipe_bytes ?x) < PIPESIZE" using Suc.prems(5) by simp
  then have nf: "pi_nwrite ?x \<noteq> pi_nread ?x + of_nat PIPESIZE" using pipe_full_iff [of ?x] by simp
  let ?t = "s\<lparr>pipes := (pipes s)(pi := pipe_put c ?x)\<rparr>"
  have run: "pipewrite_loop p (Suc n) pi addr i s = pipewrite_loop p n pi addr (Suc i) ?t"
    using killed_run [OF sec(1,3)] sec(2) copyin_byte [OF sec(4,5) rng(1), unfolded u1] Suc.prems(2,3) nf
    by (simp add: kern_simps upd_pipe_def pipe_put_def)
  have "\<exists>x. pipewrite_loop p n pi addr (Suc i) ?t = pipewrite_done pi (Suc i + n) (?t\<lparr>pipes := (pipes ?t)(pi := x)\<rparr>) \<and>
    pipe_bytes x = pipe_bytes (pipes ?t pi) @ urd (vmap N (mem ?t)) (addr + of_nat (Suc i)) n (mem ?t) \<and>
    pi_readopen x = pi_readopen (pipes ?t pi) \<and> pi_writeopen x = pi_writeopen (pipes ?t pi)"
  proof (rule Suc.IH)
    show "pipe_section p N ?t" using Suc.prems(1) by (simp add: pipe_section_upd)
    show "pi_readopen (pipes ?t pi)" using Suc.prems(3) by (simp add: pipe_put_def)
    show "length (pipe_bytes (pipes ?t pi)) + n \<le> PIPESIZE" using Suc.prems(5) pipe_put_bytes [OF lt] by simp
  qed (use Suc.prems rng in simp_all)
  then obtain x where x: "pipewrite_loop p n pi addr (Suc i) ?t = pipewrite_done pi (Suc i + n) (s\<lparr>pipes := (pipes s)(pi := x)\<rparr>)"
    "pipe_bytes x = pipe_bytes ?x @ [c] @ urd ?M (addr + of_nat (Suc i)) n (mem s)"
    "pi_readopen x = pi_readopen ?x" "pi_writeopen x = pi_writeopen ?x"
    using pipe_put_bytes [OF lt] by (auto simp: pipe_put_def)
  have "urd ?M ?a (Suc n) (mem s) = [c] @ urd ?M (addr + of_nat (Suc i)) n (mem s)"
    using urd_split [of 1 "Suc n" ?M ?a "mem s"] u1 by (simp add: ac_simps)
  then show ?case using run x by (intro exI [of _ x]) (simp del: fun_upd_apply pipewrite_loop.simps)
qed

lemma piperead_copy_run:
  assumes "pipe_section p N s" "ok_range [4, 2] (vmap N (mem s)) (addr + of_nat i) (min n (length (pipe_bytes (pipes s pi))))"
  defines "k \<equiv> min n (length (pipe_bytes (pipes s pi)))"
  shows "\<exists>x. piperead_copy p n pi addr i s =
      piperead_done pi (i + k) (s\<lparr>pipes := (pipes s)(pi := x), mem := uwr (vmap N (mem s)) (addr + of_nat i) (take k (pipe_bytes (pipes s pi))) (mem s)\<rparr>) \<and>
    pipe_bytes x = drop k (pipe_bytes (pipes s pi)) \<and> pi_readopen x = pi_readopen (pipes s pi) \<and> pi_writeopen x = pi_writeopen (pipes s pi)"
  using assms(1,2) unfolding k_def
proof (induction n arbitrary: i s)
  case 0
  then show ?case by (intro exI [of _ "pipes s pi"]) simp
next
  case (Suc n)
  let ?x = "pipes s pi" and ?M = "vmap N (mem s)" and ?a = "addr + of_nat i"
  show ?case
  proof (cases "pi_nread ?x = pi_nwrite ?x")
    case True
    then have "pipe_bytes ?x = []" by (simp add: pipe_empty_iff)
    then show ?thesis using True by (intro exI [of _ ?x]) (simp add: kern_simps)
  next
    case False
    define c where "c = pi_data ?x (unat (pi_nread ?x) mod PIPESIZE)"
    let ?y = "?x\<lparr>pi_nread := pi_nread ?x + 1\<rparr>"
    have bs: "pipe_bytes ?x = c # pipe_bytes ?y" using pipe_take [OF False] by (simp add: c_def)
    let ?k = "min n (length (pipe_bytes ?y))"
    have k: "min (Suc n) (length (pipe_bytes ?x)) = Suc ?k" by (simp add: bs)
    have sec: "pt_ok N (p_pagetable (procs s p)) (mem s)" "isolated N ?M" using Suc.prems(1) by (simp_all add: pipe_section_def)
    have rng: "ok_range [4, 2] ?M ?a 1" "ok_range [4, 2] ?M (addr + of_nat (Suc i)) ?k"
      using ok_range_split [of 1 "Suc ?k" "[4, 2]" ?M ?a] Suc.prems(2) unfolding k by (simp_all add: ac_simps)
    let ?u = "s\<lparr>pipes := (pipes s)(pi := ?y)\<rparr>"
    have u: "pt_ok N (p_pagetable (procs ?u p)) (mem ?u)" "isolated N (vmap N (mem ?u))" "ok_range [4, 2] (vmap N (mem ?u)) ?a 1"
      using sec rng(1) by simp_all
    let ?m = "uwr ?M ?a [c] (mem s)"
    let ?t = "?u\<lparr>mem := ?m\<rparr>"
    have run: "piperead_copy p (Suc n) pi addr i s = piperead_copy p n pi addr (Suc i) ?t"
      using copyout_byte [OF u, of c] False by (simp add: kern_simps upd_pipe_def c_def)
    have len1: "ok_range [4, 2] ?M ?a (length [c])" using rng(1) by simp
    have tb: "pt_ok N (p_pagetable (procs s p)) ?m" "vmap N ?m = ?M" by (rule uwr_table [OF sec len1])+
    have "pipe_section p N ?t" using Suc.prems(1) tb sec by (simp add: pipe_section_def frame_simps)
    moreover have "ok_range [4, 2] (vmap N (mem ?t)) (addr + of_nat (Suc i)) (min n (length (pipe_bytes (pipes ?t pi))))"
      using rng(2) tb(2) by (simp)
    ultimately obtain x where x: "piperead_copy p n pi addr (Suc i) ?t = piperead_done pi (Suc i + ?k)
        (?t\<lparr>pipes := (pipes ?t)(pi := x), mem := uwr ?M (addr + of_nat (Suc i)) (take ?k (pipe_bytes ?y)) ?m\<rparr>)"
      "pipe_bytes x = drop ?k (pipe_bytes ?y)" "pi_readopen x = pi_readopen ?x" "pi_writeopen x = pi_writeopen ?x"
      using Suc.IH [of ?t "Suc i"] tb(2) by (auto simp del: fun_upd_apply simp: fun_upd_same)
    have "uwr ?M ?a (c # take ?k (pipe_bytes ?y)) (mem s) = uwr ?M (addr + of_nat (Suc i)) (take ?k (pipe_bytes ?y)) ?m"
      using uwr_append [of ?M ?a "[c]" "take ?k (pipe_bytes ?y)" "mem s"] by (simp add: ac_simps)
    then show ?thesis using run x unfolding k by (intro exI [of _ x]) (simp add: bs del: fun_upd_apply piperead_copy.simps)
  qed
qed

lemma leave_pipe:
  assumes q: "quiet p s"
  shows "bnd (wakeup ch) (\<lambda>_. bnd (release (L_pipe pi)) (\<lambda>_. ret r)) ((acquired (L_pipe pi) s)\<lparr>pipes := f, mem := m\<rparr>) =
    Ret r ((settle s)\<lparr>pipes := f, mem := m, procs := woken ch (Some p) {..<NPROC} (procs s)\<rparr>)"
proof -
  let ?A = "(acquired (L_pipe pi) s)\<lparr>pipes := f, mem := m\<rparr>"
  have cp: "c_proc (cpus ?A (mycpu ?A)) = Some p" using cproc_acquired [of "L_pipe pi" s] quiet_proc [OF q] by (simp add: mach_defs)
  have ok: "cpu_ok ?A" "proc_locks_free ?A" "settle ?A = ?A" using quietD [OF q] by (simp_all add: frame_simps)
  have "wakeup ch ?A = Ret () (?A\<lparr>procs := woken ch (Some p) {..<NPROC} (procs s)\<rparr>)"
    using wakeup_run [OF ok(1,2), of ch, unfolded cp ok(3)] by (simp add: frame_simps)
  moreover have "release (L_pipe pi) (?A\<lparr>procs := g\<rparr>) = Ret () ((settle s)\<lparr>pipes := f, mem := m, procs := g\<rparr>)" for g
    by (subst release_run [of s]) (use quietD [OF q] in \<open>simp_all add: frame_simps\<close>)
  ultimately show ?thesis by (simp add: kern_simps)
qed

lemma acquired_settle: "cpu_ok s \<Longrightarrow> acquired lk (settle s) = acquired lk s"
  by (auto simp: unfold_machine)

lemma enter_pipe:
  assumes "quiet p s" "pt_ok N (p_pagetable (procs s p)) (mem s)" "isolated N (vmap N (mem s))"
  shows "pipe_section p N (acquired (L_pipe pi) s)" "myproc_deref s = Ret p (settle s)" "acquire (L_pipe pi) (settle s) = Ret () (acquired (L_pipe pi) s)"
  using assms quietD [OF assms(1)]
  by (simp_all add: pipe_section_def frame_simps acquire_run acquired_settle myproc_deref_def kern_simps myproc_run)

definition waits_on :: "chan \<Rightarrow> (nat \<Rightarrow> proc) \<Rightarrow> nat \<Rightarrow> bool" where
  "waits_on ch f q \<longleftrightarrow> q < NPROC \<and> p_state (f q) = SLEEPING \<and> p_chan (f q) = Some ch"

lemma woken_none_waits: "q \<noteq> p \<Longrightarrow> \<not> waits_on ch (woken ch (Some p) {..<NPROC} g) q"
  by (auto simp: waits_on_def woken_def split: if_splits)

text \<open>C22: a write that fits into the pipe appends to it, in order, exactly the bytes the writer's memory holds,
  returns their number, changes no memory, gives every lock back and leaves no reader asleep.\<close>

theorem pipewrite_appends:
  assumes q: "quiet p s" and tab: "pt_ok N (p_pagetable (procs s p)) (mem s)" "isolated N (vmap N (mem s))"
    and alive: "\<not> p_killed (procs s p)" "pi_readopen (pipes s pi)"
    and rng: "ok_range [4] (vmap N (mem s)) addr n" and fits: "length (pipe_bytes (pipes s pi)) + n \<le> PIPESIZE"
  shows "\<exists>t. pipewrite pi addr (int n) s = Ret (int n) t \<and> quiet p t \<and> mem t = mem s \<and>
    pipe_bytes (pipes t pi) = pipe_bytes (pipes s pi) @ urd (vmap N (mem s)) addr n (mem s) \<and>
    (\<forall>j. j \<noteq> p \<longrightarrow> \<not> waits_on (Ch_pipe_nread pi) (procs t) j)"
proof -
  let ?A = "acquired (L_pipe pi) s"
  note en = enter_pipe(1) [OF q tab, of pi] enter_pipe(2) [OF q tab] enter_pipe(3) [OF q tab, of pi]
  from pipewrite_loop_run [OF en(1), of pi addr 0 n] alive rng fits obtain x where
    x: "pipewrite_loop p n pi addr 0 ?A = pipewrite_done pi n (?A\<lparr>pipes := (pipes s)(pi := x)\<rparr>)"
      "pipe_bytes x = pipe_bytes (pipes s pi) @ urd (vmap N (mem s)) addr n (mem s)"
    by (auto simp: frame_simps)
  have eq: "?A\<lparr>pipes := f, mem := mem ?A\<rparr> = ?A\<lparr>pipes := f\<rparr>" for f by simp
  have "pipewrite_done pi n (?A\<lparr>pipes := (pipes s)(pi := x)\<rparr>) =
      Ret (int n) ((settle s)\<lparr>pipes := (pipes s)(pi := x), mem := mem s, procs := woken (Ch_pipe_nread pi) (Some p) {..<NPROC} (procs s)\<rparr>)"
    using leave_pipe [OF q, where ch = "Ch_pipe_nread pi" and r = "int n" and pi = pi and m = "mem ?A", unfolded eq] by (simp add: pipewrite_done_def frame_simps)
  then have "pipewrite pi addr (int n) s =
      Ret (int n) ((settle s)\<lparr>pipes := (pipes s)(pi := x), mem := mem s, procs := woken (Ch_pipe_nread pi) (Some p) {..<NPROC} (procs s)\<rparr>)"
    using en x(1) by (simp add: pipewrite_def kern_simps)
  then show ?thesis using x(2) q woken_none_waits by (auto simp: frame_simps)
qed

text \<open>C23: a read from a pipe that holds bytes, or whose write end is closed, takes the oldest ones, as many as were
  asked for and are there, puts them in order into the reader's memory, returns their number, leaves the
  rest of the queue in order, gives every lock back and leaves no writer asleep.\<close>

theorem piperead_takes:
  assumes q: "quiet p s" and tab: "pt_ok N (p_pagetable (procs s p)) (mem s)" "isolated N (vmap N (mem s))"
    and some: "pipe_bytes (pipes s pi) \<noteq> [] \<or> \<not> pi_writeopen (pipes s pi)"
    and k: "k = min n (length (pipe_bytes (pipes s pi)))" and rng: "ok_range [4, 2] (vmap N (mem s)) addr k"
  shows "\<exists>t. piperead pi addr (int n) s = Ret (int k) t \<and> quiet p t \<and>
    mem t = uwr (vmap N (mem s)) addr (take k (pipe_bytes (pipes s pi))) (mem s) \<and>
    pipe_bytes (pipes t pi) = drop k (pipe_bytes (pipes s pi)) \<and>
    (\<forall>j. j \<noteq> p \<longrightarrow> \<not> waits_on (Ch_pipe_nwrite pi) (procs t) j)"
proof -
  let ?A = "acquired (L_pipe pi) s" and ?m = "uwr (vmap N (mem s)) addr (take k (pipe_bytes (pipes s pi))) (mem s)"
  note en = enter_pipe(1) [OF q tab, of pi] enter_pipe(2) [OF q tab] enter_pipe(3) [OF q tab, of pi]
  from piperead_copy_run [OF en(1), of addr 0 n pi] rng obtain x where
    x: "piperead_copy p n pi addr 0 ?A = piperead_done pi k (?A\<lparr>pipes := (pipes s)(pi := x), mem := ?m\<rparr>)"
      "pipe_bytes x = drop k (pipe_bytes (pipes s pi))"
    by (auto simp: frame_simps k)
  have "piperead_done pi k (?A\<lparr>pipes := (pipes s)(pi := x), mem := ?m\<rparr>) =
      Ret (int k) ((settle s)\<lparr>pipes := (pipes s)(pi := x), mem := ?m, procs := woken (Ch_pipe_nwrite pi) (Some p) {..<NPROC} (procs s)\<rparr>)"
    using leave_pipe [OF q, of "Ch_pipe_nwrite pi" pi "int k"] by (simp add: piperead_done_def)
  then have "piperead pi addr (int n) s =
      Ret (int k) ((settle s)\<lparr>pipes := (pipes s)(pi := x), mem := ?m, procs := woken (Ch_pipe_nwrite pi) (Some p) {..<NPROC} (procs s)\<rparr>)"
    using en x(1) some by (auto simp: piperead_def piperead_wait_def kern_simps frame_simps pipe_empty_iff)
  then show ?thesis using x(2) q woken_none_waits by (auto simp: frame_simps)
qed

text \<open>The witnesses: process 3 owns the page table \<open>sample_table\<close>; its pipe holds two bytes and its
  counters are about to wrap around.\<close>

definition sample_file :: "mem \<Rightarrow> pipe \<Rightarrow> file_state" where
  "sample_file m x = (let s = cons_state.extend (sample_cons \<lparr>cn_buf = (\<lambda>_. 0), cn_r = 0, cn_w = 0, cn_e = 0\<rparr>)
     (file_state.fields (\<lambda>_. \<lparr>f_type = FD_NONE, f_ref = 0, f_readable = False, f_writable = False, f_pipe = 0, f_ip = 0, f_off = 0, f_major = 0\<rparr>) (\<lambda>_. x))
   in s\<lparr>mem := m, procs := (procs s)(3 := (procs s 3)\<lparr>p_pagetable := 0x87ff0000\<rparr>)\<rparr>)"

lemmas sample_file_defs = sample_file_def Let_def sample_cons_defs cons_state.defs file_state.defs

definition sample_pipe :: pipe where
  "sample_pipe = \<lparr>pi_data = (\<lambda>_. 0)(511 := 7, 0 := 9), pi_nread = 0xffffffff, pi_nwrite = 1, pi_readopen = True, pi_writeopen = True\<rparr>"

lemma sample_pipe_bytes: "pipe_bytes sample_pipe = [7, 9]"
  by (simp add: pipe_bytes_def ring_list_def sample_pipe_def PIPESIZE_def upt_rec)

lemma sample_file_ok:
  "quiet 3 (sample_file m x)" "mem (sample_file m x) = m" "pipes (sample_file m x) pi = x"
  "p_pagetable (procs (sample_file m x) 3) = 0x87ff0000" "\<not> p_killed (procs (sample_file m x) 3)"
  by (simp_all add: quiet_def cpu_ok_def lock_free_def mach_defs sample_file_defs NPROC_def unused_proc_def)

lemma sample_ranges:
  "ok_range [4] (vmap sample_table sample_umem) 0x10 3" "ok_range [4, 2] (vmap sample_table sample_umem) 0x10 2"
proof -
  have "utrans [4, 2] M va \<noteq> None \<Longrightarrow> utrans [4] M va \<noteq> None" for M va
    by (auto simp: utrans_def split: if_splits option.splits)
  then show "ok_range [4] (vmap sample_table sample_umem) 0x10 3" "ok_range [4, 2] (vmap sample_table sample_umem) 0x10 2"
    using sample_range by (simp_all add: ok_range_def)
qed

theorem pipewrite_appends_witness:
  "\<exists>t. pipewrite 0x87000000 0x10 (int 3) (sample_file sample_umem sample_pipe) = Ret (int 3) t \<and> quiet 3 t \<and> mem t = mem (sample_file sample_umem sample_pipe) \<and>
    pipe_bytes (pipes t 0x87000000) = pipe_bytes (pipes (sample_file sample_umem sample_pipe) 0x87000000) @
      urd (vmap sample_table (mem (sample_file sample_umem sample_pipe))) 0x10 3 (mem (sample_file sample_umem sample_pipe)) \<and>
    (\<forall>j. j \<noteq> 3 \<longrightarrow> \<not> waits_on (Ch_pipe_nread 0x87000000) (procs t) j)"
  by (rule pipewrite_appends [where p = 3 and N = sample_table])
     (simp_all add: sample_file_ok sample_table_ok(1) sample_isolated sample_pipe_bytes sample_ranges, simp_all add: sample_pipe_def PIPESIZE_def)

theorem piperead_takes_witness:
  "\<exists>t. piperead 0x87000000 0x10 (int 5) (sample_file sample_umem sample_pipe) = Ret (int 2) t \<and> quiet 3 t \<and>
    mem t = uwr (vmap sample_table (mem (sample_file sample_umem sample_pipe))) 0x10
      (take 2 (pipe_bytes (pipes (sample_file sample_umem sample_pipe) 0x87000000))) (mem (sample_file sample_umem sample_pipe)) \<and>
    pipe_bytes (pipes t 0x87000000) = drop 2 (pipe_bytes (pipes (sample_file sample_umem sample_pipe) 0x87000000)) \<and>
    (\<forall>j. j \<noteq> 3 \<longrightarrow> \<not> waits_on (Ch_pipe_nwrite 0x87000000) (procs t) j)"
  by (rule piperead_takes [where p = 3 and N = sample_table])
     (simp_all add: sample_file_ok sample_table_ok(1) sample_isolated sample_pipe_bytes sample_ranges)

end
