(* ===== verification/Fcntl.thy ===== *)
theory Fcntl
  imports Xv6_Prelude
begin

text \<open>\<^verbatim>\<open>kernel/fcntl.h\<close>: the modes of \<open>open\<close>, and the number of descriptors of a process
  (\<^verbatim>\<open>kernel/param.h\<close>), for the system calls and their callers.\<close>

definition O_RDONLY :: u32 where "O_RDONLY = 0"
definition O_WRONLY :: u32 where "O_WRONLY = 1"
definition O_RDWR :: u32 where "O_RDWR = 2"
definition O_CREATE :: u32 where "O_CREATE = 0x200"
definition O_TRUNC :: u32 where "O_TRUNC = 0x400"
definition NOFILE :: nat where "NOFILE = 16"

end
