(* ===== verification/Proc.thy ===== *)
theory Proc
  imports File Fcntl
begin

text \<open>
  The life of a process (\<^verbatim>\<open>kernel/proc.c\<close>): allocating and freeing table entries, the first
  process, growing, forking, exiting, waiting. The saved user registers are in the process' trapframe
  page, at the offsets of \<open>struct trapframe\<close>.

  The addresses the linker chooses (\<open>trampoline\<close>, \<open>forkret\<close>) are fields of the state. What follows a sleep in
  \<open>wait\<close> is \<open>wait_resume\<close>.
\<close>

record life_state = file_state +
  trampoline_pa :: u64
  forkret_pc :: u64
  first_run :: bool
  ticks :: u32


subsection \<open>The trapframe\<close>

text \<open>Offsets of the fields of \<open>struct trapframe\<close> that the kernel's C code uses.\<close>

datatype tf_field = TF_kernel_satp | TF_kernel_sp | TF_kernel_trap | TF_epc | TF_kernel_hartid | TF_sp | TF_a nat

fun tf_off :: "tf_field \<Rightarrow> u64" where
  "tf_off TF_kernel_satp = 0"
| "tf_off TF_kernel_sp = 8"
| "tf_off TF_kernel_trap = 16"
| "tf_off TF_epc = 24"
| "tf_off TF_kernel_hartid = 32"
| "tf_off TF_sp = 48"
| "tf_off (TF_a i) = 112 + 8 * of_nat i"

definition trapframe_size :: nat where "trapframe_size = 288"

definition get_tf :: "nat \<Rightarrow> tf_field \<Rightarrow> ('a kmem_state_scheme, u64) kern" where
  "get_tf p r = gets (\<lambda>s. ld64 (mem s) (p_trapframe (procs s p) + tf_off r))"

definition set_tf :: "nat \<Rightarrow> tf_field \<Rightarrow> u64 \<Rightarrow> ('a kmem_state_scheme, unit) kern" where
  "set_tf p r v = modf (\<lambda>s. s\<lparr>mem := sd64 (mem s) (p_trapframe (procs s p) + tf_off r) v\<rparr>)"

subsection \<open>Allocating and freeing\<close>

definition proc_pagetable :: "nat \<Rightarrow> ('a life_state_scheme, u64) kern" where
  "proc_pagetable p =
     bnd uvmcreate (\<lambda>pagetable.
     if pagetable = 0 then ret 0 else
     bnd (gets trampoline_pa) (\<lambda>tr.
     bnd (mappages pagetable TRAMPOLINE PGSIZE tr (PTE_R OR PTE_X)) (\<lambda>r.
     if r < 0 then bnd (uvmfree pagetable 0) (\<lambda>_. ret 0) else
     bnd (gets (\<lambda>s. p_trapframe (procs s p))) (\<lambda>tf.
     bnd (mappages pagetable TRAPFRAME PGSIZE tf (PTE_R OR PTE_W)) (\<lambda>r.
     if r < 0 then
       bnd (uvmunmap pagetable TRAMPOLINE 1 False) (\<lambda>_.
       bnd (uvmfree pagetable 0) (\<lambda>_.
       ret 0))
     else ret pagetable)))))"

definition proc_freepagetable :: "u64 \<Rightarrow> u64 \<Rightarrow> ('a life_state_scheme, unit) kern" where
  "proc_freepagetable pagetable sz =
     bnd (uvmunmap pagetable TRAMPOLINE 1 False) (\<lambda>_.
     bnd (uvmunmap pagetable TRAPFRAME 1 False) (\<lambda>_.
     uvmfree pagetable sz))"

definition cleared_proc :: "proc \<Rightarrow> proc" where
  "cleared_proc x = x\<lparr>p_sz := 0, p_pid := 0, p_parent := None, p_name := (p_name x)(0 := 0), p_chan := None,
     p_killed := False, p_xstate := 0, p_state := UNUSED\<rparr>"

definition freeproc :: "nat \<Rightarrow> ('a life_state_scheme, unit) kern" where
  "freeproc p =
     bnd (gets (\<lambda>s. procs s p)) (\<lambda>x.
     bnd (kwhen (p_trapframe x \<noteq> 0) (kfree (p_trapframe x))) (\<lambda>_.
     bnd (upd_proc p (\<lambda>x. x\<lparr>p_trapframe := 0\<rparr>)) (\<lambda>_.
     bnd (kwhen (p_pagetable x \<noteq> 0) (proc_freepagetable (p_pagetable x) (p_sz x))) (\<lambda>_.
     bnd (upd_proc p (\<lambda>x. x\<lparr>p_pagetable := 0\<rparr>)) (\<lambda>_.
     upd_proc p cleared_proc)))))"

definition allocproc_found :: "nat \<Rightarrow> ('a life_state_scheme, nat option) kern" where
  "allocproc_found p =
     bnd allocpid (\<lambda>pid.
     bnd (upd_proc p (\<lambda>x. x\<lparr>p_pid := pid\<rparr>)) (\<lambda>_.
     bnd (upd_proc p (\<lambda>x. x\<lparr>p_state := USED\<rparr>)) (\<lambda>_.
     bnd kalloc (\<lambda>tf.
     bnd (upd_proc p (\<lambda>x. x\<lparr>p_trapframe := tf\<rparr>)) (\<lambda>_.
     if tf = 0 then bnd (freeproc p) (\<lambda>_. bnd (release (L_proc p)) (\<lambda>_. ret None)) else
     bnd (proc_pagetable p) (\<lambda>pt.
     bnd (upd_proc p (\<lambda>x. x\<lparr>p_pagetable := pt\<rparr>)) (\<lambda>_.
     if pt = 0 then bnd (freeproc p) (\<lambda>_. bnd (release (L_proc p)) (\<lambda>_. ret None)) else
     bnd (gets forkret_pc) (\<lambda>pc.
     bnd (upd_proc p (\<lambda>x. x\<lparr>p_context := \<lparr>ctx_ra = pc, ctx_sp = p_kstack x + PGSIZE, ctx_s = (\<lambda>_. 0)\<rparr>\<rparr>)) (\<lambda>_.
     ret (Some p))))))))))"

definition allocproc :: "('a life_state_scheme, nat option) kern" where
  "allocproc =
     bnd (for_find [0..<NPROC] (\<lambda>p.
       bnd (acquire (L_proc p)) (\<lambda>_.
       bnd (gets (\<lambda>s. p_state (procs s p))) (\<lambda>st.
       if st = UNUSED then ret (Some p)
       else bnd (release (L_proc p)) (\<lambda>_. ret None))))) (\<lambda>r.
     case r of None \<Rightarrow> ret None | Some p \<Rightarrow> allocproc_found p)"

text \<open>Code that goes on with a null process pointer takes a fault.\<close>

definition proc_deref :: "nat option \<Rightarrow> ('a life_state_scheme, nat) kern" where
  "proc_deref r = (case r of None \<Rightarrow> panic ''kerneltrap'' | Some p \<Rightarrow> ret p)"

definition initcode :: "u8 list" where
  "initcode = [
     0x17, 0x05, 0x00, 0x00, 0x13, 0x05, 0x45, 0x02,
     0x97, 0x05, 0x00, 0x00, 0x93, 0x85, 0x35, 0x02,
     0x93, 0x08, 0x70, 0x00, 0x73, 0x00, 0x00, 0x00,
     0x93, 0x08, 0x20, 0x00, 0x73, 0x00, 0x00, 0x00,
     0xef, 0xf0, 0x9f, 0xff, 0x2f, 0x69, 0x6e, 0x69,
     0x74, 0x00, 0x00, 0x24, 0x00, 0x00, 0x00, 0x00,
     0x00, 0x00, 0x00, 0x00]"

definition set_name :: "nat \<Rightarrow> cptr \<Rightarrow> ('a life_state_scheme, unit) kern" where
  "set_name p nm = upd_proc p (\<lambda>x. x\<lparr>p_name := safestrcpy (p_name x) nm 16\<rparr>)"

definition userinit :: "('a life_state_scheme, unit) kern" where
  "userinit =
     bnd allocproc (\<lambda>r.
     bnd (modf (\<lambda>s. s\<lparr>initproc := r\<rparr>)) (\<lambda>_.
     bnd (proc_deref r) (\<lambda>p.
     bnd (gets (\<lambda>s. p_pagetable (procs s p))) (\<lambda>pt.
     bnd (uvmfirst pt initcode) (\<lambda>_.
     bnd (upd_proc p (\<lambda>x. x\<lparr>p_sz := PGSIZE\<rparr>)) (\<lambda>_.
     bnd (set_tf p TF_epc 0) (\<lambda>_.
     bnd (set_tf p TF_sp PGSIZE) (\<lambda>_.
     bnd (set_name p (str_ptr (ascii ''initcode''))) (\<lambda>_.
     bnd (namei (ascii ''/'')) (\<lambda>d.
     bnd (upd_proc p (\<lambda>x. x\<lparr>p_cwd := d\<rparr>)) (\<lambda>_.
     bnd (upd_proc p (\<lambda>x. x\<lparr>p_state := RUNNABLE\<rparr>)) (\<lambda>_.
     release (L_proc p)))))))))))))"

subsection \<open>Growing and forking\<close>

definition growproc :: "int \<Rightarrow> ('a life_state_scheme, int) kern" where
  "growproc n =
     bnd myproc_deref (\<lambda>p.
     bnd (gets (\<lambda>s. procs s p)) (\<lambda>x.
     if n > 0 then
       bnd (uvmalloc (p_pagetable x) (p_sz x) (p_sz x + of_int n) PTE_W) (\<lambda>sz.
       if sz = 0 then ret (-1)
       else bnd (upd_proc p (\<lambda>x. x\<lparr>p_sz := sz\<rparr>)) (\<lambda>_. ret 0))
     else
       bnd (if n < 0 then uvmdealloc (p_pagetable x) (p_sz x) (p_sz x + of_int n) else ret (p_sz x)) (\<lambda>sz.
       bnd (upd_proc p (\<lambda>x. x\<lparr>p_sz := sz\<rparr>)) (\<lambda>_. ret 0))))"

definition fork_files :: "nat \<Rightarrow> nat \<Rightarrow> ('a life_state_scheme, unit) kern" where
  "fork_files p np =
     for_each [0..<NOFILE] (\<lambda>i.
       bnd (gets (\<lambda>s. p_ofile (procs s p) i)) (\<lambda>f.
       case f of
         None \<Rightarrow> ret ()
       | Some f \<Rightarrow> bnd (filedup f) (\<lambda>f'. upd_proc np (\<lambda>x. x\<lparr>p_ofile := (p_ofile x)(i := Some f')\<rparr>))))"

definition idup_cwd :: "nat option \<Rightarrow> ('a life_state_scheme, nat) kern" where
  "idup_cwd d = (case d of None \<Rightarrow> panic ''kerneltrap'' | Some ip \<Rightarrow> idup ip)"

definition fork_publish :: "nat \<Rightarrow> nat \<Rightarrow> ('a life_state_scheme, int) kern" where
  "fork_publish p np =
     bnd (gets (\<lambda>s. p_pid (procs s np))) (\<lambda>pid.
     bnd (release (L_proc np)) (\<lambda>_.
     bnd (acquire L_wait) (\<lambda>_.
     bnd (upd_proc np (\<lambda>x. x\<lparr>p_parent := Some p\<rparr>)) (\<lambda>_.
     bnd (release L_wait) (\<lambda>_.
     bnd (acquire (L_proc np)) (\<lambda>_.
     bnd (upd_proc np (\<lambda>x. x\<lparr>p_state := RUNNABLE\<rparr>)) (\<lambda>_.
     bnd (release (L_proc np)) (\<lambda>_.
     ret pid))))))))"

definition fork :: "('a life_state_scheme, int) kern" where
  "fork =
     bnd myproc_deref (\<lambda>p.
     bnd allocproc (\<lambda>r.
     case r of
       None \<Rightarrow> ret (-1)
     | Some np \<Rightarrow>
         bnd (gets (\<lambda>s. procs s p)) (\<lambda>x.
         bnd (gets (\<lambda>s. procs s np)) (\<lambda>y.
         bnd (uvmcopy (p_pagetable x) (p_pagetable y) (p_sz x)) (\<lambda>r.
         if r < 0 then bnd (freeproc np) (\<lambda>_. bnd (release (L_proc np)) (\<lambda>_. ret (-1))) else
         bnd (upd_proc np (\<lambda>y. y\<lparr>p_sz := p_sz x\<rparr>)) (\<lambda>_.
         bnd (modf (\<lambda>s. s\<lparr>mem := wr_bytes (mem s) (p_trapframe y) (rd_bytes (mem s) (p_trapframe x) trapframe_size)\<rparr>)) (\<lambda>_.
         bnd (set_tf np (TF_a 0) 0) (\<lambda>_.
         bnd (fork_files p np) (\<lambda>_.
         bnd (idup_cwd (p_cwd x)) (\<lambda>d.
         bnd (upd_proc np (\<lambda>y. y\<lparr>p_cwd := Some d\<rparr>)) (\<lambda>_.
         bnd (set_name np (p_name x)) (\<lambda>_.
         fork_publish p np))))))))))))"

subsection \<open>Exiting and waiting\<close>

text \<open>Waking the sleepers on a null process pointer: nobody sleeps on the null channel.\<close>

definition wakeup_proc :: "nat option \<Rightarrow> ('a proc_state_scheme, unit) kern" where
  "wakeup_proc r = (case r of None \<Rightarrow> ret () | Some i \<Rightarrow> wakeup (Ch_proc i))"

definition reparent :: "nat \<Rightarrow> ('a proc_state_scheme, unit) kern" where
  "reparent p =
     for_each [0..<NPROC] (\<lambda>pp.
       bnd (gets (\<lambda>s. p_parent (procs s pp))) (\<lambda>q.
       kwhen (q = Some p)
         (bnd (gets initproc) (\<lambda>i.
          bnd (upd_proc pp (\<lambda>x. x\<lparr>p_parent := i\<rparr>)) (\<lambda>_.
          wakeup_proc i)))))"

definition exit_files :: "nat \<Rightarrow> ('a life_state_scheme, unit) kern" where
  "exit_files p =
     for_each [0..<NOFILE] (\<lambda>fd.
       bnd (gets (\<lambda>s. p_ofile (procs s p) fd)) (\<lambda>f.
       case f of
         None \<Rightarrow> ret ()
       | Some f \<Rightarrow> bnd (fileclose f) (\<lambda>_. upd_proc p (\<lambda>x. x\<lparr>p_ofile := (p_ofile x)(fd := None)\<rparr>))))"

definition exit_zombie :: "nat \<Rightarrow> int \<Rightarrow> ('a life_state_scheme, 'b) kern" where
  "exit_zombie p status =
     bnd (acquire L_wait) (\<lambda>_.
     bnd (reparent p) (\<lambda>_.
     bnd (gets (\<lambda>s. p_parent (procs s p))) (\<lambda>q.
     bnd (wakeup_proc q) (\<lambda>_.
     bnd (acquire (L_proc p)) (\<lambda>_.
     bnd (upd_proc p (\<lambda>x. x\<lparr>p_xstate := status\<rparr>)) (\<lambda>_.
     bnd (upd_proc p (\<lambda>x. x\<lparr>p_state := ZOMBIE\<rparr>)) (\<lambda>_.
     bnd (release L_wait) (\<lambda>_.
     sched))))))))"

definition iput_cwd :: "nat option \<Rightarrow> ('a life_state_scheme, unit) kern" where
  "iput_cwd d = (case d of None \<Rightarrow> panic ''kerneltrap'' | Some ip \<Rightarrow> iput ip)"

definition exit :: "int \<Rightarrow> ('a life_state_scheme, 'b) kern" where
  "exit status =
     bnd myproc_deref (\<lambda>p.
     bnd (gets initproc) (\<lambda>i.
     if Some p = i then panic ''init exiting'' else
     bnd (exit_files p) (\<lambda>_.
     bnd begin_op (\<lambda>_.
     bnd (gets (\<lambda>s. p_cwd (procs s p))) (\<lambda>d.
     bnd (iput_cwd d) (\<lambda>_.
     bnd end_op (\<lambda>_.
     bnd (upd_proc p (\<lambda>x. x\<lparr>p_cwd := None\<rparr>)) (\<lambda>_.
     exit_zombie p status))))))))"

definition exit_resume :: "bool \<Rightarrow> ('a life_state_scheme, unit) kern" where
  "exit_resume intena = bnd (sched_resume intena) (\<lambda>_. panic ''zombie exit'')"

text \<open>A pass over the table in \<open>wait\<close>. It reaps the first exited child and leaves \<open>wait\<close> (\<open>Inr\<close>, with
  the value returned), or tells whether there are children (\<open>Inl\<close>).\<close>

definition wait_reap :: "nat \<Rightarrow> u64 \<Rightarrow> nat \<Rightarrow> ('a life_state_scheme, int) kern" where
  "wait_reap p addr pp =
     bnd (gets (\<lambda>s. procs s pp)) (\<lambda>y.
     bnd (gets (\<lambda>s. p_pagetable (procs s p))) (\<lambda>pt.
     bnd (if addr \<noteq> 0 then copyout pt addr (le_bytes 4 (of_int (p_xstate y) :: u32)) else ret 0) (\<lambda>r.
     if r < 0 then
       bnd (release (L_proc pp)) (\<lambda>_.
       bnd (release L_wait) (\<lambda>_.
       ret (-1)))
     else
       bnd (freeproc pp) (\<lambda>_.
       bnd (release (L_proc pp)) (\<lambda>_.
       bnd (release L_wait) (\<lambda>_.
       ret (p_pid y)))))))"

primrec wait_scan :: "nat \<Rightarrow> u64 \<Rightarrow> nat list \<Rightarrow> bool \<Rightarrow> ('a life_state_scheme, bool + int) kern" where
  "wait_scan p addr [] havekids = ret (Inl havekids)"
| "wait_scan p addr (pp # ps) havekids =
     bnd (gets (\<lambda>s. p_parent (procs s pp))) (\<lambda>q.
     if q = Some p then
       bnd (acquire (L_proc pp)) (\<lambda>_.
       bnd (gets (\<lambda>s. p_state (procs s pp))) (\<lambda>st.
       if st = ZOMBIE then bnd (wait_reap p addr pp) (\<lambda>r. ret (Inr r))
       else bnd (release (L_proc pp)) (\<lambda>_. wait_scan p addr ps True)))
     else wait_scan p addr ps havekids)"

definition wait_round :: "nat \<Rightarrow> u64 \<Rightarrow> ('a life_state_scheme, int) kern" where
  "wait_round p addr =
     bnd (wait_scan p addr [0..<NPROC] False) (\<lambda>r.
     case r of
       Inr v \<Rightarrow> ret v
     | Inl havekids \<Rightarrow>
         bnd (if \<not> havekids then ret True else killed p) (\<lambda>stop.
         if stop then bnd (release L_wait) (\<lambda>_. ret (-1))
         else sleep (Ch_proc p) L_wait))"

definition wait :: "u64 \<Rightarrow> ('a life_state_scheme, int) kern" where
  "wait addr =
     bnd myproc_deref (\<lambda>p.
     bnd (acquire L_wait) (\<lambda>_.
     wait_round p addr))"

definition wait_resume :: "nat \<Rightarrow> bool \<Rightarrow> u64 \<Rightarrow> ('a life_state_scheme, int) kern" where
  "wait_resume p intena addr = bnd (sleep_resume p intena L_wait) (\<lambda>_. wait_round p addr)"

end
