(* ===== verification/Exec.thy ===== *)
theory Exec
  imports Proc
begin

text \<open>
  \<^verbatim>\<open>kernel/exec.c\<close>: loading a program image. The ELF and program headers are read as bytes; their
  fields are taken at the offsets of \<^verbatim>\<open>kernel/elf.h\<close>.
\<close>

definition ELF_MAGIC :: u32 where "ELF_MAGIC = 0x464C457F"
definition ELF_PROG_LOAD :: u32 where "ELF_PROG_LOAD = 1"
definition MAXARG :: nat where "MAXARG = 32"
definition USERSTACK :: u64 where "USERSTACK = 2"

definition get64 :: "u8 list \<Rightarrow> nat \<Rightarrow> u64" where
  "get64 d off = le_word (sub_bytes d off 8)"

record elfhdr =
  e_magic :: u32
  e_entry :: u64
  e_phoff :: u64
  e_phnum :: "16 word"

definition elfhdr_size :: nat where "elfhdr_size = 64"

definition elfhdr_get :: "u8 list \<Rightarrow> elfhdr" where
  "elfhdr_get d = \<lparr>e_magic = get32 d 0, e_entry = get64 d 24, e_phoff = get64 d 32, e_phnum = get16 d 56\<rparr>"

record proghdr =
  ph_type :: u32
  ph_flags :: u32
  ph_off :: u64
  ph_vaddr :: u64
  ph_filesz :: u64
  ph_memsz :: u64

definition proghdr_size :: nat where "proghdr_size = 56"

definition proghdr_get :: "u8 list \<Rightarrow> proghdr" where
  "proghdr_get d = \<lparr>ph_type = get32 d 0, ph_flags = get32 d 4, ph_off = get64 d 8, ph_vaddr = get64 d 16,
     ph_filesz = get64 d 32, ph_memsz = get64 d 40\<rparr>"

definition flags2perm :: "u32 \<Rightarrow> u64" where
  "flags2perm flags =
     (let perm = (if flags AND 1 \<noteq> 0 then PTE_X else 0) in
      if flags AND 2 \<noteq> 0 then perm OR PTE_W else perm)"

text \<open>The loop of \<open>loadseg\<close>. Its 32-bit counter would wrap around to zero for a segment that ends in
  the last page of the 32-bit range, and the loop would start over.\<close>

function loadseg_loop :: "u64 \<Rightarrow> u64 \<Rightarrow> nat \<Rightarrow> u32 \<Rightarrow> nat \<Rightarrow> nat \<Rightarrow> ('a life_state_scheme, int) kern" where
  "loadseg_loop pagetable va ip offset sz i s =
     (if i < sz then
        bnd (walkaddr pagetable (va + of_nat i)) (\<lambda>pa t.
          if pa = 0 then Panic ''loadseg: address should exist''
          else
            let n = (if sz - i < 4096 then sz - i else 4096) in
            bnd (readi ip (Kern pa) (unat (offset + of_nat i)) n) (\<lambda>rb t.
              if fst rb \<noteq> int n then Ret (-1) t
              else if i + 4096 \<ge> 2 ^ 32 then Spin
              else loadseg_loop pagetable va ip offset sz (i + 4096) t) t) s
      else Ret 0 s)"
  by pat_completeness auto
termination
  by (relation "measure (\<lambda>(_, _, _, _, sz, i, _). sz - i)") auto

declare loadseg_loop.simps [simp del]

definition loadseg :: "u64 \<Rightarrow> u64 \<Rightarrow> nat \<Rightarrow> u32 \<Rightarrow> u32 \<Rightarrow> ('a life_state_scheme, int) kern" where
  "loadseg pagetable va ip offset sz = loadseg_loop pagetable va ip offset (unat sz) 0"

text \<open>The loop over the program headers; its value is \<open>sz\<close> at the end and whether it went through.\<close>

primrec exec_load :: "nat \<Rightarrow> nat \<Rightarrow> u64 \<Rightarrow> u32 \<Rightarrow> u64 \<Rightarrow> ('a life_state_scheme, u64 \<times> bool) kern" where
  "exec_load 0 ip pagetable off sz = ret (sz, True)"
| "exec_load (Suc n) ip pagetable off sz =
     bnd (readi ip Local (unat off) proghdr_size) (\<lambda>(r, d).
     if r \<noteq> int proghdr_size then ret (sz, False) else
     bnd (ret (proghdr_get d)) (\<lambda>ph.
     if ph_type ph \<noteq> ELF_PROG_LOAD then exec_load n ip pagetable (off + of_nat proghdr_size) sz else
     if ph_memsz ph < ph_filesz ph then ret (sz, False) else
     if ph_vaddr ph + ph_memsz ph < ph_vaddr ph then ret (sz, False) else
     if ph_vaddr ph mod PGSIZE \<noteq> 0 then ret (sz, False) else
     bnd (uvmalloc pagetable sz (ph_vaddr ph + ph_memsz ph) (flags2perm (ph_flags ph))) (\<lambda>sz1.
     if sz1 = 0 then ret (sz, False) else
     bnd (loadseg pagetable (ph_vaddr ph) ip (ucast (ph_off ph)) (ucast (ph_filesz ph))) (\<lambda>r.
     if r < 0 then ret (sz1, False)
     else exec_load n ip pagetable (off + of_nat proghdr_size) sz1))))"

text \<open>Pushing the argument strings; the value is the stack pointer and the addresses for \<open>ustack\<close>.\<close>

primrec exec_args :: "u8 list list \<Rightarrow> u64 \<Rightarrow> u64 \<Rightarrow> u64 \<Rightarrow> u64 list \<Rightarrow> ('a life_state_scheme, (u64 \<times> u64 list) option) kern" where
  "exec_args [] pagetable stackbase sp ustack = ret (Some (sp, ustack))"
| "exec_args (a # argv) pagetable stackbase sp ustack =
     (if length ustack \<ge> MAXARG then ret None else
      let sp1 = sp - of_nat (length a + 1); sp2 = sp1 - sp1 mod 16 in
      if sp2 < stackbase then ret None else
      bnd (copyout pagetable sp2 (a @ [0])) (\<lambda>r.
      if r < 0 then ret None
      else exec_args argv pagetable stackbase sp2 (ustack @ [sp2])))"

definition exec_bad :: "u64 \<Rightarrow> u64 \<Rightarrow> nat option \<Rightarrow> ('a life_state_scheme, int) kern" where
  "exec_bad pagetable sz ip =
     bnd (kwhen (pagetable \<noteq> 0) (proc_freepagetable pagetable sz)) (\<lambda>_.
     case ip of
       None \<Rightarrow> ret (-1)
     | Some ip \<Rightarrow> bnd (iunlockput ip) (\<lambda>_. bnd end_op (\<lambda>_. ret (-1))))"

text \<open>The program name: what follows the last slash of the path.\<close>

definition exec_name :: "u8 list \<Rightarrow> u8 list" where
  "exec_name path = rev (takeWhile (\<lambda>c. c \<noteq> slash) (rev path))"

definition exec_commit :: "nat \<Rightarrow> u8 list \<Rightarrow> elfhdr \<Rightarrow> u64 \<Rightarrow> u64 \<Rightarrow> u64 \<Rightarrow> u64 \<Rightarrow> ('a life_state_scheme, unit) kern" where
  "exec_commit p path elf pagetable oldsz sz sp =
     bnd (set_tf p (TF_a 1) sp) (\<lambda>_.
     bnd (set_name p (str_ptr (exec_name path))) (\<lambda>_.
     bnd (gets (\<lambda>s. p_pagetable (procs s p))) (\<lambda>oldpagetable.
     bnd (upd_proc p (\<lambda>x. x\<lparr>p_pagetable := pagetable\<rparr>)) (\<lambda>_.
     bnd (upd_proc p (\<lambda>x. x\<lparr>p_sz := sz\<rparr>)) (\<lambda>_.
     bnd (set_tf p TF_epc (e_entry elf)) (\<lambda>_.
     bnd (set_tf p TF_sp sp) (\<lambda>_.
     proc_freepagetable oldpagetable oldsz)))))))"

definition exec_stack :: "u8 list \<Rightarrow> u8 list list \<Rightarrow> elfhdr \<Rightarrow> u64 \<Rightarrow> u64 \<Rightarrow> ('a life_state_scheme, int) kern" where
  "exec_stack path argv elf pagetable sz0 =
     bnd myproc_deref (\<lambda>p.
     bnd (gets (\<lambda>s. p_sz (procs s p))) (\<lambda>oldsz.
     bnd (ret (PGROUNDUP sz0)) (\<lambda>sz0.
     bnd (uvmalloc pagetable sz0 (sz0 + (USERSTACK + 1) * PGSIZE) PTE_W) (\<lambda>sz.
     if sz = 0 then exec_bad pagetable sz0 None else
     bnd (uvmclear pagetable (sz - (USERSTACK + 1) * PGSIZE)) (\<lambda>_.
     bnd (exec_args argv pagetable (sz - USERSTACK * PGSIZE) sz []) (\<lambda>r.
     case r of
       None \<Rightarrow> exec_bad pagetable sz None
     | Some (sp, ustack) \<Rightarrow>
         bnd (ret (sp - of_nat (length ustack + 1) * 8)) (\<lambda>sp1.
         bnd (ret (sp1 - sp1 mod 16)) (\<lambda>sp.
         if sp < sz - USERSTACK * PGSIZE then exec_bad pagetable sz None else
         bnd (copyout pagetable sp (concat (map (le_bytes 8) (ustack @ [0])))) (\<lambda>r.
         if r < 0 then exec_bad pagetable sz None else
         bnd (exec_commit p path elf pagetable oldsz sz sp) (\<lambda>_.
         ret (int (length ustack)))))))))))) "

definition exec :: "u8 list \<Rightarrow> u8 list list \<Rightarrow> ('a life_state_scheme, int) kern" where
  "exec path argv =
     bnd myproc_deref (\<lambda>p.
     bnd begin_op (\<lambda>_.
     bnd (namei path) (\<lambda>r.
     case r of
       None \<Rightarrow> bnd end_op (\<lambda>_. ret (-1))
     | Some ip \<Rightarrow>
         bnd (ilock (Some ip)) (\<lambda>_.
         bnd (readi ip Local 0 elfhdr_size) (\<lambda>(n, d).
         if n \<noteq> int elfhdr_size then exec_bad 0 0 (Some ip) else
         if e_magic (elfhdr_get d) \<noteq> ELF_MAGIC then exec_bad 0 0 (Some ip) else
         bnd (proc_pagetable p) (\<lambda>pagetable.
         if pagetable = 0 then exec_bad 0 0 (Some ip) else
         bnd (exec_load (unat (e_phnum (elfhdr_get d))) ip pagetable (ucast (e_phoff (elfhdr_get d))) 0) (\<lambda>(sz, ok).
         if \<not> ok then exec_bad pagetable sz (Some ip) else
         bnd (iunlockput ip) (\<lambda>_.
         bnd end_op (\<lambda>_.
         exec_stack path argv (elfhdr_get d) pagetable sz)))))))))"

end
