(* ===== verification/Sysproc.thy ===== *)
theory Sysproc
  imports Exec
begin

text \<open>
  How a system call finds its arguments (\<^verbatim>\<open>kernel/syscall.c\<close>, up to the dispatch table) and the
  process-related system calls (\<^verbatim>\<open>kernel/sysproc.c\<close>). A handler's result is the \<open>uint64\<close> that goes to \<open>a0\<close>.
\<close>

subsection \<open>Arguments\<close>

definition fetchaddr :: "u64 \<Rightarrow> ('a life_state_scheme, u64 option) kern" where
  "fetchaddr addr =
     bnd myproc_deref (\<lambda>p.
     bnd (gets (\<lambda>s. procs s p)) (\<lambda>x.
     if addr \<ge> p_sz x \<or> addr + 8 > p_sz x then ret None else
     bnd (copyin (p_pagetable x) addr 8) (\<lambda>(r, bs).
     ret (if r \<noteq> 0 then None else Some (le_word bs)))))"

text \<open>The string comes back without its NUL; the C code returns its length and leaves it in the buffer.\<close>

definition fetchstr :: "u64 \<Rightarrow> nat \<Rightarrow> ('a life_state_scheme, u8 list option) kern" where
  "fetchstr addr lim =
     bnd myproc_deref (\<lambda>p.
     bnd (gets (\<lambda>s. p_pagetable (procs s p))) (\<lambda>pt.
     bnd (copyinstr pt addr lim) (\<lambda>(r, bs).
     ret (if r < 0 then None else Some (takeWhile (\<lambda>b. b \<noteq> 0) bs)))))"

definition argraw :: "nat \<Rightarrow> ('a life_state_scheme, u64) kern" where
  "argraw n =
     bnd myproc_deref (\<lambda>p.
     if n \<le> 5 then get_tf p (TF_a n) else panic ''argraw'')"

definition argint :: "nat \<Rightarrow> ('a life_state_scheme, int) kern" where
  "argint n = bnd (argraw n) (\<lambda>w. ret (sint (ucast w :: u32)))"

definition argaddr :: "nat \<Rightarrow> ('a life_state_scheme, u64) kern" where
  "argaddr n = argraw n"

definition argstr :: "nat \<Rightarrow> nat \<Rightarrow> ('a life_state_scheme, u8 list option) kern" where
  "argstr n lim = bnd (argaddr n) (\<lambda>addr. fetchstr addr lim)"

subsection \<open>Processes\<close>

definition sys_exit :: "('a life_state_scheme, u64) kern" where
  "sys_exit = bnd (argint 0) exit"

definition sys_getpid :: "('a life_state_scheme, u64) kern" where
  "sys_getpid = bnd myproc_deref (\<lambda>p. gets (\<lambda>s. of_int (p_pid (procs s p))))"

definition sys_fork :: "('a life_state_scheme, u64) kern" where
  "sys_fork = bnd fork (\<lambda>r. ret (of_int r))"

definition sys_wait :: "('a life_state_scheme, u64) kern" where
  "sys_wait = bnd (argaddr 0) (\<lambda>p. bnd (wait p) (\<lambda>r. ret (of_int r)))"

definition sys_sbrk :: "('a life_state_scheme, u64) kern" where
  "sys_sbrk =
     bnd (argint 0) (\<lambda>n.
     bnd myproc_deref (\<lambda>p.
     bnd (gets (\<lambda>s. p_sz (procs s p))) (\<lambda>addr.
     bnd (growproc n) (\<lambda>r.
     ret (if r < 0 then -1 else addr)))))"

text \<open>The loop of \<open>sys_sleep\<close>: the ticks that passed are counted modulo \<open>2\<^sup>3\<^sup>2\<close>.\<close>

definition sys_sleep_round :: "int \<Rightarrow> u32 \<Rightarrow> ('a life_state_scheme, u64) kern" where
  "sys_sleep_round n ticks0 =
     bnd (gets ticks) (\<lambda>now.
     if now - ticks0 < of_int n then
       bnd myproc_deref (\<lambda>p.
       bnd (killed p) (\<lambda>dead.
       if dead then bnd (release L_ticks) (\<lambda>_. ret (-1))
       else sleep Ch_ticks L_ticks))
     else bnd (release L_ticks) (\<lambda>_. ret 0))"

definition sys_sleep :: "('a life_state_scheme, u64) kern" where
  "sys_sleep =
     bnd (argint 0) (\<lambda>n.
     bnd (acquire L_ticks) (\<lambda>_.
     bnd (gets ticks) (\<lambda>ticks0.
     sys_sleep_round (if n < 0 then 0 else n) ticks0)))"

definition sys_sleep_resume :: "nat \<Rightarrow> bool \<Rightarrow> int \<Rightarrow> u32 \<Rightarrow> ('a life_state_scheme, u64) kern" where
  "sys_sleep_resume p intena n ticks0 = bnd (sleep_resume p intena L_ticks) (\<lambda>_. sys_sleep_round n ticks0)"

definition sys_kill :: "('a life_state_scheme, u64) kern" where
  "sys_kill = bnd (argint 0) (\<lambda>pid. bnd (kill pid) (\<lambda>r. ret (of_int r)))"

definition sys_uptime :: "('a life_state_scheme, u64) kern" where
  "sys_uptime =
     bnd (acquire L_ticks) (\<lambda>_.
     bnd (gets ticks) (\<lambda>xticks.
     bnd (release L_ticks) (\<lambda>_.
     ret (ucast xticks))))"

end
