(* ===== verification/Sysfile.thy ===== *)
theory Sysfile
  imports Sysproc
begin

text \<open>
  The file-system calls (\<^verbatim>\<open>kernel/sysfile.c\<close>): argument checks, descriptors, links, creation, opening,
  and the marshalling of the arguments of \<open>exec\<close> and \<open>pipe\<close>.
\<close>

definition MAXPATH :: nat where "MAXPATH = 128"

subsection \<open>Descriptors\<close>

definition argfd :: "nat \<Rightarrow> ('a life_state_scheme, (nat \<times> nat) option) kern" where
  "argfd n =
     bnd (argint n) (\<lambda>fd.
     if fd < 0 \<or> fd \<ge> int NOFILE then ret None else
     bnd myproc_deref (\<lambda>p.
     bnd (gets (\<lambda>s. p_ofile (procs s p) (nat fd))) (\<lambda>f.
     ret (case f of None \<Rightarrow> None | Some f \<Rightarrow> Some (nat fd, f)))))"

definition set_fd :: "nat \<Rightarrow> nat \<Rightarrow> nat option \<Rightarrow> ('a life_state_scheme, unit) kern" where
  "set_fd p fd f = upd_proc p (\<lambda>x. x\<lparr>p_ofile := (p_ofile x)(fd := f)\<rparr>)"

definition fdalloc :: "nat \<Rightarrow> ('a life_state_scheme, nat option) kern" where
  "fdalloc f =
     bnd myproc_deref (\<lambda>p.
     bnd (gets (\<lambda>s. first_idx (\<lambda>fd. p_ofile (procs s p) fd = None) [0..<NOFILE])) (\<lambda>r.
     case r of
       None \<Rightarrow> ret None
     | Some fd \<Rightarrow> bnd (set_fd p fd (Some f)) (\<lambda>_. ret (Some fd))))"

definition sys_dup :: "('a life_state_scheme, u64) kern" where
  "sys_dup =
     bnd (argfd 0) (\<lambda>r.
     case r of
       None \<Rightarrow> ret (-1)
     | Some (_, f) \<Rightarrow>
         bnd (fdalloc f) (\<lambda>r.
         case r of
           None \<Rightarrow> ret (-1)
         | Some fd \<Rightarrow> bnd (filedup f) (\<lambda>_. ret (of_nat fd))))"

definition sys_read :: "('a life_state_scheme, u64) kern" where
  "sys_read =
     bnd (argaddr 1) (\<lambda>p.
     bnd (argint 2) (\<lambda>n.
     bnd (argfd 0) (\<lambda>r.
     case r of
       None \<Rightarrow> ret (-1)
     | Some (_, f) \<Rightarrow> bnd (fileread f p n) (\<lambda>v. ret (of_int v)))))"

definition sys_write :: "('a life_state_scheme, u64) kern" where
  "sys_write =
     bnd (argaddr 1) (\<lambda>p.
     bnd (argint 2) (\<lambda>n.
     bnd (argfd 0) (\<lambda>r.
     case r of
       None \<Rightarrow> ret (-1)
     | Some (_, f) \<Rightarrow> bnd (filewrite f p n) (\<lambda>v. ret (of_int v)))))"

definition sys_close :: "('a life_state_scheme, u64) kern" where
  "sys_close =
     bnd (argfd 0) (\<lambda>r.
     case r of
       None \<Rightarrow> ret (-1)
     | Some (fd, f) \<Rightarrow>
         bnd myproc_deref (\<lambda>p.
         bnd (set_fd p fd None) (\<lambda>_.
         bnd (fileclose f) (\<lambda>_.
         ret 0))))"

definition sys_fstat :: "('a life_state_scheme, u64) kern" where
  "sys_fstat =
     bnd (argaddr 1) (\<lambda>st.
     bnd (argfd 0) (\<lambda>r.
     case r of
       None \<Rightarrow> ret (-1)
     | Some (_, f) \<Rightarrow> bnd (filestat f st) (\<lambda>v. ret (of_int v))))"

subsection \<open>Linking and unlinking\<close>

definition fail_op :: "('a life_state_scheme, u64) kern" where
  "fail_op = bnd end_op (\<lambda>_. ret (-1))"

definition sys_link_bad :: "nat \<Rightarrow> ('a life_state_scheme, u64) kern" where
  "sys_link_bad ip =
     bnd (ilock (Some ip)) (\<lambda>_.
     bnd (upd_inode ip (\<lambda>x. x\<lparr>i_nlink := i_nlink x - 1\<rparr>)) (\<lambda>_.
     bnd (iupdate ip) (\<lambda>_.
     bnd (iunlockput ip) (\<lambda>_.
     fail_op))))"

definition sys_link_dir :: "nat \<Rightarrow> u8 list \<Rightarrow> ('a life_state_scheme, u64) kern" where
  "sys_link_dir ip new =
     bnd (nameiparent new (replicate DIRSIZ 0)) (\<lambda>(r, name).
     case r of
       None \<Rightarrow> sys_link_bad ip
     | Some dp \<Rightarrow>
         bnd (ilock (Some dp)) (\<lambda>_.
         bnd (gets (\<lambda>s. (itable s dp, itable s ip))) (\<lambda>(d, x).
         bnd (if i_dev d \<noteq> i_dev x then ret (-1) else dirlink dp name (i_inum x)) (\<lambda>r.
         if r < 0 then bnd (iunlockput dp) (\<lambda>_. sys_link_bad ip) else
         bnd (iunlockput dp) (\<lambda>_.
         bnd (iput ip) (\<lambda>_.
         bnd end_op (\<lambda>_.
         ret 0)))))))"

definition sys_link :: "('a life_state_scheme, u64) kern" where
  "sys_link =
     bnd (argstr 0 MAXPATH) (\<lambda>r0.
     case r0 of None \<Rightarrow> ret (-1) | Some old \<Rightarrow>
     bnd (argstr 1 MAXPATH) (\<lambda>r1.
     case r1 of None \<Rightarrow> ret (-1) | Some new \<Rightarrow>
     bnd begin_op (\<lambda>_.
     bnd (namei old) (\<lambda>r.
     case r of
       None \<Rightarrow> fail_op
     | Some ip \<Rightarrow>
         bnd (ilock (Some ip)) (\<lambda>_.
         bnd (gets (\<lambda>s. i_type (itable s ip))) (\<lambda>t.
         if t = T_DIR then bnd (iunlockput ip) (\<lambda>_. fail_op) else
         bnd (upd_inode ip (\<lambda>x. x\<lparr>i_nlink := i_nlink x + 1\<rparr>)) (\<lambda>_.
         bnd (iupdate ip) (\<lambda>_.
         bnd (iunlock (Some ip)) (\<lambda>_.
         sys_link_dir ip new)))))))))"

definition isdirempty :: "nat \<Rightarrow> ('a life_state_scheme, bool) kern" where
  "isdirempty dp =
     bnd (gets (\<lambda>s. i_size (itable s dp))) (\<lambda>sz.
     bnd (for_find (drop 2 (dir_offs sz)) (\<lambda>off.
       bnd (readi dp Local off dirent_size) (\<lambda>(r, de).
       if r \<noteq> int dirent_size then panic ''isdirempty: readi'' else
       ret (if de_inum de \<noteq> 0 then Some () else None)))) (\<lambda>r.
     ret (r = None)))"

definition unlink_bad :: "nat \<Rightarrow> ('a life_state_scheme, u64) kern" where
  "unlink_bad dp = bnd (iunlockput dp) (\<lambda>_. fail_op)"

definition unlink_entry :: "nat \<Rightarrow> nat \<Rightarrow> nat \<Rightarrow> 16 word \<Rightarrow> ('a life_state_scheme, u64) kern" where
  "unlink_entry dp ip off t =
     bnd (writei dp (From_local (replicate dirent_size 0)) off dirent_size) (\<lambda>r.
     if r \<noteq> int dirent_size then panic ''unlink: writei'' else
     bnd (kwhen (t = T_DIR)
            (bnd (upd_inode dp (\<lambda>x. x\<lparr>i_nlink := i_nlink x - 1\<rparr>)) (\<lambda>_. iupdate dp))) (\<lambda>_.
     bnd (iunlockput dp) (\<lambda>_.
     bnd (upd_inode ip (\<lambda>x. x\<lparr>i_nlink := i_nlink x - 1\<rparr>)) (\<lambda>_.
     bnd (iupdate ip) (\<lambda>_.
     bnd (iunlockput ip) (\<lambda>_.
     bnd end_op (\<lambda>_.
     ret 0)))))))"

definition sys_unlink :: "('a life_state_scheme, u64) kern" where
  "sys_unlink =
     bnd (argstr 0 MAXPATH) (\<lambda>r0.
     case r0 of None \<Rightarrow> ret (-1) | Some path \<Rightarrow>
     bnd begin_op (\<lambda>_.
     bnd (nameiparent path (replicate DIRSIZ 0)) (\<lambda>(r, name).
     case r of
       None \<Rightarrow> fail_op
     | Some dp \<Rightarrow>
         bnd (ilock (Some dp)) (\<lambda>_.
         if namecmp name [46] = 0 \<or> namecmp name [46, 46] = 0 then unlink_bad dp else
         bnd (dirlookup dp name) (\<lambda>r.
         case r of
           None \<Rightarrow> unlink_bad dp
         | Some (ip, off) \<Rightarrow>
             bnd (ilock (Some ip)) (\<lambda>_.
             bnd (gets (\<lambda>s. itable s ip)) (\<lambda>x.
             if i_nlink x <s 1 then panic ''unlink: nlink < 1'' else
             bnd (if i_type x = T_DIR then isdirempty ip else ret True) (\<lambda>ok.
             if \<not> ok then bnd (iunlockput ip) (\<lambda>_. unlink_bad dp)
             else unlink_entry dp ip off (i_type x)))))))))"

subsection \<open>Creating and opening\<close>

definition create_fail :: "nat \<Rightarrow> nat \<Rightarrow> ('a life_state_scheme, nat option) kern" where
  "create_fail dp ip =
     bnd (upd_inode ip (\<lambda>x. x\<lparr>i_nlink := 0\<rparr>)) (\<lambda>_.
     bnd (iupdate ip) (\<lambda>_.
     bnd (iunlockput ip) (\<lambda>_.
     bnd (iunlockput dp) (\<lambda>_.
     ret None))))"

definition create_links :: "nat \<Rightarrow> nat \<Rightarrow> 16 word \<Rightarrow> u8 list \<Rightarrow> ('a life_state_scheme, bool) kern" where
  "create_links dp ip type name =
     bnd (gets (\<lambda>s. (i_inum (itable s ip), i_inum (itable s dp)))) (\<lambda>(i, d).
     bnd (if type = T_DIR then
            bnd (dirlink ip [46] i) (\<lambda>r.
            if r < 0 then ret False else
            bnd (dirlink ip [46, 46] d) (\<lambda>r. ret (\<not> r < 0)))
          else ret True) (\<lambda>ok.
     if \<not> ok then ret False else
     bnd (dirlink dp name i) (\<lambda>r. ret (\<not> r < 0))))"

definition create_new :: "nat \<Rightarrow> 16 word \<Rightarrow> 16 word \<Rightarrow> 16 word \<Rightarrow> u8 list \<Rightarrow> nat \<Rightarrow> ('a life_state_scheme, nat option) kern" where
  "create_new dp type major minor name ip =
     bnd (ilock (Some ip)) (\<lambda>_.
     bnd (upd_inode ip (\<lambda>x. x\<lparr>i_major := major, i_minor := minor, i_nlink := 1\<rparr>)) (\<lambda>_.
     bnd (iupdate ip) (\<lambda>_.
     bnd (create_links dp ip type name) (\<lambda>ok.
     if \<not> ok then create_fail dp ip else
     bnd (kwhen (type = T_DIR)
            (bnd (upd_inode dp (\<lambda>x. x\<lparr>i_nlink := i_nlink x + 1\<rparr>)) (\<lambda>_. iupdate dp))) (\<lambda>_.
     bnd (iunlockput dp) (\<lambda>_.
     ret (Some ip)))))))"

definition create :: "u8 list \<Rightarrow> 16 word \<Rightarrow> 16 word \<Rightarrow> 16 word \<Rightarrow> ('a life_state_scheme, nat option) kern" where
  "create path type major minor =
     bnd (nameiparent path (replicate DIRSIZ 0)) (\<lambda>(r, name).
     case r of
       None \<Rightarrow> ret None
     | Some dp \<Rightarrow>
         bnd (ilock (Some dp)) (\<lambda>_.
         bnd (dirlookup dp name) (\<lambda>r.
         case r of
           Some (ip, _) \<Rightarrow>
             bnd (iunlockput dp) (\<lambda>_.
             bnd (ilock (Some ip)) (\<lambda>_.
             bnd (gets (\<lambda>s. i_type (itable s ip))) (\<lambda>t.
             if type = T_FILE \<and> (t = T_FILE \<or> t = T_DEVICE) then ret (Some ip)
             else bnd (iunlockput ip) (\<lambda>_. ret None))))
         | None \<Rightarrow>
             bnd (gets (\<lambda>s. i_dev (itable s dp))) (\<lambda>dev.
             bnd (ialloc dev type) (\<lambda>r.
             case r of
               None \<Rightarrow> bnd (iunlockput dp) (\<lambda>_. ret None)
             | Some ip \<Rightarrow> create_new dp type major minor name ip)))))"

definition opened_file :: "u32 \<Rightarrow> nat \<Rightarrow> inode \<Rightarrow> kfile \<Rightarrow> kfile" where
  "opened_file omode ip x f =
     (let f = (if i_type x = T_DEVICE then f\<lparr>f_type := FD_DEVICE, f_major := i_major x\<rparr>
               else f\<lparr>f_type := FD_INODE, f_off := 0\<rparr>) in
      f\<lparr>f_ip := ip, f_readable := (omode AND O_WRONLY = 0),
        f_writable := (omode AND O_WRONLY \<noteq> 0 \<or> omode AND O_RDWR \<noteq> 0)\<rparr>)"

definition open_inode :: "u8 list \<Rightarrow> u32 \<Rightarrow> ('a life_state_scheme, nat option) kern" where
  "open_inode path omode =
     (if omode AND O_CREATE \<noteq> 0 then create path T_FILE 0 0
      else
        bnd (namei path) (\<lambda>r.
        case r of
          None \<Rightarrow> ret None
        | Some ip \<Rightarrow>
            bnd (ilock (Some ip)) (\<lambda>_.
            bnd (gets (\<lambda>s. i_type (itable s ip))) (\<lambda>t.
            if t = T_DIR \<and> omode \<noteq> O_RDONLY then bnd (iunlockput ip) (\<lambda>_. ret None)
            else ret (Some ip)))))"

definition open_file :: "nat \<Rightarrow> ('a life_state_scheme, (nat \<times> nat) option) kern" where
  "open_file ip =
     bnd filealloc (\<lambda>r.
     case r of
       None \<Rightarrow> ret None
     | Some f \<Rightarrow>
         bnd (fdalloc f) (\<lambda>r.
         case r of
           None \<Rightarrow> bnd (fileclose f) (\<lambda>_. ret None)
         | Some fd \<Rightarrow> ret (Some (f, fd))))"

definition sys_open :: "('a life_state_scheme, u64) kern" where
  "sys_open =
     bnd (argint 1) (\<lambda>m.
     bnd (argstr 0 MAXPATH) (\<lambda>r0.
     case r0 of None \<Rightarrow> ret (-1) | Some path \<Rightarrow>
     bnd (ret (of_int m)) (\<lambda>omode.
     bnd begin_op (\<lambda>_.
     bnd (open_inode path omode) (\<lambda>r.
     case r of
       None \<Rightarrow> fail_op
     | Some ip \<Rightarrow>
         bnd (gets (\<lambda>s. itable s ip)) (\<lambda>x.
         if i_type x = T_DEVICE \<and> (i_major x <s 0 \<or> sint (i_major x) \<ge> int NDEV) then bnd (iunlockput ip) (\<lambda>_. fail_op) else
         bnd (open_file ip) (\<lambda>r.
         case r of
           None \<Rightarrow> bnd (iunlockput ip) (\<lambda>_. fail_op)
         | Some (f, fd) \<Rightarrow>
             bnd (upd_file f (opened_file omode ip x)) (\<lambda>_.
             bnd (kwhen (omode AND O_TRUNC \<noteq> 0 \<and> i_type x = T_FILE) (itrunc ip)) (\<lambda>_.
             bnd (iunlock (Some ip)) (\<lambda>_.
             bnd end_op (\<lambda>_.
             ret (of_nat fd))))))))))))"

definition close_created :: "nat option \<Rightarrow> ('a life_state_scheme, u64) kern" where
  "close_created r =
     (case r of
        None \<Rightarrow> fail_op
      | Some ip \<Rightarrow> bnd (iunlockput ip) (\<lambda>_. bnd end_op (\<lambda>_. ret 0)))"

definition sys_mkdir :: "('a life_state_scheme, u64) kern" where
  "sys_mkdir =
     bnd begin_op (\<lambda>_.
     bnd (argstr 0 MAXPATH) (\<lambda>r0.
     case r0 of None \<Rightarrow> fail_op | Some path \<Rightarrow>
     bnd (create path T_DIR 0 0) close_created))"

definition sys_mknod :: "('a life_state_scheme, u64) kern" where
  "sys_mknod =
     bnd begin_op (\<lambda>_.
     bnd (argint 1) (\<lambda>major.
     bnd (argint 2) (\<lambda>minor.
     bnd (argstr 0 MAXPATH) (\<lambda>r0.
     case r0 of None \<Rightarrow> fail_op | Some path \<Rightarrow>
     bnd (create path T_DEVICE (of_int major) (of_int minor)) close_created))))"

definition sys_chdir :: "('a life_state_scheme, u64) kern" where
  "sys_chdir =
     bnd myproc_deref (\<lambda>p.
     bnd begin_op (\<lambda>_.
     bnd (argstr 0 MAXPATH) (\<lambda>r0.
     case r0 of None \<Rightarrow> fail_op | Some path \<Rightarrow>
     bnd (namei path) (\<lambda>r.
     case r of
       None \<Rightarrow> fail_op
     | Some ip \<Rightarrow>
         bnd (ilock (Some ip)) (\<lambda>_.
         bnd (gets (\<lambda>s. i_type (itable s ip))) (\<lambda>t.
         if t \<noteq> T_DIR then bnd (iunlockput ip) (\<lambda>_. fail_op) else
         bnd (iunlock (Some ip)) (\<lambda>_.
         bnd (gets (\<lambda>s. p_cwd (procs s p))) (\<lambda>d.
         bnd (iput_cwd d) (\<lambda>_.
         bnd end_op (\<lambda>_.
         bnd (upd_proc p (\<lambda>x. x\<lparr>p_cwd := Some ip\<rparr>)) (\<lambda>_.
         ret 0)))))))))))"

subsection \<open>exec and pipe\<close>

text \<open>The argument loop of \<open>sys_exec\<close>, with \<open>n\<close> rounds left of \<open>MAXARG\<close>. Its value is the pages
  allocated so far with their strings, and whether the loop came to the null pointer.\<close>

primrec exec_fetch :: "nat \<Rightarrow> u64 \<Rightarrow> (u64 \<times> u8 list) list \<Rightarrow> ('a life_state_scheme, (u64 \<times> u8 list) list \<times> bool) kern" where
  "exec_fetch 0 uargv acc = ret (acc, False)"
| "exec_fetch (Suc n) uargv acc =
     bnd (fetchaddr (uargv + 8 * of_nat (length acc))) (\<lambda>r.
     case r of None \<Rightarrow> ret (acc, False) | Some uarg \<Rightarrow>
     if uarg = 0 then ret (acc, True) else
     bnd kalloc (\<lambda>pg.
     if pg = 0 then ret (acc, False) else
     bnd (fetchstr uarg 4096) (\<lambda>r.
     case r of
       None \<Rightarrow> ret (acc @ [(pg, [])], False)
     | Some str \<Rightarrow>
         bnd (modf (\<lambda>s. s\<lparr>mem := wr_bytes (mem s) pg (str @ [0])\<rparr>)) (\<lambda>_.
         exec_fetch n uargv (acc @ [(pg, str)])))))"

definition sys_exec :: "('a life_state_scheme, u64) kern" where
  "sys_exec =
     bnd (argaddr 1) (\<lambda>uargv.
     bnd (argstr 0 MAXPATH) (\<lambda>r0.
     case r0 of None \<Rightarrow> ret (-1) | Some path \<Rightarrow>
     bnd (exec_fetch MAXARG uargv []) (\<lambda>(argv, ok).
     bnd (if ok then exec path (map snd argv) else ret (-1)) (\<lambda>r.
     bnd (for_each argv (\<lambda>a. kfree (fst a))) (\<lambda>_.
     ret (of_int r))))))"

definition pipe_fds :: "nat \<Rightarrow> nat \<Rightarrow> nat \<Rightarrow> ('a life_state_scheme, (nat \<times> nat) option) kern" where
  "pipe_fds p rfile wfile =
     bnd (fdalloc rfile) (\<lambda>r0.
     case r0 of
       None \<Rightarrow> bnd (fileclose rfile) (\<lambda>_. bnd (fileclose wfile) (\<lambda>_. ret None))
     | Some fd0 \<Rightarrow>
         bnd (fdalloc wfile) (\<lambda>r1.
         case r1 of
           None \<Rightarrow>
             bnd (set_fd p fd0 None) (\<lambda>_.
             bnd (fileclose rfile) (\<lambda>_.
             bnd (fileclose wfile) (\<lambda>_.
             ret None)))
         | Some fd1 \<Rightarrow> ret (Some (fd0, fd1))))"

definition sys_pipe :: "('a life_state_scheme, u64) kern" where
  "sys_pipe =
     bnd myproc_deref (\<lambda>p.
     bnd (argaddr 0) (\<lambda>fdarray.
     bnd pipealloc (\<lambda>r.
     case r of None \<Rightarrow> ret (-1) | Some (rfile, wfile) \<Rightarrow>
     bnd (pipe_fds p rfile wfile) (\<lambda>r.
     case r of None \<Rightarrow> ret (-1) | Some (fd0, fd1) \<Rightarrow>
     bnd (gets (\<lambda>s. p_pagetable (procs s p))) (\<lambda>pt.
     bnd (copyout pt fdarray (le_bytes 4 (of_nat fd0 :: u32))) (\<lambda>r0.
     bnd (if r0 < 0 then ret r0 else copyout pt (fdarray + 4) (le_bytes 4 (of_nat fd1 :: u32))) (\<lambda>r1.
     if r1 < 0 then
       bnd (set_fd p fd0 None) (\<lambda>_.
       bnd (set_fd p fd1 None) (\<lambda>_.
       bnd (fileclose rfile) (\<lambda>_.
       bnd (fileclose wfile) (\<lambda>_.
       ret (-1)))))
     else ret 0)))))))"

end
