(* ===== verification/Syscall.thy ===== *)
theory Syscall
  imports Sysfile
begin

text \<open>The system call dispatcher of \<^verbatim>\<open>kernel/syscall.c\<close>, with the numbers of \<^verbatim>\<open>kernel/syscall.h\<close>.\<close>

datatype sysno = SYS_fork | SYS_exit | SYS_wait | SYS_pipe | SYS_read | SYS_kill | SYS_exec | SYS_fstat | SYS_chdir
  | SYS_dup | SYS_getpid | SYS_sbrk | SYS_sleep | SYS_uptime | SYS_open | SYS_write | SYS_mknod | SYS_unlink
  | SYS_link | SYS_mkdir | SYS_close

definition sysnos :: "sysno list" where
  "sysnos = [SYS_fork, SYS_exit, SYS_wait, SYS_pipe, SYS_read, SYS_kill, SYS_exec, SYS_fstat, SYS_chdir,
     SYS_dup, SYS_getpid, SYS_sbrk, SYS_sleep, SYS_uptime, SYS_open, SYS_write, SYS_mknod, SYS_unlink,
     SYS_link, SYS_mkdir, SYS_close]"

text \<open>The number of the call at position \<open>i\<close> of the list is \<open>i + 1\<close>.\<close>

definition sysno_of :: "int \<Rightarrow> sysno option" where
  "sysno_of num = (if num > 0 \<and> num < int (length sysnos) + 1 then Some (sysnos ! nat (num - 1)) else None)"

primrec syscalls :: "sysno \<Rightarrow> ('a life_state_scheme, u64) kern" where
  "syscalls SYS_fork = sys_fork"
| "syscalls SYS_exit = sys_exit"
| "syscalls SYS_wait = sys_wait"
| "syscalls SYS_pipe = sys_pipe"
| "syscalls SYS_read = sys_read"
| "syscalls SYS_kill = sys_kill"
| "syscalls SYS_exec = sys_exec"
| "syscalls SYS_fstat = sys_fstat"
| "syscalls SYS_chdir = sys_chdir"
| "syscalls SYS_dup = sys_dup"
| "syscalls SYS_getpid = sys_getpid"
| "syscalls SYS_sbrk = sys_sbrk"
| "syscalls SYS_sleep = sys_sleep"
| "syscalls SYS_uptime = sys_uptime"
| "syscalls SYS_open = sys_open"
| "syscalls SYS_write = sys_write"
| "syscalls SYS_mknod = sys_mknod"
| "syscalls SYS_unlink = sys_unlink"
| "syscalls SYS_link = sys_link"
| "syscalls SYS_mkdir = sys_mkdir"
| "syscalls SYS_close = sys_close"

text \<open>Register \<open>a7\<close> holds the number, cut to an \<open>int\<close>.\<close>

definition syscall :: "('a life_state_scheme, unit) kern" where
  "syscall =
     bnd myproc_deref (\<lambda>p.
     bnd (get_tf p (TF_a 7)) (\<lambda>w.
     bnd (ret (sint (ucast w :: u32))) (\<lambda>num.
     case sysno_of num of
       Some k \<Rightarrow> bnd (syscalls k) (\<lambda>v. set_tf p (TF_a 0) v)
     | None \<Rightarrow>
         bnd (gets (\<lambda>s. procs s p)) (\<lambda>x.
         bnd (printf (ascii ''%d %s: unknown sys call %d'' @ [10])
                [Num (of_int (p_pid x)), Str (Some (cstr 16 (p_name x))), Num (of_int num)]) (\<lambda>_.
         set_tf p (TF_a 0) (-1))))))"

end
