(* ===== verification/Virtio.thy ===== *)
theory Virtio
  imports Syscall
begin

text \<open>
  \<^verbatim>\<open>kernel/virtio_disk.c\<close>: the disk driver. The descriptor table, the two rings and the driver's own
  book-keeping are the record \<open>vdisk\<close>. An address in a descriptor says what it points at: a command
  header, the data of a buffer, or a status byte.

  The device is not part of the kernel. What its registers show is \<open>vd_reg\<close>, a function of the values
  written to them so far; what it does with a request is a parameter of the lemmas. \<open>virtio_disk_rw\<close> sleeps
  for the device; the code after its sleeps is \<open>virtio_disk_rw_alloc\<close> and \<open>virtio_disk_rw_wait\<close>, entered
  through the two \<open>resume\<close> definitions.
\<close>

definition NUM :: nat where "NUM = 8"

definition VRING_DESC_F_NEXT :: "16 word" where "VRING_DESC_F_NEXT = 1"
definition VRING_DESC_F_WRITE :: "16 word" where "VRING_DESC_F_WRITE = 2"
definition VIRTIO_BLK_T_IN :: u32 where "VIRTIO_BLK_T_IN = 0"
definition VIRTIO_BLK_T_OUT :: u32 where "VIRTIO_BLK_T_OUT = 1"

datatype dma = DMA_null | DMA_op nat | DMA_data nat | DMA_status nat

record virtq_desc =
  vq_addr :: dma
  vq_len :: nat
  vq_flags :: "16 word"
  vq_next :: nat

record virtio_blk_req =
  rq_type :: u32
  rq_sector :: nat

record vdisk =
  vd_desc :: "nat \<Rightarrow> virtq_desc"
  vd_avail_idx :: "16 word"
  vd_avail_ring :: "nat \<Rightarrow> nat"
  vd_used_pos :: "16 word"
  vd_used_ring :: "nat \<Rightarrow> nat"
  vd_free :: "nat \<Rightarrow> bool"
  vd_used_idx :: "16 word"
  vd_info_b :: "nat \<Rightarrow> nat option"
  vd_info_status :: "nat \<Rightarrow> u8"
  vd_ops :: "nat \<Rightarrow> virtio_blk_req"
  vd_writes :: "(nat \<times> u32) list"
  vd_reg :: "(nat \<times> u32) list \<Rightarrow> nat \<Rightarrow> u32"

record vdisk_state = life_state +
  vd :: vdisk

definition upd_vd :: "(vdisk \<Rightarrow> vdisk) \<Rightarrow> ('a vdisk_state_scheme, unit) kern" where
  "upd_vd f = modf (\<lambda>s. s\<lparr>vd := f (vd s)\<rparr>)"

subsection \<open>Registers\<close>

definition VIRTIO_MMIO_MAGIC_VALUE :: nat where "VIRTIO_MMIO_MAGIC_VALUE = 0x000"
definition VIRTIO_MMIO_VERSION :: nat where "VIRTIO_MMIO_VERSION = 0x004"
definition VIRTIO_MMIO_DEVICE_ID :: nat where "VIRTIO_MMIO_DEVICE_ID = 0x008"
definition VIRTIO_MMIO_VENDOR_ID :: nat where "VIRTIO_MMIO_VENDOR_ID = 0x00c"
definition VIRTIO_MMIO_DEVICE_FEATURES :: nat where "VIRTIO_MMIO_DEVICE_FEATURES = 0x010"
definition VIRTIO_MMIO_DRIVER_FEATURES :: nat where "VIRTIO_MMIO_DRIVER_FEATURES = 0x020"
definition VIRTIO_MMIO_QUEUE_SEL :: nat where "VIRTIO_MMIO_QUEUE_SEL = 0x030"
definition VIRTIO_MMIO_QUEUE_NUM_MAX :: nat where "VIRTIO_MMIO_QUEUE_NUM_MAX = 0x034"
definition VIRTIO_MMIO_QUEUE_NUM :: nat where "VIRTIO_MMIO_QUEUE_NUM = 0x038"
definition VIRTIO_MMIO_QUEUE_READY :: nat where "VIRTIO_MMIO_QUEUE_READY = 0x044"
definition VIRTIO_MMIO_QUEUE_NOTIFY :: nat where "VIRTIO_MMIO_QUEUE_NOTIFY = 0x050"
definition VIRTIO_MMIO_INTERRUPT_STATUS :: nat where "VIRTIO_MMIO_INTERRUPT_STATUS = 0x060"
definition VIRTIO_MMIO_INTERRUPT_ACK :: nat where "VIRTIO_MMIO_INTERRUPT_ACK = 0x064"
definition VIRTIO_MMIO_STATUS :: nat where "VIRTIO_MMIO_STATUS = 0x070"
definition VIRTIO_MMIO_QUEUE_DESC_LOW :: nat where "VIRTIO_MMIO_QUEUE_DESC_LOW = 0x080"
definition VIRTIO_MMIO_QUEUE_DESC_HIGH :: nat where "VIRTIO_MMIO_QUEUE_DESC_HIGH = 0x084"
definition VIRTIO_MMIO_DRIVER_DESC_LOW :: nat where "VIRTIO_MMIO_DRIVER_DESC_LOW = 0x090"
definition VIRTIO_MMIO_DRIVER_DESC_HIGH :: nat where "VIRTIO_MMIO_DRIVER_DESC_HIGH = 0x094"
definition VIRTIO_MMIO_DEVICE_DESC_LOW :: nat where "VIRTIO_MMIO_DEVICE_DESC_LOW = 0x0a0"
definition VIRTIO_MMIO_DEVICE_DESC_HIGH :: nat where "VIRTIO_MMIO_DEVICE_DESC_HIGH = 0x0a4"

definition vread :: "nat \<Rightarrow> ('a vdisk_state_scheme, u32) kern" where
  "vread r = gets (\<lambda>s. vd_reg (vd s) (vd_writes (vd s)) r)"

definition vwrite :: "nat \<Rightarrow> u32 \<Rightarrow> ('a vdisk_state_scheme, unit) kern" where
  "vwrite r v = upd_vd (\<lambda>d. d\<lparr>vd_writes := vd_writes d @ [(r, v)]\<rparr>)"

definition drop_features :: "u64 \<Rightarrow> u64" where
  "drop_features f =
     f AND NOT (push_bit 5 1) AND NOT (push_bit 7 1) AND NOT (push_bit 11 1) AND NOT (push_bit 12 1)
       AND NOT (push_bit 27 1) AND NOT (push_bit 29 1) AND NOT (push_bit 28 1)"

definition virtio_disk_probe :: "('a vdisk_state_scheme, unit) kern" where
  "virtio_disk_probe =
     bnd (vread VIRTIO_MMIO_MAGIC_VALUE) (\<lambda>a.
     bnd (vread VIRTIO_MMIO_VERSION) (\<lambda>b.
     bnd (vread VIRTIO_MMIO_DEVICE_ID) (\<lambda>c.
     bnd (vread VIRTIO_MMIO_VENDOR_ID) (\<lambda>d.
     if a \<noteq> 0x74726976 \<or> b \<noteq> 2 \<or> c \<noteq> 2 \<or> d \<noteq> 0x554d4551 then panic ''could not find virtio disk'' else ret ()))))"

definition virtio_disk_negotiate :: "('a vdisk_state_scheme, u32) kern" where
  "virtio_disk_negotiate =
     bnd (vwrite VIRTIO_MMIO_STATUS 0) (\<lambda>_.
     bnd (vwrite VIRTIO_MMIO_STATUS 1) (\<lambda>_.
     bnd (vwrite VIRTIO_MMIO_STATUS (1 OR 2)) (\<lambda>_.
     bnd (vread VIRTIO_MMIO_DEVICE_FEATURES) (\<lambda>f.
     bnd (vwrite VIRTIO_MMIO_DRIVER_FEATURES (ucast (drop_features (ucast f)))) (\<lambda>_.
     bnd (vwrite VIRTIO_MMIO_STATUS (1 OR 2 OR 8)) (\<lambda>_.
     bnd (vread VIRTIO_MMIO_STATUS) (\<lambda>status.
     if status AND 8 = 0 then panic ''virtio disk FEATURES_OK unset'' else ret status)))))))"

definition zero_page :: "u64 \<Rightarrow> ('a kmem_state_scheme, unit) kern" where
  "zero_page pa = modf (\<lambda>s. s\<lparr>mem := memset pa 0 4096 (mem s)\<rparr>)"

definition null_desc :: virtq_desc where
  "null_desc = \<lparr>vq_addr = DMA_null, vq_len = 0, vq_flags = 0, vq_next = 0\<rparr>"

definition virtio_disk_queues :: "('a vdisk_state_scheme, unit) kern" where
  "virtio_disk_queues =
     bnd kalloc (\<lambda>desc.
     bnd kalloc (\<lambda>avail.
     bnd kalloc (\<lambda>used.
     if desc = 0 \<or> avail = 0 \<or> used = 0 then panic ''virtio disk kalloc'' else
     bnd (zero_page desc) (\<lambda>_.
     bnd (zero_page avail) (\<lambda>_.
     bnd (zero_page used) (\<lambda>_.
     bnd (upd_vd (\<lambda>d. d\<lparr>vd_desc := (\<lambda>_. null_desc), vd_avail_idx := 0, vd_avail_ring := (\<lambda>_. 0), vd_used_pos := 0, vd_used_ring := (\<lambda>_. 0)\<rparr>)) (\<lambda>_.
     bnd (vwrite VIRTIO_MMIO_QUEUE_NUM (of_nat NUM)) (\<lambda>_.
     bnd (vwrite VIRTIO_MMIO_QUEUE_DESC_LOW (ucast desc)) (\<lambda>_.
     bnd (vwrite VIRTIO_MMIO_QUEUE_DESC_HIGH (ucast (drop_bit 32 desc))) (\<lambda>_.
     bnd (vwrite VIRTIO_MMIO_DRIVER_DESC_LOW (ucast avail)) (\<lambda>_.
     bnd (vwrite VIRTIO_MMIO_DRIVER_DESC_HIGH (ucast (drop_bit 32 avail))) (\<lambda>_.
     bnd (vwrite VIRTIO_MMIO_DEVICE_DESC_LOW (ucast used)) (\<lambda>_.
     bnd (vwrite VIRTIO_MMIO_DEVICE_DESC_HIGH (ucast (drop_bit 32 used))) (\<lambda>_.
     vwrite VIRTIO_MMIO_QUEUE_READY 1))))))))))))))"

definition virtio_disk_init :: "('a vdisk_state_scheme, unit) kern" where
  "virtio_disk_init =
     bnd (initlock L_vdisk ''virtio_disk'') (\<lambda>_.
     bnd virtio_disk_probe (\<lambda>_.
     bnd virtio_disk_negotiate (\<lambda>status.
     bnd (vwrite VIRTIO_MMIO_QUEUE_SEL 0) (\<lambda>_.
     bnd (vread VIRTIO_MMIO_QUEUE_READY) (\<lambda>ready.
     if ready \<noteq> 0 then panic ''virtio disk should not be ready'' else
     bnd (vread VIRTIO_MMIO_QUEUE_NUM_MAX) (\<lambda>m.
     if m = 0 then panic ''virtio disk has no queue 0'' else
     if m < of_nat NUM then panic ''virtio disk max queue too short'' else
     bnd virtio_disk_queues (\<lambda>_.
     bnd (upd_vd (\<lambda>d. d\<lparr>vd_free := (\<lambda>i. i < NUM \<or> vd_free d i)\<rparr>)) (\<lambda>_.
     vwrite VIRTIO_MMIO_STATUS (status OR 4)))))))))"

subsection \<open>Descriptors\<close>

definition alloc_desc :: "('a vdisk_state_scheme, nat option) kern" where
  "alloc_desc =
     bnd (gets (\<lambda>s. first_idx (vd_free (vd s)) [0..<NUM])) (\<lambda>r.
     case r of
       None \<Rightarrow> ret None
     | Some i \<Rightarrow> bnd (upd_vd (\<lambda>d. d\<lparr>vd_free := (vd_free d)(i := False)\<rparr>)) (\<lambda>_. ret (Some i)))"

definition free_desc :: "nat \<Rightarrow> ('a vdisk_state_scheme, unit) kern" where
  "free_desc i =
     (if i \<ge> NUM then panic ''free_desc 1'' else
      bnd (gets (\<lambda>s. vd_free (vd s) i)) (\<lambda>f.
      if f then panic ''free_desc 2'' else
      bnd (upd_vd (\<lambda>d. d\<lparr>vd_desc := (vd_desc d)(i := null_desc)\<rparr>)) (\<lambda>_.
      bnd (upd_vd (\<lambda>d. d\<lparr>vd_free := (vd_free d)(i := True)\<rparr>)) (\<lambda>_.
      wakeup Ch_disk_free))))"

text \<open>A chain that came back to a descriptor it has freed would panic in \<open>free_desc\<close>, so it has at
  most \<open>NUM\<close> descriptors.\<close>

primrec free_chain_loop :: "nat \<Rightarrow> nat \<Rightarrow> ('a vdisk_state_scheme, unit) kern" where
  "free_chain_loop 0 i = panic ''free_desc 2''"
| "free_chain_loop (Suc n) i =
     bnd (gets (\<lambda>s. vd_desc (vd s) i)) (\<lambda>x.
     bnd (free_desc i) (\<lambda>_.
     if vq_flags x AND VRING_DESC_F_NEXT \<noteq> 0 then free_chain_loop n (vq_next x) else ret ()))"

definition free_chain :: "nat \<Rightarrow> ('a vdisk_state_scheme, unit) kern" where
  "free_chain i = free_chain_loop (Suc NUM) i"

definition alloc3_desc :: "('a vdisk_state_scheme, (nat \<times> nat \<times> nat) option) kern" where
  "alloc3_desc =
     bnd alloc_desc (\<lambda>r0.
     case r0 of None \<Rightarrow> ret None | Some i0 \<Rightarrow>
     bnd alloc_desc (\<lambda>r1.
     case r1 of None \<Rightarrow> bnd (free_desc i0) (\<lambda>_. ret None) | Some i1 \<Rightarrow>
     bnd alloc_desc (\<lambda>r2.
     case r2 of None \<Rightarrow> bnd (free_desc i0) (\<lambda>_. bnd (free_desc i1) (\<lambda>_. ret None)) | Some i2 \<Rightarrow>
     ret (Some (i0, i1, i2)))))"

subsection \<open>Requests\<close>

definition format_chain :: "nat \<Rightarrow> bool \<Rightarrow> nat \<Rightarrow> nat \<Rightarrow> nat \<Rightarrow> nat \<Rightarrow> vdisk \<Rightarrow> vdisk" where
  "format_chain b write sector i0 i1 i2 d =
     d\<lparr>vd_ops := (vd_ops d)(i0 := \<lparr>rq_type = (if write then VIRTIO_BLK_T_OUT else VIRTIO_BLK_T_IN), rq_sector = sector\<rparr>),
       vd_desc := (vd_desc d)
         (i0 := \<lparr>vq_addr = DMA_op i0, vq_len = 16, vq_flags = VRING_DESC_F_NEXT, vq_next = i1\<rparr>,
          i1 := \<lparr>vq_addr = DMA_data b, vq_len = BSIZE, vq_flags = (if write then 0 else VRING_DESC_F_WRITE) OR VRING_DESC_F_NEXT, vq_next = i2\<rparr>,
          i2 := \<lparr>vq_addr = DMA_status i0, vq_len = 1, vq_flags = VRING_DESC_F_WRITE, vq_next = 0\<rparr>),
       vd_info_status := (vd_info_status d)(i0 := 0xff),
       vd_info_b := (vd_info_b d)(i0 := Some b)\<rparr>"

definition virtio_submit :: "nat \<Rightarrow> bool \<Rightarrow> nat \<Rightarrow> nat \<Rightarrow> nat \<Rightarrow> ('a vdisk_state_scheme, unit) kern" where
  "virtio_submit b write i0 i1 i2 =
     bnd (gets (\<lambda>s. b_blockno (bufs s b) * (BSIZE div 512))) (\<lambda>sector.
     bnd (upd_vd (format_chain b write sector i0 i1 i2)) (\<lambda>_.
     bnd (upd_buf b (\<lambda>x. x\<lparr>b_disk := True\<rparr>)) (\<lambda>_.
     bnd (upd_vd (\<lambda>d. d\<lparr>vd_avail_ring := (vd_avail_ring d)(unat (vd_avail_idx d) mod NUM := i0)\<rparr>)) (\<lambda>_.
     bnd (upd_vd (\<lambda>d. d\<lparr>vd_avail_idx := vd_avail_idx d + 1\<rparr>)) (\<lambda>_.
     vwrite VIRTIO_MMIO_QUEUE_NOTIFY 0)))))"

definition virtio_disk_rw_wait :: "nat \<Rightarrow> nat \<Rightarrow> ('a vdisk_state_scheme, unit) kern" where
  "virtio_disk_rw_wait b i0 =
     bnd (gets (\<lambda>s. b_disk (bufs s b))) (\<lambda>busy.
     if busy then sleep (Ch_buf b) L_vdisk else
     bnd (upd_vd (\<lambda>d. d\<lparr>vd_info_b := (vd_info_b d)(i0 := None)\<rparr>)) (\<lambda>_.
     bnd (free_chain i0) (\<lambda>_.
     release L_vdisk)))"

definition virtio_disk_rw_alloc :: "nat \<Rightarrow> bool \<Rightarrow> ('a vdisk_state_scheme, unit) kern" where
  "virtio_disk_rw_alloc b write =
     bnd alloc3_desc (\<lambda>r.
     case r of
       None \<Rightarrow> sleep Ch_disk_free L_vdisk
     | Some (i0, i1, i2) \<Rightarrow>
         bnd (virtio_submit b write i0 i1 i2) (\<lambda>_.
         virtio_disk_rw_wait b i0))"

definition virtio_disk_rw :: "nat \<Rightarrow> bool \<Rightarrow> ('a vdisk_state_scheme, unit) kern" where
  "virtio_disk_rw b write = bnd (acquire L_vdisk) (\<lambda>_. virtio_disk_rw_alloc b write)"

definition virtio_disk_rw_alloc_resume :: "nat \<Rightarrow> bool \<Rightarrow> nat \<Rightarrow> bool \<Rightarrow> ('a vdisk_state_scheme, unit) kern" where
  "virtio_disk_rw_alloc_resume p intena b write = bnd (sleep_resume p intena L_vdisk) (\<lambda>_. virtio_disk_rw_alloc b write)"

definition virtio_disk_rw_wait_resume :: "nat \<Rightarrow> bool \<Rightarrow> nat \<Rightarrow> nat \<Rightarrow> ('a vdisk_state_scheme, unit) kern" where
  "virtio_disk_rw_wait_resume p intena b i0 = bnd (sleep_resume p intena L_vdisk) (\<lambda>_. virtio_disk_rw_wait b i0)"

subsection \<open>The interrupt handler\<close>

definition virtio_complete :: "('a vdisk_state_scheme, unit) kern" where
  "virtio_complete =
     bnd (gets vd) (\<lambda>d.
     let id = vd_used_ring d (unat (vd_used_idx d) mod NUM) in
     if vd_info_status d id \<noteq> 0 then panic ''virtio_disk_intr status'' else
     case vd_info_b d id of
       None \<Rightarrow> panic ''kerneltrap''
     | Some b \<Rightarrow>
         bnd (upd_buf b (\<lambda>x. x\<lparr>b_disk := False\<rparr>)) (\<lambda>_.
         bnd (wakeup (Ch_buf b)) (\<lambda>_.
         upd_vd (\<lambda>d. d\<lparr>vd_used_idx := vd_used_idx d + 1\<rparr>))))"

text \<open>The loop runs once for every entry between the driver's position and the device's.\<close>

primrec virtio_intr_loop :: "nat \<Rightarrow> ('a vdisk_state_scheme, unit) kern" where
  "virtio_intr_loop 0 = ret ()"
| "virtio_intr_loop (Suc n) = bnd virtio_complete (\<lambda>_. virtio_intr_loop n)"

definition virtio_disk_intr :: "('a vdisk_state_scheme, unit) kern" where
  "virtio_disk_intr =
     bnd (acquire L_vdisk) (\<lambda>_.
     bnd (vread VIRTIO_MMIO_INTERRUPT_STATUS) (\<lambda>st.
     bnd (vwrite VIRTIO_MMIO_INTERRUPT_ACK (st AND 3)) (\<lambda>_.
     bnd (gets vd) (\<lambda>d.
     bnd (virtio_intr_loop (unat (vd_used_pos d - vd_used_idx d))) (\<lambda>_.
     release L_vdisk)))))"

end
