(* ===== verification/Trap.thy ===== *)
theory Trap
  imports Virtio
begin

text \<open>
  \<^verbatim>\<open>kernel/trap.c\<close> and \<^verbatim>\<open>kernel/plic.c\<close>: what the kernel does on a trap from user or kernel mode, the
  way back to user space, and \<open>forkret\<close> of \<^verbatim>\<open>kernel/proc.c\<close>.

  The supervisor registers are fields of the state. \<open>usertrapret\<close> ends in the jump to \<open>userret\<close> of the
  trampoline; its value is the \<open>satp\<close> passed there. The PLIC is the list of interrupts it will hand out and the
  writes to its registers. The addresses of \<open>uservec\<close>, \<open>kernelvec\<close> and \<open>usertrap\<close>, and the kernel's
  \<open>satp\<close>, are fields too. The code after a yield is \<open>usertrap_resume\<close> and \<open>kerneltrap_resume\<close>.
\<close>

record trap_state = vdisk_state +
  scause :: u64
  sepc :: u64
  stval :: u64
  stvec :: u64
  satp :: u64
  stimecmp :: u64
  rdtime :: u64
  kernelvec_pc :: u64
  uservec_off :: u64
  usertrap_pc :: u64
  plic_pending :: "nat list"
  plic_writes :: "(u64 \<times> u32) list"

definition SSTATUS_SPP :: u64 where "SSTATUS_SPP = push_bit 8 1"
definition SSTATUS_SPIE :: u64 where "SSTATUS_SPIE = push_bit 5 1"
definition SATP_SV39 :: u64 where "SATP_SV39 = push_bit 60 8"
definition MAKE_SATP :: "u64 \<Rightarrow> u64" where "MAKE_SATP pagetable = SATP_SV39 OR drop_bit 12 pagetable"
definition UART0_IRQ :: nat where "UART0_IRQ = 10"
definition VIRTIO0_IRQ :: nat where "VIRTIO0_IRQ = 1"

subsection \<open>The interrupt controller\<close>

definition PLIC_SENABLE :: "nat \<Rightarrow> u64" where "PLIC_SENABLE hart = PLIC + 0x2080 + of_nat hart * 0x100"
definition PLIC_SPRIORITY :: "nat \<Rightarrow> u64" where "PLIC_SPRIORITY hart = PLIC + 0x201000 + of_nat hart * 0x2000"
definition PLIC_SCLAIM :: "nat \<Rightarrow> u64" where "PLIC_SCLAIM hart = PLIC + 0x201004 + of_nat hart * 0x2000"

definition plic_write :: "u64 \<Rightarrow> u32 \<Rightarrow> ('a trap_state_scheme, unit) kern" where
  "plic_write a v = modf (\<lambda>s. s\<lparr>plic_writes := plic_writes s @ [(a, v)]\<rparr>)"

definition plicinit :: "('a trap_state_scheme, unit) kern" where
  "plicinit =
     bnd (plic_write (PLIC + of_nat UART0_IRQ * 4) 1) (\<lambda>_.
     plic_write (PLIC + of_nat VIRTIO0_IRQ * 4) 1)"

definition plicinithart :: "('a trap_state_scheme, unit) kern" where
  "plicinithart =
     bnd (gets cpuid) (\<lambda>hart.
     bnd (plic_write (PLIC_SENABLE hart) (push_bit UART0_IRQ 1 OR push_bit VIRTIO0_IRQ 1)) (\<lambda>_.
     plic_write (PLIC_SPRIORITY hart) 0))"

definition plic_claim :: "('a trap_state_scheme, nat) kern" where
  "plic_claim =
     bnd (gets plic_pending) (\<lambda>l.
     case l of
       [] \<Rightarrow> ret 0
     | i # is \<Rightarrow> bnd (modf (\<lambda>s. s\<lparr>plic_pending := is\<rparr>)) (\<lambda>_. ret i))"

definition plic_complete :: "nat \<Rightarrow> ('a trap_state_scheme, unit) kern" where
  "plic_complete irq = bnd (gets cpuid) (\<lambda>hart. plic_write (PLIC_SCLAIM hart) (of_nat irq))"

subsection \<open>Interrupts\<close>

definition trapinit :: "('a trap_state_scheme, unit) kern" where
  "trapinit = initlock L_ticks ''time''"

definition trapinithart :: "('a trap_state_scheme, unit) kern" where
  "trapinithart = modf (\<lambda>s. s\<lparr>stvec := kernelvec_pc s\<rparr>)"

definition clockintr :: "('a trap_state_scheme, unit) kern" where
  "clockintr =
     bnd (gets cpuid) (\<lambda>hart.
     bnd (kwhen (hart = 0)
       (bnd (acquire L_ticks) (\<lambda>_.
        bnd (modf (\<lambda>s. s\<lparr>ticks := ticks s + 1\<rparr>)) (\<lambda>_.
        bnd (wakeup Ch_ticks) (\<lambda>_.
        release L_ticks))))) (\<lambda>_.
     modf (\<lambda>s. s\<lparr>stimecmp := rdtime s + 1000000\<rparr>)))"

definition external_intr :: "('a trap_state_scheme, unit) kern" where
  "external_intr =
     bnd plic_claim (\<lambda>irq.
     bnd (if irq = UART0_IRQ then uartintr
          else if irq = VIRTIO0_IRQ then virtio_disk_intr
          else if irq \<noteq> 0 then bnd (printf (ascii ''unexpected interrupt irq=%d'' @ [10]) [Num (of_nat irq)]) (\<lambda>_. ret ())
          else ret ()) (\<lambda>_.
     kwhen (irq \<noteq> 0) (plic_complete irq)))"

definition devintr :: "('a trap_state_scheme, nat) kern" where
  "devintr =
     bnd (gets scause) (\<lambda>c.
     if c = 0x8000000000000009 then bnd external_intr (\<lambda>_. ret 1)
     else if c = 0x8000000000000005 then bnd clockintr (\<lambda>_. ret 2)
     else ret 0)"

subsection \<open>Traps from user mode\<close>

definition usertrapret :: "('a trap_state_scheme, u64) kern" where
  "usertrapret =
     bnd myproc_deref (\<lambda>p.
     bnd intr_off (\<lambda>_.
     bnd (modf (\<lambda>s. s\<lparr>stvec := TRAMPOLINE + uservec_off s\<rparr>)) (\<lambda>_.
     bnd (gets satp) (\<lambda>k. bnd (set_tf p TF_kernel_satp k) (\<lambda>_.
     bnd (gets (\<lambda>s. p_kstack (procs s p))) (\<lambda>ks. bnd (set_tf p TF_kernel_sp (ks + PGSIZE)) (\<lambda>_.
     bnd (gets usertrap_pc) (\<lambda>pc. bnd (set_tf p TF_kernel_trap pc) (\<lambda>_.
     bnd (gets tp) (\<lambda>h. bnd (set_tf p TF_kernel_hartid (of_nat h)) (\<lambda>_.
     bnd (modf (\<lambda>s. s\<lparr>sstatus := (sstatus s AND NOT SSTATUS_SPP) OR SSTATUS_SPIE\<rparr>)) (\<lambda>_.
     bnd (get_tf p TF_epc) (\<lambda>pc.
     bnd (modf (\<lambda>s. s\<lparr>sepc := pc\<rparr>)) (\<lambda>_.
     gets (\<lambda>s. MAKE_SATP (p_pagetable (procs s p)))))))))))))))))"

definition exit_if_killed :: "nat \<Rightarrow> ('a life_state_scheme, unit) kern" where
  "exit_if_killed p = bnd (killed p) (\<lambda>k. if k then exit (-1) else ret ())"

definition usertrap_syscall :: "nat \<Rightarrow> ('a trap_state_scheme, nat) kern" where
  "usertrap_syscall p =
     bnd (exit_if_killed p) (\<lambda>_.
     bnd (get_tf p TF_epc) (\<lambda>pc.
     bnd (set_tf p TF_epc (pc + 4)) (\<lambda>_.
     bnd intr_on (\<lambda>_.
     bnd syscall (\<lambda>_.
     ret 0)))))"

definition usertrap_other :: "nat \<Rightarrow> ('a trap_state_scheme, nat) kern" where
  "usertrap_other p =
     bnd devintr (\<lambda>which_dev.
     if which_dev \<noteq> 0 then ret which_dev else
     bnd (gets (\<lambda>s. (scause s, sepc s, stval s, p_pid (procs s p)))) (\<lambda>(c, e, v, pid).
     bnd (printf (ascii ''usertrap(): unexpected scause 0x%lx pid=%d'' @ [10]) [Num c, Num (of_int pid)]) (\<lambda>_.
     bnd (printf (ascii ''            sepc=0x%lx stval=0x%lx'' @ [10]) [Num e, Num v]) (\<lambda>_.
     bnd (setkilled p) (\<lambda>_.
     ret 0)))))"

definition usertrap :: "('a trap_state_scheme, u64) kern" where
  "usertrap =
     bnd (gets (\<lambda>s. sstatus s AND SSTATUS_SPP \<noteq> 0)) (\<lambda>spp.
     if spp then panic ''usertrap: not from user mode'' else
     bnd (modf (\<lambda>s. s\<lparr>stvec := kernelvec_pc s\<rparr>)) (\<lambda>_.
     bnd myproc_deref (\<lambda>p.
     bnd (gets sepc) (\<lambda>pc.
     bnd (set_tf p TF_epc pc) (\<lambda>_.
     bnd (gets scause) (\<lambda>c.
     bnd (if c = 8 then usertrap_syscall p else usertrap_other p) (\<lambda>which_dev.
     bnd (exit_if_killed p) (\<lambda>_.
     if which_dev = 2 then bnd yield (\<lambda>_. usertrapret) else usertrapret))))))))"

definition usertrap_resume :: "nat \<Rightarrow> bool \<Rightarrow> ('a trap_state_scheme, u64) kern" where
  "usertrap_resume p intena = bnd (yield_resume p intena) (\<lambda>_. usertrapret)"

subsection \<open>Traps from the kernel\<close>

definition kerneltrap_end :: "u64 \<Rightarrow> u64 \<Rightarrow> ('a trap_state_scheme, unit) kern" where
  "kerneltrap_end pc st = modf (\<lambda>s. s\<lparr>sepc := pc, sstatus := st\<rparr>)"

definition kerneltrap :: "('a trap_state_scheme, unit) kern" where
  "kerneltrap =
     bnd (gets (\<lambda>s. (sepc s, sstatus s, scause s))) (\<lambda>(pc, st, c).
     if st AND SSTATUS_SPP = 0 then panic ''kerneltrap: not from supervisor mode'' else
     bnd (gets intr_get) (\<lambda>i.
     if i then panic ''kerneltrap: interrupts enabled'' else
     bnd devintr (\<lambda>which_dev.
     if which_dev = 0 then
       bnd (gets (\<lambda>s. (sepc s, stval s))) (\<lambda>(e, v).
       bnd (printf (ascii ''scause=0x%lx sepc=0x%lx stval=0x%lx'' @ [10]) [Num c, Num e, Num v]) (\<lambda>_.
       panic ''kerneltrap''))
     else
       bnd (if which_dev = 2 then bnd myproc (\<lambda>p. ret (p \<noteq> None)) else ret False) (\<lambda>y.
       bnd (kwhen y yield) (\<lambda>_.
       kerneltrap_end pc st)))))"

definition kerneltrap_resume :: "nat \<Rightarrow> bool \<Rightarrow> u64 \<Rightarrow> u64 \<Rightarrow> ('a trap_state_scheme, unit) kern" where
  "kerneltrap_resume p intena pc st = bnd (yield_resume p intena) (\<lambda>_. kerneltrap_end pc st)"

subsection \<open>The first run of a process\<close>

definition forkret :: "('a trap_state_scheme, u64) kern" where
  "forkret =
     bnd myproc_deref (\<lambda>p.
     bnd (release (L_proc p)) (\<lambda>_.
     bnd (gets first_run) (\<lambda>f.
     bnd (kwhen f (bnd (fsinit ROOTDEV) (\<lambda>_. modf (\<lambda>s. s\<lparr>first_run := False\<rparr>)))) (\<lambda>_.
     usertrapret))))"

end
