(* ===== verification/Lock_Conc.thy ===== *)
theory Lock_Conc
  imports Spinlock
begin

text \<open>
  Spinlocks with all harts running at once: the memory accesses of \<open>acquire\<close> and \<open>release\<close>
  (\<^verbatim>\<open>kernel/spinlock.c\<close>) on one lock, interleaved one at a time in any order. A hart's program counter names the access it
  makes next. \<open>holding\<close> reads the two fields in two accesses; the test-and-set is one. Each hart has its
  own status register and its own entry of \<open>cpus\<close>, in a machine state of its own, on which \<open>acquire\<close> starts with
  \<open>push_off\<close> and \<open>release\<close> ends with \<open>pop_off\<close>; no other hart reads them, so each of the two calls is one step.
\<close>

datatype lock_pc =
    Out | A_locked | A_cpu | A_swap | A_own | Crit | R_locked | R_cpu | R_clear | R_store | R_pop | Panicked

record conc =
  conc_lk :: spinlock
  conc_hart :: "nat \<Rightarrow> machine"
  conc_pc :: "nat \<Rightarrow> lock_pc"

definition goto :: "nat \<Rightarrow> lock_pc \<Rightarrow> conc \<Rightarrow> conc" where
  "goto h l c = c\<lparr>conc_pc := (conc_pc c)(h := l)\<rparr>"

definition on_hart :: "nat \<Rightarrow> (machine, unit) kern \<Rightarrow> lock_pc \<Rightarrow> conc \<Rightarrow> conc" where
  "on_hart h k l c =
     (case k (conc_hart c h) of
        Ret _ m \<Rightarrow> goto h l (c\<lparr>conc_hart := (conc_hart c)(h := m)\<rparr>)
      | _ \<Rightarrow> goto h Panicked c)"

text \<open>The next access of hart \<open>h\<close>. Outside, it calls \<open>acquire\<close>; in its critical section, \<open>release\<close>.\<close>

definition hart_step :: "nat \<Rightarrow> conc \<Rightarrow> conc" where
  "hart_step h c = (let l = conc_lk c in
     case conc_pc c h of
       Out \<Rightarrow> on_hart h push_off A_locked c
     | A_locked \<Rightarrow> goto h (if lk_locked l then A_cpu else A_swap) c
     | A_cpu \<Rightarrow> goto h (if lk_cpu l = Some h then Panicked else A_swap) c
     | A_swap \<Rightarrow> goto h (if lk_locked l then A_swap else A_own) (c\<lparr>conc_lk := l\<lparr>lk_locked := True\<rparr>\<rparr>)
     | A_own \<Rightarrow> goto h Crit (c\<lparr>conc_lk := l\<lparr>lk_cpu := Some h\<rparr>\<rparr>)
     | Crit \<Rightarrow> goto h R_locked c
     | R_locked \<Rightarrow> goto h (if lk_locked l then R_cpu else Panicked) c
     | R_cpu \<Rightarrow> goto h (if lk_cpu l = Some h then R_clear else Panicked) c
     | R_clear \<Rightarrow> goto h R_store (c\<lparr>conc_lk := l\<lparr>lk_cpu := None\<rparr>\<rparr>)
     | R_store \<Rightarrow> goto h R_pop (c\<lparr>conc_lk := l\<lparr>lk_locked := False\<rparr>\<rparr>)
     | R_pop \<Rightarrow> on_hart h pop_off Out c
     | Panicked \<Rightarrow> c)"

definition conc_init :: "string \<Rightarrow> (nat \<Rightarrow> machine) \<Rightarrow> conc" where
  "conc_init nm ms =
     \<lparr>conc_lk = \<lparr>lk_locked = False, lk_name = nm, lk_cpu = None\<rparr>, conc_hart = ms, conc_pc = (\<lambda>_. Out)\<rparr>"

text \<open>\<open>noff_of\<close> is the depth of a hart's \<open>push_off\<close> nesting. The harts start at depth 0, with interrupts on or off.\<close>

definition noff_of :: "machine \<Rightarrow> int" where
  "noff_of m = c_noff (cpus m (mycpu m))"

inductive conc_reach :: "string \<Rightarrow> conc \<Rightarrow> bool" for nm where
  init: "(\<And>h. noff_of (ms h) = 0) \<Longrightarrow> conc_reach nm (conc_init nm ms)"
| step: "conc_reach nm c \<Longrightarrow> conc_reach nm (hart_step h c)"

lemma conc_reach_run:
  assumes "\<And>h. noff_of (ms h) = 0"
  shows "conc_reach nm (fold hart_step hs (conc_init nm ms))"
proof (induction hs rule: rev_induct)
  case Nil
  then show ?case using assms by (simp add: conc_reach.init)
next
  case (snoc h hs)
  then show ?case using conc_reach.step [of nm _ h] by simp
qed

text \<open>With the lock free and no other hart running, the accesses of \<open>acquire\<close> and \<open>release\<close> leave the lock as the
  sequential definitions do.\<close>

lemma acquire_alone:
  assumes "lock_free lk s"
  shows "conc_lk ((hart_step (mycpu s) ^^ 3) \<lparr>conc_lk = locks s lk, conc_hart = ms, conc_pc = f(mycpu s := A_locked)\<rparr>) = locks (acquired lk s) lk"
  using assms by (simp add: numeral_3_eq_3 hart_step_def goto_def Let_def lock_free_def acquired_def)

lemma release_alone:
  assumes "lock_free lk s"
  shows "conc_lk ((hart_step (mycpu s) ^^ 4) \<lparr>conc_lk = locks (acquired lk s) lk, conc_hart = ms, conc_pc = f(mycpu s := R_locked)\<rparr>) = locks s lk"
  using assms by (simp add: eval_nat_numeral hart_step_def goto_def Let_def lock_free_def acquired_def)

subsection \<open>Mutual exclusion\<close>

definition inside :: "lock_pc \<Rightarrow> bool" where
  "inside l \<longleftrightarrow> l \<in> {A_own, Crit, R_locked, R_cpu, R_clear, R_store}"

definition owning :: "lock_pc \<Rightarrow> bool" where
  "owning l \<longleftrightarrow> l \<in> {Crit, R_locked, R_cpu, R_clear}"

text \<open>The invariant: the flag is set exactly while some hart is inside, that hart is the only one, the
  owner field is its number from its own assignment to its own clearing, a hart has its interrupts
  off, at depth 1, from \<open>push_off\<close> to \<open>pop_off\<close>, and nobody has panicked.\<close>

definition hart_ok :: "lock_pc \<Rightarrow> machine \<Rightarrow> bool" where
  "hart_ok l m \<longleftrightarrow> (if l = Out then noff_of m = 0 else noff_of m = 1 \<and> \<not> intr_get m)"

lemma push_off_ok: "hart_ok Out m \<Longrightarrow> \<exists>m'. push_off m = Ret () m' \<and> (l \<noteq> Out \<longrightarrow> hart_ok l m')"
  by (simp add: push_off_run hart_ok_def noff_of_def pushed_def pushed_cpu_def mach_defs Let_def intr_get_def)

lemma pop_off_ok: "hart_ok R_pop m \<Longrightarrow> \<exists>m'. pop_off m = Ret () m' \<and> hart_ok Out m'"
  by (auto simp: hart_ok_def noff_of_def pop_off_def mach_defs kern_simps intr_get_def)

definition conc_inv :: "conc \<Rightarrow> bool" where
  "conc_inv c \<longleftrightarrow> (\<exists>ow.
     lk_locked (conc_lk c) = (ow \<noteq> None) \<and>
     (\<forall>h. inside (conc_pc c h) = (ow = Some h)) \<and>
     (\<forall>h. (lk_cpu (conc_lk c) = Some h) = owning (conc_pc c h)) \<and>
     (\<forall>h. hart_ok (conc_pc c h) (conc_hart c h)) \<and>
     (\<forall>h. conc_pc c h \<noteq> Panicked))"

lemma conc_invI:
  assumes "lk_locked (conc_lk c) = (ow \<noteq> None)" "\<And>h. inside (conc_pc c h) = (ow = Some h)"
    "\<And>h. (lk_cpu (conc_lk c) = Some h) = owning (conc_pc c h)" "\<And>h. hart_ok (conc_pc c h) (conc_hart c h)"
    "\<And>h. conc_pc c h \<noteq> Panicked"
  shows "conc_inv c"
  using assms by (auto simp: conc_inv_def)

lemma owning_inside: "owning l \<Longrightarrow> inside l"
  by (auto simp: owning_def inside_def)

lemma pc_goto: "conc_pc (goto h l c) k = (if k = h then l else conc_pc c k)" "conc_lk (goto h l c) = conc_lk c"
  "conc_hart (goto h l c) = conc_hart c"
  by (simp_all add: goto_def)

lemma pc_region_simps [simp]:
  "\<not> inside Out" "\<not> inside A_locked" "\<not> inside A_cpu" "\<not> inside A_swap" "inside A_own" "inside Crit"
  "inside R_locked" "inside R_cpu" "inside R_clear" "inside R_store" "\<not> inside Panicked"
  "\<not> owning Out" "\<not> owning A_locked" "\<not> owning A_cpu" "\<not> owning A_swap" "\<not> owning A_own" "owning Crit"
  "owning R_locked" "owning R_cpu" "owning R_clear" "\<not> owning R_store" "\<not> inside R_pop" "\<not> owning R_pop" "\<not> owning Panicked"
  by (simp_all add: inside_def owning_def)

lemmas conc_simps = hart_step_def Let_def pc_goto

lemma on_hart_Ret:
  "k (conc_hart c h) = Ret () m \<Longrightarrow> on_hart h k l c = goto h l (c\<lparr>conc_hart := (conc_hart c)(h := m)\<rparr>)"
  by (simp add: on_hart_def)

text \<open>\<open>push_off\<close> and \<open>pop_off\<close> do not panic here; a step leaves the other harts' registers alone.\<close>

lemma hart_step_hart:
  assumes ok: "hart_ok (conc_pc c h) (conc_hart c h)"
  obtains m where "hart_step h c =
      (if conc_pc c h = Out then goto h A_locked (c\<lparr>conc_hart := (conc_hart c)(h := m)\<rparr>)
       else if conc_pc c h = R_pop then goto h Out (c\<lparr>conc_hart := (conc_hart c)(h := m)\<rparr>) else hart_step h c)"
    "hart_ok (conc_pc (hart_step h c) h) (conc_hart (hart_step h c) h)"
    "\<And>k. k \<noteq> h \<Longrightarrow> conc_hart (hart_step h c) k = conc_hart c k"
proof (cases "conc_pc c h = Out \<or> conc_pc c h = R_pop")
  case True
  then show ?thesis
  proof
    assume l: "conc_pc c h = Out"
    then obtain m where m: "push_off (conc_hart c h) = Ret () m" "hart_ok A_locked m"
      using push_off_ok [of "conc_hart c h" A_locked] ok by auto
    then show ?thesis using l by (intro that [of m]) (simp_all add: conc_simps on_hart_Ret)
  next
    assume l: "conc_pc c h = R_pop"
    then obtain m where m: "pop_off (conc_hart c h) = Ret () m" "hart_ok Out m"
      using pop_off_ok [of "conc_hart c h"] ok by auto
    then show ?thesis using l by (intro that [of m]) (simp_all add: conc_simps on_hart_Ret)
  qed
next
  case False
  then show ?thesis
    using ok by (intro that [of undefined]) (cases "conc_pc c h"; simp add: conc_simps hart_ok_def)+
qed

lemma conc_inv_step:
  assumes inv: "conc_inv c"
  shows "conc_inv (hart_step h c)"
proof -
  obtain ow where flag: "lk_locked (conc_lk c) = (ow \<noteq> None)"
    and ins: "\<And>k. inside (conc_pc c k) = (ow = Some k)"
    and own: "\<And>k. (lk_cpu (conc_lk c) = Some k) = owning (conc_pc c k)"
    and ok: "\<And>k. hart_ok (conc_pc c k) (conc_hart c k)" and pan: "\<And>k. conc_pc c k \<noteq> Panicked"
    using inv by (auto simp: conc_inv_def)
  let ?l = "conc_pc c h"
  obtain m where m: "hart_step h c =
      (if ?l = Out then goto h A_locked (c\<lparr>conc_hart := (conc_hart c)(h := m)\<rparr>)
       else if ?l = R_pop then goto h Out (c\<lparr>conc_hart := (conc_hart c)(h := m)\<rparr>) else hart_step h c)"
    and ok': "hart_ok (conc_pc (hart_step h c) h) (conc_hart (hart_step h c) h)"
    and frame: "\<And>k. k \<noteq> h \<Longrightarrow> conc_hart (hart_step h c) k = conc_hart c k"
    by (rule hart_step_hart [OF ok [of h]]) blast
  have call: "hart_step h c = goto h A_locked (c\<lparr>conc_hart := (conc_hart c)(h := m)\<rparr>)" if "?l = Out"
    using m that by simp
  have pop: "hart_step h c = goto h Out (c\<lparr>conc_hart := (conc_hart c)(h := m)\<rparr>)" if "?l = R_pop"
    using m that by simp
  define ow' where "ow' = (if ?l = A_swap \<and> ow = None then Some h else if ?l = R_store then None else ow)"
  have me: "inside ?l = (ow = Some h)" "(lk_cpu (conc_lk c) = Some h) = owning ?l" "?l \<noteq> Panicked"
    by (rule ins own pan)+
  have oth: "\<not> owning (conc_pc c k)" if "ow = Some h" "k \<noteq> h" for k using ins [of k] owning_inside that by auto
  have pc: "conc_pc (hart_step h c) k = conc_pc c k" if "k \<noteq> h" for k
    using that by (cases ?l) (simp_all add: call pop, simp_all add: conc_simps)
  note cs = call pop
  show ?thesis
  proof (rule conc_invI [where ow = ow'])
    show "lk_locked (conc_lk (hart_step h c)) = (ow' \<noteq> None)"
      using flag me by (cases ?l) (simp_all add: cs pc_goto ow'_def, simp_all add: conc_simps)
  next
    fix k
    show "inside (conc_pc (hart_step h c) k) = (ow' = Some k)"
      using flag ins [of k] me by (cases ?l) (auto simp: cs pc_goto ow'_def, auto simp: conc_simps split: if_splits)
    show "(lk_cpu (conc_lk (hart_step h c)) = Some k) = owning (conc_pc (hart_step h c) k)"
      using own [of k] me oth [of k] flag by (cases ?l) (auto simp: cs pc_goto, auto simp: conc_simps split: if_splits)
    show "hart_ok (conc_pc (hart_step h c) k) (conc_hart (hart_step h c) k)"
      using ok [of k] ok' frame [of k] pc [of k] by (cases "k = h") simp_all
    show "conc_pc (hart_step h c) k \<noteq> Panicked"
      using pan [of k] flag me by (cases ?l) (auto simp: cs pc_goto, auto simp: conc_simps split: if_splits)
  qed
qed

lemma conc_reach_inv: "conc_reach nm c \<Longrightarrow> conc_inv c"
proof (induction rule: conc_reach.induct)
  case (init ms)
  then show ?case by (intro conc_invI [where ow = None]) (simp_all add: conc_init_def hart_ok_def)
next
  case (step c h)
  then show ?case by (intro conc_inv_step)
qed

text \<open>C8: whatever the interleaving of the harts' accesses, at most one of them is in its critical
  section, with its interrupts off; the lock's owner field then names it, so that \<open>release\<close> and a nested
  \<open>acquire\<close> see it as the holder, and no hart ever runs into the panics of \<open>acquire\<close>, \<open>release\<close> and \<open>pop_off\<close>.\<close>

theorem spinlock_excludes:
  assumes "conc_reach nm c"
  shows "conc_pc c h \<noteq> Panicked \<and>
    (conc_pc c h = Crit \<longrightarrow> (\<forall>k. conc_pc c k = Crit \<longrightarrow> k = h) \<and> lk_locked (conc_lk c) \<and> lk_cpu (conc_lk c) = Some h \<and>
       \<not> intr_get (conc_hart c h))"
proof -
  obtain ow where ow: "lk_locked (conc_lk c) = (ow \<noteq> None)" "\<And>k. inside (conc_pc c k) = (ow = Some k)"
    "\<And>k. (lk_cpu (conc_lk c) = Some k) = owning (conc_pc c k)" "\<And>k. hart_ok (conc_pc c k) (conc_hart c k)"
    "\<And>k. conc_pc c k \<noteq> Panicked"
    using conc_reach_inv [OF assms] by (auto simp: conc_inv_def)
  have crit: "ow = Some k" if "conc_pc c k = Crit" for k using ow(2) [of k] that by simp
  have "k = h" if "conc_pc c h = Crit" "conc_pc c k = Crit" for k using crit [of k] crit [of h] that by simp
  moreover have "\<not> intr_get (conc_hart c h)" if "conc_pc c h = Crit" using ow(4) [of h] that by (simp add: hart_ok_def)
  ultimately show ?thesis using ow(1) ow(3) [of h] ow(5) [of h] crit [of h] by auto
qed

text \<open>Two harts at once, with interrupts on at first.\<close>

definition two_harts :: conc where
  "two_harts = fold hart_step [0, 1, 0, 1, 0, 1, 0, 1, 1] (conc_init ''l'' (\<lambda>h. sample_machine\<lparr>tp := h\<rparr>))"

theorem spinlock_excludes_witness:
  "conc_pc two_harts 0 = Crit \<and> conc_pc two_harts 1 \<noteq> Crit \<and> \<not> intr_get (conc_hart two_harts 0)"
proof -
  have r: "conc_reach ''l'' two_harts"
    unfolding two_harts_def by (rule conc_reach_run) (simp add: noff_of_def sample_machine_def)
  have "conc_pc two_harts 0 = Crit"
    by (simp add: two_harts_def hart_step_def on_hart_def push_off_run goto_def Let_def conc_init_def)
  then show ?thesis using spinlock_excludes [OF r, of 0] by auto
qed

end
