(* ===== verification/Sleep_Conc.thy ===== *)
theory Sleep_Conc
  imports Sched
begin

text \<open>
  \<open>sleep\<close> against \<open>wakeup\<close> (\<^verbatim>\<open>kernel/proc.c\<close>) with all harts running at once. One process waits for a
  condition the way every caller does, testing it in a loop under the condition lock; any number of
  others set the condition under that lock and call \<open>wakeup\<close>. The steps are the accesses the two
  locks order; taking a lock is a step that waits while another holds it.
\<close>

datatype sleeper_pc =
    S_acquire | S_test | S_plock | S_release | S_chan | S_state | S_sched | S_asleep | S_picked | S_leave | S_done

datatype waker_pc =
    W_acquire | W_set | W_plock | W_check | W_prelease | W_release | W_done

datatype actor = Sleeper | Waker nat

record sleep_conc =
  sc_lk :: "actor option"
  sc_plock :: "actor option"
  sc_cond :: bool
  sc_state :: procstate
  sc_chan :: "chan option"
  sc_spc :: sleeper_pc
  sc_wpc :: "nat \<Rightarrow> waker_pc"

text \<open>The process: \<open>while(!cond) sleep(ch, lk)\<close>. At \<open>S_sched\<close> it switches to the scheduler, which gives \<open>p->lock\<close>
  back; asleep, it waits for the scheduler to find it runnable and take \<open>p->lock\<close> for it again.\<close>

definition sleeper_step :: "chan \<Rightarrow> sleep_conc \<Rightarrow> sleep_conc" where
  "sleeper_step ch c =
     (case sc_spc c of
        S_acquire \<Rightarrow> if sc_lk c = None then c\<lparr>sc_lk := Some Sleeper, sc_spc := S_test\<rparr> else c
      | S_test \<Rightarrow> c\<lparr>sc_spc := (if sc_cond c then S_done else S_plock)\<rparr>
      | S_plock \<Rightarrow> if sc_plock c = None then c\<lparr>sc_plock := Some Sleeper, sc_spc := S_release\<rparr> else c
      | S_release \<Rightarrow> c\<lparr>sc_lk := None, sc_spc := S_chan\<rparr>
      | S_chan \<Rightarrow> c\<lparr>sc_chan := Some ch, sc_spc := S_state\<rparr>
      | S_state \<Rightarrow> c\<lparr>sc_state := SLEEPING, sc_spc := S_sched\<rparr>
      | S_sched \<Rightarrow> c\<lparr>sc_plock := None, sc_spc := S_asleep\<rparr>
      | S_asleep \<Rightarrow> if sc_plock c = None \<and> sc_state c = RUNNABLE
                   then c\<lparr>sc_plock := Some Sleeper, sc_state := RUNNING, sc_spc := S_picked\<rparr> else c
      | S_picked \<Rightarrow> c\<lparr>sc_chan := None, sc_spc := S_leave\<rparr>
      | S_leave \<Rightarrow> c\<lparr>sc_plock := None, sc_spc := S_acquire\<rparr>
      | S_done \<Rightarrow> c)"

definition set_wpc :: "nat \<Rightarrow> waker_pc \<Rightarrow> sleep_conc \<Rightarrow> sleep_conc" where
  "set_wpc i l c = c\<lparr>sc_wpc := (sc_wpc c)(i := l)\<rparr>"

text \<open>\<open>wakeup\<close>'s look at the process, one iteration of its loop over the table (the iterations for other
  processes touch neither this one nor the condition). A waker is not the process, so the test
  \<open>p != myproc()\<close> succeeds.\<close>

definition wakeup_step :: "chan \<Rightarrow> nat \<Rightarrow> sleep_conc \<Rightarrow> sleep_conc" where
  "wakeup_step ch i c =
     (case sc_wpc c i of
        W_plock \<Rightarrow> if sc_plock c = None then set_wpc i W_check (c\<lparr>sc_plock := Some (Waker i)\<rparr>) else c
      | W_check \<Rightarrow> set_wpc i W_prelease
          (if sc_state c = SLEEPING \<and> sc_chan c = Some ch then c\<lparr>sc_state := RUNNABLE\<rparr> else c)
      | W_prelease \<Rightarrow> set_wpc i W_release (c\<lparr>sc_plock := None\<rparr>)
      | _ \<Rightarrow> c)"

text \<open>The waker around it: the caller's part, which takes the condition lock, makes the condition true, and
  gives the lock back after \<open>wakeup\<close>.\<close>

definition waker_step :: "chan \<Rightarrow> nat \<Rightarrow> sleep_conc \<Rightarrow> sleep_conc" where
  "waker_step ch i c =
     (case sc_wpc c i of
        W_acquire \<Rightarrow> if sc_lk c = None then set_wpc i W_set (c\<lparr>sc_lk := Some (Waker i)\<rparr>) else c
      | W_set \<Rightarrow> set_wpc i W_plock (c\<lparr>sc_cond := True\<rparr>)
      | W_release \<Rightarrow> set_wpc i W_done (c\<lparr>sc_lk := None\<rparr>)
      | W_done \<Rightarrow> c
      | _ \<Rightarrow> wakeup_step ch i c)"

lemmas waker_defs = waker_step_def wakeup_step_def set_wpc_def

definition sleep_init :: sleep_conc where
  "sleep_init = \<lparr>sc_lk = None, sc_plock = None, sc_cond = False, sc_state = RUNNING, sc_chan = None,
     sc_spc = S_acquire, sc_wpc = (\<lambda>_. W_acquire)\<rparr>"

inductive sleep_reach :: "chan \<Rightarrow> sleep_conc \<Rightarrow> bool" for ch where
  init: "sleep_reach ch sleep_init"
| sleeper: "sleep_reach ch c \<Longrightarrow> sleep_reach ch (sleeper_step ch c)"
| waker: "sleep_reach ch c \<Longrightarrow> sleep_reach ch (waker_step ch i c)"

subsection \<open>The invariant\<close>

definition s_lk :: "sleeper_pc \<Rightarrow> bool" where "s_lk l \<longleftrightarrow> l \<in> {S_test, S_plock, S_release, S_done}"
definition s_plock :: "sleeper_pc \<Rightarrow> bool" where "s_plock l \<longleftrightarrow> l \<in> {S_release, S_chan, S_state, S_sched, S_picked, S_leave}"
definition w_lk :: "waker_pc \<Rightarrow> bool" where "w_lk l \<longleftrightarrow> l \<in> {W_set, W_plock, W_check, W_prelease, W_release}"
definition w_plock :: "waker_pc \<Rightarrow> bool" where "w_plock l \<longleftrightarrow> l \<in> {W_check, W_prelease}"

lemma wait_region_simps [simp]:
  "s_lk l = (l = S_test \<or> l = S_plock \<or> l = S_release \<or> l = S_done)"
  "s_plock l = (l = S_release \<or> l = S_chan \<or> l = S_state \<or> l = S_sched \<or> l = S_picked \<or> l = S_leave)"
  "w_lk m = (m = W_set \<or> m = W_plock \<or> m = W_check \<or> m = W_prelease \<or> m = W_release)"
  "w_plock m = (m = W_check \<or> m = W_prelease)"
  by (auto simp: s_lk_def s_plock_def w_lk_def w_plock_def)

text \<open>\<open>about\<close>: some waker has set the condition and has yet to look at the process.\<close>

definition about :: "sleep_conc \<Rightarrow> bool" where
  "about c \<longleftrightarrow> (\<exists>i. sc_wpc c i = W_plock \<or> sc_wpc c i = W_check)"

definition locks_inv :: "sleep_conc \<Rightarrow> bool" where
  "locks_inv c \<longleftrightarrow>
     (sc_lk c = Some Sleeper \<longleftrightarrow> s_lk (sc_spc c)) \<and> (\<forall>i. sc_lk c = Some (Waker i) \<longleftrightarrow> w_lk (sc_wpc c i)) \<and>
     (sc_plock c = Some Sleeper \<longleftrightarrow> s_plock (sc_spc c)) \<and> (\<forall>i. sc_plock c = Some (Waker i) \<longleftrightarrow> w_plock (sc_wpc c i))"

definition wake_inv :: "chan \<Rightarrow> sleep_conc \<Rightarrow> bool" where
  "wake_inv ch c \<longleftrightarrow>
     (sc_spc c = S_plock \<or> sc_spc c = S_release \<longrightarrow> \<not> sc_cond c) \<and>
     (sc_spc c = S_chan \<or> sc_spc c = S_state \<or> sc_spc c = S_sched \<longrightarrow> sc_cond c \<longrightarrow> about c) \<and>
     (sc_spc c = S_asleep \<longrightarrow> sc_state c \<noteq> RUNNABLE \<longrightarrow> sc_cond c \<longrightarrow> about c) \<and>
     (sc_spc c = S_state \<or> sc_spc c = S_sched \<or> sc_spc c = S_asleep \<longrightarrow> sc_chan c = Some ch) \<and>
     (sc_spc c = S_sched \<longrightarrow> sc_state c = SLEEPING) \<and>
     (sc_spc c = S_asleep \<longrightarrow> sc_state c = SLEEPING \<or> sc_state c = RUNNABLE)"

lemma locks_inv_sleeper: "locks_inv c \<Longrightarrow> locks_inv (sleeper_step ch c)"
  unfolding locks_inv_def by (cases "sc_spc c") (auto simp: sleeper_step_def)

lemma locks_invI:
  assumes "(sc_lk c = Some Sleeper) = s_lk (sc_spc c)" "\<And>i. (sc_lk c = Some (Waker i)) = w_lk (sc_wpc c i)"
    "(sc_plock c = Some Sleeper) = s_plock (sc_spc c)" "\<And>i. (sc_plock c = Some (Waker i)) = w_plock (sc_wpc c i)"
  shows "locks_inv c"
  using assms by (simp add: locks_inv_def del: wait_region_simps)

lemma locks_invD:
  assumes "locks_inv c"
  shows "(sc_lk c = Some Sleeper) = s_lk (sc_spc c)" "(sc_lk c = Some (Waker i)) = w_lk (sc_wpc c i)"
    "(sc_plock c = Some Sleeper) = s_plock (sc_spc c)" "(sc_plock c = Some (Waker i)) = w_plock (sc_wpc c i)"
  using assms by (simp_all add: locks_inv_def del: wait_region_simps)

lemma locks_inv_waker:
  assumes "locks_inv c"
  shows "locks_inv (waker_step ch i c)"
proof (rule locks_invI)
  note d = locks_invD [OF assms]
  show "(sc_lk (waker_step ch i c) = Some Sleeper) = s_lk (sc_spc (waker_step ch i c))"
    using d(1) d(2) [of i] by (cases "sc_wpc c i") (auto simp: waker_defs)
  show "(sc_plock (waker_step ch i c) = Some Sleeper) = s_plock (sc_spc (waker_step ch i c))"
    using d(3) d(4) [of i] by (cases "sc_wpc c i") (auto simp: waker_defs)
  fix k
  show "(sc_lk (waker_step ch i c) = Some (Waker k)) = w_lk (sc_wpc (waker_step ch i c) k)"
    using d(2) [of i] d(2) [of k] by (cases "sc_wpc c i") (auto simp: waker_defs)
  show "(sc_plock (waker_step ch i c) = Some (Waker k)) = w_plock (sc_wpc (waker_step ch i c) k)"
    using d(4) [of i] d(4) [of k] by (cases "sc_wpc c i") (auto simp: waker_defs)
qed

lemma about_sleeper: "about (sleeper_step ch c) = about c"
  by (cases "sc_spc c") (auto simp: sleeper_step_def about_def)

lemma wake_inv_sleeper: "wake_inv ch c \<Longrightarrow> wake_inv ch (sleeper_step ch c)"
  unfolding wake_inv_def about_sleeper by (cases "sc_spc c") (auto simp: sleeper_step_def)

lemma wake_inv_waker:
  assumes l: "locks_inv c" and w: "wake_inv ch c"
  shows "wake_inv ch (waker_step ch i c)"
proof -
  have ow: "sc_lk c = Some (Waker i) \<longleftrightarrow> w_lk (sc_wpc c i)" "sc_plock c = Some (Waker i) \<longleftrightarrow> w_plock (sc_wpc c i)"
    "sc_lk c = Some Sleeper \<longleftrightarrow> s_lk (sc_spc c)" "sc_plock c = Some Sleeper \<longleftrightarrow> s_plock (sc_spc c)"
    using locks_invD [OF l] by blast+
  have ab: "about (waker_step ch i c)" if pre: "about c \<or> sc_wpc c i = W_set" "sc_wpc c i \<noteq> W_check"
  proof (cases "sc_wpc c i = W_set")
    case True
    then show ?thesis by (auto simp: about_def waker_defs)
  next
    case False
    then obtain k where k: "sc_wpc c k = W_plock \<or> sc_wpc c k = W_check" using pre by (auto simp: about_def)
    show ?thesis unfolding about_def
      by (rule exI [of _ k]) (use k pre in \<open>cases "sc_wpc c i"; auto simp: waker_defs\<close>)
  qed
  let ?t = "waker_step ch i c"
  have spc: "sc_spc ?t = sc_spc c" "sc_chan ?t = sc_chan c"
    by (simp_all add: waker_defs split: waker_pc.split)
  show ?thesis
  proof (cases "sc_wpc c i = W_check")
    case False
    have st: "sc_state ?t = sc_state c" "sc_cond ?t = (sc_cond c \<or> sc_wpc c i = W_set)"
      using False by (simp_all add: waker_defs split: waker_pc.split)
    have "\<not> (sc_spc c = S_plock \<or> sc_spc c = S_release)" if "sc_wpc c i = W_set" using that ow(1,3) by auto
    moreover have "about ?t" if "about c \<or> sc_wpc c i = W_set" using ab that False by simp
    ultimately show ?thesis using w unfolding wake_inv_def spc st by blast
  next
    case True
    then have pl: "\<not> s_plock (sc_spc c)" using ow(2,4) by auto
    have lk: "\<not> s_lk (sc_spc c)" using True ow(1,3) by auto
    have "sc_state ?t = (if sc_state c = SLEEPING \<and> sc_chan c = Some ch then RUNNABLE else sc_state c)" "sc_cond ?t = sc_cond c"
      using True by (simp_all add: waker_defs)
    then show ?thesis using w pl lk unfolding wake_inv_def spc by auto
  qed
qed

lemma sleep_reach_inv: "sleep_reach ch c \<Longrightarrow> locks_inv c \<and> wake_inv ch c"
proof (induction rule: sleep_reach.induct)
  case init
  show ?case by (simp add: locks_inv_def wake_inv_def sleep_init_def)
next
  case (sleeper c)
  then show ?case using locks_inv_sleeper wake_inv_sleeper by blast
next
  case (waker c i)
  then show ?case using locks_inv_waker wake_inv_waker by blast
qed

lemma sleep_reach_run:
  "sleep_reach ch (fold (\<lambda>a. case a of Sleeper \<Rightarrow> sleeper_step ch | Waker i \<Rightarrow> waker_step ch i) as sleep_init)"
proof (induction as rule: rev_induct)
  case Nil
  show ?case by (simp add: sleep_reach.init)
next
  case (snoc a as)
  then show ?case by (cases a) (auto intro: sleep_reach.sleeper sleep_reach.waker)
qed

text \<open>C9: no wakeup is lost. In every interleaving, once the condition holds and no waker is between
  setting it and looking at the process, the process is not left sleeping: it is awake, or asleep but
  runnable, so that the next pass of the scheduler takes it back to test the condition.\<close>

theorem no_lost_wakeup:
  assumes "sleep_reach ch c" "sc_cond c" "\<forall>i. sc_wpc c i \<noteq> W_plock \<and> sc_wpc c i \<noteq> W_check"
  shows "sc_spc c = S_asleep \<longrightarrow> sc_state c = RUNNABLE \<and> (sc_plock c = None \<longrightarrow> sc_spc (sleeper_step ch c) = S_picked)"
  using sleep_reach_inv [OF assms(1)] assms(2,3) by (auto simp: wake_inv_def about_def sleeper_step_def)

text \<open>The witness: the wakeup comes when the sleeper has given up the condition lock but is not asleep yet.\<close>

definition sleep_run :: "chan \<Rightarrow> actor list \<Rightarrow> sleep_conc" where
  "sleep_run ch as = fold (\<lambda>a. case a of Sleeper \<Rightarrow> sleeper_step ch | Waker i \<Rightarrow> waker_step ch i) as sleep_init"

lemma late_sleeper:
  "sleep_run Ch_log (replicate 4 Sleeper @ replicate 2 (Waker 0) @ replicate 3 Sleeper @ replicate 3 (Waker 0)) =
     \<lparr>sc_lk = Some (Waker 0), sc_plock = None, sc_cond = True, sc_state = RUNNABLE, sc_chan = Some Ch_log,
      sc_spc = S_asleep, sc_wpc = (\<lambda>_. W_acquire)(0 := W_release)\<rparr>"
  by (simp add: sleep_run_def eval_nat_numeral sleep_init_def sleeper_step_def waker_defs)

theorem no_lost_wakeup_witness:
  "sc_spc (sleeper_step Ch_log (sleep_run Ch_log (replicate 4 Sleeper @ replicate 2 (Waker 0) @ replicate 3 Sleeper @ replicate 3 (Waker 0)))) = S_picked"
proof -
  let ?as = "replicate 4 Sleeper @ replicate 2 (Waker 0) @ replicate 3 Sleeper @ replicate 3 (Waker 0)"
  have "sleep_reach Ch_log (sleep_run Ch_log ?as)" unfolding sleep_run_def by (rule sleep_reach_run)
  from no_lost_wakeup [OF this] show ?thesis by (simp add: late_sleeper)
qed

end
