(* ===== verification/Ulib.thy ===== *)
theory Ulib
  imports Kstring
begin

text \<open>
  \<^verbatim>\<open>user/ulib.c\<close>: the string and memory routines the user programs are linked with. A C string is the list of
  its bytes, NUL past the end; \<open>strcpy\<close>, \<open>memset\<close> and \<open>memmove\<close>, which write through pointers,
  act on memory. Plain \<open>char\<close> is unsigned on this machine.
\<close>

text \<open>\<open>at s i\<close> is \<open>s[i]\<close>.\<close>

definition at :: "u8 list \<Rightarrow> nat \<Rightarrow> u8" where
  "at s i = (if i < length s then s ! i else 0)"

definition c_string :: "u8 list \<Rightarrow> u8 list" where
  "c_string s = takeWhile (\<lambda>b. b \<noteq> 0) s"

lemma at_bound: "at s i \<noteq> 0 \<Longrightarrow> i < length s"
  by (auto simp: at_def split: if_splits)

subsection \<open>Strings\<close>

partial_function (option) strcpy_loop :: "u64 \<Rightarrow> u64 \<Rightarrow> mem \<Rightarrow> mem option" where
  "strcpy_loop s t m = (let m' = m(s := m t) in if m t \<noteq> 0 then strcpy_loop (s + 1) (t + 1) m' else Some m')"

definition strcpy :: "u64 \<Rightarrow> u64 \<Rightarrow> mem \<Rightarrow> mem option" where
  "strcpy s t m = strcpy_loop s t m"

function strcmp :: "u8 list \<Rightarrow> u8 list \<Rightarrow> int" where
  "strcmp p q = (if at p 0 \<noteq> 0 \<and> at p 0 = at q 0 then strcmp (tl p) (tl q) else uint (at p 0) - uint (at q 0))"
  by pat_completeness auto
termination by (relation "measure (\<lambda>(p, _). length p)") (auto dest: at_bound)

function strlen_loop :: "u8 list \<Rightarrow> nat \<Rightarrow> nat" where
  "strlen_loop s n = (if at s n \<noteq> 0 then strlen_loop s (Suc n) else n)"
  by pat_completeness auto
termination by (relation "measure (\<lambda>(s, n). length s - n)") (auto dest: at_bound)

definition strlen :: "u8 list \<Rightarrow> nat" where
  "strlen s = strlen_loop s 0"

text \<open>\<open>strchr\<close>: the offset of the first byte equal to \<open>c\<close>.\<close>

function strchr_loop :: "u8 list \<Rightarrow> u8 \<Rightarrow> nat \<Rightarrow> nat option" where
  "strchr_loop s c i = (if at s i \<noteq> 0 then if at s i = c then Some i else strchr_loop s c (Suc i) else None)"
  by pat_completeness auto
termination by (relation "measure (\<lambda>(s, _, i). length s - i)") (auto dest: at_bound)

definition strchr :: "u8 list \<Rightarrow> u8 \<Rightarrow> nat option" where
  "strchr s c = strchr_loop s c 0"

declare strcmp.simps [simp del] strlen_loop.simps [simp del] strchr_loop.simps [simp del]

text \<open>\<open>atoi\<close>. A sum that leaves \<open>int\<close>, the intermediate one before \<open>'0'\<close> is taken away included, has no defined
  value: \<open>None\<close>.\<close>

definition to_int32 :: "int \<Rightarrow> int option" where
  "to_int32 n = (if - (2 ^ 31) \<le> n \<and> n < 2 ^ 31 then Some n else None)"

fun atoi_loop :: "int \<Rightarrow> u8 list \<Rightarrow> int option" where
  "atoi_loop n [] = Some n"
| "atoi_loop n (c # s) =
     (if 48 \<le> c \<and> c \<le> 57 then
        Option.bind (to_int32 (n * 10)) (\<lambda>m. Option.bind (to_int32 (m + uint c)) (\<lambda>m. atoi_loop (m - 48) s))
      else Some n)"

definition atoi :: "u8 list \<Rightarrow> int option" where
  "atoi s = atoi_loop 0 s"

text \<open>\<open>gets\<close>: the bytes stored before the NUL, and what is left of the input. A \<open>read\<close> that returns nothing ends it.\<close>

function gets_loop :: "nat \<Rightarrow> nat \<Rightarrow> u8 list \<Rightarrow> u8 list \<times> u8 list" where
  "gets_loop lim i input =
     (if i + 1 < lim then
        (case input of
           [] \<Rightarrow> ([], [])
         | c # cs \<Rightarrow> if c = 10 \<or> c = 13 then ([c], cs)
                    else (case gets_loop lim (i + 1) cs of (l, r) \<Rightarrow> (c # l, r)))
      else ([], input))"
  by pat_completeness auto
termination by (relation "measure (\<lambda>(lim, i, _). lim - i)") auto

declare gets_loop.simps [simp del]

definition gets_line :: "nat \<Rightarrow> u8 list \<Rightarrow> u8 list \<times> u8 list" where
  "gets_line lim input = gets_loop lim 0 input"

subsection \<open>Memory\<close>

definition memset :: "u64 \<Rightarrow> u32 \<Rightarrow> u32 \<Rightarrow> mem \<Rightarrow> mem" where
  "memset dst c n m = memset_loop 0 (unat n) dst c m"

definition memmove :: "u64 \<Rightarrow> u64 \<Rightarrow> int \<Rightarrow> mem \<Rightarrow> mem" where
  "memmove vdst vsrc n m =
     (if vdst < vsrc then memmove_up (nat n) vdst vsrc m
      else memmove_down (nat n) (vdst + of_int n) (vsrc + of_int n) m)"

definition memcpy :: "u64 \<Rightarrow> u64 \<Rightarrow> u32 \<Rightarrow> mem \<Rightarrow> mem" where
  "memcpy dst src n m = memmove dst src (sint n) m"

fun memcmp :: "nat \<Rightarrow> (nat \<Rightarrow> u8) \<Rightarrow> (nat \<Rightarrow> u8) \<Rightarrow> int" where
  "memcmp 0 p1 p2 = 0"
| "memcmp (Suc n) p1 p2 =
     (if p1 0 \<noteq> p2 0 then uint (p1 0) - uint (p2 0) else memcmp n (\<lambda>i. p1 (Suc i)) (\<lambda>i. p2 (Suc i)))"

subsection \<open>What they compute\<close>

lemma strlen_loop_length: "strlen_loop s n = n + length (c_string (drop n s))"
proof (induction s n rule: strlen_loop.induct)
  case (1 s n)
  show ?case
  proof (cases "at s n = 0")
    case True
    then have "c_string (drop n s) = []"
      by (cases "n < length s") (auto simp: at_def c_string_def simp flip: Cons_nth_drop_Suc)
    then show ?thesis using True by (simp add: strlen_loop.simps)
  next
    case False
    then have "n < length s" by (rule at_bound)
    then have "c_string (drop n s) = s ! n # c_string (drop (Suc n) s)"
      using False by (simp add: at_def c_string_def flip: Cons_nth_drop_Suc)
    then show ?thesis using False 1 by (subst strlen_loop.simps) simp
  qed
qed

lemma strlen_length: "strlen s = length (c_string s)"
  by (simp add: strlen_def strlen_loop_length)

lemma strcmp_eq: "strcmp p q = 0 \<longleftrightarrow> c_string p = c_string q"
proof (induction p q rule: strcmp.induct)
  case (1 p q)
  show ?case
    using 1 by (subst strcmp.simps) (cases p; cases q; auto simp: at_def c_string_def uint_0_iff simp flip: word_uint_eq_iff)
qed

lemma strchr_loop_mem: "0 \<notin> set s \<Longrightarrow> strchr_loop s c i \<noteq> None \<longleftrightarrow> c \<in> set (drop i s)"
proof (induction s c i rule: strchr_loop.induct)
  case (1 s c i)
  show ?case
  proof (cases "i < length s")
    case True
    then have "s ! i \<noteq> 0" using "1.prems" by (metis nth_mem)
    with True have "at s i \<noteq> 0" "drop i s = at s i # drop (Suc i) s" by (simp_all add: at_def Cons_nth_drop_Suc)
    then show ?thesis using "1.IH" [OF _ _ "1.prems"] by (subst strchr_loop.simps) auto
  next
    case False
    then show ?thesis by (subst strchr_loop.simps) (simp add: at_def)
  qed
qed

lemma strchr_mem: "0 \<notin> set s \<Longrightarrow> strchr s c \<noteq> None \<longleftrightarrow> c \<in> set s"
  using strchr_loop_mem [of s c 0] by (simp add: strchr_def)

lemma memcmp_eq: "memcmp n p q = 0 \<longleftrightarrow> (\<forall>i < n. p i = q i)"
proof (induction n p q rule: memcmp.induct)
  case (2 n p q)
  have "(\<forall>i < Suc n. p i = q i) \<longleftrightarrow> p 0 = q 0 \<and> (\<forall>i < n. p (Suc i) = q (Suc i))"
    by (auto simp: less_Suc_eq_0_disj)
  then show ?case using 2 by (auto simp: uint_0_iff simp flip: word_uint_eq_iff)
qed simp

end
