(* ===== verification/Grep.thy ===== *)
theory Grep
  imports Ulib
begin

text \<open>
  \<^verbatim>\<open>user/grep.c\<close>: the regular expression matcher and the loop that cuts its input into lines.
  A C string is the list of its bytes before the NUL.
\<close>

subsection \<open>The matcher\<close>

definition char_star :: u8 where "char_star = 42"
definition char_dollar :: u8 where "char_dollar = 36"
definition char_dot :: u8 where "char_dot = 46"
definition char_caret :: u8 where "char_caret = 94"

function matchhere :: "u8 list \<Rightarrow> u8 list \<Rightarrow> bool"
  and matchstar :: "u8 \<Rightarrow> u8 list \<Rightarrow> u8 list \<Rightarrow> bool" where
  "matchhere re text =
     (if re = [] then True
      else if at re 1 = char_star then matchstar (hd re) (drop 2 re) text
      else if hd re = char_dollar \<and> length re = 1 then text = []
      else if text \<noteq> [] \<and> (hd re = char_dot \<or> hd re = hd text) then matchhere (tl re) (tl text)
      else False)"
| "matchstar c re text =
     (if matchhere re text then True
      else if text \<noteq> [] \<and> (hd text = c \<or> c = char_dot) then matchstar c re (tl text)
      else False)"
  by pat_completeness auto
termination
  by (relation "measure (\<lambda>x. case x of Inl (re, text) \<Rightarrow> 2 * (length re + length text)
        | Inr (c, re, text) \<Rightarrow> 2 * (length re + length text) + 1)")
     (auto simp: at_def char_star_def split: if_splits simp flip: length_greater_0_conv)

declare matchhere.simps [simp del] matchstar.simps [simp del]

fun match_loop :: "u8 list \<Rightarrow> u8 list \<Rightarrow> bool" where
  "match_loop re text = (if matchhere re text then True else if text \<noteq> [] then match_loop re (tl text) else False)"

declare match_loop.simps [simp del]

definition match :: "u8 list \<Rightarrow> u8 list \<Rightarrow> bool" where
  "match re text = (if re \<noteq> [] \<and> hd re = char_caret then matchhere (tl re) text else match_loop re text)"

subsection \<open>What a pattern means\<close>

text \<open>A pattern is a sequence of items, each a byte or a repeated byte (where a dot stands for any), with
  an optional end anchor.\<close>

datatype item = Byte u8 | Star u8

definition sat :: "u8 \<Rightarrow> u8 \<Rightarrow> bool" where
  "sat c t \<longleftrightarrow> c = char_dot \<or> c = t"

fun items :: "u8 list \<Rightarrow> item list \<times> bool" where
  "items [] = ([], False)"
| "items [c] = (if c = char_dollar then ([], True) else ([Byte c], False))"
| "items (c # d # re) =
     (if d = char_star then (case items re of (is, e) \<Rightarrow> (Star c # is, e))
      else (case items (d # re) of (is, e) \<Rightarrow> (Byte c # is, e)))"

inductive spells :: "item list \<Rightarrow> u8 list \<Rightarrow> bool" where
  spells_Nil: "spells [] []"
| spells_Byte: "sat c t \<Longrightarrow> spells is ts \<Longrightarrow> spells (Byte c # is) (t # ts)"
| spells_Stop: "spells is ts \<Longrightarrow> spells (Star c # is) ts"
| spells_More: "sat c t \<Longrightarrow> spells (Star c # is) ts \<Longrightarrow> spells (Star c # is) (t # ts)"

inductive_cases spells_NilE: "spells [] ts"
inductive_cases spells_ByteE: "spells (Byte c # is) ts"

text \<open>The pattern occurs at the beginning of the text, with nothing after it if it is anchored.\<close>

definition prefix_match :: "item list \<times> bool \<Rightarrow> u8 list \<Rightarrow> bool" where
  "prefix_match p text \<longleftrightarrow> (\<exists>pre suf. text = pre @ suf \<and> spells (fst p) pre \<and> (snd p \<longrightarrow> suf = []))"

lemma prefix_match_Nil: "prefix_match ([], e) text \<longleftrightarrow> (e \<longrightarrow> text = [])"
  by (auto simp: prefix_match_def intro: spells_Nil elim: spells_NilE)

lemma prefix_match_Byte:
  "prefix_match (Byte c # is, e) text \<longleftrightarrow> (\<exists>t ts. text = t # ts \<and> sat c t \<and> prefix_match (is, e) ts)"
proof
  assume "prefix_match (Byte c # is, e) text"
  then obtain pre suf where p: "text = pre @ suf" "spells (Byte c # is) pre" "e \<longrightarrow> suf = []" by (auto simp: prefix_match_def)
  from p(2) obtain t ts where "pre = t # ts" "sat c t" "spells is ts" by (rule spells_ByteE)
  then show "\<exists>t ts. text = t # ts \<and> sat c t \<and> prefix_match (is, e) ts" using p by (auto simp: prefix_match_def)
next
  assume "\<exists>t ts. text = t # ts \<and> sat c t \<and> prefix_match (is, e) ts"
  then obtain t pre suf where "text = t # pre @ suf" "sat c t" "spells is pre" "e \<longrightarrow> suf = []" by (auto simp: prefix_match_def)
  then show "prefix_match (Byte c # is, e) text"
    unfolding prefix_match_def by (intro exI [of _ "t # pre"] exI [of _ suf]) (auto intro: spells_Byte)
qed

lemma prefix_match_Star:
  "prefix_match (Star c # is, e) text \<longleftrightarrow>
     prefix_match (is, e) text \<or> (\<exists>t ts. text = t # ts \<and> sat c t \<and> prefix_match (Star c # is, e) ts)" (is "?L = (?A \<or> ?B)")
proof
  assume ?L
  then obtain pre suf where p: "text = pre @ suf" "spells (Star c # is) pre" "e \<longrightarrow> suf = []" by (auto simp: prefix_match_def)
  from p(2) show "?A \<or> ?B"
  proof cases
    case spells_Stop
    then show ?thesis using p by (auto simp: prefix_match_def)
  next
    case (spells_More t ts)
    then have ?B using p by (auto simp: prefix_match_def)
    then show ?thesis ..
  qed
next
  assume "?A \<or> ?B"
  then show ?L
  proof
    assume ?A
    then show ?thesis by (auto simp: prefix_match_def intro: spells_Stop)
  next
    assume ?B
    then obtain t pre suf where "text = t # pre @ suf" "sat c t" "spells (Star c # is) pre" "e \<longrightarrow> suf = []" by (auto simp: prefix_match_def)
    then show ?thesis
      unfolding prefix_match_def by (intro exI [of _ "t # pre"] exI [of _ suf]) (auto intro: spells_More)
  qed
qed

lemma items_step:
  assumes "re \<noteq> []"
  shows "items re =
    (if at re 1 = char_star then (Star (hd re) # fst (items (drop 2 re)), snd (items (drop 2 re)))
     else if hd re = char_dollar \<and> length re = 1 then ([], True)
     else (Byte (hd re) # fst (items (tl re)), snd (items (tl re))))"
  using assms by (cases re rule: items.cases) (auto simp: at_def char_star_def split: prod.splits)

lemma match_correct:
  "matchhere re tx \<longleftrightarrow> prefix_match (items re) tx"
  "matchstar c re tx \<longleftrightarrow> prefix_match (Star c # fst (items re), snd (items re)) tx"
proof (induction re tx and c re tx rule: matchhere_matchstar.induct)
  case (1 re tx)
  show ?case
  proof (cases "re = []")
    case True
    then show ?thesis by (simp add: matchhere.simps prefix_match_Nil)
  next
    case False
    show ?thesis
      using 1 False
      by (subst matchhere.simps, subst items_step [OF False])
         (cases "tx"; auto simp: prefix_match_Nil prefix_match_Byte sat_def)
  qed
next
  case (2 c re tx)
  show ?case
    using 2 by (subst matchstar.simps, subst prefix_match_Star) (cases "tx"; auto simp: sat_def)
qed

lemma ex_le_Suc: "(\<exists>k \<le> Suc n. P k) \<longleftrightarrow> P 0 \<or> (\<exists>k \<le> n. P (Suc k))"
  by (metis Suc_le_mono le0 not0_implies_Suc)

lemma match_loop_iff: "match_loop re tx \<longleftrightarrow> (\<exists>k \<le> length tx. matchhere re (drop k tx))"
proof (induction tx)
  case Nil
  then show ?case by (simp add: match_loop.simps)
next
  case (Cons t ts)
  then show ?case by (simp add: match_loop.simps [of re "t # ts"] ex_le_Suc)
qed

text \<open>C17: the recursive matcher decides what the pattern means: some part of the text, starting at its
  beginning if the pattern begins with a caret and reaching its end if the pattern ends in a dollar, is spelled by the
  pattern's items.\<close>

theorem match_iff:
  "match re text \<longleftrightarrow>
     (if re \<noteq> [] \<and> hd re = char_caret then prefix_match (items (tl re)) text
      else \<exists>pre suf. text = pre @ suf \<and> prefix_match (items re) suf)"
proof -
  have "(\<exists>k \<le> length text. P (drop k text)) \<longleftrightarrow> (\<exists>pre suf. text = pre @ suf \<and> P suf)" for P
    by (metis append_eq_conv_conj append_take_drop_id le_cases length_take min.absorb_iff2 nat_le_linear take_all_iff)
  then show ?thesis by (simp add: match_def match_loop_iff match_correct(1))
qed

subsection \<open>Cutting the input into lines\<close>

definition nl :: u8 where "nl = 10"

text \<open>The input as \<open>read\<close> delivers it: a list of non-empty chunks, of which a call takes at most what it asked for.\<close>

fun read_chunk :: "nat \<Rightarrow> u8 list list \<Rightarrow> u8 list \<times> u8 list list" where
  "read_chunk lim [] = ([], [])"
| "read_chunk lim (c # cs) =
     (if lim = 0 then ([], c # cs) else if length c \<le> lim then (c, cs) else (take lim c, drop lim c # cs))"

text \<open>\<open>strchr(p, '\n')\<close>: the bytes before the first newline and those after it, if one comes before the NUL.\<close>

fun next_line :: "u8 list \<Rightarrow> (u8 list \<times> u8 list) option" where
  "next_line [] = None"
| "next_line (b # bs) =
     (if b = 0 then None else if b = nl then Some ([], bs)
      else map_option (\<lambda>(l, r). (b # l, r)) (next_line bs))"

lemma next_line_shorter: "next_line bs = Some (l, r) \<Longrightarrow> length r < length bs"
  by (induction bs arbitrary: l) (auto split: if_splits)

text \<open>The inner loop: what is written for the lines of the buffer, and the bytes left over.\<close>

function grep_lines :: "u8 list \<Rightarrow> u8 list \<Rightarrow> u8 list \<times> u8 list" where
  "grep_lines pattern p =
     (case next_line p of
        None \<Rightarrow> ([], p)
      | Some (l, r) \<Rightarrow> (case grep_lines pattern r of (out, rest) \<Rightarrow> ((if match pattern l then l @ [nl] else []) @ out, rest)))"
  by pat_completeness auto
termination
  by (relation "measure (\<lambda>(_, p). length p)") (auto dest: next_line_shorter)

declare grep_lines.simps [simp del]

definition grep_buf :: nat where "grep_buf = 1024"

text \<open>The outer loop, with the \<open>m\<close> bytes kept from the last round at the front of the buffer.\<close>

function grep_loop :: "u8 list \<Rightarrow> u8 list \<Rightarrow> u8 list list \<Rightarrow> u8 list" where
  "grep_loop pattern kept input =
     (case read_chunk (grep_buf - length kept - 1) input of (bs, input') \<Rightarrow>
        if bs = [] then []
        else (case grep_lines pattern (kept @ bs) of (out, rest) \<Rightarrow> out @ grep_loop pattern rest input'))"
  by pat_completeness auto
termination
proof (relation "measure (\<lambda>(_, _, input). length (concat input))")
  fix pattern kept input bs input' x y
  assume "(bs, input') = read_chunk (grep_buf - length kept - 1) input" "bs \<noteq> []"
  then show "((pattern, y, input'), (pattern, kept, input)) \<in> measure (\<lambda>(_, _, input). length (concat input))"
    by (cases input) (auto split: if_splits)
qed auto

declare grep_loop.simps [simp del]

definition grep :: "u8 list \<Rightarrow> u8 list list \<Rightarrow> u8 list" where
  "grep pattern input = grep_loop pattern [] input"

subsection \<open>What is printed\<close>

text \<open>A clean byte string has neither a newline nor a NUL in it; a text is a list of clean lines, each ended by a newline.\<close>

definition clean :: "u8 list \<Rightarrow> bool" where
  "clean l \<longleftrightarrow> nl \<notin> set l \<and> 0 \<notin> set l"

definition join_lines :: "u8 list list \<Rightarrow> u8 list" where
  "join_lines ls = concat (map (\<lambda>l. l @ [nl]) ls)"

lemma join_lines_simps [simp]:
  "join_lines [] = []"
  "join_lines (l # ls) = l @ nl # join_lines ls"
  "join_lines (ls @ ls') = join_lines ls @ join_lines ls'"
  by (simp_all add: join_lines_def)

lemma next_line_clean [simp]: "clean l \<Longrightarrow> next_line l = None"
  by (induction l) (auto simp: clean_def)

lemma next_line_append [simp]: "clean l \<Longrightarrow> next_line (l @ nl # r) = Some (l, r)"
  by (induction l) (auto simp: clean_def nl_def)

lemma grep_lines_text:
  assumes "clean rest"
  shows "(\<And>l. l \<in> set ls \<Longrightarrow> clean l) \<Longrightarrow>
    grep_lines pattern (join_lines ls @ rest) = (join_lines (filter (match pattern) ls), rest)"
proof (induction ls)
  case Nil
  then show ?case using assms by (simp add: grep_lines.simps)
next
  case (Cons l ls)
  then show ?case by (subst grep_lines.simps) simp
qed

text \<open>A prefix of a text is some of its lines and a clean beginning of the next.\<close>

lemma text_prefix:
  assumes "clean tail"
  shows "bs @ bs' = join_lines ls @ tail \<Longrightarrow> (\<And>l. l \<in> set ls \<Longrightarrow> clean l) \<Longrightarrow>
    \<exists>ls1 ls2 rest. ls = ls1 @ ls2 \<and> bs = join_lines ls1 @ rest \<and> clean rest \<and> rest @ bs' = join_lines ls2 @ tail"
proof (induction ls arbitrary: bs)
  case Nil
  then show ?case using assms by (intro exI [of _ "[]"] exI [of _ bs]) (auto simp: clean_def dest: sym)
next
  case (Cons l ls)
  show ?case
  proof (cases "length bs \<le> length l")
    case True
    then have "bs = take (length bs) l" using Cons.prems(1) by (auto simp: append_eq_append_conv_if)
    then have "clean bs" using Cons.prems(2) [of l] set_take_subset [of "length bs" l] by (auto simp: clean_def)
    then show ?thesis using Cons.prems(1) by (intro exI [of _ "[]"] exI [of _ "l # ls"] exI [of _ bs]) simp
  next
    case False
    then obtain b where b: "bs = l @ nl # b" "b @ bs' = join_lines ls @ tail"
      using Cons.prems(1) by (auto simp: append_eq_append_conv2 Cons_eq_append_conv append_eq_Cons_conv)
    from Cons.IH [OF b(2)] Cons.prems(2) obtain ls1 ls2 rest where
      "ls = ls1 @ ls2" "b = join_lines ls1 @ rest" "clean rest" "rest @ bs' = join_lines ls2 @ tail" by auto
    then show ?thesis using b by (intro exI [of _ "l # ls1"] exI [of _ ls2] exI [of _ rest]) simp
  qed
qed

lemma clean_full_no_line:
  assumes "clean kept" "kept @ more = join_lines ls @ tail" "\<And>l. l \<in> set ls \<Longrightarrow> length l < length kept"
  shows "ls = []"
proof (cases ls)
  case (Cons l ls')
  then have "kept ! length l = nl" using assms(2) assms(3) [of l] by (metis (no_types, lifting) append.assoc
      append_Cons join_lines_simps(2) list.set_intros(1) nth_append nth_append_length)
  then show ?thesis using assms(1) assms(3) [of l] Cons by (metis clean_def list.set_intros(1) nth_mem)
qed simp

lemma read_chunk_concat: "read_chunk lim cs = (bs, cs') \<Longrightarrow> concat cs = bs @ concat cs'"
  by (cases "(lim, cs)" rule: read_chunk.cases) (auto split: if_splits)

lemma read_chunk_nonempty:
  "read_chunk lim cs = (bs, cs') \<Longrightarrow> [] \<notin> set cs \<Longrightarrow> [] \<notin> set cs' \<and> (bs = [] \<longrightarrow> lim = 0 \<or> cs = [])"
  by (cases "(lim, cs)" rule: read_chunk.cases) (auto split: if_splits)

lemma grep_loop_text:
  assumes "clean tail"
  shows "clean kept \<Longrightarrow> kept @ concat input = join_lines ls @ tail \<Longrightarrow> [] \<notin> set input \<Longrightarrow>
    (\<And>l. l \<in> set ls \<Longrightarrow> clean l \<and> length l < grep_buf - 1) \<Longrightarrow>
    grep_loop pattern kept input = join_lines (filter (match pattern) ls)"
proof (induction pattern kept input arbitrary: ls rule: grep_loop.induct)
  case (1 pattern kept input)
  obtain bs input' where r: "read_chunk (grep_buf - length kept - 1) input = (bs, input')" by fastforce
  note input = read_chunk_concat [OF r] and ne = read_chunk_nonempty [OF r "1.prems"(3)]
  show ?case
  proof (cases "bs = []")
    case True
    have "ls = []"
    proof (cases "input = []")
      case True
      then show ?thesis using "1.prems"(1, 2) by (cases ls) (auto simp: clean_def)
    next
      case False
      then have "grep_buf - 1 \<le> length kept" using ne True by auto
      then show ?thesis using clean_full_no_line [OF "1.prems"(1, 2)] "1.prems"(4) by fastforce
    qed
    then show ?thesis using True r by (subst grep_loop.simps) simp
  next
    case False
    have "(kept @ bs) @ concat input' = join_lines ls @ tail" using "1.prems"(2) input by simp
    then obtain ls1 ls2 rest where d: "ls = ls1 @ ls2" "kept @ bs = join_lines ls1 @ rest" "clean rest"
        "rest @ concat input' = join_lines ls2 @ tail"
      using text_prefix [OF assms] "1.prems"(4) by blast
    have g: "grep_lines pattern (kept @ bs) = (join_lines (filter (match pattern) ls1), rest)"
      unfolding d(2) by (rule grep_lines_text [OF d(3)]) (use "1.prems"(4) d(1) in auto)
    have "grep_loop pattern rest input' = join_lines (filter (match pattern) ls2)"
      using "1.IH" [OF r [symmetric] False g [symmetric] d(3, 4)] ne "1.prems"(4) d(1) by auto
    then show ?thesis using False r g d(1) by (subst grep_loop.simps) simp
  qed
qed

text \<open>A line that does not fit the buffer ends the search: the next \<open>read\<close> asks for no bytes, and its zero reads as
  the end of the file.\<close>

lemma grep_long_line:
  assumes "clean l" "grep_buf - 1 \<le> length l"
  shows "grep pattern [l @ more] = []"
proof -
  define kept where "kept = take (grep_buf - 1) l"
  have k: "clean kept" "length kept = grep_buf - 1" "kept \<noteq> []"
    using assms set_take_subset [of "grep_buf - 1" l] by (auto simp: kept_def clean_def grep_buf_def)
  have full: "grep_loop pattern kept cs = []" for cs
    using k by (subst grep_loop.simps) (cases cs; simp)
  have "fst (read_chunk (grep_buf - length [] - 1) [l @ more]) = kept"
    using assms(2) by (cases more) (auto simp: kept_def grep_buf_def)
  then obtain cs where "read_chunk (grep_buf - length [] - 1) [l @ more] = (kept, cs)" by (metis prod.collapse)
  then show ?thesis
    unfolding grep_def using k grep_lines_text [of kept "[]" pattern] full
    by (subst grep_loop.simps) simp
qed

text \<open>C10: over lines that fit the buffer, \<open>grep\<close> prints exactly the lines the pattern matches, in order,
  each with its newline, however the reads cut the input into chunks. Bytes after the last newline are not looked at.\<close>

theorem grep_prints_matching_lines:
  assumes "concat input = join_lines ls @ tail" "[] \<notin> set input" "clean tail"
    and "\<And>l. l \<in> set ls \<Longrightarrow> clean l \<and> length l < grep_buf - 1"
  shows "grep pattern input = join_lines (filter (match pattern) ls)"
  unfolding grep_def by (rule grep_loop_text [OF assms(3)]) (use assms in \<open>auto simp: clean_def\<close>)

text \<open>The pattern \<open>a*b\<close> over the lines \<open>aab\<close>, \<open>c\<close> and the unfinished line \<open>b\<close>, in three reads.\<close>

theorem grep_prints_matching_lines_witness:
  "grep [97, 42, 98] [[97, 97], [98, 10, 99], [10, 98]] = [97, 97, 98, 10]"
proof -
  have m: "match [97, 42, 98] [97, 97, 98]" "\<not> match [97, 42, 98] [99]" by code_simp+
  have "grep [97, 42, 98] [[97, 97], [98, 10, 99], [10, 98]] =
      join_lines (filter (match [97, 42, 98]) [[97, 97, 98], [99]])"
    by (rule grep_prints_matching_lines [of _ _ "[98]"]) (auto simp: clean_def nl_def grep_buf_def)
  then show ?thesis using m by (simp add: nl_def)
qed

end
