(* ===== verification/Sh.thy ===== *)
theory Sh
  imports Ulib Fcntl
begin

text \<open>
  The parser of the shell (\<^verbatim>\<open>user/sh.c\<close>). A position is an offset into the command line; a word is kept as
  the two positions \<open>q\<close> and \<open>eq\<close> around it until \<open>nulterminate\<close> turns it into a C string in place. The
  commands are polymorphic in what stands for a word, so that the tree of positions and the tree of strings
  are one datatype. \<open>panic\<close> ends the process that parses: it is an error value with the source's message. \<open>malloc\<close> is
  taken to succeed.
\<close>

definition MAXARGS :: nat where "MAXARGS = 10"

type_synonym span = "nat \<times> nat"

datatype 'f cmd =
    EXEC "'f list"
  | REDIR "'f cmd" 'f u32 nat
  | PIPE "'f cmd" "'f cmd"
  | LIST "'f cmd" "'f cmd"
  | BACK "'f cmd"

type_synonym 'a parsed = "string + 'a \<times> nat"

subsection \<open>Tokens\<close>

definition whitespace :: "u8 list" where "whitespace = [32, 9, 13, 10, 11]"
definition symbols :: "u8 list" where "symbols = [60, 124, 62, 38, 59, 40, 41]"

function skip_white :: "u8 list \<Rightarrow> nat \<Rightarrow> nat" where
  "skip_white buf s = (if s < length buf \<and> strchr whitespace (at buf s) \<noteq> None then skip_white buf (Suc s) else s)"
  by pat_completeness auto
termination by (relation "measure (\<lambda>(buf, s). length buf - s)") auto

function skip_word :: "u8 list \<Rightarrow> nat \<Rightarrow> nat" where
  "skip_word buf s =
     (if s < length buf \<and> strchr whitespace (at buf s) = None \<and> strchr symbols (at buf s) = None
      then skip_word buf (Suc s) else s)"
  by pat_completeness auto
termination by (relation "measure (\<lambda>(buf, s). length buf - s)") auto

declare skip_white.simps [simp del] skip_word.simps [simp del]

text \<open>The codes \<open>gettoken\<close> returns: 0 at the end of the line, 43 for \<open>>>\<close>, 97 for a word, and the symbol itself for
  the others.\<close>

definition gettoken :: "u8 list \<Rightarrow> nat \<Rightarrow> u8 \<times> span \<times> nat" where
  "gettoken buf s =
     (let q = skip_white buf s;
          c = at buf q;
          (ret, eq) =
            (if c = 0 then (0, q)
             else if c = 124 \<or> c = 40 \<or> c = 41 \<or> c = 59 \<or> c = 38 \<or> c = 60 then (c, q + 1)
             else if c = 62 then (if at buf (q + 1) = 62 then (43, q + 2) else (62, q + 1))
             else (97, skip_word buf q))
      in (ret, (q, eq), skip_white buf eq))"

definition peek :: "u8 list \<Rightarrow> nat \<Rightarrow> u8 list \<Rightarrow> nat \<times> bool" where
  "peek buf s toks =
     (let s' = skip_white buf s in (s', at buf s' \<noteq> 0 \<and> strchr toks (at buf s') \<noteq> None))"

lemma skip_white_le: "s \<le> skip_white buf s"
  by (induction buf s rule: skip_white.induct) (subst skip_white.simps, auto)

lemma skip_word_le: "s \<le> skip_word buf s"
  by (induction buf s rule: skip_word.induct) (subst skip_word.simps, auto)

lemma symbols_free: "0 \<notin> set whitespace" "0 \<notin> set symbols"
  by (simp_all add: whitespace_def symbols_def)

lemma strchr_tables [simp]:
  "strchr whitespace c = None \<longleftrightarrow> c \<notin> set whitespace"
  "strchr symbols c = None \<longleftrightarrow> c \<notin> set symbols"
  using strchr_mem [OF symbols_free(1), of c] strchr_mem [OF symbols_free(2), of c] by blast+

lemma skip_white_stops: "skip_white buf s < length buf \<Longrightarrow> at buf (skip_white buf s) \<notin> set whitespace"
  by (induction buf s rule: skip_white.induct)
     (subst (asm) (2) skip_white.simps, subst skip_white.simps, auto split: if_splits)

lemma gettoken_progress:
  assumes "gettoken buf s = (r, (q, e), s')"
  shows "s \<le> q" "q \<le> e" "e \<le> s'" "r \<noteq> 0 \<Longrightarrow> q < e"
proof -
  let ?q = "skip_white buf s"
  have word: "?q < skip_word buf ?q" if "at buf ?q \<noteq> 0" "at buf ?q \<notin> set symbols"
  proof -
    have "?q < length buf" using that(1) by (rule at_bound)
    then show ?thesis
      using skip_white_stops [of buf s] that skip_word_le [of "Suc ?q" buf]
      by (subst skip_word.simps) auto
  qed
  show "s \<le> q" "q \<le> e" "e \<le> s'" "r \<noteq> 0 \<Longrightarrow> q < e"
    using assms skip_white_le [of s buf] skip_white_le [of e buf] skip_word_le [of ?q buf] word
    by (auto simp: gettoken_def Let_def symbols_def split: if_splits)
qed

lemma peek_gettoken:
  assumes "peek buf s toks = (s1, True)" "gettoken buf s1 = (tok, f, s2)"
  shows "s \<le> s1" "s1 < length buf" "s1 < s2"
proof -
  have s1: "s1 = skip_white buf s" "at buf s1 \<noteq> 0" using assms(1) by (auto simp: peek_def Let_def)
  then show "s \<le> s1" "s1 < length buf" by (auto simp: skip_white_le dest: at_bound)
  have "skip_white buf s1 = s1"
    using skip_white_stops [of buf s] unfolding s1(1) by (subst skip_white.simps) auto
  then have "tok \<noteq> 0" using assms(2) s1(2) by (auto simp: gettoken_def Let_def split: if_splits)
  moreover obtain q e where "f = (q, e)" by fastforce
  ultimately show "s1 < s2" using gettoken_progress [of buf s1 tok q e s2] assms(2) by auto
qed

subsection \<open>The parser\<close>

definition redircmd :: "u8 \<Rightarrow> span \<Rightarrow> span cmd \<Rightarrow> span cmd" where
  "redircmd tok f c =
     (if tok = 60 then REDIR c f O_RDONLY 0
      else if tok = 62 then REDIR c f (O_WRONLY OR O_CREATE OR O_TRUNC) 1
      else if tok = 43 then REDIR c f (O_WRONLY OR O_CREATE) 1
      else c)"

function parseredirs :: "u8 list \<Rightarrow> span cmd \<Rightarrow> nat \<Rightarrow> span cmd parsed" where
  "parseredirs buf c s =
     (case peek buf s [60, 62] of (s1, more) \<Rightarrow>
        if \<not> more then Inr (c, s1)
        else (case gettoken buf s1 of (tok, _, s2) \<Rightarrow>
          (case gettoken buf s2 of (t, f, s3) \<Rightarrow>
             if t \<noteq> 97 then Inl ''missing file for redirection''
             else parseredirs buf (redircmd tok f c) s3)))"
  by pat_completeness auto
termination
proof (relation "measure (\<lambda>(buf, _, s). length buf - s)", simp, clarsimp)
  fix buf :: "u8 list" and s s1 s2 s3 :: nat and tok q e q' e'
  assume "(s1, True) = peek buf s [60, 62]" "(tok, (q, e), s2) = gettoken buf s1" "(97, (q', e'), s3) = gettoken buf s2"
  then show "length buf - s3 < length buf - s"
    using peek_gettoken [of buf s "[60, 62]" s1 tok "(q, e)" s2] gettoken_progress [of buf s2 97 q' e' s3] by simp
qed

text \<open>The node \<open>parseexec\<close> fills lies under the redirections parsed so far.\<close>

primrec add_arg :: "'f \<Rightarrow> 'f cmd \<Rightarrow> 'f cmd" where
  "add_arg a (EXEC as) = EXEC (as @ [a])"
| "add_arg a (REDIR c f m d) = REDIR (add_arg a c) f m d"
| "add_arg a (PIPE l r) = PIPE l r"
| "add_arg a (LIST l r) = LIST l r"
| "add_arg a (BACK c) = BACK c"

function parseargs :: "u8 list \<Rightarrow> span cmd \<Rightarrow> nat \<Rightarrow> nat \<Rightarrow> span cmd parsed" where
  "parseargs buf c argc s =
     (case peek buf s [124, 41, 38, 59] of (s1, stop) \<Rightarrow>
        if stop then Inr (c, s1)
        else (case gettoken buf s1 of (tok, a, s2) \<Rightarrow>
          if tok = 0 then Inr (c, s2)
          else if tok \<noteq> 97 then Inl ''syntax''
          else if MAXARGS \<le> argc + 1 then Inl ''too many args''
          else (case parseredirs buf (add_arg a c) s2 of
                  Inl e \<Rightarrow> Inl e
                | Inr (c', s3) \<Rightarrow> parseargs buf c' (argc + 1) s3)))"
  by pat_completeness auto
termination by (relation "measure (\<lambda>(_, _, argc, _). MAXARGS - argc)") auto

function parsebacks :: "u8 list \<Rightarrow> span cmd \<Rightarrow> nat \<Rightarrow> span cmd \<times> nat" where
  "parsebacks buf c s =
     (case peek buf s [38] of (s1, more) \<Rightarrow>
        if more then (case gettoken buf s1 of (_, _, s2) \<Rightarrow> parsebacks buf (BACK c) s2) else (c, s1))"
  by pat_completeness auto
termination
proof (relation "measure (\<lambda>(buf, _, s). length buf - s)", simp, clarsimp)
  fix buf :: "u8 list" and s s1 s2 :: nat and tok q e
  assume "(s1, True) = peek buf s [38]" "(tok, (q, e), s2) = gettoken buf s1"
  then show "length buf - s2 < length buf - s" using peek_gettoken [of buf s "[38]" s1 tok "(q, e)" s2] by simp
qed

declare parseredirs.simps [simp del] parseargs.simps [simp del] parsebacks.simps [simp del]

text \<open>The recursive part, with fuel: \<open>None\<close> is the fuel running out.\<close>

definition pbind :: "'a parsed option \<Rightarrow> ('a \<Rightarrow> nat \<Rightarrow> 'b parsed option) \<Rightarrow> 'b parsed option" where
  "pbind r f = (case r of None \<Rightarrow> None | Some (Inl e) \<Rightarrow> Some (Inl e) | Some (Inr (x, s)) \<Rightarrow> f x s)"

fun parseline :: "nat \<Rightarrow> u8 list \<Rightarrow> nat \<Rightarrow> span cmd parsed option"
  and parsepipe :: "nat \<Rightarrow> u8 list \<Rightarrow> nat \<Rightarrow> span cmd parsed option"
  and parseexec :: "nat \<Rightarrow> u8 list \<Rightarrow> nat \<Rightarrow> span cmd parsed option"
  and parseblock :: "nat \<Rightarrow> u8 list \<Rightarrow> nat \<Rightarrow> span cmd parsed option" where
  "parseline 0 buf s = None"
| "parseline (Suc k) buf s =
     pbind (parsepipe k buf s) (\<lambda>c s1.
     case parsebacks buf c s1 of (c, s2) \<Rightarrow>
     case peek buf s2 [59] of (s3, more) \<Rightarrow>
       if more then pbind (parseline k buf (snd (snd (gettoken buf s3)))) (\<lambda>r s4. Some (Inr (LIST c r, s4)))
       else Some (Inr (c, s3)))"
| "parsepipe 0 buf s = None"
| "parsepipe (Suc k) buf s =
     pbind (parseexec k buf s) (\<lambda>c s1.
     case peek buf s1 [124] of (s2, more) \<Rightarrow>
       if more then pbind (parsepipe k buf (snd (snd (gettoken buf s2)))) (\<lambda>r s3. Some (Inr (PIPE c r, s3)))
       else Some (Inr (c, s2)))"
| "parseexec 0 buf s = None"
| "parseexec (Suc k) buf s =
     (case peek buf s [40] of (s1, block) \<Rightarrow>
        if block then parseblock k buf s1
        else pbind (Some (parseredirs buf (EXEC []) s1)) (\<lambda>c s2. Some (parseargs buf c 0 s2)))"
| "parseblock 0 buf s = None"
| "parseblock (Suc k) buf s =
     (case peek buf s [40] of (s1, open) \<Rightarrow>
        if \<not> open then Some (Inl ''parseblock'')
        else pbind (parseline k buf (snd (snd (gettoken buf s1)))) (\<lambda>c s2.
          case peek buf s2 [41] of (s3, close) \<Rightarrow>
            if \<not> close then Some (Inl ''syntax - missing )'')
            else Some (parseredirs buf c (snd (snd (gettoken buf s3))))))"

primrec nulterminate :: "span cmd \<Rightarrow> u8 list \<Rightarrow> u8 list" where
  "nulterminate (EXEC as) b = fold (\<lambda>a b. b[snd a := 0]) as b"
| "nulterminate (REDIR c f m d) b = (nulterminate c b)[snd f := 0]"
| "nulterminate (PIPE l r) b = nulterminate r (nulterminate l b)"
| "nulterminate (LIST l r) b = nulterminate r (nulterminate l b)"
| "nulterminate (BACK c) b = nulterminate c b"

definition line_fuel :: "u8 list \<Rightarrow> nat" where
  "line_fuel buf = 4 * length buf + 4"

text \<open>The tree and the line with its words ended by NULs.\<close>

definition parsecmd :: "u8 list \<Rightarrow> (string + span cmd \<times> u8 list) option" where
  "parsecmd s =
     (let buf = c_string s in
      case parseline (line_fuel buf) buf 0 of
        None \<Rightarrow> None
      | Some (Inl e) \<Rightarrow> Some (Inl e)
      | Some (Inr (c, s1)) \<Rightarrow>
          (case peek buf s1 [] of (s2, _) \<Rightarrow>
             if s2 \<noteq> length buf then Some (Inl ''syntax'') else Some (Inr (c, nulterminate c buf))))"

end
