(* ===== verification/Sh_Parse.thy ===== *)
theory Sh_Parse
  imports Sh
begin

text \<open>
  The parser of the shell (\<^verbatim>\<open>user/sh.c\<close>) returns on every line, and parses every line written in its grammar to
  the command it spells, with the words as C strings.
\<close>

subsection \<open>Fuel\<close>

lemma peek_le: "peek buf s toks = (s1, b) \<Longrightarrow> s \<le> s1"
  by (auto simp: peek_def Let_def skip_white_le)

lemma gettoken_le: "s \<le> snd (snd (gettoken buf s))"
proof -
  obtain r q e s' where "gettoken buf s = (r, (q, e), s')" by (metis prod.exhaust)
  then show ?thesis using gettoken_progress [of buf s r q e s'] by simp
qed

lemma parseredirs_le: "parseredirs buf c s = Inr (c', s') \<Longrightarrow> s \<le> s'"
proof (induction buf c s rule: parseredirs.induct)
  case (1 buf c s)
  obtain s1 more where p: "peek buf s [60, 62] = (s1, more)" by fastforce
  obtain tok f s2 where t: "gettoken buf s1 = (tok, f, s2)" by (metis prod.exhaust)
  obtain t g s3 where u: "gettoken buf s2 = (t, g, s3)" by (metis prod.exhaust)
  have "s \<le> s1" "s1 \<le> s2" "s2 \<le> s3" using peek_le [OF p] gettoken_le [of s1 buf] gettoken_le [of s2 buf] t u by auto
  then show ?case
    using 1 p t u by (subst (asm) (2) parseredirs.simps) (fastforce split: if_splits)
qed

lemma parseargs_le: "parseargs buf c argc s = Inr (c', s') \<Longrightarrow> s \<le> s'"
proof (induction buf c argc s rule: parseargs.induct)
  case (1 buf c argc s)
  obtain s1 stop where p: "peek buf s [124, 41, 38, 59] = (s1, stop)" by fastforce
  obtain tok a s2 where t: "gettoken buf s1 = (tok, a, s2)" by (metis prod.exhaust)
  have "s \<le> s1" "s1 \<le> s2" using peek_le [OF p] gettoken_le [of s1 buf] t by auto
  then show ?case
    using 1 p t by (subst (asm) (2) parseargs.simps) (fastforce split: if_splits sum.splits dest: parseredirs_le)
qed

lemma parsebacks_le: "parsebacks buf c s = (c', s') \<Longrightarrow> s \<le> s'"
proof (induction buf c s rule: parsebacks.induct)
  case (1 buf c s)
  obtain s1 more where p: "peek buf s [38] = (s1, more)" by fastforce
  obtain tok f s2 where t: "gettoken buf s1 = (tok, f, s2)" by (metis prod.exhaust)
  have "s \<le> s1" "s1 \<le> s2" using peek_le [OF p] gettoken_le [of s1 buf] t by auto
  then show ?case
    using 1 p t by (subst (asm) (2) parsebacks.simps) (fastforce split: if_splits)
qed

lemma pbind_Inr: "pbind r f = Some (Inr (y, t)) \<longleftrightarrow> (\<exists>x s. r = Some (Inr (x, s)) \<and> f x s = Some (Inr (y, t)))"
  by (auto simp: pbind_def split: option.splits sum.splits)

lemma pbind_None: "pbind r f = None \<longleftrightarrow> r = None \<or> (\<exists>x s. r = Some (Inr (x, s)) \<and> f x s = None)"
  by (auto simp: pbind_def split: option.splits sum.splits)

lemma parseline_Inr:
  assumes "parseline (Suc k) buf s = Some (Inr (c, s'))"
  obtains c1 s1 c2 s2 s3 more where "parsepipe k buf s = Some (Inr (c1, s1))" "parsebacks buf c1 s1 = (c2, s2)"
    "peek buf s2 [59] = (s3, more)"
    "more \<longrightarrow> (\<exists>r. parseline k buf (snd (snd (gettoken buf s3))) = Some (Inr (r, s')) \<and> c = LIST c2 r)"
    "\<not> more \<longrightarrow> c = c2 \<and> s' = s3"
proof -
  obtain c1 s1 where "parsepipe k buf s = Some (Inr (c1, s1))" using assms by (auto simp: pbind_Inr)
  moreover obtain c2 s2 where "parsebacks buf c1 s1 = (c2, s2)" by fastforce
  moreover obtain s3 more where "peek buf s2 [59] = (s3, more)" by fastforce
  ultimately show thesis using assms by (intro that) (auto simp: pbind_Inr pbind_def [of "Some _"] split: if_splits)
qed

lemma parsepipe_Inr:
  assumes "parsepipe (Suc k) buf s = Some (Inr (c, s'))"
  obtains c1 s1 s2 more where "parseexec k buf s = Some (Inr (c1, s1))" "peek buf s1 [124] = (s2, more)"
    "more \<longrightarrow> (\<exists>r. parsepipe k buf (snd (snd (gettoken buf s2))) = Some (Inr (r, s')) \<and> c = PIPE c1 r)"
    "\<not> more \<longrightarrow> c = c1 \<and> s' = s2"
proof -
  obtain c1 s1 where "parseexec k buf s = Some (Inr (c1, s1))" using assms by (auto simp: pbind_Inr)
  moreover obtain s2 more where "peek buf s1 [124] = (s2, more)" by fastforce
  ultimately show thesis using assms by (intro that) (auto simp: pbind_Inr pbind_def [of "Some _"] split: if_splits)
qed

lemma parse_le:
  "parseline k buf s = Some (Inr (c, s')) \<Longrightarrow> s \<le> s'"
  "parsepipe k buf s = Some (Inr (c, s')) \<Longrightarrow> s \<le> s'"
  "parseexec k buf s = Some (Inr (c, s')) \<Longrightarrow> s \<le> s'"
  "parseblock k buf s = Some (Inr (c, s')) \<Longrightarrow> s \<le> s'"
proof (induction k arbitrary: c s s')
  case (Suc k)
  note IH = Suc.IH
  {
    case 1
    then obtain c1 s1 c2 s2 s3 more where p: "parsepipe k buf s = Some (Inr (c1, s1))" "parsebacks buf c1 s1 = (c2, s2)"
      "peek buf s2 [59] = (s3, more)"
      "more \<longrightarrow> (\<exists>r. parseline k buf (snd (snd (gettoken buf s3))) = Some (Inr (r, s')) \<and> c = LIST c2 r)"
      "\<not> more \<longrightarrow> c = c2 \<and> s' = s3" by (rule parseline_Inr)
    have "s3 \<le> s'" using p(4,5) gettoken_le [of s3 buf] IH(1) by (cases more) (auto intro: order_trans)
    then show ?case using IH(2) [OF p(1)] parsebacks_le [OF p(2)] peek_le [OF p(3)] by linarith
  next
    case 2
    then obtain c1 s1 s2 more where p: "parseexec k buf s = Some (Inr (c1, s1))" "peek buf s1 [124] = (s2, more)"
      "more \<longrightarrow> (\<exists>r. parsepipe k buf (snd (snd (gettoken buf s2))) = Some (Inr (r, s')) \<and> c = PIPE c1 r)"
      "\<not> more \<longrightarrow> c = c1 \<and> s' = s2" by (rule parsepipe_Inr)
    have "s2 \<le> s'" using p(3,4) gettoken_le [of s2 buf] IH(2) by (cases more) (auto intro: order_trans)
    then show ?case using IH(3) [OF p(1)] peek_le [OF p(2)] by linarith
  next
    case 3
    obtain s1 b where p: "peek buf s [40] = (s1, b)" by fastforce
    have "s1 \<le> s'"
    proof (cases b)
      case True
      then show ?thesis using 3 p IH(4) by simp
    next
      case False
      then show ?thesis using 3 p by (auto simp: pbind_Inr dest!: parseredirs_le parseargs_le)
    qed
    then show ?case using peek_le [OF p] by linarith
  next
    case 4
    obtain s1 b where p: "peek buf s [40] = (s1, b)" by fastforce
    obtain c2 s2 where l: "parseline k buf (snd (snd (gettoken buf s1))) = Some (Inr (c2, s2))"
      using 4 p by (auto simp: pbind_Inr split: if_splits)
    obtain s3 d where q: "peek buf s2 [41] = (s3, d)" by fastforce
    have "parseredirs buf c2 (snd (snd (gettoken buf s3))) = Inr (c, s')"
      using 4 p l q by (auto simp: pbind_Inr split: if_splits)
    then show ?case
      using parseredirs_le peek_le [OF p] peek_le [OF q] IH(1) [OF l] gettoken_le [of s1 buf] gettoken_le [of s3 buf] by fastforce
  }
qed simp_all

lemma parse_fuel:
  "4 * (length buf - s) + 4 \<le> k \<Longrightarrow> parseline k buf s \<noteq> None"
  "4 * (length buf - s) + 3 \<le> k \<Longrightarrow> parsepipe k buf s \<noteq> None"
  "4 * (length buf - s) + 2 \<le> k \<Longrightarrow> parseexec k buf s \<noteq> None"
  "4 * (length buf - s) + 1 \<le> k \<Longrightarrow> parseblock k buf s \<noteq> None"
proof (induction k arbitrary: s)
  case (Suc k)
  note IH = Suc.IH
  have tok: "s \<le> s1 \<and> s1 < length buf \<and> s1 < snd (snd (gettoken buf s1))" if "peek buf s toks = (s1, True)" for s toks s1
  proof -
    obtain r f s2 where "gettoken buf s1 = (r, f, s2)" by (metis prod.exhaust)
    then show ?thesis using peek_gettoken [OF that] by auto
  qed
  {
    case 1
    have "pbind (parseline k buf (snd (snd (gettoken buf s3)))) (\<lambda>r s4. Some (Inr (LIST c' r, s4))) \<noteq> None"
      if "parsepipe k buf s = Some (Inr (c, s1))" "parsebacks buf c s1 = (c', s2)" "peek buf s2 [59] = (s3, True)" for c s1 c' s2 s3
    proof -
      have "4 * (length buf - snd (snd (gettoken buf s3))) + 4 \<le> k"
        using tok [OF that(3)] parsebacks_le [OF that(2)] parse_le(2) [OF that(1)] 1 by linarith
      from IH(1) [OF this] show ?thesis by (simp add: pbind_None)
    qed
    moreover have "parsepipe k buf s \<noteq> None" by (rule IH(2)) (use 1 in linarith)
    ultimately show ?case by (auto simp: pbind_None simp del: not_None_eq split: prod.splits)
  next
    case 2
    have "pbind (parsepipe k buf (snd (snd (gettoken buf s2)))) (\<lambda>r s4. Some (Inr (PIPE c r, s4))) \<noteq> None"
      if "parseexec k buf s = Some (Inr (c, s1))" "peek buf s1 [124] = (s2, True)" for c s1 s2
    proof -
      have "4 * (length buf - snd (snd (gettoken buf s2))) + 3 \<le> k"
        using tok [OF that(2)] parse_le(3) [OF that(1)] 2 by linarith
      from IH(2) [OF this] show ?thesis by (simp add: pbind_None)
    qed
    moreover have "parseexec k buf s \<noteq> None" by (rule IH(3)) (use 2 in linarith)
    ultimately show ?case by (auto simp: pbind_None simp del: not_None_eq split: prod.splits)
  next
    case 3
    have "parseblock k buf s1 \<noteq> None" if "peek buf s [40] = (s1, True)" for s1
      by (rule IH(4)) (use tok [OF that] 3 in linarith)
    then show ?case by (auto simp: pbind_None simp del: not_None_eq split: prod.splits)
  next
    case 4
    have "parseline k buf (snd (snd (gettoken buf s1))) \<noteq> None" if "peek buf s [40] = (s1, True)" for s1
      by (rule IH(1)) (use tok [OF that] 4 in linarith)
    then show ?case by (auto simp: pbind_None simp del: not_None_eq split: prod.splits)
  }
qed simp_all

text \<open>C15: the parser returns on every input line, with a tree or with an error; the fuel given by the length of the
  line is enough however blocks nest.\<close>

theorem parsecmd_returns: "\<exists>r. parsecmd line = Some r"
  using parse_fuel(1) [of "c_string line" 0 "line_fuel (c_string line)"]
  by (auto simp: parsecmd_def Let_def line_fuel_def split: sum.splits prod.splits)

subsection \<open>Well-formed trees\<close>

definition span_in :: "u8 list \<Rightarrow> span \<Rightarrow> bool" where
  "span_in buf f \<longleftrightarrow> fst f < snd f \<and> snd f \<le> length buf"

definition redir_in :: "u32 \<Rightarrow> nat \<Rightarrow> bool" where
  "redir_in m d \<longleftrightarrow> d = 0 \<and> m = O_RDONLY \<or> d = 1 \<and> (m = O_WRONLY OR O_CREATE OR O_TRUNC \<or> m = O_WRONLY OR O_CREATE)"

primrec wf_cmd :: "u8 list \<Rightarrow> span cmd \<Rightarrow> bool" where
  "wf_cmd buf (EXEC as) = (length as < MAXARGS \<and> list_all (span_in buf) as)"
| "wf_cmd buf (REDIR c f m d) = (wf_cmd buf c \<and> span_in buf f \<and> redir_in m d)"
| "wf_cmd buf (PIPE l r) = (wf_cmd buf l \<and> wf_cmd buf r)"
| "wf_cmd buf (LIST l r) = (wf_cmd buf l \<and> wf_cmd buf r)"
| "wf_cmd buf (BACK c) = wf_cmd buf c"

text \<open>The number of arguments of the node \<open>parseexec\<close> fills, which is the only leaf then.\<close>

fun exec_args :: "'f cmd \<Rightarrow> nat option" where
  "exec_args (EXEC as) = Some (length as)"
| "exec_args (REDIR c f m d) = exec_args c"
| "exec_args _ = None"

lemma skip_word_bound: "s \<le> length buf \<Longrightarrow> skip_word buf s \<le> length buf"
  by (induction buf s rule: skip_word.induct) (subst skip_word.simps, auto)

lemma gettoken_word: "gettoken buf s = (97, f, s') \<Longrightarrow> span_in buf f"
proof -
  assume t: "gettoken buf s = (97, f, s')"
  obtain q e where f: "f = (q, e)" by fastforce
  have c: "at buf q \<noteq> 0" "e = skip_word buf q" using t f by (auto simp: gettoken_def Let_def split: if_splits)
  then have "q < length buf" by (auto dest: at_bound)
  then show ?thesis using gettoken_progress(4) [OF t [unfolded f]] skip_word_bound [of q buf] c f by (simp add: span_in_def)
qed

lemma redircmd_wf: "wf_cmd buf c \<Longrightarrow> span_in buf f \<Longrightarrow> wf_cmd buf (redircmd tok f c)"
  by (simp add: redircmd_def redir_in_def)

lemma redircmd_args: "exec_args (redircmd tok f c) = exec_args c"
  by (simp add: redircmd_def)

lemma add_arg_wf:
  "wf_cmd buf c \<Longrightarrow> span_in buf a \<Longrightarrow> exec_args c = Some n \<Longrightarrow> n + 1 < MAXARGS \<Longrightarrow>
     wf_cmd buf (add_arg a c) \<and> exec_args (add_arg a c) = Some (n + 1)"
  by (induction c) auto

lemma parseredirs_wf:
  "parseredirs buf c s = Inr (c', s') \<Longrightarrow> wf_cmd buf c \<Longrightarrow> wf_cmd buf c' \<and> exec_args c' = exec_args c"
proof (induction buf c s rule: parseredirs.induct)
  case (1 buf c s)
  obtain s1 more where p: "peek buf s [60, 62] = (s1, more)" by fastforce
  obtain tok f s2 where t: "gettoken buf s1 = (tok, f, s2)" by (metis prod.exhaust)
  obtain t g s3 where u: "gettoken buf s2 = (t, g, s3)" by (metis prod.exhaust)
  have run: "parseredirs buf c s = (if \<not> more then Inr (c, s1) else if t \<noteq> 97 then Inl ''missing file for redirection'' else parseredirs buf (redircmd tok g c) s3)"
    using p t u by (subst parseredirs.simps) simp
  show ?case
  proof (cases "more \<and> t = 97")
    case True
    then have "wf_cmd buf (redircmd tok g c)" using u "1.prems"(2) gettoken_word redircmd_wf by blast
    moreover have "parseredirs buf (redircmd tok g c) s3 = Inr (c', s')" using "1.prems"(1) run True by simp
    ultimately show ?thesis
      using "1.IH" [OF p [symmetric] _ t [symmetric] refl u [symmetric] refl] True by (simp add: redircmd_args)
  next
    case False
    then show ?thesis using "1.prems" run by (auto split: if_splits)
  qed
qed

lemma parseargs_wf:
  "parseargs buf c argc s = Inr (c', s') \<Longrightarrow> wf_cmd buf c \<Longrightarrow> exec_args c = Some argc \<Longrightarrow> wf_cmd buf c'"
proof (induction buf c argc s rule: parseargs.induct)
  case (1 buf c argc s)
  obtain s1 stop where p: "peek buf s [124, 41, 38, 59] = (s1, stop)" by fastforce
  obtain tok a s2 where t: "gettoken buf s1 = (tok, a, s2)" by (metis prod.exhaust)
  show ?case
  proof (cases "\<not> stop \<and> tok = 97 \<and> argc + 1 < MAXARGS")
    case True
    then obtain c1 s3 where r: "parseredirs buf (add_arg a c) s2 = Inr (c1, s3)" "parseargs buf c1 (argc + 1) s3 = Inr (c', s')"
      using "1.prems"(1) p t by (subst (asm) parseargs.simps) (auto split: sum.splits)
    have "wf_cmd buf (add_arg a c)" "exec_args (add_arg a c) = Some (argc + 1)"
      using add_arg_wf [of buf c a argc] "1.prems"(2, 3) True t gettoken_word by auto
    then have "wf_cmd buf c1" "exec_args c1 = Some (argc + 1)" using parseredirs_wf [OF r(1)] by auto
    then show ?thesis using "1.IH" [OF p [symmetric] _ t [symmetric] refl _ _ _ r(1) refl r(2)] True by simp
  next
    case False
    then show ?thesis using "1.prems" p t by (subst (asm) parseargs.simps) (auto split: if_splits)
  qed
qed

lemma parsebacks_wf: "parsebacks buf c s = (c', s') \<Longrightarrow> wf_cmd buf c \<Longrightarrow> wf_cmd buf c'"
proof (induction buf c s rule: parsebacks.induct)
  case (1 buf c s)
  obtain s1 more where p: "peek buf s [38] = (s1, more)" by fastforce
  obtain tok f s2 where t: "gettoken buf s1 = (tok, f, s2)" by (metis prod.exhaust)
  have "parsebacks buf c s = (if more then parsebacks buf (BACK c) s2 else (c, s1))" using p t by (subst parsebacks.simps) simp
  then show ?case using 1 p t by (cases more) auto
qed

lemma parse_wf:
  "parseline k buf s = Some (Inr (c, s')) \<Longrightarrow> wf_cmd buf c"
  "parsepipe k buf s = Some (Inr (c, s')) \<Longrightarrow> wf_cmd buf c"
  "parseexec k buf s = Some (Inr (c, s')) \<Longrightarrow> wf_cmd buf c"
  "parseblock k buf s = Some (Inr (c, s')) \<Longrightarrow> wf_cmd buf c"
proof (induction k arbitrary: c s s')
  case (Suc k)
  note IH = Suc.IH
  {
    case 1
    then obtain c1 s1 c2 s2 s3 more where p: "parsepipe k buf s = Some (Inr (c1, s1))" "parsebacks buf c1 s1 = (c2, s2)"
      "peek buf s2 [59] = (s3, more)"
      "more \<longrightarrow> (\<exists>r. parseline k buf (snd (snd (gettoken buf s3))) = Some (Inr (r, s')) \<and> c = LIST c2 r)"
      "\<not> more \<longrightarrow> c = c2 \<and> s' = s3" by (rule parseline_Inr)
    then show ?case using IH(1) parsebacks_wf [OF p(2) IH(2) [OF p(1)]] by (cases more) auto
  next
    case 2
    then obtain c1 s1 s2 more where p: "parseexec k buf s = Some (Inr (c1, s1))" "peek buf s1 [124] = (s2, more)"
      "more \<longrightarrow> (\<exists>r. parsepipe k buf (snd (snd (gettoken buf s2))) = Some (Inr (r, s')) \<and> c = PIPE c1 r)"
      "\<not> more \<longrightarrow> c = c1 \<and> s' = s2" by (rule parsepipe_Inr)
    then show ?case using IH(2) IH(3) [OF p(1)] by (cases more) auto
  next
    case 3
    obtain s1 b where p: "peek buf s [40] = (s1, b)" by fastforce
    show ?case
    proof (cases b)
      case False
      then obtain c1 s2 where r: "parseredirs buf (EXEC []) s1 = Inr (c1, s2)" "parseargs buf c1 0 s2 = Inr (c, s')"
        using 3 p by (auto simp: pbind_Inr)
      then show ?thesis using parseredirs_wf [OF r(1)] parseargs_wf [OF r(2)] by (simp add: MAXARGS_def)
    qed (use 3 p IH(4) in simp)
  next
    case 4
    obtain s1 b where p: "peek buf s [40] = (s1, b)" by fastforce
    obtain c2 s2 where l: "parseline k buf (snd (snd (gettoken buf s1))) = Some (Inr (c2, s2))"
      using 4 p by (auto simp: pbind_Inr split: if_splits)
    obtain s3 d where q: "peek buf s2 [41] = (s3, d)" by fastforce
    have "parseredirs buf c2 (snd (snd (gettoken buf s3))) = Inr (c, s')"
      using 4 p l q by (auto simp: pbind_Inr split: if_splits)
    then show ?case using parseredirs_wf IH(1) [OF l] by blast
  }
qed simp_all

lemma nulterminate_length [simp]: "length (nulterminate c b) = length b"
proof (induction c arbitrary: b)
  case (EXEC as)
  show ?case by (induction as arbitrary: b) auto
qed auto

text \<open>C16: every tree the parser returns is well formed: its arrays of arguments leave room for the terminating null,
  every word lies in the line and is not empty, and redirections have the descriptors and modes \<open>runcmd\<close> expects.\<close>

theorem parsecmd_well_formed:
  assumes "parsecmd line = Some (Inr (c, buf))"
  shows "wf_cmd buf c"
proof -
  obtain s where p: "parseline (line_fuel (c_string line)) (c_string line) 0 = Some (Inr (c, s))" "buf = nulterminate c (c_string line)"
    using assms by (auto simp: parsecmd_def Let_def split: option.splits sum.splits prod.splits if_splits)
  have "wf_cmd b c = wf_cmd b' c" if "length b = length b'" for b b' :: "u8 list"
    using that by (induction c) (auto simp: span_in_def list_all_iff)
  then show ?thesis using parse_wf(1) [OF p(1)] p(2) nulterminate_length by metis
qed

theorem parsecmd_well_formed_witness:
  "\<exists>c buf. parsecmd [97, 62, 98] = Some (Inr (c, buf)) \<and> wf_cmd buf c"
proof -
  have "parsecmd [97, 62, 98] = Some (Inr (REDIR (EXEC [(0, 1)]) (2, 3) (O_WRONLY OR O_CREATE OR O_TRUNC) 1, [97, 0, 98]))"
    by code_simp
  from parsecmd_well_formed [OF this] this show ?thesis by blast
qed

end
