(* ===== verification/Sh_Grammar.thy ===== *)
theory Sh_Grammar
  imports Sh_Parse
begin

text \<open>
  The command language of the shell (\<^verbatim>\<open>user/sh.c\<close>) as a grammar, its text with any white space the tokens leave
  room for, and the proof that \<open>parsecmd\<close> reads the text back as the command.
\<close>

subsection \<open>Tokens and their text\<close>

datatype token = Sym u8 | Word "u8 list"

definition delim :: "u8 \<Rightarrow> bool" where
  "delim c \<longleftrightarrow> c \<in> set whitespace \<or> c \<in> set symbols"

definition word_ok :: "u8 list \<Rightarrow> bool" where
  "word_ok w \<longleftrightarrow> w \<noteq> [] \<and> (\<forall>c \<in> set w. c \<noteq> 0 \<and> \<not> delim c)"

definition white :: "u8 list \<Rightarrow> bool" where
  "white w \<longleftrightarrow> set w \<subseteq> set whitespace"

fun tok_text :: "token \<Rightarrow> u8 list" where
  "tok_text (Sym c) = (if c = 43 then [62, 62] else [c])"
| "tok_text (Word w) = w"

fun tok_code :: "token \<Rightarrow> u8" where
  "tok_code (Sym c) = c"
| "tok_code (Word w) = 97"

fun tok_ok :: "token \<Rightarrow> bool" where
  "tok_ok (Sym c) = (c \<in> set symbols \<or> c = 43)"
| "tok_ok (Word w) = word_ok w"

text \<open>What may come right after a token: after a word a delimiter, after \<open>>\<close> anything but another.\<close>

fun ends_before :: "token \<Rightarrow> u8 list \<Rightarrow> bool" where
  "ends_before (Word w) rest = (rest = [] \<or> delim (hd rest))"
| "ends_before (Sym c) rest = (c = 62 \<longrightarrow> rest = [] \<or> hd rest \<noteq> 62)"

inductive renders :: "token list \<Rightarrow> u8 list \<Rightarrow> bool" where
  renders_Nil: "white w \<Longrightarrow> renders [] w"
| renders_Cons: "white w \<Longrightarrow> tok_ok t \<Longrightarrow> ends_before t rest \<Longrightarrow> renders ts rest \<Longrightarrow> renders (t # ts) (w @ tok_text t @ rest)"

inductive_cases renders_NilE: "renders [] txt"
inductive_cases renders_ConsE: "renders (t # ts) txt"

lemma symbol_iff: "c \<in> set symbols \<longleftrightarrow> c = 60 \<or> c = 124 \<or> c = 62 \<or> c = 38 \<or> c = 59 \<or> c = 40 \<or> c = 41"
  by (auto simp: symbols_def)

lemma white_iff: "c \<in> set whitespace \<longleftrightarrow> c = 32 \<or> c = 9 \<or> c = 13 \<or> c = 10 \<or> c = 11"
  by (auto simp: whitespace_def)

lemma tok_text_start: "tok_ok t \<Longrightarrow> tok_text t \<noteq> [] \<and> hd (tok_text t) \<notin> set whitespace \<and> hd (tok_text t) \<noteq> 0"
  by (cases t) (auto simp: symbol_iff white_iff word_ok_def delim_def)

lemma renders_no_nul: "renders ts txt \<Longrightarrow> 0 \<notin> set txt"
proof (induction rule: renders.induct)
  case (renders_Nil w)
  then show ?case using symbols_free(1) by (auto simp: white_def)
next
  case (renders_Cons w t rest ts)
  moreover have "0 \<notin> set (tok_text t)" using renders_Cons(2) by (cases t) (auto simp: symbol_iff word_ok_def)
  ultimately show ?case using symbols_free(1) by (auto simp: white_def)
qed

lemma renders_toks_ok: "renders ts txt \<Longrightarrow> t \<in> set ts \<Longrightarrow> tok_ok t"
  by (induction rule: renders.induct) auto

subsection \<open>Reading tokens\<close>

definition lexes :: "u8 list \<Rightarrow> nat \<Rightarrow> token list \<Rightarrow> bool" where
  "lexes buf s ts \<longleftrightarrow> s \<le> length buf \<and> renders ts (drop s buf)"

lemma drop_eq_Cons: "drop s buf = c # r \<longleftrightarrow> s < length buf \<and> buf ! s = c \<and> drop (Suc s) buf = r"
  by (cases "s < length buf") (auto simp flip: Cons_nth_drop_Suc)

lemma drop_hd: "drop s buf = r \<Longrightarrow> r \<noteq> [] \<Longrightarrow> at buf s = hd r"
  by (auto simp: at_def hd_drop_conv_nth)

lemma skip_white_run:
  "white w \<Longrightarrow> drop s buf = w @ r \<Longrightarrow> r = [] \<or> hd r \<notin> set whitespace \<Longrightarrow> s \<le> length buf \<Longrightarrow> skip_white buf s = s + length w"
proof (induction w arbitrary: s)
  case Nil
  then show ?case using drop_hd [of s buf r] by (subst skip_white.simps) auto
next
  case (Cons c w)
  then have "s < length buf" "at buf s = c" "drop (Suc s) buf = w @ r" by (auto simp: drop_eq_Cons at_def)
  then show ?case using Cons.IH [of "Suc s"] Cons.prems by (subst skip_white.simps) (auto simp: white_def)
qed

lemma skip_word_run:
  "(\<And>c. c \<in> set w \<Longrightarrow> \<not> delim c) \<Longrightarrow> drop s buf = w @ r \<Longrightarrow> r = [] \<or> delim (hd r) \<Longrightarrow> s \<le> length buf \<Longrightarrow> skip_word buf s = s + length w"
proof (induction w arbitrary: s)
  case Nil
  then show ?case using drop_hd [of s buf r] by (subst skip_word.simps) (auto simp: delim_def)
next
  case (Cons c w)
  then have "s < length buf" "at buf s = c" "drop (Suc s) buf = w @ r" by (auto simp: drop_eq_Cons at_def)
  then show ?case using Cons.IH [of "Suc s"] Cons.prems by (subst skip_word.simps) (auto simp: delim_def)
qed

lemma lexes_Nil:
  assumes "lexes buf s []"
  shows "skip_white buf s = length buf" "lexes buf (length buf) []"
proof -
  have "white (drop s buf)" "s \<le> length buf" using assms by (auto simp: lexes_def elim: renders_NilE)
  then show "skip_white buf s = length buf" using skip_white_run [of "drop s buf" s buf "[]"] by simp
  show "lexes buf (length buf) []" by (simp add: lexes_def renders_Nil white_def)
qed

lemma lexes_Cons:
  assumes "lexes buf s (t # ts)"
  obtains rest where "drop (skip_white buf s) buf = tok_text t @ rest" "tok_ok t" "ends_before t rest" "renders ts rest"
    "skip_white buf s < length buf" "at buf (skip_white buf s) = hd (tok_text t)"
proof -
  have s: "s \<le> length buf" "renders (t # ts) (drop s buf)" using assms by (auto simp: lexes_def)
  from s(2) obtain w rest where w: "drop s buf = w @ tok_text t @ rest" "white w" "tok_ok t" "ends_before t rest" "renders ts rest"
    by (rule renders_ConsE)
  note st = tok_text_start [OF w(3)]
  have k: "skip_white buf s = s + length w" by (rule skip_white_run) (use w st s in auto)
  have d: "drop (skip_white buf s) buf = tok_text t @ rest" using w(1) k by (metis append_eq_conv_conj drop_drop add.commute)
  then have "skip_white buf s < length buf" using st by (metis append_is_Nil_conv drop_all leI)
  moreover have "at buf (skip_white buf s) = hd (tok_text t)" using drop_hd [OF d] st by simp
  ultimately show thesis using that d w by blast
qed

lemma lexes_skip: "lexes buf s ts \<Longrightarrow> lexes buf (skip_white buf s) ts"
proof (cases ts)
  case Nil
  then show "lexes buf s ts \<Longrightarrow> ?thesis" using lexes_Nil by simp
next
  case (Cons t us)
  assume "lexes buf s ts"
  then obtain rest where r: "drop (skip_white buf s) buf = tok_text t @ rest" "tok_ok t" "ends_before t rest" "renders us rest"
      "skip_white buf s < length buf"
    using Cons by (auto elim: lexes_Cons)
  then show ?thesis using renders_Cons [of "[]" t rest us] Cons by (simp add: lexes_def white_def)
qed

definition starts_in :: "token list \<Rightarrow> u8 list \<Rightarrow> bool" where
  "starts_in ts toks = (case ts of [] \<Rightarrow> False | t # _ \<Rightarrow> hd (tok_text t) \<in> set toks)"

lemma lexes_peek:
  assumes "lexes buf s ts" "0 \<notin> set toks"
  obtains s' where "peek buf s toks = (s', starts_in ts toks)" "lexes buf s' ts"
proof -
  have "peek buf s toks = (skip_white buf s, starts_in ts toks)"
  proof (cases ts)
    case Nil
    then show ?thesis using lexes_Nil assms by (simp add: peek_def Let_def starts_in_def at_def)
  next
    case (Cons t us)
    then obtain rest where "tok_ok t" "at buf (skip_white buf s) = hd (tok_text t)" using assms(1) by (auto elim: lexes_Cons)
    then show ?thesis using Cons tok_text_start [of t] strchr_mem [OF assms(2)] by (simp add: peek_def Let_def starts_in_def)
  qed
  then show thesis using that lexes_skip [OF assms(1)] by blast
qed

definition word_at :: "u8 list \<Rightarrow> span \<Rightarrow> u8 list" where
  "word_at buf f = take (snd f - fst f) (drop (fst f) buf)"

definition span_ok :: "u8 list \<Rightarrow> span \<Rightarrow> bool" where
  "span_ok buf f \<longleftrightarrow> snd f \<le> length buf \<and> fst f \<le> snd f \<and> word_ok (word_at buf f) \<and> (snd f = length buf \<or> delim (buf ! snd f))"

lemma lexes_gettoken:
  assumes "lexes buf s (t # ts)"
  obtains f s' where "gettoken buf s = (tok_code t, f, s')" "lexes buf s' ts"
    "\<And>w. t = Word w \<Longrightarrow> word_at buf f = w \<and> span_ok buf f"
proof -
  obtain rest where d: "drop (skip_white buf s) buf = tok_text t @ rest" "tok_ok t" "ends_before t rest" "renders ts rest"
      "skip_white buf s < length buf" "at buf (skip_white buf s) = hd (tok_text t)"
    using assms by (rule lexes_Cons)
  let ?q = "skip_white buf s" and ?e = "skip_white buf s + length (tok_text t)"
  have "length buf - ?q = length (tok_text t) + length rest" using d(1) by (metis length_append length_drop)
  moreover have "drop (length (tok_text t)) (drop ?q buf) = rest" by (simp add: d(1))
  ultimately have e: "?e \<le> length buf" "drop ?e buf = rest" using d(5) by (simp_all add: add.commute)
  have l: "lexes buf (skip_white buf ?e) ts" by (rule lexes_skip) (simp add: lexes_def e d(4))
  have "gettoken buf s = (tok_code t, (?q, ?e), skip_white buf ?e)"
  proof (cases t)
    case (Word w)
    then have "skip_word buf ?q = ?e"
      using d skip_word_run [of w ?q buf rest] by (auto simp: word_ok_def)
    moreover have "at buf ?q \<noteq> 0" "at buf ?q \<notin> set symbols" using d(2, 6) Word by (auto simp: word_ok_def delim_def)
    ultimately show ?thesis using Word by (auto simp: gettoken_def Let_def symbol_iff)
  next
    case (Sym c)
    have "at buf (Suc ?q) = (if rest = [] then 0 else hd rest)" if "c = 62"
      using d(1, 5) Sym that drop_hd [of "Suc ?q" buf rest] by (auto simp: drop_eq_Cons at_def)
    moreover have "at buf (Suc ?q) = 62" if "c = 43" using d(1) Sym that by (auto simp: drop_eq_Cons at_def)
    ultimately show ?thesis using Sym d(2, 3, 6) by (auto simp: gettoken_def Let_def symbol_iff)
  qed
  moreover have "word_at buf (?q, ?e) = w \<and> span_ok buf (?q, ?e)" if "t = Word w" for w
  proof -
    have w: "word_at buf (?q, ?e) = w" using d(1) that by (simp add: word_at_def)
    then show ?thesis using d(2, 3) e that drop_hd [OF e(2)] by (cases "rest = []") (auto simp: span_ok_def at_def split: if_splits)
  qed
  ultimately show thesis using that l by blast
qed

subsection \<open>The grammar\<close>

datatype redirect = From "u8 list" | To "u8 list" | Append "u8 list"

datatype line =
    Last pipeline nat
  | Seq pipeline nat line
and pipeline =
    One command
  | Then command pipeline
and command =
    Simple "redirect list" "(u8 list \<times> redirect list) list"
  | Block line "redirect list"

fun add_redir :: "u8 list cmd \<Rightarrow> redirect \<Rightarrow> u8 list cmd" where
  "add_redir c (From f) = REDIR c f O_RDONLY 0"
| "add_redir c (To f) = REDIR c f (O_WRONLY OR O_CREATE OR O_TRUNC) 1"
| "add_redir c (Append f) = REDIR c f (O_WRONLY OR O_CREATE) 1"

text \<open>The command a line stands for: a background mark per \<open>&\<close>, lists and pipes to the right, redirections
  outermost last.\<close>

primrec line_cmd :: "line \<Rightarrow> u8 list cmd" and pipeline_cmd :: "pipeline \<Rightarrow> u8 list cmd" and command_cmd :: "command \<Rightarrow> u8 list cmd" where
  "line_cmd (Last p n) = (BACK ^^ n) (pipeline_cmd p)"
| "line_cmd (Seq p n l) = LIST ((BACK ^^ n) (pipeline_cmd p)) (line_cmd l)"
| "pipeline_cmd (One c) = command_cmd c"
| "pipeline_cmd (Then c p) = PIPE (command_cmd c) (pipeline_cmd p)"
| "command_cmd (Simple rs ws) = foldl add_redir (EXEC (map fst ws)) (rs @ concat (map snd ws))"
| "command_cmd (Block l rs) = foldl add_redir (line_cmd l) rs"

fun redir_toks :: "redirect \<Rightarrow> token list" where
  "redir_toks (From f) = [Sym 60, Word f]"
| "redir_toks (To f) = [Sym 62, Word f]"
| "redir_toks (Append f) = [Sym 43, Word f]"

primrec line_toks :: "line \<Rightarrow> token list" and pipeline_toks :: "pipeline \<Rightarrow> token list" and command_toks :: "command \<Rightarrow> token list" where
  "line_toks (Last p n) = pipeline_toks p @ replicate n (Sym 38)"
| "line_toks (Seq p n l) = pipeline_toks p @ replicate n (Sym 38) @ Sym 59 # line_toks l"
| "pipeline_toks (One c) = command_toks c"
| "pipeline_toks (Then c p) = command_toks c @ Sym 124 # pipeline_toks p"
| "command_toks (Simple rs ws) = concat (map redir_toks rs) @ concat (map (\<lambda>(w, rs). Word w # concat (map redir_toks rs)) ws)"
| "command_toks (Block l rs) = Sym 40 # line_toks l @ Sym 41 # concat (map redir_toks rs)"

text \<open>The only limit of the parser: fewer than \<open>MAXARGS\<close> words in a command.\<close>

primrec line_ok :: "line \<Rightarrow> bool" and pipeline_ok :: "pipeline \<Rightarrow> bool" and command_ok :: "command \<Rightarrow> bool" where
  "line_ok (Last p n) = pipeline_ok p"
| "line_ok (Seq p n l) = (pipeline_ok p \<and> line_ok l)"
| "pipeline_ok (One c) = command_ok c"
| "pipeline_ok (Then c p) = (command_ok c \<and> pipeline_ok p)"
| "command_ok (Simple rs ws) = (length ws < MAXARGS)"
| "command_ok (Block l rs) = line_ok l"

subsection \<open>The parser reads the grammar\<close>

text \<open>\<open>reads buf r ts t\<close>: the parser result \<open>r\<close> is a tree of good spans that spells \<open>t\<close>, and \<open>ts\<close> are the tokens left.\<close>

definition reads :: "u8 list \<Rightarrow> span cmd parsed \<Rightarrow> token list \<Rightarrow> u8 list cmd \<Rightarrow> bool" where
  "reads buf r ts t \<longleftrightarrow>
     (\<exists>c s. r = Inr (c, s) \<and> lexes buf s ts \<and> map_cmd (word_at buf) c = t \<and> (\<forall>f \<in> set_cmd c. span_ok buf f))"

lemma readsI:
  "lexes buf s ts \<Longrightarrow> map_cmd (word_at buf) c = t \<Longrightarrow> (\<And>f. f \<in> set_cmd c \<Longrightarrow> span_ok buf f) \<Longrightarrow> reads buf (Inr (c, s)) ts t"
  by (auto simp: reads_def)

lemma readsE:
  assumes "reads buf r ts t"
  obtains c s where "r = Inr (c, s)" "lexes buf s ts" "map_cmd (word_at buf) c = t" "\<forall>f \<in> set_cmd c. span_ok buf f"
  using assms by (auto simp: reads_def)

lemma redircmd_map:
  "map_cmd (word_at buf) (redircmd 60 f c) = add_redir (map_cmd (word_at buf) c) (From (word_at buf f))"
  "map_cmd (word_at buf) (redircmd 62 f c) = add_redir (map_cmd (word_at buf) c) (To (word_at buf f))"
  "map_cmd (word_at buf) (redircmd 43 f c) = add_redir (map_cmd (word_at buf) c) (Append (word_at buf f))"
  by (simp_all add: redircmd_def)

lemma redircmd_set: "set_cmd (redircmd tok f c) \<subseteq> insert f (set_cmd c)"
  by (auto simp: redircmd_def)

lemma add_arg_map: "map_cmd g (add_arg a c) = add_arg (g a) (map_cmd g c)"
  by (induction c) auto

lemma add_arg_set: "set_cmd (add_arg a c) \<subseteq> insert a (set_cmd c)"
  by (induction c) auto

lemma add_arg_redirs: "add_arg w (foldl add_redir t rs) = foldl add_redir (add_arg w t) rs"
proof (induction rs arbitrary: t)
  case (Cons r rs)
  then show ?case by (cases r) auto
qed simp

lemma parseredirs_reads:
  assumes "lexes buf s (concat (map redir_toks rs) @ ts)" "\<not> starts_in ts [60, 62]" "\<And>f. f \<in> set_cmd c \<Longrightarrow> span_ok buf f"
  shows "reads buf (parseredirs buf c s) ts (foldl add_redir (map_cmd (word_at buf) c) rs)"
  using assms
proof (induction rs arbitrary: c s)
  case Nil
  then obtain s' where "peek buf s [60, 62] = (s', False)" "lexes buf s' ts" using lexes_peek [of buf s ts "[60, 62]"] by auto
  then show ?case using Nil by (subst parseredirs.simps) (auto intro: readsI)
next
  case (Cons r rs)
  define tok where "tok = (case r of From _ \<Rightarrow> 60 | To _ \<Rightarrow> 62 | Append _ \<Rightarrow> (43 :: u8))"
  obtain w where r: "redir_toks r = [Sym tok, Word w]" "\<And>g c. word_at buf g = w \<Longrightarrow> map_cmd (word_at buf) (redircmd tok g c) = add_redir (map_cmd (word_at buf) c) r"
    by (cases r) (auto simp: tok_def redircmd_map)
  let ?ts = "Word w # concat (map redir_toks rs) @ ts"
  have l: "lexes buf s (Sym tok # ?ts)" using Cons.prems(1) r by simp
  have "hd (tok_text (Sym tok)) \<in> {60, 62}" by (cases r) (auto simp: tok_def)
  then obtain s1 where s1: "peek buf s [60, 62] = (s1, True)" "lexes buf s1 (Sym tok # ?ts)"
    using lexes_peek [OF l, of "[60, 62]"] by (auto simp: starts_in_def)
  obtain f s2 where s2: "gettoken buf s1 = (tok, f, s2)" "lexes buf s2 ?ts" using lexes_gettoken [OF s1(2)] by auto
  obtain g s3 where s3: "gettoken buf s2 = (97, g, s3)" "lexes buf s3 (concat (map redir_toks rs) @ ts)" "word_at buf g = w" "span_ok buf g"
    by (rule lexes_gettoken [OF s2(2)]) auto
  have "reads buf (parseredirs buf (redircmd tok g c) s3) ts (foldl add_redir (map_cmd (word_at buf) (redircmd tok g c)) rs)"
    by (rule Cons.IH) (use Cons.prems s3 redircmd_set [of tok g c] in auto)
  then show ?case using s1 s2 s3 r(2) [of g c] by (subst parseredirs.simps) simp
qed

lemma word_start: "word_ok w \<Longrightarrow> set cs \<subseteq> set symbols \<Longrightarrow> \<not> starts_in (Word w # ts) cs"
  by (auto simp: starts_in_def word_ok_def delim_def)

lemma stops_not: "ts = [] \<or> starts_in ts cs \<Longrightarrow> set cs \<inter> set ds = {} \<Longrightarrow> \<not> starts_in ts ds"
  by (auto simp: starts_in_def split: list.splits)

lemma lexes_ok: "lexes buf s ts \<Longrightarrow> Word w \<in> set ts \<Longrightarrow> word_ok w"
  using renders_toks_ok [of ts "drop s buf" "Word w"] by (simp add: lexes_def)

lemma words_start:
  assumes "lexes buf s (us @ concat (map (\<lambda>(w, rs). Word w # concat (map redir_toks rs)) ws) @ ts)"
    "ts = [] \<or> starts_in ts [124, 41, 38, 59]" "set cs \<subseteq> {60, 62, 40}"
  shows "\<not> starts_in (concat (map (\<lambda>(w, rs). Word w # concat (map redir_toks rs)) ws) @ ts) cs"
proof (cases ws)
  case Nil
  have "c = 60 \<or> c = 62 \<or> c = 40" if "c \<in> set cs" for c using assms(3) that by auto
  then have "set [124, 41, 38, 59] \<inter> set cs = {}" by fastforce
  then show ?thesis using stops_not [OF assms(2), of cs] Nil by simp
next
  case (Cons a ws')
  obtain w rs where "a = (w, rs)" by fastforce
  then show ?thesis using lexes_ok [OF assms(1), of w] Cons word_start [of w cs] assms(3) by (auto simp: symbols_def)
qed

lemma parseargs_reads:
  assumes "lexes buf s (concat (map (\<lambda>(w, rs). Word w # concat (map redir_toks rs)) ws) @ ts)"
    "ts = [] \<or> starts_in ts [124, 41, 38, 59]" "argc + length ws < MAXARGS" "\<And>f. f \<in> set_cmd c \<Longrightarrow> span_ok buf f"
  shows "reads buf (parseargs buf c argc s) ts (foldl (\<lambda>t (w, rs). foldl add_redir (add_arg w t) rs) (map_cmd (word_at buf) c) ws)"
  using assms
proof (induction ws arbitrary: c s argc)
  case Nil
  then obtain s1 where s1: "peek buf s [124, 41, 38, 59] = (s1, starts_in ts [124, 41, 38, 59])" "lexes buf s1 ts"
    using lexes_peek [of buf s ts "[124, 41, 38, 59]"] by auto
  show ?case
  proof (cases "ts = []")
    case True
    then have "skip_white buf s1 = length buf" "lexes buf (length buf) []" using lexes_Nil s1(2) by auto
    then have "gettoken buf s1 = (0, (length buf, length buf), length buf)"
      by (simp add: gettoken_def Let_def at_def skip_white.simps)
    then show ?thesis using s1 True Nil \<open>lexes buf (length buf) []\<close>
      by (subst parseargs.simps) (auto intro!: readsI simp: starts_in_def)
  next
    case False
    then show ?thesis using s1 Nil by (subst parseargs.simps) (auto intro!: readsI)
  qed
next
  case (Cons a ws)
  obtain w rs where a: "a = (w, rs)" by fastforce
  let ?more = "concat (map (\<lambda>(w, rs). Word w # concat (map redir_toks rs)) ws) @ ts"
  have l: "lexes buf s (Word w # concat (map redir_toks rs) @ ?more)" using Cons.prems(1) a by simp
  have "\<not> starts_in (Word w # concat (map redir_toks rs) @ ?more) [124, 41, 38, 59]"
    using lexes_ok [OF l, of w] by (intro word_start) (auto simp: symbols_def)
  then obtain s1 where s1: "peek buf s [124, 41, 38, 59] = (s1, False)" "lexes buf s1 (Word w # concat (map redir_toks rs) @ ?more)"
    using lexes_peek [OF l, of "[124, 41, 38, 59]"] by auto
  obtain f s2 where s2: "gettoken buf s1 = (97, f, s2)" "lexes buf s2 (concat (map redir_toks rs) @ ?more)" "word_at buf f = w" "span_ok buf f"
    by (rule lexes_gettoken [OF s1(2)]) auto
  have "\<not> starts_in ?more [60, 62]" using words_start [OF s2(2) Cons.prems(2), of "[60, 62]"] by simp
  then have "reads buf (parseredirs buf (add_arg f c) s2) ?more (foldl add_redir (map_cmd (word_at buf) (add_arg f c)) rs)"
    by (intro parseredirs_reads) (use s2 Cons.prems(4) add_arg_set [of f c] in auto)
  then obtain c' s3 where c': "parseredirs buf (add_arg f c) s2 = Inr (c', s3)" "lexes buf s3 ?more"
    "map_cmd (word_at buf) c' = foldl add_redir (map_cmd (word_at buf) (add_arg f c)) rs" "\<forall>g \<in> set_cmd c'. span_ok buf g"
    by (rule readsE)
  have "reads buf (parseargs buf c' (argc + 1) s3) ts (foldl (\<lambda>t (w, rs). foldl add_redir (add_arg w t) rs) (map_cmd (word_at buf) c') ws)"
    by (rule Cons.IH) (use c' Cons.prems in auto)
  then show ?case using s1 s2 c' a Cons.prems(3) by (subst parseargs.simps) (simp add: add_arg_map)
qed

lemma simple_cmd:
  "foldl (\<lambda>t (w, rs). foldl add_redir (add_arg w t) rs) (foldl add_redir (EXEC as) rs) ws =
     foldl add_redir (EXEC (as @ map fst ws)) (rs @ concat (map snd ws))"
proof (induction ws arbitrary: as rs)
  case (Cons a ws)
  obtain w rs' where "a = (w, rs')" by fastforce
  then show ?case using Cons.IH [of "as @ [w]" "rs @ rs'"] by (simp add: add_arg_redirs)
qed simp

lemma parsebacks_reads:
  assumes "lexes buf s (replicate n (Sym 38) @ ts)" "\<not> starts_in ts [38]" "\<forall>f \<in> set_cmd c. span_ok buf f"
  shows "reads buf (Inr (parsebacks buf c s)) ts ((BACK ^^ n) (map_cmd (word_at buf) c))"
  using assms
proof (induction n arbitrary: c s)
  case 0
  then obtain s' where "peek buf s [38] = (s', False)" "lexes buf s' ts" using lexes_peek [of buf s ts "[38]"] by auto
  then show ?case using 0 by (subst parsebacks.simps) (auto intro: readsI)
next
  case (Suc n)
  let ?ts = "replicate n (Sym 38) @ ts"
  have l: "lexes buf s (Sym 38 # ?ts)" using Suc.prems by simp
  obtain s1 where s1: "peek buf s [38] = (s1, True)" "lexes buf s1 (Sym 38 # ?ts)"
    using lexes_peek [OF l, of "[38]"] by (auto simp: starts_in_def)
  obtain f s2 where s2: "gettoken buf s1 = (38, f, s2)" "lexes buf s2 ?ts" using lexes_gettoken [OF s1(2)] by auto
  have "reads buf (Inr (parsebacks buf (BACK c) s2)) ts ((BACK ^^ n) (map_cmd (word_at buf) (BACK c)))"
    by (rule Suc.IH) (use Suc.prems s2 in auto)
  then show ?case using s1 s2 by (subst parsebacks.simps) (simp add: funpow_swap1)
qed

text \<open>What the parser does at a symbol it looks for.\<close>

lemma peek_sym:
  assumes "lexes buf s (Sym c # ts)" "c \<noteq> 43" "c \<noteq> 0"
  obtains s' where "peek buf s [c] = (s', True)" "lexes buf (snd (snd (gettoken buf s'))) ts" "lexes buf s' (Sym c # ts)"
proof -
  obtain s' where s': "peek buf s [c] = (s', True)" "lexes buf s' (Sym c # ts)"
    using lexes_peek [OF assms(1), of "[c]"] assms by (auto simp: starts_in_def)
  moreover obtain f s2 where "gettoken buf s' = (c, f, s2)" "lexes buf s2 ts" using lexes_gettoken [OF s'(2)] by auto
  ultimately show thesis using that by auto
qed

lemma peek_other:
  assumes "lexes buf s ts" "\<not> starts_in ts [c]" "c \<noteq> 0"
  obtains s' where "peek buf s [c] = (s', False)" "lexes buf s' ts"
  using lexes_peek [OF assms(1), of "[c]"] assms by auto

definition oreads :: "u8 list \<Rightarrow> span cmd parsed option \<Rightarrow> token list \<Rightarrow> u8 list cmd \<Rightarrow> bool" where
  "oreads buf r ts t \<longleftrightarrow> (case r of None \<Rightarrow> True | Some x \<Rightarrow> reads buf x ts t)"

lemma oreads_pbind:
  assumes "oreads buf r ts t"
    and "\<And>c s. lexes buf s ts \<Longrightarrow> map_cmd (word_at buf) c = t \<Longrightarrow> \<forall>f \<in> set_cmd c. span_ok buf f \<Longrightarrow> oreads buf (k c s) ts' t'"
  shows "oreads buf (pbind r k) ts' t'"
proof (cases r)
  case (Some x)
  then have "reads buf x ts t" using assms(1) by (simp add: oreads_def)
  then obtain c s where "x = Inr (c, s)" "lexes buf s ts" "map_cmd (word_at buf) c = t" "\<forall>f \<in> set_cmd c. span_ok buf f" by (rule readsE)
  then show ?thesis using Some assms(2) [of s c] by (simp add: pbind_def)
qed (simp add: oreads_def pbind_def)

lemma parsebacks_spans:
  assumes "lexes buf s (replicate n (Sym 38) @ ts)" "\<not> starts_in ts [38]" "map_cmd (word_at buf) c = t" "\<forall>f \<in> set_cmd c. span_ok buf f"
  obtains c' s' where "parsebacks buf c s = (c', s')" "lexes buf s' ts" "map_cmd (word_at buf) c' = (BACK ^^ n) t" "\<forall>f \<in> set_cmd c'. span_ok buf f"
proof -
  have "reads buf (Inr (parsebacks buf c s)) ts ((BACK ^^ n) t)" using parsebacks_reads [OF assms(1, 2, 4)] assms(3) by simp
  then show thesis by (rule readsE) (use that in auto)
qed

lemma oreads_Some: "lexes buf s ts \<Longrightarrow> map_cmd (word_at buf) c = t \<Longrightarrow> \<forall>f \<in> set_cmd c. span_ok buf f \<Longrightarrow> oreads buf (Some (Inr (c, s))) ts t"
  by (auto simp: oreads_def intro!: readsI)

lemma parseline_last:
  assumes "oreads buf (parsepipe j buf s) (replicate n (Sym 38) @ ts) t" "ts = [] \<or> starts_in ts [41]"
  shows "oreads buf (parseline (Suc j) buf s) ts ((BACK ^^ n) t)"
  unfolding parseline.simps
proof (rule oreads_pbind [OF assms(1)], goal_cases)
  case (1 c s1)
  have "\<not> starts_in ts [38]" "\<not> starts_in ts [59]" using stops_not [OF assms(2)] by auto
  moreover obtain c2 s2 where c2: "parsebacks buf c s1 = (c2, s2)" "lexes buf s2 ts"
      "map_cmd (word_at buf) c2 = (BACK ^^ n) t" "\<forall>f \<in> set_cmd c2. span_ok buf f"
    using parsebacks_spans [OF 1(1) _ 1(2, 3)] calculation(1) by blast
  moreover obtain s3 where "peek buf s2 [59] = (s3, False)" "lexes buf s3 ts"
    using peek_other [OF c2(2), of 59] calculation(2) by auto
  ultimately show ?case by (auto intro: oreads_Some)
qed

lemma parseline_seq:
  assumes "oreads buf (parsepipe j buf s) (replicate n (Sym 38) @ Sym 59 # us) t"
    and l: "\<And>s. lexes buf s us \<Longrightarrow> oreads buf (parseline j buf s) ts t'"
  shows "oreads buf (parseline (Suc j) buf s) ts (LIST ((BACK ^^ n) t) t')"
  unfolding parseline.simps
proof (rule oreads_pbind [OF assms(1)], goal_cases)
  case (1 c s1)
  have "\<not> starts_in (Sym 59 # us) [38]" by (simp add: starts_in_def)
  then obtain c2 s2 where c2: "parsebacks buf c s1 = (c2, s2)" "lexes buf s2 (Sym 59 # us)"
      "map_cmd (word_at buf) c2 = (BACK ^^ n) t" "\<forall>f \<in> set_cmd c2. span_ok buf f"
    using parsebacks_spans [OF 1(1) _ 1(2, 3)] by blast
  moreover obtain s3 where "peek buf s2 [59] = (s3, True)" "lexes buf (snd (snd (gettoken buf s3))) us"
    using peek_sym [OF c2(2)] by auto
  moreover have "oreads buf (pbind (parseline j buf s) (\<lambda>r s4. Some (Inr (LIST c2 r, s4)))) ts (LIST ((BACK ^^ n) t) t')"
    if "lexes buf s us" for s
    by (rule oreads_pbind [OF l [OF that]]) (use c2 in \<open>auto intro!: oreads_Some\<close>)
  ultimately show ?case by auto
qed

lemma parsepipe_one:
  assumes "oreads buf (parseexec j buf s) ts t" "\<not> starts_in ts [124]"
  shows "oreads buf (parsepipe (Suc j) buf s) ts t"
  unfolding parsepipe.simps
proof (rule oreads_pbind [OF assms(1)], goal_cases)
  case (1 c s1)
  then obtain s2 where "peek buf s1 [124] = (s2, False)" "lexes buf s2 ts" using peek_other [OF 1(1), of 124] assms(2) by auto
  then show ?case using 1 by (auto intro: oreads_Some)
qed

lemma parsepipe_then:
  assumes "oreads buf (parseexec j buf s) (Sym 124 # us) t"
    and p: "\<And>s. lexes buf s us \<Longrightarrow> oreads buf (parsepipe j buf s) ts t'"
  shows "oreads buf (parsepipe (Suc j) buf s) ts (PIPE t t')"
  unfolding parsepipe.simps
proof (rule oreads_pbind [OF assms(1)], goal_cases)
  case (1 c s1)
  obtain s2 where "peek buf s1 [124] = (s2, True)" "lexes buf (snd (snd (gettoken buf s2))) us" using peek_sym [OF 1(1)] by auto
  moreover have "oreads buf (pbind (parsepipe j buf s) (\<lambda>r s4. Some (Inr (PIPE c r, s4)))) ts (PIPE t t')" if "lexes buf s us" for s
    by (rule oreads_pbind [OF p [OF that]]) (use 1 in \<open>auto intro!: oreads_Some\<close>)
  ultimately show ?case by auto
qed

lemma parseexec_simple:
  assumes "lexes buf s (command_toks (Simple rs ws) @ ts)" "ts = [] \<or> starts_in ts [124, 41, 38, 59]" "length ws < MAXARGS"
  shows "oreads buf (parseexec (Suc j) buf s) ts (command_cmd (Simple rs ws))"
proof -
  let ?more = "concat (map (\<lambda>(w, rs). Word w # concat (map redir_toks rs)) ws) @ ts"
  have l: "lexes buf s (concat (map redir_toks rs) @ ?more)" using assms(1) by simp
  have more: "\<not> starts_in ?more [60, 62]" "\<not> starts_in ?more [40]" using words_start [OF l assms(2)] by auto
  have "\<not> starts_in (concat (map redir_toks rs) @ ?more) [40]"
  proof (cases rs)
    case (Cons r rs')
    then show ?thesis by (cases r) (auto simp: starts_in_def)
  qed (use more in simp)
  then obtain s1 where s1: "peek buf s [40] = (s1, False)" "lexes buf s1 (concat (map redir_toks rs) @ ?more)"
    using peek_other [OF l, of 40] by auto
  have "reads buf (parseredirs buf (EXEC []) s1) ?more (foldl add_redir (EXEC []) rs)"
    using parseredirs_reads [OF s1(2) more(1), of "EXEC []"] by simp
  then have "oreads buf (Some (parseredirs buf (EXEC []) s1)) ?more (foldl add_redir (EXEC []) rs)" by (simp add: oreads_def)
  then have "oreads buf (pbind (Some (parseredirs buf (EXEC []) s1)) (\<lambda>c s2. Some (parseargs buf c 0 s2))) ts (command_cmd (Simple rs ws))"
  proof (rule oreads_pbind, goal_cases)
    case (1 c s2)
    then show ?case
      using parseargs_reads [of buf s2 ws ts 0 c] assms(2, 3) simple_cmd [of "[]" rs ws] by (auto simp: oreads_def)
  qed
  then show ?thesis using s1 by simp
qed

lemma parseexec_block:
  assumes "lexes buf s (Sym 40 # us)" "\<And>s. lexes buf s us \<Longrightarrow> oreads buf (parseline j buf s) (Sym 41 # concat (map redir_toks rs) @ ts) t"
    "ts = [] \<or> starts_in ts [124, 41, 38, 59]"
  shows "oreads buf (parseexec (Suc (Suc j)) buf s) ts (foldl add_redir t rs)"
proof -
  obtain s1 where s1: "peek buf s [40] = (s1, True)" "lexes buf s1 (Sym 40 # us)" using peek_sym [OF assms(1)] by auto
  obtain s2 where s2: "peek buf s1 [40] = (s2, True)" "lexes buf (snd (snd (gettoken buf s2))) us" using peek_sym [OF s1(2)] by auto
  have "oreads buf (pbind (parseline j buf (snd (snd (gettoken buf s2)))) (\<lambda>c s2.
          case peek buf s2 [41] of (s3, close) \<Rightarrow>
            if \<not> close then Some (Inl ''syntax - missing )'')
            else Some (parseredirs buf c (snd (snd (gettoken buf s3)))))) ts (foldl add_redir t rs)"
  proof (rule oreads_pbind [OF assms(2) [OF s2(2)]], goal_cases)
    case (1 c s3)
    obtain s4 where s4: "peek buf s3 [41] = (s4, True)" "lexes buf (snd (snd (gettoken buf s4))) (concat (map redir_toks rs) @ ts)"
      using peek_sym [OF 1(1)] by auto
    have "\<not> starts_in ts [60, 62]" using stops_not [OF assms(3), of "[60, 62]"] by simp
    then show ?case using parseredirs_reads [OF s4(2), of c] 1 s4(1) by (auto simp: oreads_def)
  qed
  then show ?thesis using s1 s2 by simp
qed

lemma oreads_None [simp]: "oreads buf None ts t"
  by (simp add: oreads_def)

text \<open>Without fuel there is nothing to show.\<close>

lemma oreads_fuel:
  "(\<And>j. oreads buf (parseline (Suc j) buf s) ts t) \<Longrightarrow> oreads buf (parseline k buf s) ts t"
  "(\<And>j. oreads buf (parsepipe (Suc j) buf s) ts t) \<Longrightarrow> oreads buf (parsepipe k buf s) ts t"
  "(\<And>j. oreads buf (parseexec (Suc j) buf s) ts t) \<Longrightarrow> oreads buf (parseexec k buf s) ts t"
  by (cases k, simp, metis)+

lemma grammar_reads:
  "line_ok l \<Longrightarrow> lexes buf s (line_toks l @ ts) \<Longrightarrow> ts = [] \<or> starts_in ts [41] \<Longrightarrow>
     oreads buf (parseline k buf s) ts (line_cmd l)"
  "pipeline_ok p \<Longrightarrow> lexes buf s (pipeline_toks p @ ts) \<Longrightarrow> ts = [] \<or> starts_in ts [41, 38, 59] \<Longrightarrow>
     oreads buf (parsepipe k buf s) ts (pipeline_cmd p)"
  "command_ok c \<Longrightarrow> lexes buf s (command_toks c @ ts) \<Longrightarrow> ts = [] \<or> starts_in ts [124, 41, 38, 59] \<Longrightarrow>
     oreads buf (parseexec k buf s) ts (command_cmd c)"
proof (induction l and p and c arbitrary: k s ts and k s ts and k s ts)
  case (Last p n)
  let ?ts = "replicate n (Sym 38) @ ts"
  have "?ts = [] \<or> starts_in ?ts [41, 38, 59]" using Last.prems(3) by (cases n) (auto simp: starts_in_def split: list.splits)
  then have "oreads buf (parsepipe j buf s) ?ts (pipeline_cmd p)" for j using Last.prems by (intro Last.IH) auto
  from parseline_last [OF this Last.prems(3)] show ?case unfolding line_cmd.simps by (rule oreads_fuel(1))
next
  case (Seq p n l)
  let ?us = "line_toks l @ ts" and ?ts = "replicate n (Sym 38) @ Sym 59 # line_toks l @ ts"
  have "?ts = [] \<or> starts_in ?ts [41, 38, 59]" by (cases n) (auto simp: starts_in_def)
  then have p: "oreads buf (parsepipe j buf s) ?ts (pipeline_cmd p)" for j using Seq.prems by (intro Seq.IH(1)) auto
  have "oreads buf (parseline j buf s) ts (line_cmd l)" if "lexes buf s ?us" for j s
    using Seq.IH(2) Seq.prems that by auto
  from parseline_seq [OF p this] show ?case unfolding line_cmd.simps by (rule oreads_fuel(1))
next
  case (One c)
  then have c: "oreads buf (parseexec j buf s) ts (command_cmd c)" for j
    by (intro One.IH) (auto simp: starts_in_def split: list.splits)
  have "\<not> starts_in ts [124]" using stops_not [OF One.prems(3), of "[124]"] by simp
  from parsepipe_one [OF c this] show ?case unfolding pipeline_cmd.simps by (rule oreads_fuel(2))
next
  case (Then c p)
  let ?us = "pipeline_toks p @ ts"
  have c: "oreads buf (parseexec j buf s) (Sym 124 # ?us) (command_cmd c)" for j
    using Then.prems by (intro Then.IH(1)) (auto simp: starts_in_def)
  have "oreads buf (parsepipe j buf s) ts (pipeline_cmd p)" if "lexes buf s ?us" for j s
    using Then.IH(2) Then.prems that by auto
  from parsepipe_then [OF c this] show ?case unfolding pipeline_cmd.simps by (rule oreads_fuel(2))
next
  case (Simple rs ws)
  then have "oreads buf (parseexec (Suc j) buf s) ts (command_cmd (Simple rs ws))" for j
    by (intro parseexec_simple) (simp_all del: command_toks.simps)
  then show ?case by (rule oreads_fuel(3))
next
  case (Block l rs)
  let ?rest = "Sym 41 # concat (map redir_toks rs) @ ts"
  have "oreads buf (parseline j buf s) ?rest (line_cmd l)" if "lexes buf s (line_toks l @ ?rest)" for j s
    using Block.IH [of s ?rest j] Block.prems that by (simp add: starts_in_def)
  then have more: "oreads buf (parseexec (Suc (Suc j)) buf s) ts (command_cmd (Block l rs))" for j
    using parseexec_block [of buf s "line_toks l @ ?rest" j rs ts "line_cmd l"] Block.prems by simp
  obtain s1 where "peek buf s [40] = (s1, True)" using peek_sym [of buf s 40 "line_toks l @ ?rest"] Block.prems by auto
  then have "oreads buf (parseexec (Suc 0) buf s) ts t" for t by simp
  with more have "oreads buf (parseexec (Suc j) buf s) ts (command_cmd (Block l rs))" for j by (cases j) metis+
  then show ?case by (rule oreads_fuel(3))
qed

subsection \<open>Words as C strings\<close>

lemma nulterminate_nth: "i < length b \<Longrightarrow> nulterminate c b ! i = (if i \<in> snd ` set_cmd c then 0 else b ! i)"
proof (induction c arbitrary: b)
  case (EXEC as)
  have "i < length b \<Longrightarrow> fold (\<lambda>a b. b[snd a := 0]) as b ! i = (if i \<in> snd ` set as then 0 else b ! i)" for b
    by (induction as arbitrary: b) (auto simp: nth_list_update)
  from this [OF EXEC] show ?case by simp
next
  case (REDIR c f m d)
  then show ?case by (cases "i = snd f") (simp_all add: nth_list_update image_Un)
qed (simp_all add: image_Un)

lemma c_string_take:
  assumes "n \<le> length xs" "\<And>i. i < n \<Longrightarrow> xs ! i \<noteq> 0" "n = length xs \<or> xs ! n = 0"
  shows "c_string xs = take n xs"
  unfolding c_string_def by (rule takeWhile_eq_take_P_nth) (use assms in auto)

text \<open>No end of a word lies inside a word: it is a delimiter there or the end of the line.\<close>

lemma words_terminated:
  assumes "\<forall>f \<in> set_cmd c. span_ok buf f" "f \<in> set_cmd c"
  shows "c_string (drop (fst f) (nulterminate c buf)) = word_at buf f"
proof -
  obtain q e where f: "f = (q, e)" by fastforce
  have ok: "e \<le> length buf" "q \<le> e" "word_ok (word_at buf f)" using assms f by (auto simp: span_ok_def)
  have inside: "buf ! i \<noteq> 0 \<and> i \<notin> snd ` set_cmd c" if "q \<le> i" "i < e" for i
  proof -
    have "word_at buf f ! (i - q) = buf ! i" "i - q < length (word_at buf f)" using f ok that by (auto simp: word_at_def)
    then have "buf ! i \<in> set (word_at buf f)" by (metis nth_mem)
    then have b: "buf ! i \<noteq> 0" "\<not> delim (buf ! i)" using ok(3) by (auto simp: word_ok_def)
    then have "i \<noteq> snd g" if "g \<in> set_cmd c" for g using assms(1) that \<open>i < e\<close> ok(1) by (auto simp: span_ok_def)
    then show ?thesis using b by auto
  qed
  have "c_string (drop q (nulterminate c buf)) = take (e - q) (drop q (nulterminate c buf))"
  proof (rule c_string_take)
    show "drop q (nulterminate c buf) ! i \<noteq> 0" if "i < e - q" for i
      using inside [of "q + i"] that ok by (auto simp: nulterminate_nth)
    show "e - q = length (drop q (nulterminate c buf)) \<or> drop q (nulterminate c buf) ! (e - q) = 0"
      using assms(2) f ok by (cases "e = length buf") (auto simp: nulterminate_nth intro!: image_eqI [of _ _ f])
  qed (use ok in simp)
  also have "... = take (e - q) (drop q buf)"
    by (rule nth_equalityI) (use inside ok in \<open>auto simp: nulterminate_nth\<close>)
  finally show ?thesis using f by (simp add: word_at_def)
qed

text \<open>C11: \<open>parsecmd\<close> inverts the syntax of commands. Whatever white space separates its tokens, a line of the grammar
  whose commands have fewer than \<open>MAXARGS\<close> words parses to the command it spells, and after \<open>nulterminate\<close> every word of
  the tree, read as a C string from the line, is the word that was written.\<close>

theorem parsecmd_reads_grammar:
  assumes "line_ok l" "renders (line_toks l) txt"
  shows "\<exists>c buf. parsecmd txt = Some (Inr (c, buf)) \<and> map_cmd (\<lambda>f. c_string (drop (fst f) buf)) c = line_cmd l"
proof -
  have plain: "c_string txt = txt" using renders_no_nul [OF assms(2)] by (auto simp: c_string_def takeWhile_eq_all_conv)
  have "oreads txt (parseline (line_fuel txt) txt 0) [] (line_cmd l)"
    by (rule grammar_reads(1)) (use assms in \<open>simp_all add: lexes_def\<close>)
  moreover have "parseline (line_fuel txt) txt 0 \<noteq> None" by (rule parse_fuel(1)) (simp add: line_fuel_def)
  ultimately obtain r where "parseline (line_fuel txt) txt 0 = Some r" "reads txt r [] (line_cmd l)" by (auto simp: oreads_def)
  then obtain c s where r: "parseline (line_fuel txt) txt 0 = Some (Inr (c, s))" "lexes txt s []"
      "map_cmd (word_at txt) c = line_cmd l" "\<forall>f \<in> set_cmd c. span_ok txt f" by (auto elim: readsE)
  then have "parsecmd txt = Some (Inr (c, nulterminate c txt))"
    using lexes_Nil [OF r(2)] by (simp add: parsecmd_def Let_def plain peek_def)
  moreover have "map_cmd (\<lambda>f. c_string (drop (fst f) (nulterminate c txt))) c = map_cmd (word_at txt) c"
    by (rule cmd.map_cong0) (use words_terminated [OF r(4)] in auto)
  ultimately show ?thesis using r(3) by auto
qed

text \<open>The line \<open>a<f|b c\<close>.\<close>

lemma sample_line:
  "renders [Word [97], Sym 60, Word [102], Sym 124, Word [98], Word [99]] [97, 60, 102, 124, 98, 32, 99]"
proof -
  have ok: "word_ok [97]" "word_ok [102]" "word_ok [98]" "word_ok [99]" "delim 60" "delim 124" "delim 32"
    by (simp_all add: word_ok_def delim_def symbol_iff white_iff)
  have "renders [] []" by (simp add: renders_Nil white_def)
  from renders_Cons [of "[32]" "Word [99]", OF _ _ _ this] ok have "renders [Word [99]] [32, 99]" by (simp add: white_def white_iff)
  from renders_Cons [of "[]" "Word [98]", OF _ _ _ this] ok have "renders [Word [98], Word [99]] [98, 32, 99]" by (simp add: white_def)
  from renders_Cons [of "[]" "Sym 124", OF _ _ _ this] have "renders [Sym 124, Word [98], Word [99]] [124, 98, 32, 99]"
    by (simp add: white_def symbol_iff)
  from renders_Cons [of "[]" "Word [102]", OF _ _ _ this] ok have "renders [Word [102], Sym 124, Word [98], Word [99]] [102, 124, 98, 32, 99]"
    by (simp add: white_def)
  from renders_Cons [of "[]" "Sym 60", OF _ _ _ this]
  have "renders [Sym 60, Word [102], Sym 124, Word [98], Word [99]] [60, 102, 124, 98, 32, 99]" by (simp add: white_def symbol_iff)
  from renders_Cons [of "[]" "Word [97]", OF _ _ _ this] ok show ?thesis by (simp add: white_def)
qed

theorem parsecmd_reads_grammar_witness:
  "\<exists>c buf. parsecmd [97, 60, 102, 124, 98, 32, 99] = Some (Inr (c, buf)) \<and>
     map_cmd (\<lambda>f. c_string (drop (fst f) buf)) c = PIPE (REDIR (EXEC [[97]]) [102] O_RDONLY 0) (EXEC [[98], [99]])"
  using parsecmd_reads_grammar [of "Last (Then (Simple [] [([97], [From [102]])]) (One (Simple [] [([98], []), ([99], [])]))) 0"
      "[97, 60, 102, 124, 98, 32, 99]"] sample_line by (simp add: MAXARGS_def)

end
