(* ===== verification/Sh_Run.thy ===== *)
theory Sh_Run
  imports Sh
begin

text \<open>
  Running commands (\<^verbatim>\<open>user/sh.c\<close>): \<open>runcmd\<close>, the start of the shell and its loop. What a process does is a tree: it
  forks, waits, executes a program with a table of descriptors, or exits. A descriptor table maps the numbers below
  \<open>NOFILE\<close> to what is open, and \<open>open\<close>, \<open>dup\<close> and \<open>pipe\<close> take the lowest free ones, as
  \<open>fdalloc\<close> of \<^verbatim>\<open>kernel/sysfile.c\<close> does. Whether a file can be
  opened, a pipe made or a process forked is a parameter.
\<close>

datatype obj = Console | Opened "u8 list" u32 | PipeR "nat list" | PipeW "nat list" | Inherited nat

type_synonym fds = "nat \<rightharpoonup> obj"

text \<open>What the kernel grants: the files it opens, and for the command at each place of the tree whether its pipe can be
  made and which of its forks succeed.\<close>

record os =
  can_open :: "u8 list \<Rightarrow> u32 \<Rightarrow> bool"
  can_pipe :: "nat list \<Rightarrow> bool"
  can_fork :: "nat list \<Rightarrow> nat \<Rightarrow> bool"

definition lowest_free :: "fds \<Rightarrow> nat option" where
  "lowest_free t = List.find (\<lambda>i. t i = None) [0..<NOFILE]"

definition open_fd :: "os \<Rightarrow> u8 list \<Rightarrow> u32 \<Rightarrow> obj \<Rightarrow> fds \<Rightarrow> (nat \<times> fds) option" where
  "open_fd e f m x t = (if can_open e f m then map_option (\<lambda>d. (d, t(d \<mapsto> x))) (lowest_free t) else None)"

definition close_fd :: "nat \<Rightarrow> fds \<Rightarrow> fds" where
  "close_fd d t = t(d := None)"

definition dup_fd :: "nat \<Rightarrow> fds \<Rightarrow> fds" where
  "dup_fd d t =
     (case t d of
        None \<Rightarrow> t
      | Some x \<Rightarrow> (case lowest_free t of None \<Rightarrow> t | Some n \<Rightarrow> t(n \<mapsto> x)))"

definition make_pipe :: "os \<Rightarrow> nat list \<Rightarrow> fds \<Rightarrow> (nat \<times> nat \<times> fds) option" where
  "make_pipe e p t =
     (if \<not> can_pipe e p then None else
      case lowest_free t of
        None \<Rightarrow> None
      | Some p0 \<Rightarrow>
          (case lowest_free (t(p0 \<mapsto> PipeR p)) of
             None \<Rightarrow> None
           | Some p1 \<Rightarrow> Some (p0, p1, t(p0 \<mapsto> PipeR p, p1 \<mapsto> PipeW p))))"

text \<open>A process executes a program, forks (the child, and what the parent goes on with), waits for a child, or exits. A
  program and a wait come with the place of the command and the descriptors open then.\<close>

datatype process =
    Exits int
  | Execs "nat list" "u8 list list" fds
  | Forks process process
  | Waits "nat list" fds process

text \<open>\<open>fork1\<close> panics, which is to exit with status 1, when it cannot fork.\<close>

definition fork1 :: "os \<Rightarrow> nat list \<Rightarrow> nat \<Rightarrow> process \<Rightarrow> process \<Rightarrow> process" where
  "fork1 e p k child parent = (if can_fork e p k then Forks child parent else Exits 1)"

text \<open>\<open>runcmd\<close> at place \<open>p\<close> of the command tree; the place names the pipe made there. After a failed \<open>exec\<close> the process
  exits.\<close>

primrec runcmd :: "os \<Rightarrow> u8 list cmd \<Rightarrow> nat list \<Rightarrow> fds \<Rightarrow> process" where
  "runcmd e (EXEC as) p t = (if as = [] then Exits 1 else Execs p as t)"
| "runcmd e (REDIR c f m d) p t =
     (case open_fd e f m (Opened f m) (close_fd d t) of
        None \<Rightarrow> Exits 1
      | Some (_, t1) \<Rightarrow> runcmd e c p t1)"
| "runcmd e (LIST l r) p t = fork1 e p 0 (runcmd e l (p @ [0]) t) (Waits p t (runcmd e r (p @ [1]) t))"
| "runcmd e (PIPE l r) p t =
     (case make_pipe e p t of
        None \<Rightarrow> Exits 1
      | Some (p0, p1, t1) \<Rightarrow>
          fork1 e p 0 (runcmd e l (p @ [0]) (close_fd p1 (close_fd p0 (dup_fd p1 (close_fd 1 t1)))))
            (fork1 e p 1 (runcmd e r (p @ [1]) (close_fd p1 (close_fd p0 (dup_fd p0 (close_fd 0 t1)))))
              (let t2 = close_fd p1 (close_fd p0 t1) in
               Waits p t2 (Waits p t2 (Exits 0)))))"
| "runcmd e (BACK c) p t = fork1 e p 0 (runcmd e c (p @ [0]) t) (Exits 0)"

text \<open>The start of the shell: open the console until that fails or gives descriptor 3, which is closed again.\<close>

definition console_path :: "u8 list" where
  "console_path = [99, 111, 110, 115, 111, 108, 101]"

lemma lowest_free_iff: "lowest_free t = Some n \<longleftrightarrow> n < NOFILE \<and> t n = None \<and> (\<forall>i < n. t i \<noteq> None)"
  by (auto simp: lowest_free_def find_Some_iff)

function open_console :: "os \<Rightarrow> fds \<Rightarrow> fds" where
  "open_console e t =
     (case open_fd e console_path O_RDWR Console t of
        None \<Rightarrow> t
      | Some (fd, t1) \<Rightarrow> if 3 \<le> fd then close_fd fd t1 else open_console e t1)"
  by pat_completeness auto
termination
proof (relation "measure (\<lambda>(e, t). card {i. i < 3 \<and> t i = None})", simp)
  fix e t r fd t1
  assume a: "open_fd e console_path O_RDWR Console t = Some r" "(fd, t1) = r" "\<not> 3 \<le> fd"
  then have f: "lowest_free t = Some fd" "t1 = t(fd \<mapsto> Console)" by (auto simp: open_fd_def split: if_splits)
  then have "{i. i < 3 \<and> t1 i = None} \<subset> {i. i < 3 \<and> t i = None}" using a(3) by (auto simp: lowest_free_iff split: if_splits)
  then show "((e, t1), (e, t)) \<in> measure (\<lambda>(e, t). card {i. i < 3 \<and> t i = None})" by (simp add: psubset_card_mono)
qed

declare open_console.simps [simp del]

definition sh_start :: "os \<Rightarrow> fds \<Rightarrow> fds" where
  "sh_start e t = open_console e t"

text \<open>The loop: \<open>cd\<close> is done by the shell itself, with the last byte of the line cut off; every other line is parsed and
  run in a child the shell waits for. \<open>fork1\<close> ends the shell when the \<open>n\<close>-th fork fails.\<close>

datatype action = Chdir "u8 list" | Run "u8 list" | Fork_failed

definition getcmd :: "u8 list \<Rightarrow> (u8 list \<times> u8 list) option" where
  "getcmd input = (let (l, rest) = gets_line 100 input in if at l 0 = 0 then None else Some (l, rest))"

lemma gets_loop_append: "gets_loop lim i input = (l, rest) \<Longrightarrow> input = l @ rest"
proof (induction lim i input arbitrary: l rest rule: gets_loop.induct)
  case (1 lim i input)
  show ?case
  proof (cases "i + 1 < lim \<and> input \<noteq> []")
    case False
    then show ?thesis using "1.prems" by (subst (asm) gets_loop.simps) (auto split: if_splits list.splits)
  next
    case True
    then obtain c cs where c: "input = c # cs" by (cases input) auto
    obtain l' r' where r: "gets_loop lim (i + 1) cs = (l', r')" by fastforce
    show ?thesis
    proof (cases "c = 10 \<or> c = 13")
      case True
      then show ?thesis using "1.prems" c \<open>i + 1 < lim \<and> input \<noteq> []\<close> by (subst (asm) gets_loop.simps) auto
    next
      case False
      have "cs = l' @ r'" by (rule "1.IH" [OF _ c]) (use True False r in auto)
      then show ?thesis using "1.prems" r c True False by (subst (asm) gets_loop.simps) auto
    qed
  qed
qed

lemma getcmd_shorter: "getcmd input = Some (l, rest) \<Longrightarrow> length rest < length input"
  using gets_loop_append [of 100 0 input l rest]
  by (auto simp: getcmd_def gets_line_def Let_def at_def split: if_splits prod.splits)

function sh_loop :: "(nat \<Rightarrow> bool) \<Rightarrow> nat \<Rightarrow> u8 list \<Rightarrow> action list" where
  "sh_loop forks n input =
     (case getcmd input of
        None \<Rightarrow> []
      | Some (l, rest) \<Rightarrow>
          if at l 0 = 99 \<and> at l 1 = 100 \<and> at l 2 = 32
          then Chdir (drop 3 (butlast (c_string l))) # sh_loop forks n rest
          else if forks n then Run (c_string l) # sh_loop forks (n + 1) rest
          else [Fork_failed])"
  by pat_completeness auto
termination by (relation "measure (\<lambda>(forks, n, input). length input)") (auto dest: getcmd_shorter)

declare sh_loop.simps [simp del]

subsection \<open>Plumbing\<close>

text \<open>The table of a process with standard input, output and error and nothing else.\<close>

definition std :: "obj \<Rightarrow> obj \<Rightarrow> obj \<Rightarrow> fds" where
  "std i out err = [0 \<mapsto> i, 1 \<mapsto> out, 2 \<mapsto> err]"

text \<open>The programs a command starts, left to right, with the input and output each should have.\<close>

primrec wiring :: "os \<Rightarrow> u8 list cmd \<Rightarrow> nat list \<Rightarrow> obj \<Rightarrow> obj \<Rightarrow> (u8 list list \<times> obj \<times> obj) list" where
  "wiring e (EXEC as) p i out = (if as = [] then [] else [(as, i, out)])"
| "wiring e (REDIR c f m d) p i out =
     (if \<not> can_open e f m then [] else if d = 0 then wiring e c p (Opened f m) out else wiring e c p i (Opened f m))"
| "wiring e (LIST l r) p i out =
     (if can_fork e p 0 then wiring e l (p @ [0]) i out @ wiring e r (p @ [1]) i out else [])"
| "wiring e (PIPE l r) p i out =
     (if can_pipe e p \<and> can_fork e p 0
      then wiring e l (p @ [0]) i (PipeW p) @ (if can_fork e p 1 then wiring e r (p @ [1]) (PipeR p) out else [])
      else [])"
| "wiring e (BACK c) p i out = (if can_fork e p 0 then wiring e c (p @ [0]) i out else [])"

text \<open>The programs a process and its descendants execute, and every process that executes or waits, by the place of its
  command, with its table.\<close>

primrec programs :: "process \<Rightarrow> (u8 list list \<times> fds) list" where
  "programs (Exits n) = []"
| "programs (Execs p as t) = [(as, t)]"
| "programs (Forks c q) = programs c @ programs q"
| "programs (Waits p t q) = programs q"

primrec holders :: "process \<Rightarrow> (nat list \<times> fds) set" where
  "holders (Exits n) = {}"
| "holders (Execs p as t) = {(p, t)}"
| "holders (Forks c q) = holders c \<union> holders q"
| "holders (Waits p t q) = insert (p, t) (holders q)"

text \<open>Redirections are of input and output, as the parser makes them.\<close>

primrec io_redirs :: "'f cmd \<Rightarrow> bool" where
  "io_redirs (EXEC as) = True"
| "io_redirs (REDIR c f m d) = (d \<le> 1 \<and> io_redirs c)"
| "io_redirs (PIPE l r) = (io_redirs l \<and> io_redirs r)"
| "io_redirs (LIST l r) = (io_redirs l \<and> io_redirs r)"
| "io_redirs (BACK c) = io_redirs c"

lemma lowest_freeI: "n < NOFILE \<Longrightarrow> t n = None \<Longrightarrow> (\<And>i. i < n \<Longrightarrow> t i \<noteq> None) \<Longrightarrow> lowest_free t = Some n"
  by (simp add: lowest_free_iff)

lemma less_3_cases: "(i :: nat) < 3 \<longleftrightarrow> i = 0 \<or> i = 1 \<or> i = 2"
  by auto

lemma pipe_std: "can_pipe e p \<Longrightarrow> make_pipe e p (std i out err) = Some (3, 4, (std i out err)(3 \<mapsto> PipeR p, 4 \<mapsto> PipeW p))"
proof -
  assume c: "can_pipe e p"
  have "lowest_free (std i out err) = Some 3" by (rule lowest_freeI) (auto simp: NOFILE_def std_def less_3_cases)
  moreover have "lowest_free ((std i out err)(3 \<mapsto> PipeR p)) = Some 4"
    by (rule lowest_freeI) (auto simp: NOFILE_def std_def less_Suc_eq numeral_eq_Suc)
  ultimately show ?thesis using c by (simp add: make_pipe_def)
qed

lemma pipe_ends_std:
  assumes "t = (std i out err)(3 \<mapsto> PipeR p, 4 \<mapsto> PipeW p)"
  shows "close_fd 4 (close_fd 3 (dup_fd 4 (close_fd 1 t))) = std i (PipeW p) err"
    "close_fd 4 (close_fd 3 (dup_fd 3 (close_fd 0 t))) = std (PipeR p) out err"
    "close_fd 4 (close_fd 3 t) = std i out err"
proof -
  have "lowest_free (close_fd 1 t) = Some 1" "lowest_free (close_fd 0 t) = Some 0"
    by (rule lowest_freeI; simp add: NOFILE_def std_def close_fd_def assms)+
  then show "close_fd 4 (close_fd 3 (dup_fd 4 (close_fd 1 t))) = std i (PipeW p) err"
    "close_fd 4 (close_fd 3 (dup_fd 3 (close_fd 0 t))) = std (PipeR p) out err"
    by (simp_all add: dup_fd_def close_fd_def assms std_def fun_eq_iff)
  show "close_fd 4 (close_fd 3 t) = std i out err" by (simp add: close_fd_def assms std_def fun_eq_iff)
qed

lemma redir_std:
  assumes "d \<le> 1"
  shows "open_fd e f m x (close_fd d (std i out err)) =
    (if can_open e f m then Some (d, if d = 0 then std x out err else std i x err) else None)"
proof -
  have "lowest_free (close_fd d (std i out err)) = Some d"
    using assms by (auto simp: le_Suc_eq close_fd_def std_def NOFILE_def intro!: lowest_freeI)
  moreover have "(close_fd d (std i out err))(d \<mapsto> x) = (if d = 0 then std x out err else std i x err)"
    using assms by (auto simp: le_Suc_eq close_fd_def std_def fun_eq_iff)
  ultimately show ?thesis by (simp add: open_fd_def)
qed

lemma run_pipe_std:
  "runcmd e (PIPE l r) p (std i out err) =
     (if can_pipe e p then
        fork1 e p 0 (runcmd e l (p @ [0]) (std i (PipeW p) err))
          (fork1 e p 1 (runcmd e r (p @ [1]) (std (PipeR p) out err))
            (Waits p (std i out err) (Waits p (std i out err) (Exits 0))))
      else Exits 1)"
proof (cases "can_pipe e p")
  case True
  then show ?thesis using pipe_ends_std [where i = i and out = out and err = err and p = p, OF refl] by (simp add: pipe_std Let_def)
qed (simp add: make_pipe_def)

lemma programs_wiring:
  "io_redirs c \<Longrightarrow> programs (runcmd e c p (std i out err)) = map (\<lambda>(as, i, out). (as, std i out err)) (wiring e c p i out)"
proof (induction c arbitrary: p i out)
  case (REDIR c f m d)
  then show ?case by (simp add: redir_std)
next
  case (PIPE l r)
  then show ?case by (simp add: run_pipe_std fork1_def del: runcmd.simps(4))
qed (simp_all add: fork1_def)

text \<open>A process inside the command at \<open>p\<close> has, beside what the command was given, files and the ends of pipes inside the
  command: the write end only left of the pipe, the read end only right of it.\<close>

definition in_ok :: "nat list \<Rightarrow> obj \<Rightarrow> nat list \<Rightarrow> obj \<Rightarrow> bool" where
  "in_ok p i q j \<longleftrightarrow> j = i \<or> (\<exists>f m. j = Opened f m) \<or> (\<exists>zs ys. j = PipeR (p @ zs) \<and> q = p @ zs @ 1 # ys)"

definition out_ok :: "nat list \<Rightarrow> obj \<Rightarrow> nat list \<Rightarrow> obj \<Rightarrow> bool" where
  "out_ok p i q j \<longleftrightarrow> j = i \<or> (\<exists>f m. j = Opened f m) \<or> (\<exists>zs ys. j = PipeW (p @ zs) \<and> q = p @ zs @ 0 # ys)"

definition wired :: "nat list \<Rightarrow> obj \<Rightarrow> obj \<Rightarrow> obj \<Rightarrow> nat list \<times> fds \<Rightarrow> bool" where
  "wired p i out err = (\<lambda>(q, u). \<exists>j k zs. u = std j k err \<and> q = p @ zs \<and> in_ok p i q j \<and> out_ok p out q k)"

lemma ok_same [simp]: "in_ok p i q i" "out_ok p i q i" "in_ok p i q (Opened f m)" "out_ok p i q (Opened f m)"
  by (simp_all add: in_ok_def out_ok_def)

lemma ok_sub: "in_ok (p @ [n]) i q j \<Longrightarrow> in_ok p i q j" "out_ok (p @ [n]) i q j \<Longrightarrow> out_ok p i q j"
  unfolding in_ok_def out_ok_def by (metis append.assoc)+

lemma ok_change:
  "in_ok p i q j \<Longrightarrow> i = Opened f m \<or> i = PipeR p \<and> q = p @ 1 # ys \<Longrightarrow> in_ok p i' q j"
  "out_ok p i q j \<Longrightarrow> i = Opened f m \<or> i = PipeW p \<and> q = p @ 0 # ys \<Longrightarrow> out_ok p i' q j"
  unfolding in_ok_def out_ok_def by (metis append_Nil append_Nil2)+

lemma wired_here: "wired p i out err (p, std i out err)"
  unfolding wired_def prod.case by (rule exI [of _ i], rule exI [of _ out], rule exI [of _ "[]"]) simp

lemma wired_sub:
  assumes "wired (p @ [n]) i out err h" "i = i' \<or> i = PipeR p \<and> n = 1" "out = out' \<or> out = PipeW p \<and> n = 0"
  shows "wired p i' out' err h"
proof -
  obtain q u j k zs where h: "h = (q, u)" "u = std j k err" "q = (p @ [n]) @ zs" "in_ok (p @ [n]) i q j" "out_ok (p @ [n]) out q k"
    using assms(1) by (cases h) (auto simp: wired_def)
  have "in_ok p i' q j" using ok_sub(1) [OF h(4)] ok_change(1) [of p i q j _ _ zs i'] assms(2) h(3) by auto
  moreover have "out_ok p out' q k" using ok_sub(2) [OF h(5)] ok_change(2) [of p out q k _ _ zs out'] assms(3) h(3) by auto
  ultimately show ?thesis using h(1-3) by (auto simp: wired_def)
qed

lemma wired_redir:
  assumes "wired p i out err h" "i = i' \<or> i = Opened f m" "out = out' \<or> out = Opened f m"
  shows "wired p i' out' err h"
  using assms ok_change(1) [of p i _ _ f m _ i'] ok_change(2) [of p out _ _ f m _ out'] by (cases h) (fastforce simp: wired_def)

lemma holders_wired:
  "io_redirs c \<Longrightarrow> h \<in> holders (runcmd e c p (std i out err)) \<Longrightarrow> wired p i out err h"
proof (induction c arbitrary: p i out)
  case (EXEC as)
  then show ?case by (auto simp: wired_here split: if_splits)
next
  case (REDIR c f m d)
  then have "wired p (if d = 0 then Opened f m else i) (if d = 0 then out else Opened f m) err h"
    by (auto simp: redir_std split: if_splits)
  then show ?case by (rule wired_redir [of p _ _ err h i f m out]) auto
next
  case (PIPE l r)
  consider "wired (p @ [0]) i (PipeW p) err h" | "wired (p @ [1]) (PipeR p) out err h" | "h = (p, std i out err)"
    using PIPE.prems PIPE.IH(1) [of "p @ [0]" i "PipeW p"] PIPE.IH(2) [of "p @ [1]" "PipeR p" out]
    by (auto simp: run_pipe_std fork1_def simp del: runcmd.simps(4) split: if_splits)
  then show ?case by cases (auto intro: wired_sub wired_here)
next
  case (LIST l r)
  consider "wired (p @ [0]) i out err h" | "wired (p @ [1]) i out err h" | "h = (p, std i out err)"
    using LIST.prems LIST.IH(1) [of "p @ [0]" i out] LIST.IH(2) [of "p @ [1]" i out] by (auto simp: fork1_def split: if_splits)
  then show ?case by cases (auto intro: wired_sub wired_here)
next
  case (BACK c)
  then have "wired (p @ [0]) i out err h" using BACK.IH [of "p @ [0]" i out] by (auto simp: fork1_def split: if_splits)
  then show ?case by (rule wired_sub) simp_all
qed

definition filled_from :: "nat \<Rightarrow> fds \<Rightarrow> nat \<Rightarrow> obj" where
  "filled_from n t d = (if d < n then the (t d) else Console)"

lemma open_console_std:
  assumes "can_open e console_path O_RDWR" "n \<le> 3" "\<And>d. t d = None \<longleftrightarrow> n \<le> d"
  shows "open_console e t = std (filled_from n t 0) (filled_from n t 1) (filled_from n t 2)"
  using assms
proof (induction "3 - n" arbitrary: n t)
  case 0
  then have n: "n = 3" by simp
  have l: "lowest_free t = Some 3" using 0(4) n by (intro lowest_freeI) (auto simp: NOFILE_def)
  obtain x y z where v: "t 0 = Some x" "t 1 = Some y" "t 2 = Some z" using 0(4) [of 0] 0(4) [of 1] 0(4) [of 2] n by auto
  have "t = std x y z"
  proof (rule ext)
    fix d
    show "t d = std x y z d" using 0(4) [of d] n v by (cases "d < 3") (auto simp: std_def less_3_cases)
  qed
  then have "close_fd 3 (t(3 \<mapsto> Console)) = std x y z" by (auto simp: close_fd_def std_def fun_eq_iff)
  moreover have "filled_from n t 0 = x" "filled_from n t 1 = y" "filled_from n t 2 = z" using v n by (simp_all add: filled_from_def)
  ultimately show ?case using l 0(2) by (subst open_console.simps) (simp add: open_fd_def)
next
  case (Suc k)
  let ?t = "t(n \<mapsto> Console)"
  have n: "n < 3" using Suc(2) by simp
  have l: "lowest_free t = Some n" using Suc.prems(3) n by (intro lowest_freeI) (auto simp: NOFILE_def)
  have f: "filled_from (Suc n) ?t = filled_from n t" by (auto simp: filled_from_def fun_eq_iff less_Suc_eq)
  have "open_console e ?t = std (filled_from (Suc n) ?t 0) (filled_from (Suc n) ?t 1) (filled_from (Suc n) ?t 2)"
  proof (rule Suc.hyps(1))
    show "?t d = None \<longleftrightarrow> Suc n \<le> d" for d using Suc.prems(3) [of d] by (cases "d = n") auto
  qed (use Suc.hyps(2) Suc.prems(1) n in simp_all)
  then show ?case using l Suc.prems(1) n f by (subst open_console.simps) (simp add: open_fd_def)
qed

text \<open>C12: the shell wires the programs of a command as it says. After its start, whichever of the first three
  descriptors it inherited, every program the command starts, as far as forks, pipes and files are granted, is executed with exactly
  three descriptors: its input and output are the files, pipe ends or inherited streams the command names. And of all processes
  that execute a program or wait, the shells between them included, only those of the command left of a pipe have its write
  end, as their output, and only those right of it its read end, as their input: a reader sees the end of its input when the
  command before it is done.\<close>

theorem runcmd_wires:
  assumes "can_open e console_path O_RDWR" "n \<le> 3" "\<And>d. t d = None \<longleftrightarrow> n \<le> d" "\<And>d p. t d \<noteq> Some (PipeR p) \<and> t d \<noteq> Some (PipeW p)" "io_redirs c"
  shows "\<exists>i out err. sh_start e t = std i out err \<and>
    programs (runcmd e c [] (sh_start e t)) = map (\<lambda>(as, i, out). (as, std i out err)) (wiring e c [] i out) \<and>
    (\<forall>q u d p. (q, u) \<in> holders (runcmd e c [] (sh_start e t)) \<longrightarrow>
      (u d = Some (PipeW p) \<longrightarrow> d = 1 \<and> (\<exists>ys. q = p @ 0 # ys)) \<and> (u d = Some (PipeR p) \<longrightarrow> d = 0 \<and> (\<exists>ys. q = p @ 1 # ys)))"
proof -
  let ?x = "filled_from n t"
  have st: "sh_start e t = std (?x 0) (?x 1) (?x 2)" using open_console_std [OF assms(1-3)] by (simp add: sh_start_def)
  have np: "?x d \<noteq> PipeR p \<and> ?x d \<noteq> PipeW p" for d p using assms(3,4) [of d] by (cases "t d") (auto simp: filled_from_def)
  have "(u d = Some (PipeW p) \<longrightarrow> d = 1 \<and> (\<exists>ys. q = p @ 0 # ys)) \<and> (u d = Some (PipeR p) \<longrightarrow> d = 0 \<and> (\<exists>ys. q = p @ 1 # ys))"
    if h: "(q, u) \<in> holders (runcmd e c [] (sh_start e t))" for q u d p
  proof -
    obtain j k where w: "u = std j k (?x 2)" "in_ok [] (?x 0) q j" "out_ok [] (?x 1) q k"
      using holders_wired [OF assms(5) h [unfolded st]] by (auto simp: wired_def)
    show ?thesis using w(2,3) np [of 0] np [of 1] np [of 2 p] unfolding w(1) std_def in_ok_def out_ok_def by (auto split: if_splits)
  qed
  then show ?thesis using st programs_wiring [OF assms(5)] by (intro exI [of _ "?x 0"] exI [of _ "?x 1"] exI [of _ "?x 2"]) simp
qed

text \<open>The command \<open>a<f|b\<close>, in a shell started with its standard input and output open: the programs, and the three processes
  that execute or wait while none of the others holds an end of the pipe.\<close>

theorem runcmd_wires_witness:
  "programs (runcmd \<lparr>can_open = \<lambda>_ _. True, can_pipe = \<lambda>_. True, can_fork = \<lambda>_ _. True\<rparr> (PIPE (REDIR (EXEC [[97]]) [102] O_RDONLY 0) (EXEC [[98]])) []
      (sh_start \<lparr>can_open = \<lambda>_ _. True, can_pipe = \<lambda>_. True, can_fork = \<lambda>_ _. True\<rparr> [0 \<mapsto> Inherited 0, 1 \<mapsto> Opened [99] O_WRONLY])) =
     [([[97]], std (Opened [102] O_RDONLY) (PipeW []) Console), ([[98]], std (PipeR []) (Opened [99] O_WRONLY) Console)]"
proof -
  let ?e = "\<lparr>can_open = \<lambda>_ _. True, can_pipe = \<lambda>_. True, can_fork = \<lambda>_ _. True\<rparr>"
  let ?t = "[0 \<mapsto> Inherited 0, 1 \<mapsto> Opened [99] O_WRONLY] :: fds"
  let ?c = "PIPE (REDIR (EXEC [[97]]) [102] O_RDONLY 0) (EXEC [[98]]) :: u8 list cmd"
  have n: "?t d = None \<longleftrightarrow> 2 \<le> d" for d by auto
  have st: "sh_start ?e ?t = std (Inherited 0) (Opened [99] O_WRONLY) Console"
    using open_console_std [of ?e 2 ?t, OF _ _ n] by (simp add: sh_start_def filled_from_def)
  have inj: "i = i' \<and> out = out' \<and> err = err'" if "std i out err = std i' out' err'" for i out err i' out' err'
    using fun_cong [OF that, of 0] fun_cong [OF that, of 1] fun_cong [OF that, of 2] by (simp add: std_def)
  have "\<exists>i out err. sh_start ?e ?t = std i out err \<and>
      programs (runcmd ?e ?c [] (sh_start ?e ?t)) = map (\<lambda>(as, i, out). (as, std i out err)) (wiring ?e ?c [] i out)"
  proof -
    have "can_open ?e console_path O_RDWR" "(2 :: nat) \<le> 3" "io_redirs ?c" by simp_all
    moreover have "?t d \<noteq> Some (PipeR p) \<and> ?t d \<noteq> Some (PipeW p)" for d p by simp
    ultimately show ?thesis using runcmd_wires [of ?e 2 ?t ?c, OF _ _ n] by blast
  qed
  then obtain i out err where w: "sh_start ?e ?t = std i out err"
      "programs (runcmd ?e ?c [] (sh_start ?e ?t)) = map (\<lambda>(as, i, out). (as, std i out err)) (wiring ?e ?c [] i out)"
    by blast
  show ?thesis unfolding w(2) using inj [OF trans [OF w(1) [symmetric] st]] by simp
qed

end
