(* ===== verification/Primes.thy ===== *)
theory Primes
  imports Xv6_Prelude
begin

text \<open>
  \<^verbatim>\<open>user/primes.c\<close>: a chain of processes joined by pipes. The first prints 2 and sends the numbers from 3 to a limit (\<open>MAX\<close> in the source); each other
  prints the first prime it receives, makes the next process and passes on what follows. Every process runs
  at its own pace; reading a number and doing something with it are two steps, and a write waits while the
  pipe is full. A pipe holds \<open>PIPESIZE\<close> bytes, a multiple of the size of a number, so that no number is ever split.
  \<open>pipe\<close>, \<open>fork\<close> and \<open>close\<close> are taken to succeed. The logging functions are empty in this build.
\<close>

definition MAX_NUM :: int where "MAX_NUM = 280"





text \<open>A process in the loop of \<open>worker\<close>: the numbers in its left pipe, the one it has just read, whether it has
  printed its prime, and whether it has seen the end of its input.\<close>

record worker =
  left_pipe :: "int list"
  num :: "int option"
  printed :: bool
  finished :: bool

definition new_worker :: worker where
  "new_worker = \<lparr>left_pipe = [], num = None, printed = False, finished = False\<rparr>"













subsection \<open>Primality\<close>




subsection \<open>The chain as one queue\<close>

text \<open>The numbers on their way, the ones furthest down the chain first: forwarding keeps their order, and
  only the last process, which has not printed yet, takes any out.\<close>

definition held :: "worker \<Rightarrow> int list" where
  "held w = (case num w of None \<Rightarrow> [] | Some n \<Rightarrow> [n]) @ left_pipe w"

definition flow :: "worker list \<Rightarrow> int list" where
  "flow ws = concat (map held (rev ws))"


lemma flow_simps [simp]: "flow [] = []" "flow (w # ws) = flow ws @ held w" "flow (ws @ vs) = flow vs @ flow ws"
  by (simp_all add: flow_def)

lemma held_simps [simp]:
  "held (w\<lparr>num := None\<rparr>) = left_pipe w" "held (w\<lparr>num := Some n\<rparr>) = n # left_pipe w" "held new_worker = []"
  "held (w\<lparr>left_pipe := l\<rparr>) = (case num w of None \<Rightarrow> [] | Some n \<Rightarrow> [n]) @ l"
  "held (w\<lparr>printed := b\<rparr>) = held w" "held (w\<lparr>finished := b\<rparr>) = held w"
  by (simp_all add: held_def new_worker_def)























subsection \<open>Nothing gets stuck\<close>












end
