(* ===== verification/Umalloc.thy ===== *)
theory Umalloc
  imports Xv6_Prelude
begin

text \<open>
  \<^verbatim>\<open>user/umalloc.c\<close>: the allocator of the user programs. Free blocks form a ring in order of address, through the
  static header \<open>base\<close>, which has no space and lies below the heap. A header is the pair of maps
  \<open>ptr\<close> and \<open>size\<close> at its address; addresses count bytes, sizes count units of \<open>sizeof(Header)\<close>. Memory is far
  smaller than what the 32 bits of a size can count, so sizes do not wrap; the conversion of the
  argument of \<open>sbrk\<close> to \<open>int\<close> is kept. Whether \<open>sbrk\<close> grants a request is a parameter.
\<close>

definition unit_bytes :: nat where "unit_bytes = 16"

record uheap =
  ptr :: "nat \<Rightarrow> nat"
  size :: "nat \<Rightarrow> nat"
  freep :: nat
  brk :: nat

text \<open>\<open>h + n\<close> in units.\<close>

definition units_after :: "nat \<Rightarrow> nat \<Rightarrow> nat" where
  "units_after h n = h + unit_bytes * n"

text \<open>\<open>sbrk\<close>, as \<open>sys_sbrk\<close> and \<open>growproc\<close> answer it: the old end of the memory, which then moves by \<open>n\<close>; a negative
  \<open>n\<close> that would pass zero leaves it where it is.\<close>

definition sbrk :: "(uheap \<Rightarrow> int \<Rightarrow> bool) \<Rightarrow> int \<Rightarrow> uheap \<Rightarrow> nat option \<times> uheap" where
  "sbrk grants n s =
     (if grants s n
      then (Some (brk s), s\<lparr>brk := (if int (brk s) + n < 0 then brk s else nat (int (brk s) + n))\<rparr>) else (None, s))"

partial_function (option) free_find :: "uheap \<Rightarrow> nat \<Rightarrow> nat \<Rightarrow> nat option" where
  "free_find s bp p =
     (if p < bp \<and> bp < ptr s p then Some p
      else if ptr s p \<le> p \<and> (p < bp \<or> bp < ptr s p) then Some p
      else free_find s bp (ptr s p))"

definition free_at :: "nat \<Rightarrow> nat \<Rightarrow> uheap \<Rightarrow> uheap" where
  "free_at bp p s =
     (let s1 =
        (if units_after bp (size s bp) = ptr s p
         then s\<lparr>size := (size s)(bp := size s bp + size s (ptr s p)), ptr := (ptr s)(bp := ptr s (ptr s p))\<rparr>
         else s\<lparr>ptr := (ptr s)(bp := ptr s p)\<rparr>);
          s2 =
        (if units_after p (size s1 p) = bp
         then s1\<lparr>size := (size s1)(p := size s1 p + size s1 bp), ptr := (ptr s1)(p := ptr s1 bp)\<rparr>
         else s1\<lparr>ptr := (ptr s1)(p := bp)\<rparr>)
      in s2\<lparr>freep := p\<rparr>)"

definition free :: "nat \<Rightarrow> uheap \<Rightarrow> uheap option" where
  "free ap s =
     (let bp = ap - unit_bytes in
      map_option (\<lambda>p. free_at bp p s) (free_find s bp (freep s)))"

text \<open>The argument of \<open>sbrk\<close> is an \<open>int\<close>: the product is cut to 32 bits and read with a sign.\<close>

definition sbrk_arg :: "nat \<Rightarrow> int" where
  "sbrk_arg nu = sint (of_nat (nu * unit_bytes) :: u32)"

definition morecore :: "(uheap \<Rightarrow> int \<Rightarrow> bool) \<Rightarrow> nat \<Rightarrow> uheap \<Rightarrow> (nat \<times> uheap) option" where
  "morecore grants nu0 s =
     (let nu = (if nu0 < 4096 then 4096 else nu0) in
      case sbrk grants (sbrk_arg nu) s of
        (None, s1) \<Rightarrow> Some (0, s1)
      | (Some hp, s1) \<Rightarrow>
          map_option (\<lambda>s2. (freep s2, s2)) (free (units_after hp 1) (s1\<lparr>size := (size s1)(hp := nu)\<rparr>)))"

text \<open>The block \<open>p\<close>, whose predecessor in the ring is \<open>prevp\<close>, is large enough: the caller gets all of it or its tail.\<close>

definition take_block :: "nat \<Rightarrow> nat \<Rightarrow> nat \<Rightarrow> uheap \<Rightarrow> nat \<times> uheap" where
  "take_block nunits prevp p s =
     (if size s p = nunits
      then (units_after p 1, s\<lparr>ptr := (ptr s)(prevp := ptr s p), freep := prevp\<rparr>)
      else let rest = size s p - nunits; q = units_after p rest
           in (units_after q 1, s\<lparr>size := (size s)(p := rest, q := nunits), freep := prevp\<rparr>))"

partial_function (option) malloc_loop ::
  "(uheap \<Rightarrow> int \<Rightarrow> bool) \<Rightarrow> nat \<Rightarrow> nat \<Rightarrow> nat \<Rightarrow> uheap \<Rightarrow> (nat \<times> uheap) option" where
  "malloc_loop grants nunits prevp p s =
     (if nunits \<le> size s p then Some (take_block nunits prevp p s)
      else if p = freep s then
        Option.bind (morecore grants nunits s) (\<lambda>r.
          if fst r = 0 then Some (0, snd r)
          else malloc_loop grants nunits (fst r) (ptr (snd r) (fst r)) (snd r))
      else malloc_loop grants nunits p (ptr s p) s)"

definition units_for :: "nat \<Rightarrow> nat" where
  "units_for nbytes = (nbytes + unit_bytes - 1) div unit_bytes + 1"

definition malloc :: "(uheap \<Rightarrow> int \<Rightarrow> bool) \<Rightarrow> nat \<Rightarrow> nat \<Rightarrow> uheap \<Rightarrow> (nat \<times> uheap) option" where
  "malloc grants base nbytes s =
     (let s1 = (if freep s = 0
                then s\<lparr>ptr := (ptr s)(base := base), size := (size s)(base := 0), freep := base\<rparr> else s)
      in malloc_loop grants (units_for nbytes) (freep s1) (ptr s1 (freep s1)) s1)"

subsection \<open>Linked lists\<close>

text \<open>Each element points to the next, the last one to \<open>z\<close>.\<close>

primrec links :: "(nat \<Rightarrow> nat) \<Rightarrow> nat list \<Rightarrow> nat \<Rightarrow> bool" where
  "links f [] z = True"
| "links f (x # xs) z = (f x = hd (xs @ [z]) \<and> links f xs z)"

lemma ring_links_append [simp]: "links f (xs @ ys) z \<longleftrightarrow> links f xs (hd (ys @ [z])) \<and> links f ys z"
  by (induction xs) (auto simp: hd_append)

lemma links_frame: "a \<notin> set xs \<Longrightarrow> links (f(a := v)) xs z = links f xs z"
  by (induction xs) auto

lemma links_ring_rotate: "links f (xs @ ys) (hd (xs @ ys)) \<Longrightarrow> links f (ys @ xs) (hd (ys @ xs))"
  by (cases xs; cases ys) (auto simp: hd_append)

text \<open>The block before another one in the ring.\<close>

lemma links_pred:
  assumes "links f xs (hd xs)" "p \<in> set xs" "f p \<noteq> hd xs"
  obtains A B where "xs = A @ [p, f p] @ B"
proof -
  obtain A B where "xs = A @ p # B" using assms(2) by (meson split_list)
  moreover have "f p = hd (B @ [hd xs])" using assms(1) calculation by simp
  ultimately show thesis using assms(3) that by (cases B) auto
qed

subsection \<open>The heap\<close>

definition extent :: "uheap \<Rightarrow> nat \<Rightarrow> nat set" where
  "extent s b = {b ..< units_after b (size s b)}"

text \<open>\<open>heap_ok base s xs L\<close>: the ring is \<open>base\<close> and then the free blocks \<open>xs\<close> in order of address; they and the blocks
  \<open>L\<close> handed out lie in the heap and do not overlap.\<close>

definition apart :: "uheap \<Rightarrow> nat set \<Rightarrow> bool" where
  "apart s bs \<longleftrightarrow> (\<forall>b \<in> bs. \<forall>c \<in> bs. b < c \<longrightarrow> units_after b (size s b) \<le> c)"

definition inside :: "nat \<Rightarrow> uheap \<Rightarrow> nat set \<Rightarrow> bool" where
  "inside base s bs \<longleftrightarrow> (\<forall>b \<in> bs. units_after base 1 \<le> b \<and> 0 < size s b \<and> units_after b (size s b) \<le> brk s)"

definition heap_ok :: "nat \<Rightarrow> uheap \<Rightarrow> nat list \<Rightarrow> nat set \<Rightarrow> bool" where
  "heap_ok base s xs L \<longleftrightarrow>
     0 < base \<and> units_after base 1 \<le> brk s \<and> size s base = 0 \<and>
     links (ptr s) (base # xs) base \<and> sorted_wrt (<) (base # xs) \<and>
     set xs \<inter> L = {} \<and> inside base s (set xs \<union> L) \<and> apart s (set xs \<union> L)"

lemma heap_okI:
  assumes "0 < base" "units_after base 1 \<le> brk s" "size s base = 0" "links (ptr s) (base # xs) base" "sorted_wrt (<) (base # xs)"
    "set xs \<inter> L = {}" "inside base s (set xs \<union> L)" "apart s (set xs \<union> L)"
  shows "heap_ok base s xs L"
  using assms by (simp add: heap_ok_def)

lemma heap_okD:
  assumes "heap_ok base s xs L"
  shows "0 < base" "units_after base 1 \<le> brk s" "size s base = 0" "links (ptr s) (base # xs) base" "sorted_wrt (<) (base # xs)"
    "set xs \<inter> L = {}" "inside base s (set xs \<union> L)" "apart s (set xs \<union> L)"
  using assms by (simp_all add: heap_ok_def)

lemma heap_ok_above:
  assumes "heap_ok base s xs L" "b \<in> set xs \<union> L"
  shows "base < b" "0 < size s b" "units_after b (size s b) \<le> brk s" "units_after base 1 \<le> b"
proof -
  have b: "units_after base 1 \<le> b \<and> 0 < size s b \<and> units_after b (size s b) \<le> brk s"
    using heap_okD(7) [OF assms(1)] assms(2) unfolding inside_def by blast
  then show "base < b" by (simp add: units_after_def unit_bytes_def)
  from b show "0 < size s b" "units_after b (size s b) \<le> brk s" "units_after base 1 \<le> b" by auto
qed

lemma heap_ok_base: "heap_ok base s xs L \<Longrightarrow> base \<notin> set xs \<union> L"
  using heap_ok_above(1) by blast

lemma units_after_simps [simp]: "units_after b 0 = b" "units_after (units_after b m) n = units_after b (m + n)"
  "units_after b m \<le> units_after b n \<longleftrightarrow> m \<le> n" "units_after b m < units_after b n \<longleftrightarrow> m < n" "units_after b m = units_after b n \<longleftrightarrow> m = n"
  by (simp_all add: units_after_def unit_bytes_def)

lemma units_after_le [simp]: "b \<le> units_after b n"
  by (simp add: units_after_def)

subsection \<open>Changes of the ring\<close>

text \<open>A block handed out goes back into the ring.\<close>

lemma insert_ok:
  assumes ok: "heap_ok base s xs L" and bp: "bp \<in> L" and split: "base # xs = A @ p # B" and pos: "p < bp" "B \<noteq> [] \<Longrightarrow> bp < hd B"
  shows "\<exists>ys. base # ys = A @ [p, bp] @ B \<and> heap_ok base (s\<lparr>ptr := (ptr s)(bp := ptr s p, p := bp)\<rparr>) ys (L - {bp})"
proof -
  note d = heap_okD [OF ok]
  let ?t = "s\<lparr>ptr := (ptr s)(bp := ptr s p, p := bp)\<rparr>"
  define ys where "ys = tl (A @ [p, bp] @ B)"
  have ys: "base # ys = A @ [p, bp] @ B" using split by (cases A) (auto simp: ys_def)
  have new: "bp \<notin> set (base # xs)" using bp d(6) heap_ok_base [OF ok] by auto
  have so: "sorted_wrt (<) (A @ p # B)" using d(5) split by simp
  then have sorted: "sorted_wrt (<) (base # ys)"
    unfolding ys using pos by (cases B) (auto simp: sorted_wrt_append)
  have "insert base (set ys) = insert base (insert bp (set xs))"
    using arg_cong [OF ys, of set] arg_cong [OF split, of set] by auto
  moreover have "base \<notin> set ys" "base \<notin> insert bp (set xs)" using sorted new heap_ok_base [OF ok] by auto
  ultimately have "set ys = insert bp (set xs)" by (metis insert_ident)
  then have set: "set ys \<union> (L - {bp}) = set xs \<union> L" "set ys \<inter> (L - {bp}) = {}" using bp d(6) by auto
  have "links (ptr s) (A @ p # B) base" using d(4) split by metis
  moreover have "p \<notin> set A" "p \<notin> set B" using so by (auto simp: sorted_wrt_append)
  moreover have "bp \<notin> set A" "bp \<notin> set B" "bp \<noteq> p" using new split by auto
  ultimately have lk: "links (ptr ?t) (base # ys) base" unfolding ys by (auto simp: links_frame)
  have "heap_ok base ?t ys (L - {bp})"
    by (rule heap_okI) (use d sorted lk set new in \<open>auto simp: inside_def apart_def\<close>)
  then show ?thesis using ys by blast
qed

text \<open>Two neighbours in the ring that touch become one block.\<close>

lemma merge_ok:
  assumes ok: "heap_ok base s (A @ [a, b] @ B) L" and touch: "units_after a (size s a) = b"
  shows "heap_ok base (s\<lparr>size := (size s)(a := size s a + size s b), ptr := (ptr s)(a := ptr s b)\<rparr>) (A @ a # B) L"
proof -
  note d = heap_okD [OF ok]
  let ?t = "s\<lparr>size := (size s)(a := size s a + size s b), ptr := (ptr s)(a := ptr s b)\<rparr>"
  have so: "sorted_wrt (<) (base # A @ [a, b] @ B)" using d(5) by simp
  have ne: "a \<notin> set A" "a \<notin> set B" "a \<noteq> base" "a \<noteq> b" "b \<notin> set A" "b \<notin> set B" using so by (auto simp: sorted_wrt_append)
  have L: "a \<notin> L" "b \<notin> L" using d(6) by auto
  have fin: "units_after a (size s a + size s b) = units_after b (size s b)" using touch by (metis units_after_simps(2))
  have "links (ptr ?t) (base # A @ a # B) base" using d(4) ne by (auto simp: links_frame hd_append)
  moreover have "sorted_wrt (<) (base # A @ a # B)" using so by (auto simp: sorted_wrt_append)
  moreover have "inside base ?t (set (A @ a # B) \<union> L)" using d(7) fin ne L by (auto simp: inside_def)
  moreover have "apart ?t (set (A @ a # B) \<union> L)"
    unfolding apart_def
  proof (intro ballI impI)
    fix x y assume x: "x \<in> set (A @ a # B) \<union> L" and y: "y \<in> set (A @ a # B) \<union> L" and lt: "x < y"
    have nb: "y \<noteq> b" using y ne L by auto
    show "units_after x (size ?t x) \<le> y"
    proof (cases "x = a")
      case True
      then have "b \<le> y" using d(8) y lt touch ne by (auto simp: apart_def)
      then have "units_after b (size s b) \<le> y" using nb d(8) y by (auto simp: apart_def)
      then show ?thesis using True fin by simp
    next
      case False
      then show ?thesis using d(8) x y lt by (auto simp: apart_def)
    qed
  qed
  ultimately show ?thesis using d(1-3, 6) ne by (intro heap_okI) auto
qed

text \<open>A whole free block is handed out.\<close>

lemma remove_ok:
  assumes ok: "heap_ok base s xs L" and split: "base # xs = A @ [p, x] @ B"
  shows "\<exists>ys. base # ys = A @ p # B \<and> heap_ok base (s\<lparr>ptr := (ptr s)(p := ptr s x)\<rparr>) ys (insert x L)"
proof -
  note d = heap_okD [OF ok]
  let ?t = "s\<lparr>ptr := (ptr s)(p := ptr s x)\<rparr>"
  define ys where "ys = tl (A @ p # B)"
  have ys: "base # ys = A @ p # B" using split by (cases A) (auto simp: ys_def)
  have so: "sorted_wrt (<) (A @ [p, x] @ B)" using d(5) split by simp
  then have ne: "p \<notin> set A" "p \<notin> set B" "x \<noteq> p" "x \<notin> set A" "x \<notin> set B" "sorted_wrt (<) (base # ys)"
    unfolding ys by (auto simp: sorted_wrt_append)
  have "insert base (set xs) = insert base (insert x (set ys))"
    using arg_cong [OF ys, of set] arg_cong [OF split, of set] by auto
  moreover have "x \<in> set (base # ys) \<Longrightarrow> False" unfolding ys using ne by auto
  moreover have "base \<notin> set ys" using ne(6) by auto
  ultimately have "set xs = insert x (set ys)" "x \<notin> set ys" using heap_ok_base [OF ok] by (auto dest: insert_ident [THEN iffD1, rotated 2])
  then have set: "set ys \<union> insert x L = set xs \<union> L" "set ys \<inter> insert x L = {}" using d(6) by auto
  have "links (ptr s) (A @ [p, x] @ B) base" using d(4) split by metis
  then have lk: "links (ptr ?t) (base # ys) base" unfolding ys using ne by (auto simp: links_frame hd_append)
  have "heap_ok base ?t ys (insert x L)"
    by (rule heap_okI) (use d ne(6) lk set in \<open>auto simp: inside_def apart_def\<close>)
  then show ?thesis using ys by blast
qed

text \<open>The tail of a free block is handed out.\<close>

lemma split_ok:
  assumes ok: "heap_ok base s xs L" and x: "x \<in> set xs" "0 < n" "n < size s x"
  defines "q \<equiv> units_after x (size s x - n)"
  shows "heap_ok base (s\<lparr>size := (size s)(x := size s x - n, q := n)\<rparr>) xs (insert q L)" "q \<notin> set xs \<union> L" "q \<in> extent s x"
proof -
  note d = heap_okD [OF ok]
  let ?t = "s\<lparr>size := (size s)(x := size s x - n, q := n)\<rparr>"
  have q: "x < q" "units_after q n = units_after x (size s x)"
    using x(2, 3) by (simp_all add: q_def units_after_def unit_bytes_def algebra_simps flip: distrib_left)
  then have q': "q < units_after x (size s x)" using x(2) by (metis units_after_simps(1, 4))
  then show "q \<in> extent s x" using q(1) by (simp add: extent_def)
  show new: "q \<notin> set xs \<union> L"
  proof
    assume "q \<in> set xs \<union> L"
    then have "units_after x (size s x) \<le> q" using d(8) x(1) q(1) by (auto simp: apart_def)
    then show False using q' by simp
  qed
  have xb: "x \<noteq> base" "q \<noteq> base" using heap_ok_above(1) [OF ok, of x] x(1) q(1) by auto
  have xin: "units_after base 1 \<le> x" "units_after x (size s x) \<le> brk s" using heap_ok_above [OF ok, of x] x(1) by auto
  have "inside base ?t (set xs \<union> insert q L)"
    unfolding inside_def
  proof
    fix b assume "b \<in> set xs \<union> insert q L"
    then consider "b = q" | "b = x" "b \<noteq> q" | "b \<in> set xs \<union> L" "b \<noteq> x" "b \<noteq> q" by blast
    then show "units_after base 1 \<le> b \<and> 0 < size ?t b \<and> units_after b (size ?t b) \<le> brk ?t"
    proof cases
      case 1
      then show ?thesis using xin q x(2) by simp
    next
      case 2
      then show ?thesis using xin x(3) by (auto intro: order_trans [OF _ xin(2)])
    next
      case 3
      then show ?thesis using heap_ok_above [OF ok 3(1)] by simp
    qed
  qed
  moreover have "apart ?t (set xs \<union> insert q L)"
    unfolding apart_def
  proof (intro ballI impI)
    fix b c assume b: "b \<in> set xs \<union> insert q L" and c: "c \<in> set xs \<union> insert q L" and lt: "b < c"
    have old: "units_after b' (size s b') \<le> c'" if "b' \<in> set xs \<union> L" "c' \<in> set xs \<union> L" "b' < c'" for b' c'
      using d(8) that by (auto simp: apart_def)
    show "units_after b (size ?t b) \<le> c"
    proof (cases "b = q")
      case True
      then have "units_after x (size s x) \<le> c" using old [of x c] x(1) c lt q(1) by auto
      then show ?thesis using True q(2) by simp
    next
      case False
      then have b': "b \<in> set xs \<union> L" using b by simp
      show ?thesis
      proof (cases "c = q")
        case True
        show ?thesis
        proof (cases "b = x")
          case True
          then show ?thesis using \<open>c = q\<close> False by (simp add: q_def)
        next
          case bx: False
          have "\<not> x < b" using old [of x b] b' x(1) lt True q' by auto
          then have "units_after b (size s b) \<le> x" using old [of b x] b' x(1) bx by auto
          then show ?thesis using True False bx q(1) by simp
        qed
      next
        case cq: False
        then have "units_after b (size s b) \<le> c" using old b' c lt by simp
        moreover have "size ?t b \<le> size s b" using False by simp
        ultimately show ?thesis by (meson le_trans units_after_simps(3))
      qed
    qed
  qed
  ultimately show "heap_ok base ?t xs (insert q L)" using d new xb by (intro heap_okI) auto
qed

subsection \<open>free\<close>

text \<open>The search ends at the last block below the one that comes back, wherever it starts.\<close>

lemma find_forward:
  assumes "links (ptr s) (ys @ p # B) base" "sorted_wrt (<) (ys @ p # B)" "p < bp" "B \<noteq> [] \<Longrightarrow> bp < hd B" "base \<le> p"
  shows "free_find s bp (hd (ys @ [p])) = Some p"
  using assms
proof (induction ys)
  case Nil
  then show ?case by (subst free_find.simps) (cases B; auto)
next
  case (Cons y ys)
  have "ptr s y = hd (ys @ [p])" "y < ptr s y" "ptr s y \<le> p" using Cons.prems(1, 2) by (cases ys; auto)+
  then show ?case using Cons by (subst free_find.simps) auto
qed

lemma find_wrap:
  assumes "links (ptr s) ys base" "sorted_wrt (<) ys" "\<And>y. y \<in> set ys \<Longrightarrow> bp < y" "base < bp" "ys \<noteq> []"
  shows "free_find s bp (hd ys) = free_find s bp base"
  using assms
proof (induction ys)
  case (Cons y ys)
  have y: "\<not> y < bp" using Cons.prems(3) [of y] by simp
  show ?case
  proof (cases ys)
    case Nil
    then show ?thesis using y Cons.prems by (subst free_find.simps) simp
  next
    case (Cons z zs)
    then have "ptr s y = z" "y < z" "free_find s bp z = free_find s bp base" using Cons.IH Cons.prems by auto
    then show ?thesis using y by (subst free_find.simps) simp
  qed
qed simp

lemma find_pred:
  assumes ok: "heap_ok base s xs L" and bp: "bp \<in> L" and start: "f \<in> set (base # xs)"
  obtains A p B where "base # xs = A @ p # B" "p < bp" "B \<noteq> [] \<Longrightarrow> bp < hd B" "free_find s bp f = Some p"
proof -
  note d = heap_okD [OF ok]
  let ?low = "takeWhile (\<lambda>x. x < bp) (base # xs)"
  define B where "B = dropWhile (\<lambda>x. x < bp) (base # xs)"
  have bb: "base < bp" using heap_ok_above(1) [OF ok, of bp] bp by simp
  then have "?low \<noteq> []" by simp
  then obtain A p where A: "?low = A @ [p]" by (metis rev_exhaust)
  have split: "base # xs = A @ p # B" using A takeWhile_dropWhile_id [of "\<lambda>x. x < bp" "base # xs"] by (simp add: B_def)
  have "p \<in> set ?low" by (simp only: A) simp
  then have p: "p < bp" by (blast dest: set_takeWhileD)
  have "hd B \<noteq> bp" if "B \<noteq> []" using that split bp d(6) bb by (metis disjoint_iff hd_in_set in_set_conv_decomp list.set_intros(2) nat_less_le set_ConsD UnCI set_append)
  moreover have "\<not> hd B < bp" if "B \<noteq> []" using that hd_dropWhile [of "\<lambda>x. x < bp" "base # xs"] by (simp add: B_def)
  ultimately have hB: "bp < hd B" if "B \<noteq> []" using that by fastforce
  have lk: "links (ptr s) (A @ p # B) base" "sorted_wrt (<) (A @ p # B)" using d(4, 5) split by metis+
  have hd: "hd (A @ [p]) = base" using split by (cases A) auto
  have bp': "base \<le> p" using split lk(2) by (cases A) auto
  have found: "free_find s bp y = Some p" if y: "y \<in> set (A @ [p])" for y
  proof -
    obtain A1 ys where ys: "A @ [p] = A1 @ y # ys" using y by (meson split_list)
    show ?thesis
    proof (cases ys rule: rev_cases)
      case Nil
      then show ?thesis using ys find_forward [of s "[]" p B base bp] lk p hB bp' by (auto simp: sorted_wrt_append)
    next
      case (snoc zs z)
      then have "A = A1 @ y # zs" "z = p" using ys by auto
      then show ?thesis using find_forward [of s "y # zs" p B base bp] lk p hB bp' by (auto simp: sorted_wrt_append)
    qed
  qed
  have "free_find s bp f = Some p"
  proof (cases "f \<in> set (A @ [p])")
    case False
    then have "f \<in> set B" using start split by auto
    then obtain B1 B2 where B: "B = B1 @ f # B2" by (meson split_list)
    have "links (ptr s) (f # B2) base" "sorted_wrt (<) (f # B2)" "sorted_wrt (<) B" using lk B by (auto simp: sorted_wrt_append)
    moreover have "bp < y" if "y \<in> set B" for y
      using that hB \<open>sorted_wrt (<) B\<close> by (cases B) auto
    ultimately have "free_find s bp (hd (f # B2)) = free_find s bp base"
      using bb B by (intro find_wrap) auto
    then show ?thesis using found [of base] hd by (cases A) auto
  qed (rule found)
  then show thesis using that split p hB by blast
qed

text \<open>What the blocks handed out hold is not written to.\<close>

definition untouched :: "nat set \<Rightarrow> uheap \<Rightarrow> uheap \<Rightarrow> bool" where
  "untouched L s t \<longleftrightarrow> (\<forall>b \<in> L. \<forall>a \<in> extent s b. ptr t a = ptr s a \<and> size t a = size s a)"

lemma apartD: "heap_ok base s xs L \<Longrightarrow> b \<in> set xs \<union> L \<Longrightarrow> c \<in> set xs \<union> L \<Longrightarrow> b < c \<Longrightarrow> units_after b (size s b) \<le> c"
  using heap_okD(8) unfolding apart_def by blast

lemma extents_disjoint:
  assumes "heap_ok base s xs L" "b \<in> set xs \<union> L" "c \<in> set xs \<union> L" "b \<noteq> c"
  shows "extent s b \<inter> extent s c = {}"
  using apartD [OF assms(1-3)] apartD [OF assms(1, 3, 2)] assms(4) by (cases "b < c") (auto simp: extent_def)

lemma ring_not_live:
  assumes ok: "heap_ok base s xs L" and "x \<in> set (base # xs)" "b \<in> L"
  shows "x \<notin> extent s b"
proof (cases "x = base")
  case True
  then show ?thesis using heap_ok_above(1) [OF ok, of b] assms(3) by (simp add: extent_def)
next
  case False
  then have x: "x \<in> set xs" using assms(2) by simp
  then have "x \<noteq> b" using heap_okD(6) [OF ok] assms(3) by auto
  moreover have "b < x \<longrightarrow> units_after b (size s b) \<le> x" using heap_okD(8) [OF ok] x assms(3) unfolding apart_def by blast
  ultimately show ?thesis by (auto simp: extent_def)
qed

lemma live_not_live:
  assumes ok: "heap_ok base s xs L" and "x \<in> L" "b \<in> L" "x \<noteq> b"
  shows "x \<notin> extent s b"
proof -
  have "b < x \<longrightarrow> units_after b (size s b) \<le> x" using heap_okD(8) [OF ok] assms(2, 3) unfolding apart_def by blast
  then show ?thesis using assms(4) by (auto simp: extent_def)
qed

definition link_in :: "nat \<Rightarrow> nat \<Rightarrow> uheap \<Rightarrow> uheap" where
  "link_in bp p s = s\<lparr>ptr := (ptr s)(bp := ptr s p, p := bp)\<rparr>"

definition merge_next :: "nat \<Rightarrow> uheap \<Rightarrow> uheap" where
  "merge_next a s =
     (if units_after a (size s a) = ptr s a
      then s\<lparr>size := (size s)(a := size s a + size s (ptr s a)), ptr := (ptr s)(a := ptr s (ptr s a))\<rparr> else s)"

text \<open>\<open>free\<close> links the block in and merges it with the one after and the one before it.\<close>

lemma free_at_merge:
  assumes "bp \<noteq> p" "ptr s p \<noteq> bp" "ptr s p \<noteq> p \<or> units_after bp (size s bp) \<noteq> p"
  shows "free_at bp p s = (merge_next p (merge_next bp (link_in bp p s)))\<lparr>freep := p\<rparr>"
proof (cases "units_after bp (size s bp) = ptr s p")
  case True
  then have "ptr s p \<noteq> p" using assms(3) by auto
  then have m: "merge_next bp (link_in bp p s) =
      s\<lparr>size := (size s)(bp := size s bp + size s (ptr s p)), ptr := (ptr s)(p := bp, bp := ptr s (ptr s p))\<rparr>"
    using True assms(1, 2) by (auto simp: merge_next_def link_in_def fun_eq_iff intro!: uheap.equality)
  show ?thesis unfolding m using True assms(1)
    by (intro uheap.equality) (auto simp: free_at_def Let_def merge_next_def fun_eq_iff)
next
  case False
  then have m: "merge_next bp (link_in bp p s) = s\<lparr>ptr := (ptr s)(bp := ptr s p, p := bp)\<rparr>"
    using assms(1) by (simp add: merge_next_def link_in_def)
  show ?thesis unfolding m using False assms(1)
    by (intro uheap.equality) (auto simp: free_at_def Let_def merge_next_def fun_eq_iff)
qed

lemma heap_ok_freep [simp]: "heap_ok base (s\<lparr>freep := f\<rparr>) xs L = heap_ok base s xs L"
  by (simp add: heap_ok_def inside_def apart_def)

lemma ring_ptr_below:
  assumes "heap_ok base s xs L" "a \<in> set (base # xs)" "ptr s a \<noteq> base"
  obtains A B where "base # xs = A @ [a, ptr s a] @ B" "a < ptr s a"
proof -
  have "links (ptr s) (base # xs) (hd (base # xs))" "ptr s a \<noteq> hd (base # xs)" using heap_okD(4) [OF assms(1)] assms(3) by auto
  then obtain A B where AB: "base # xs = A @ [a, ptr s a] @ B" using links_pred assms(2) by blast
  moreover have "sorted_wrt (<) (A @ [a, ptr s a] @ B)" using heap_okD(5) [OF assms(1)] AB by simp
  ultimately show thesis using that by (simp add: sorted_wrt_append)
qed

text \<open>Merging keeps the ring, loses no block below the merged one, and no block gets smaller without another holding it.\<close>

lemma merge_next_ok:
  assumes ok: "heap_ok base s xs L" and a: "a \<in> set xs"
  obtains ys where "heap_ok base (merge_next a s) ys L" "\<And>x. x \<in> set xs \<Longrightarrow> x \<le> a \<Longrightarrow> x \<in> set ys"
    "\<And>x. x \<in> set xs \<Longrightarrow> \<exists>y \<in> set ys. size s x \<le> size (merge_next a s) y"
proof (cases "units_after a (size s a) = ptr s a")
  case False
  then show thesis using that [of xs] ok by (auto simp: merge_next_def)
next
  case True
  have "base < ptr s a" using True heap_ok_above(1) [OF ok, of a] a units_after_le [of a "size s a"] by simp
  then obtain A B where AB: "base # xs = A @ [a, ptr s a] @ B" "a < ptr s a"
    using ring_ptr_below [OF ok, of a] a by auto
  moreover have "A \<noteq> []" using AB a heap_ok_base [OF ok] by (cases A) auto
  ultimately obtain A' where xs: "xs = A' @ [a, ptr s a] @ B" by (cases A) auto
  have m: "merge_next a s = s\<lparr>size := (size s)(a := size s a + size s (ptr s a)), ptr := (ptr s)(a := ptr s (ptr s a))\<rparr>"
    using True by (simp add: merge_next_def)
  show thesis
  proof (rule that)
    show "heap_ok base (merge_next a s) (A' @ a # B) L" unfolding m using merge_ok [of base s A' a "ptr s a" B L] ok True xs by simp
    show "x \<in> set (A' @ a # B)" if "x \<in> set xs" "x \<le> a" for x using that AB(2) xs by auto
    show "\<exists>y \<in> set (A' @ a # B). size s x \<le> size (merge_next a s) y" if "x \<in> set xs" for x
      by (rule bexI [of _ "if x = ptr s a then a else x"]) (use that xs in \<open>auto simp: m\<close>)
  qed
qed

lemma free_at_frame: "a \<noteq> bp \<Longrightarrow> a \<noteq> p \<Longrightarrow> ptr (free_at bp p s) a = ptr s a \<and> size (free_at bp p s) a = size s a"
  "brk (free_at bp p s) = brk s" "freep (free_at bp p s) = p"
  by (auto simp: free_at_def Let_def)

lemma free_ok:
  assumes ok: "heap_ok base s xs L" and bp: "bp \<in> L" and f: "freep s \<in> set (base # xs)"
  obtains t ys where "free (units_after bp 1) s = Some t" "heap_ok base t ys (L - {bp})" "freep t \<in> set (base # ys)"
    "untouched (L - {bp}) s t" "brk t = brk s" "\<exists>y \<in> set ys. size s bp \<le> size t y"
proof -
  obtain A p B where p: "base # xs = A @ p # B" "p < bp" "B \<noteq> [] \<Longrightarrow> bp < hd B" "free_find s bp (freep s) = Some p"
    using find_pred [OF ok bp f] by blast
  have pin: "p \<in> set (base # xs)" using p(1) by (metis in_set_conv_decomp)
  let ?t = "free_at bp p s"
  have free: "free (units_after bp 1) s = Some ?t" using p(4) by (simp add: free_def units_after_def)
  obtain ys where ys: "base # ys = A @ [p, bp] @ B" "heap_ok base (link_in bp p s) ys (L - {bp})"
    using insert_ok [OF ok bp p(1-3)] unfolding link_in_def by blast
  have bpy: "bp \<in> set ys" "p \<in> set (base # ys)"
    using arg_cong [OF ys(1), of set] heap_ok_above(1) [OF ok, of bp] bp by auto
  obtain zs where zs: "heap_ok base (merge_next bp (link_in bp p s)) zs (L - {bp})" "\<And>x. x \<in> set ys \<Longrightarrow> x \<le> bp \<Longrightarrow> x \<in> set zs"
    "\<And>x. x \<in> set ys \<Longrightarrow> \<exists>y \<in> set zs. size (link_in bp p s) x \<le> size (merge_next bp (link_in bp p s)) y"
    using merge_next_ok [OF ys(2) bpy(1)] by blast
  let ?u = "merge_next bp (link_in bp p s)"
  obtain y where y: "y \<in> set zs" "size s bp \<le> size ?u y" using zs(3) [OF bpy(1)] by (auto simp: link_in_def)
  have bpz: "bp \<in> set zs" "p \<in> set (base # zs)" using zs(2) bpy p(2) by auto
  obtain ws where ws: "heap_ok base (merge_next p ?u) ws (L - {bp})" "p \<in> set (base # ws)" "\<exists>y \<in> set ws. size s bp \<le> size (merge_next p ?u) y"
  proof (cases "p = base")
    case True
    have "ptr ?u base = hd (zs @ [base])" using heap_okD(4) [OF zs(1)] by simp
    then have "ptr ?u base \<noteq> base" using bpz(1) heap_ok_base [OF zs(1)] by (cases zs) auto
    then have "merge_next p ?u = ?u" using True heap_okD(3) [OF zs(1)] by (simp add: merge_next_def)
    then show thesis using that [of zs] zs(1) y True by auto
  next
    case False
    then have "p \<in> set zs" using bpz(2) by simp
    from merge_next_ok [OF zs(1) this] show thesis using that y \<open>p \<in> set zs\<close> by (metis le_trans list.set_intros(2) order_refl)
  qed
  have "ptr s p = hd (B @ [base])" using heap_okD(4) [OF ok] unfolding p(1) by simp
  then have "ptr s p \<noteq> bp" "ptr s p \<noteq> p \<or> units_after bp (size s bp) \<noteq> p"
    using p(2, 3) bp heap_ok_above(1) [OF ok, of bp] units_after_le [of bp "size s bp"] by (cases B; auto)+
  then have t: "?t = (merge_next p ?u)\<lparr>freep := p\<rparr>" using free_at_merge [of bp p s] p(2) by auto
  have "untouched (L - {bp}) s ?t"
    unfolding untouched_def using free_at_frame(1) [of _ bp p s] ring_not_live [OF ok pin] live_not_live [OF ok bp] by (metis DiffE singletonI)
  then show thesis using that [OF free, of ws] ws t free_at_frame(2, 3) [of bp p s] by auto
qed

end
