(* ===== verification/Malloc_Safe.thy ===== *)
theory Malloc_Safe
  imports Umalloc
begin

text \<open>
  \<open>malloc\<close> of \<^verbatim>\<open>user/umalloc.c\<close> on top of the ring: what a request gets, that it always returns, and the states
  reached by any sequence of requests and releases.
\<close>

subsection \<open>malloc\<close>

lemma untouched_trans:
  assumes "untouched L s t" "untouched L t u" "\<And>b. b \<in> L \<Longrightarrow> 0 < size s b"
  shows "untouched L s u"
proof -
  have "extent t b = extent s b" if "b \<in> L" for b
  proof -
    have "b \<in> extent s b" using assms(3) [OF that] by (simp add: extent_def units_after_def unit_bytes_def)
    then have "size t b = size s b" using assms(1) that by (auto simp: untouched_def)
    then show ?thesis by (simp add: extent_def)
  qed
  then show ?thesis using assms(1, 2) by (auto simp: untouched_def)
qed

text \<open>Memory from \<open>sbrk\<close> is a new block at the end of the heap.\<close>

lemma extend_ok:
  assumes ok: "heap_ok base s xs L" and n: "0 < n" and s': "s' = s\<lparr>brk := units_after (brk s) n, size := (size s)(brk s := n)\<rparr>"
  shows "heap_ok base s' xs (insert (brk s) L)" "brk s \<notin> set xs \<union> L" "untouched L s s'"
proof -
  note d = heap_okD [OF ok]
  have below: "b < brk s" "units_after b (size s b) \<le> brk s" if "b \<in> set xs \<union> L" for b
    using heap_ok_above [OF ok that] by (auto simp: units_after_def unit_bytes_def)
  have bb: "base < brk s" using d(2) by (simp add: units_after_def unit_bytes_def)
  show new: "brk s \<notin> set xs \<union> L" using below(1) by blast
  have "brk s \<notin> extent s b" if "b \<in> L" for b using below(2) [of b] that by (auto simp: extent_def)
  then show "untouched L s s'" by (auto simp: untouched_def s')
  have "brk s \<le> units_after (brk s) n" by simp
  then have "inside base s' (set xs \<union> insert (brk s) L)"
    using d(2, 7) n new by (auto simp: inside_def s' intro: order_trans)
  moreover have "apart s' (set xs \<union> insert (brk s) L)"
    unfolding apart_def
  proof (intro ballI impI)
    fix b c assume b: "b \<in> set xs \<union> insert (brk s) L" and c: "c \<in> set xs \<union> insert (brk s) L" and lt: "b < c"
    have "b \<noteq> brk s" using below(1) [of c] c lt by auto
    then have "b \<in> set xs \<union> L" using b by simp
    then show "units_after b (size s' b) \<le> c"
      using apartD [OF ok, of b c] below(2) c lt \<open>b \<noteq> brk s\<close> by (auto simp: s')
  qed
  moreover have "units_after base 1 \<le> brk s'" using order_trans [OF d(2) \<open>brk s \<le> units_after (brk s) n\<close>] by (simp add: s')
  ultimately show "heap_ok base s' xs (insert (brk s) L)" using d new bb by (intro heap_okI) (auto simp: s')
qed

text \<open>Requests whose size in bytes fits the \<open>int\<close> that \<open>sbrk\<close> takes.\<close>

definition small :: "nat \<Rightarrow> bool" where
  "small n \<longleftrightarrow> 0 < n \<and> unit_bytes * n < 2 ^ 31"

lemma sbrk_arg_small: "small n \<Longrightarrow> sbrk_arg n = int (unit_bytes * n)"
proof -
  assume "small n"
  then have b: "n * unit_bytes < 2 ^ 31" by (simp add: small_def mult.commute)
  have "sint (of_nat m :: u32) = int m" if "m < 2 ^ 31" for m
    using that by (simp add: signed_of_nat signed_take_bit_int_eq_self)
  from this [OF b] show ?thesis by (simp add: sbrk_arg_def mult.commute)
qed

lemma morecore_ok:
  assumes ok: "heap_ok base s xs L" and f: "freep s \<in> set (base # xs)" and n: "small n"
  obtains (refused) "morecore grants n s = Some (0, s)"
  | (granted) t ys where "morecore grants n s = Some (freep t, t)" "heap_ok base t ys L" "freep t \<in> set (base # ys)"
      "untouched L s t" "\<exists>y \<in> set ys. n \<le> size t y" "freep t \<noteq> 0"
proof -
  let ?nu = "if n < 4096 then 4096 else n"
  have nu: "small ?nu" using n by (auto simp: small_def unit_bytes_def)
  note arg = sbrk_arg_small [OF nu]
  show thesis
  proof (cases "grants s (sbrk_arg ?nu)")
    case False
    then show thesis using refused by (simp add: morecore_def sbrk_def Let_def)
  next
    case True
    define s' where "s' = s\<lparr>brk := units_after (brk s) ?nu, size := (size s)(brk s := ?nu)\<rparr>"
    have nu0: "0 < ?nu" by simp
    note e = extend_ok [OF ok nu0 s'_def]
    have f': "freep s' \<in> set (base # xs)" using f by (simp add: s'_def)
    obtain t ys where t: "free (units_after (brk s) 1) s' = Some t" "heap_ok base t ys (insert (brk s) L - {brk s})"
        "freep t \<in> set (base # ys)" "untouched (insert (brk s) L - {brk s}) s' t" "\<exists>y \<in> set ys. size s' (brk s) \<le> size t y"
      by (rule free_ok [OF e(1) insertI1 f'])
    have L: "insert (brk s) L - {brk s} = L" using e(2) by auto
    have "nat (int (brk s) + sbrk_arg ?nu) = units_after (brk s) ?nu" "\<not> int (brk s) + sbrk_arg ?nu < 0"
      unfolding arg units_after_def by (simp_all only: nat_int flip: of_nat_add)
    then have m: "morecore grants n s = Some (freep t, t)"
      using True t(1) unfolding s'_def by (simp add: morecore_def sbrk_def Let_def)
    have u: "untouched L s t" using untouched_trans [OF e(3), of t] t(4) L heap_ok_above(2) [OF ok] by auto
    have "n \<le> size s' (brk s)" by (simp add: s'_def)
    then have y: "\<exists>y \<in> set ys. n \<le> size t y" using t(5) order_trans by blast
    have "base \<le> freep t" using t(3) heap_ok_above(1) [OF t(2), of "freep t"] by auto
    then have "freep t \<noteq> 0" using heap_okD(1) [OF t(2)] by linarith
    then show thesis by (rule granted [OF m t(2) [unfolded L] t(3) u y])
  qed
qed

text \<open>A request served from block \<open>x\<close>: the caller's block is a new one, of the right size, in space that was free.\<close>

definition served :: "nat \<Rightarrow> nat set \<Rightarrow> nat \<Rightarrow> uheap \<Rightarrow> nat \<times> uheap \<Rightarrow> bool" where
  "served base L n s r \<longleftrightarrow>
     (\<exists>b t ys. r = (units_after b 1, t) \<and> b \<notin> L \<and> size t b = n \<and> heap_ok base t ys (insert b L) \<and>
        freep t \<in> set (base # ys) \<and> untouched L s t)"

lemma servedI:
  "b \<notin> L \<Longrightarrow> size t b = n \<Longrightarrow> heap_ok base t ys (insert b L) \<Longrightarrow> freep t \<in> set (base # ys) \<Longrightarrow> untouched L s t \<Longrightarrow>
     served base L n s (units_after b 1, t)"
  unfolding served_def by blast

lemma take_ok:
  assumes ok: "heap_ok base s xs L" and sp: "base # xs = A @ [prev, x] @ B" and n: "0 < n" "n \<le> size s x"
  shows "served base L n s (take_block n prev x s)"
proof -
  have x: "x \<in> set xs" using sp by (cases A) auto
  have prev: "prev \<in> set (base # xs)" using arg_cong [OF sp, of set] by auto
  have xL: "x \<notin> L" using heap_okD(6) [OF ok] x by auto
  show ?thesis
  proof (cases "size s x = n")
    case True
    let ?u = "s\<lparr>ptr := (ptr s)(prev := ptr s x)\<rparr>"
    obtain ys where ys: "base # ys = A @ prev # B" "heap_ok base ?u ys (insert x L)" using remove_ok [OF ok sp] by blast
    have "untouched L s (?u\<lparr>freep := prev\<rparr>)" using ring_not_live [OF ok prev] by (auto simp: untouched_def)
    moreover have "prev \<in> set (base # ys)" using arg_cong [OF ys(1), of set] by auto
    ultimately have "served base L n s (units_after x 1, ?u\<lparr>freep := prev\<rparr>)"
      using True ys(2) xL by (intro servedI) simp_all
    then show ?thesis using True by (simp add: take_block_def)
  next
    case False
    let ?q = "units_after x (size s x - n)"
    let ?u = "s\<lparr>size := (size s)(x := size s x - n, ?q := n)\<rparr>"
    have lt: "n < size s x" using False n(2) by simp
    note q = split_ok [OF ok x n(1) lt]
    have "a \<noteq> ?q" "a \<noteq> x" if "b \<in> L" "a \<in> extent s b" for a b
    proof -
      show "a \<noteq> x" using ring_not_live [OF ok _ that(1), of x] x that(2) by auto
      have "x \<noteq> b" using xL that(1) by auto
      then have "extent s b \<inter> extent s x = {}" using extents_disjoint [OF ok, of b x] x that(1) by auto
      then show "a \<noteq> ?q" using q(3) that(2) by auto
    qed
    then have "untouched L s (?u\<lparr>freep := prev\<rparr>)" by (auto simp: untouched_def)
    then have "served base L n s (units_after ?q 1, ?u\<lparr>freep := prev\<rparr>)"
      using q(1, 2) prev by (intro servedI) simp_all
    then show ?thesis using False by (simp add: take_block_def Let_def)
  qed
qed

lemma malloc_walk:
  assumes "links (ptr s) (ys @ [x]) z" "\<And>y. y \<in> set ys \<Longrightarrow> size s y < n \<and> y \<noteq> freep s"
  shows "malloc_loop g n prev (hd (ys @ [x])) s = malloc_loop g n (last (prev # ys)) x s"
  using assms
proof (induction ys arbitrary: prev)
  case (Cons y ys)
  have "malloc_loop g n prev y s = malloc_loop g n y (ptr s y) s"
    using Cons.prems(2) [of y] by (subst malloc_loop.simps) auto
  then show ?case using Cons.IH [of y] Cons.prems by (cases ys) simp_all
qed simp

lemma strict_distinct: "sorted_wrt (<) (ns :: nat list) \<Longrightarrow> distinct ns"
  by (induction ns) auto

text \<open>The ring read from the block after \<open>freep\<close>.\<close>

lemma ring_from_freep:
  assumes ok: "heap_ok base s xs L" and f: "freep s \<in> set (base # xs)"
  obtains C where "links (ptr s) (C @ [freep s]) (hd (C @ [freep s]))" "set (C @ [freep s]) = set (base # xs)"
    "distinct (C @ [freep s])" "ptr s (freep s) = hd (C @ [freep s])"
proof -
  obtain P Q where PQ: "base # xs = P @ freep s # Q" using f by (meson split_list)
  have "links (ptr s) (base # xs) (hd (base # xs))" using heap_okD(4) [OF ok] by simp
  then have "links (ptr s) ((P @ [freep s]) @ Q) (hd ((P @ [freep s]) @ Q))" unfolding PQ by simp
  then have l: "links (ptr s) (Q @ P @ [freep s]) (hd (Q @ P @ [freep s]))" by (rule links_ring_rotate)
  have "distinct (base # xs)" using strict_distinct heap_okD(5) [OF ok] by blast
  then show thesis using that [of "Q @ P"] l arg_cong [OF PQ, of set] unfolding PQ by auto
qed

lemma malloc_fits:
  assumes ok: "heap_ok base s xs L" and f: "freep s \<in> set (base # xs)" and n: "0 < n" and fit: "x \<in> set xs" "n \<le> size s x"
  obtains r where "malloc_loop g n (freep s) (ptr s (freep s)) s = Some r" "served base L n s r"
proof -
  obtain C where C: "links (ptr s) (C @ [freep s]) (hd (C @ [freep s]))" "set (C @ [freep s]) = set (base # xs)"
    "distinct (C @ [freep s])" "ptr s (freep s) = hd (C @ [freep s])" by (rule ring_from_freep [OF ok f])
  have "\<exists>y \<in> set (C @ [freep s]). n \<le> size s y" unfolding C(2) using fit by auto
  from split_list_first_prop [OF this] obtain ys y zs where y: "C @ [freep s] = ys @ y # zs" "n \<le> size s y" "\<forall>u \<in> set ys. \<not> n \<le> size s u"
    by blast
  have "freep s \<notin> set ys" using y(1) C(3) by (cases zs rule: rev_cases) auto
  then have w: "malloc_loop g n (freep s) (hd (ys @ [y])) s = malloc_loop g n (last (freep s # ys)) y s"
    using y C(1) by (intro malloc_walk [of s ys y "hd (zs @ [hd (ys @ [y])])"]) (auto simp: hd_append split: if_splits)
  have hd: "hd (C @ [freep s]) = hd (ys @ [y])" unfolding y(1) by (cases ys) auto
  let ?p = "last (freep s # ys)"
  have "ptr s ?p = y"
  proof (cases ys rule: rev_cases)
    case Nil
    then show ?thesis using C(4) hd by simp
  next
    case (snoc us u)
    then show ?thesis using C(1) unfolding y(1) by simp
  qed
  moreover have "?p \<in> set (base # xs)" using C(2) f arg_cong [OF y(1), of set] by (cases ys rule: rev_cases) auto
  moreover have "y \<noteq> base" using y(2) n heap_okD(3) [OF ok] by auto
  ultimately obtain A B where "base # xs = A @ [?p, y] @ B" using ring_ptr_below [OF ok, of ?p] by metis
  then have "served base L n s (take_block n ?p y s)" using take_ok [OF ok] n y(2) by blast
  moreover have "malloc_loop g n (freep s) (ptr s (freep s)) s = Some (take_block n ?p y s)"
    unfolding C(4) hd w using y(2) by (subst malloc_loop.simps) simp
  ultimately show thesis using that by blast
qed

lemma malloc_loop_ok:
  assumes ok: "heap_ok base s xs L" and f: "freep s \<in> set (base # xs)" and n: "small n"
  obtains (refused) "malloc_loop grants n (freep s) (ptr s (freep s)) s = Some (0, s)"
  | (got) r where "malloc_loop grants n (freep s) (ptr s (freep s)) s = Some r" "served base L n s r"
proof (cases "\<exists>x \<in> set xs. n \<le> size s x")
  case True
  then show thesis using malloc_fits [OF ok f] n got by (metis small_def)
next
  case False
  obtain C where C: "links (ptr s) (C @ [freep s]) (hd (C @ [freep s]))" "set (C @ [freep s]) = set (base # xs)"
    "distinct (C @ [freep s])" "ptr s (freep s) = hd (C @ [freep s])" by (rule ring_from_freep [OF ok f])
  have none: "size s y < n" if "y \<in> set (base # xs)" for y
    using that False n heap_okD(3) [OF ok] by (auto simp: small_def not_le)
  have "malloc_loop grants n (freep s) (ptr s (freep s)) s = malloc_loop grants n (last (freep s # C)) (freep s) s"
    unfolding C(4) by (rule malloc_walk [OF C(1)]) (use C(2, 3) none in auto)
  also have "... = Option.bind (morecore grants n s) (\<lambda>r. if fst r = 0 then Some (0, snd r)
      else malloc_loop grants n (fst r) (ptr (snd r) (fst r)) (snd r))"
    using none [OF f] by (subst malloc_loop.simps) simp
  finally have run: "malloc_loop grants n (freep s) (ptr s (freep s)) s = ..." .
  from ok f n show thesis
  proof (rule morecore_ok [of _ _ _ _ _ grants])
    assume "morecore grants n s = Some (0, s)"
    then show thesis using run refused by simp
  next
    fix t ys
    assume t: "morecore grants n s = Some (freep t, t)" "heap_ok base t ys L" "freep t \<in> set (base # ys)"
      "untouched L s t" "\<exists>y \<in> set ys. n \<le> size t y" "freep t \<noteq> 0"
    obtain r where r: "malloc_loop grants n (freep t) (ptr t (freep t)) t = Some r" "served base L n t r"
      using malloc_fits [OF t(2, 3)] n t(5) by (metis small_def)
    have "served base L n s r"
      using r(2) untouched_trans [OF t(4)] heap_ok_above(2) [OF ok] unfolding served_def by blast
    then show thesis using got r(1) run t(1, 6) by simp
  qed
qed

subsection \<open>Sequences of requests\<close>

text \<open>Before the first request the ring does not exist yet.\<close>

definition heap_inv :: "nat \<Rightarrow> uheap \<Rightarrow> nat set \<Rightarrow> bool" where
  "heap_inv base s L \<longleftrightarrow>
     freep s = 0 \<and> L = {} \<and> 0 < base \<and> units_after base 1 \<le> brk s \<or>
     freep s \<noteq> 0 \<and> (\<exists>xs. heap_ok base s xs L \<and> freep s \<in> set (base # xs))"

lemma heap_invI: "heap_ok base s xs L \<Longrightarrow> freep s \<in> set (base # xs) \<Longrightarrow> heap_inv base s L"
  using heap_okD(1) [of base s xs L] heap_ok_above(1) [of base s xs L "freep s"] by (auto simp: heap_inv_def)

lemma malloc_inv:
  assumes inv: "heap_inv base s L" and n: "small (units_for nbytes)"
  obtains (refused) t where "malloc grants base nbytes s = Some (0, t)" "heap_inv base t L" "untouched L s t"
  | (got) r where "malloc grants base nbytes s = Some r" "served base L (units_for nbytes) s r"
proof (cases "freep s = 0")
  case True
  then have L: "L = {}" "0 < base" "units_after base 1 \<le> brk s" using inv by (auto simp: heap_inv_def)
  let ?t = "s\<lparr>ptr := (ptr s)(base := base), size := (size s)(base := 0), freep := base\<rparr>"
  have ok: "heap_ok base ?t [] L" using L by (simp add: heap_ok_def inside_def apart_def)
  have m: "malloc grants base nbytes s = malloc_loop grants (units_for nbytes) (freep ?t) (ptr ?t (freep ?t)) ?t"
    using True by (simp add: malloc_def Let_def)
  have u: "untouched L s u" for u using L by (simp add: untouched_def)
  have "freep ?t \<in> set (base # [])" by simp
  from ok this n show thesis
  proof (rule malloc_loop_ok [of _ _ _ _ _ grants])
    assume "malloc_loop grants (units_for nbytes) (freep ?t) (ptr ?t (freep ?t)) ?t = Some (0, ?t)"
    then show thesis using refused m heap_invI [OF ok] u by simp
  next
    fix r assume "malloc_loop grants (units_for nbytes) (freep ?t) (ptr ?t (freep ?t)) ?t = Some r" "served base L (units_for nbytes) ?t r"
    then show thesis using got m u by (simp add: served_def) blast
  qed
next
  case False
  then obtain xs where ok: "heap_ok base s xs L" "freep s \<in> set (base # xs)" using inv by (auto simp: heap_inv_def)
  have m: "malloc grants base nbytes s = malloc_loop grants (units_for nbytes) (freep s) (ptr s (freep s)) s"
    using False by (simp add: malloc_def Let_def)
  from ok n show thesis
  proof (rule malloc_loop_ok [of _ _ _ _ _ grants])
    assume "malloc_loop grants (units_for nbytes) (freep s) (ptr s (freep s)) s = Some (0, s)"
    then show thesis using refused m inv by (simp add: untouched_def)
  next
    fix r assume "malloc_loop grants (units_for nbytes) (freep s) (ptr s (freep s)) s = Some r" "served base L (units_for nbytes) s r"
    then show thesis using got m by simp
  qed
qed

lemma free_inv:
  assumes inv: "heap_inv base s L" and b: "b \<in> L"
  obtains t where "free (units_after b 1) s = Some t" "heap_inv base t (L - {b})" "untouched (L - {b}) s t"
proof -
  obtain xs where ok: "heap_ok base s xs L" "freep s \<in> set (base # xs)" using inv b by (auto simp: heap_inv_def)
  from ok(1) b ok(2) show thesis by (rule free_ok) (use that heap_invI in blast)
qed

inductive alloc_reach :: "(uheap \<Rightarrow> int \<Rightarrow> bool) \<Rightarrow> nat \<Rightarrow> uheap \<Rightarrow> nat set \<Rightarrow> bool" for grants base where
  start: "freep s = 0 \<Longrightarrow> 0 < base \<Longrightarrow> units_after base 1 \<le> brk s \<Longrightarrow> alloc_reach grants base s {}"
| malloc: "alloc_reach grants base s L \<Longrightarrow> small (units_for nbytes) \<Longrightarrow> malloc grants base nbytes s = Some (r, t) \<Longrightarrow>
    alloc_reach grants base t (if r = 0 then L else insert (r - unit_bytes) L)"
| free: "alloc_reach grants base s L \<Longrightarrow> b \<in> L \<Longrightarrow> free (units_after b 1) s = Some t \<Longrightarrow> alloc_reach grants base t (L - {b})"

lemma alloc_reach_inv: "alloc_reach grants base s L \<Longrightarrow> heap_inv base s L"
proof (induction rule: alloc_reach.induct)
  case (start s)
  then show ?case by (simp add: heap_inv_def)
next
  case (malloc s L nbytes r t)
  from malloc(4, 2) show ?case
  proof (rule malloc_inv [of _ _ _ _ grants])
    fix u assume "malloc grants base nbytes s = Some (0, u)" "heap_inv base u L"
    then show ?thesis using malloc(3) by simp
  next
    fix x assume x: "malloc grants base nbytes s = Some x" "served base L (units_for nbytes) s x"
    then obtain b ys where "r = units_after b 1" "heap_ok base t ys (insert b L)" "freep t \<in> set (base # ys)"
      using malloc(3) by (auto simp: served_def)
    then show ?thesis using heap_invI by (simp add: units_after_def unit_bytes_def)
  qed
next
  case (free s L b t)
  from free(4, 2) show ?case by (rule free_inv) (use free(3) in simp)
qed

lemma units_for_enough: "nbytes + unit_bytes \<le> unit_bytes * units_for nbytes"
proof -
  have "nbytes \<le> 16 * ((nbytes + 15) div 16)" by presburger
  then show ?thesis by (simp add: units_for_def unit_bytes_def)
qed

text \<open>C13: the allocator is sound in every state that requests and releases lead to. A request of up to two gigabytes
  returns; if it returns a block, its header and the bytes asked for lie in the memory of the process, and overlap no
  block handed out before. A block handed out can be released. Neither operation writes into the other blocks handed out.\<close>

theorem malloc_free_sound:
  assumes "alloc_reach grants base s L" "small (units_for nbytes)"
  shows "(\<exists>r t. malloc grants base nbytes s = Some (r, t) \<and> untouched L s t \<and>
      (r \<noteq> 0 \<longrightarrow> unit_bytes \<le> r \<and> r + nbytes \<le> brk t \<and> (\<forall>c \<in> L. {r - unit_bytes ..< r + nbytes} \<inter> extent s c = {}))) \<and>
    (\<forall>b \<in> L. \<exists>t. free (units_after b 1) s = Some t \<and> untouched (L - {b}) s t)"
proof (intro conjI ballI)
  note inv = alloc_reach_inv [OF assms(1)]
  show "\<exists>t. free (units_after b 1) s = Some t \<and> untouched (L - {b}) s t" if "b \<in> L" for b
    by (rule free_inv [OF inv that]) blast
  show "\<exists>r t. malloc grants base nbytes s = Some (r, t) \<and> untouched L s t \<and>
      (r \<noteq> 0 \<longrightarrow> unit_bytes \<le> r \<and> r + nbytes \<le> brk t \<and> (\<forall>c \<in> L. {r - unit_bytes ..< r + nbytes} \<inter> extent s c = {}))"
  proof (rule malloc_inv [OF inv assms(2), of grants])
    fix r assume r: "malloc grants base nbytes s = Some r" "served base L (units_for nbytes) s r"
    then obtain b t ys where b: "r = (units_after b 1, t)" "b \<notin> L" "size t b = units_for nbytes" "heap_ok base t ys (insert b L)"
      "untouched L s t" by (auto simp: served_def)
    have room: "units_after b 1 + nbytes \<le> units_after b (size t b)"
      using units_for_enough [of nbytes] b(3) by (simp add: units_after_def)
    have "extent s c = extent t c" "extent t b \<inter> extent t c = {}" if c: "c \<in> L" for c
    proof -
      have "0 < size s c" using inv c heap_ok_above(2) by (auto simp: heap_inv_def)
      then have "c \<in> extent s c" by (simp add: extent_def units_after_def unit_bytes_def)
      then show "extent s c = extent t c" using b(5) c by (auto simp: untouched_def extent_def)
      show "extent t b \<inter> extent t c = {}" by (rule extents_disjoint [OF b(4)]) (use b(2) c in auto)
    qed
    moreover have "{units_after b 1 - unit_bytes ..< units_after b 1 + nbytes} \<subseteq> extent t b"
      using room by (auto simp: extent_def units_after_def)
    ultimately have "{units_after b 1 - unit_bytes ..< units_after b 1 + nbytes} \<inter> extent s c = {}" if "c \<in> L" for c
      using that by blast
    moreover have "units_after b (size t b) \<le> brk t" using heap_ok_above(3) [OF b(4), of b] by simp
    ultimately show ?thesis using r(1) b(1, 5) room by (auto simp: units_after_def)
  qed auto
qed

text \<open>A fresh process and its first request, for 100 bytes.\<close>

definition fresh_heap :: uheap where
  "fresh_heap = \<lparr>ptr = (\<lambda>_. 0), size = (\<lambda>_. 0), freep = 0, brk = 4096\<rparr>"

lemma first_malloc:
  "malloc (\<lambda>_ _. True) 16 100 fresh_heap =
     Some (69520, fresh_heap\<lparr>ptr := (\<lambda>_. 0)(16 := 4096, 4096 := 16), size := (\<lambda>_. 0)(4096 := 4088, 69504 := 8), freep := 16, brk := 69632\<rparr>)"
proof -
  let ?s1 = "fresh_heap\<lparr>ptr := (\<lambda>_. 0)(16 := 16), size := (\<lambda>_. 0)(16 := 0), freep := 16\<rparr>"
  let ?s2 = "fresh_heap\<lparr>ptr := (\<lambda>_. 0)(16 := 4096, 4096 := 16), size := (\<lambda>_. 0)(16 := 0, 4096 := 4096), freep := 16, brk := 69632\<rparr>"
  have n: "units_for 100 = 8" by (simp add: units_for_def unit_bytes_def)
  have "sbrk_arg 4096 = 65536" using sbrk_arg_small [of 4096] by (simp add: small_def unit_bytes_def)
  moreover have "free_find (?s1\<lparr>brk := 69632, size := (\<lambda>_. 0)(16 := 0, 4096 := 4096)\<rparr>) 4096 16 = Some 16"
    by (subst free_find.simps) (simp add: fresh_heap_def)
  ultimately have m: "morecore (\<lambda>_ _. True) 8 ?s1 = Some (16, ?s2)"
    by (simp add: morecore_def sbrk_def free_def free_at_def fresh_heap_def units_after_def unit_bytes_def Let_def fun_upd_twist)
  have "malloc (\<lambda>_ _. True) 16 100 fresh_heap = malloc_loop (\<lambda>_ _. True) 8 16 16 ?s1"
    by (simp add: malloc_def n Let_def fresh_heap_def)
  also have "... = malloc_loop (\<lambda>_ _. True) 8 16 4096 ?s2"
    using m by (subst malloc_loop.simps) (simp add: fresh_heap_def)
  also have "... = Some (take_block 8 16 4096 ?s2)" by (subst malloc_loop.simps) (simp add: fresh_heap_def)
  finally show ?thesis
    by (simp add: take_block_def units_after_def unit_bytes_def fresh_heap_def Let_def fun_eq_iff)
qed

definition second_heap :: uheap where
  "second_heap = fresh_heap\<lparr>ptr := (\<lambda>_. 0)(16 := 4096, 4096 := 16), size := (\<lambda>_. 0)(4096 := 4088, 69504 := 8), freep := 16, brk := 69632\<rparr>"

theorem malloc_free_sound_witness:
  "\<exists>r t u. malloc (\<lambda>_ _. True) 16 200 second_heap = Some (r, t) \<and> untouched {69504} second_heap t \<and>
     free 69520 second_heap = Some u"
proof -
  have "alloc_reach (\<lambda>_ _. True) 16 fresh_heap {}"
    by (rule alloc_reach.start) (simp_all add: fresh_heap_def units_after_def unit_bytes_def)
  moreover have small: "small (units_for 100)" "small (units_for 200)" by (simp_all add: small_def units_for_def unit_bytes_def)
  moreover have "malloc (\<lambda>_ _. True) 16 100 fresh_heap = Some (69520, second_heap)" unfolding second_heap_def by (rule first_malloc)
  ultimately have "alloc_reach (\<lambda>_ _. True) 16 second_heap {69504}"
    using alloc_reach.malloc [of "\<lambda>_ _. True" 16 fresh_heap "{}" 100 69520 second_heap] by (simp add: unit_bytes_def)
  from malloc_free_sound [OF this small(2)] show ?thesis by (auto simp: units_after_def unit_bytes_def)
qed

subsection \<open>Requests that are too large\<close>

text \<open>C38: a request of almost four gigabytes does not fail. The product \<open>nu * sizeof(Header)\<close> is cut to the 32 bits of
  the argument of \<open>sbrk\<close>: the process grows by 16 bytes, and \<open>malloc\<close> returns a block that ends far beyond its memory.\<close>

theorem malloc_overcommits:
  assumes "freep s = 0" "0 < base" "units_after base 1 \<le> brk s" "\<And>t. grants t 16"
  shows "\<exists>t. malloc grants base (2 ^ 32 - 1) s = Some (brk s + 16, t) \<and> brk t = brk s + 16 \<and> size t (brk s) = 2 ^ 28 + 1"
proof -
  let ?n = "2 ^ 28 + 1 :: nat" and ?h = "brk s"
  let ?s1 = "s\<lparr>ptr := (ptr s)(base := base), size := (size s)(base := 0), freep := base\<rparr>"
  let ?s2 = "?s1\<lparr>brk := ?h + 16, size := (size s)(base := 0, ?h := ?n)\<rparr>"
  have bh: "base < ?h" "base \<noteq> ?h" using assms(3) by (simp_all add: units_after_def unit_bytes_def)
  have n: "units_for (2 ^ 32 - 1) = ?n" by (simp add: units_for_def unit_bytes_def)
  have a: "sbrk_arg ?n = 16" by (simp add: sbrk_arg_def unit_bytes_def)
  have f: "free_find ?s2 ?h base = Some base" using bh by (subst free_find.simps) simp
  let ?s3 = "free_at ?h base ?s2"
  have fa: "ptr ?s3 base = ?h" "size ?s3 ?h = ?n" "freep ?s3 = base" "brk ?s3 = ?h + 16" "ptr ?s3 ?h = base"
    using bh by (auto simp: free_at_def Let_def units_after_def unit_bytes_def)
  have m: "morecore grants ?n ?s1 = Some (base, ?s3)"
    using assms(4) a f fa(3) by (simp add: morecore_def sbrk_def free_def units_after_def unit_bytes_def Let_def nat_add_distrib)
  have "malloc grants base (2 ^ 32 - 1) s = malloc_loop grants ?n base base ?s1"
    using assms(1) n by (simp add: malloc_def Let_def)
  also have "... = malloc_loop grants ?n base ?h ?s3"
    using m fa assms(2) by (subst malloc_loop.simps) simp
  also have "... = Some (take_block ?n base ?h ?s3)" using fa(2) by (subst malloc_loop.simps) simp
  finally show ?thesis using fa by (simp add: take_block_def units_after_def unit_bytes_def)
qed

theorem malloc_overcommits_witness:
  "\<exists>t. malloc (\<lambda>_ _. True) 16 (2 ^ 32 - 1) fresh_heap = Some (4112, t) \<and> brk t = 4112 \<and> size t 4096 = 2 ^ 28 + 1"
  using malloc_overcommits [of fresh_heap 16 "\<lambda>_ _. True"] by (simp add: fresh_heap_def units_after_def unit_bytes_def)

end
