(* ===== verification/Txn.thy ===== *)
theory Txn
  imports Fs
begin

text \<open>
  Blocks inside a transaction: the interface between \<^verbatim>\<open>kernel/log.c\<close> and \<^verbatim>\<open>kernel/fs.c\<close>. The
  file system reads a block, changes it, hands it to \<open>log_write\<close> and releases it; the locale
  \<open>block_txn\<close> states what it may rely on, and the log over the buffer cache is its interpretation.
\<close>

subsection \<open>The contract\<close>

text \<open>Blocks have contents (\<open>lb\<close>); \<open>hl\<close> are the blocks in use, \<open>wl\<close> those of the running transaction.
  Readers need a transaction no more than the code does.\<close>

locale block_reads =
  fixes rd :: "nat \<Rightarrow> ('s, nat) kern" and rel :: "nat \<Rightarrow> ('s, unit) kern" and dat :: "'s \<Rightarrow> nat \<Rightarrow> u8 list"
    and good :: "'s \<Rightarrow> bool" and own :: "'s \<Rightarrow> nat \<Rightarrow> nat \<Rightarrow> bool" and lb :: "'s \<Rightarrow> nat \<Rightarrow> u8 list"
    and hl :: "'s \<Rightarrow> nat set" and wl :: "'s \<Rightarrow> nat set" and fr :: "'s \<Rightarrow> 's \<Rightarrow> bool"
  assumes rd_law: "good s \<Longrightarrow> b \<notin> hl s \<Longrightarrow> finite (hl s) \<Longrightarrow> card (hl s) \<le> 1 \<Longrightarrow>
      \<exists>i t. rd b s = Ret i t \<and> good t \<and> fr s t \<and> own t i b \<and> (\<forall>j c. own s j c \<longrightarrow> own t j c) \<and>
        lb t = lb s \<and> wl t = wl s \<and> hl t = insert b (hl s)"
    and rel_law: "good s \<Longrightarrow> own s i b \<Longrightarrow>
      \<exists>t. rel i s = Ret () t \<and> good t \<and> fr s t \<and> (\<forall>j c. c \<noteq> b \<longrightarrow> own s j c \<longrightarrow> own t j c) \<and>
        lb t = lb s \<and> wl t = wl s \<and> hl t = hl s - {b}"
    and dat_law: "good s \<Longrightarrow> own s i b \<Longrightarrow> dat s i = lb s b"
    and len_law: "good s \<Longrightarrow> length (lb s b) = BSIZE"
    and fr_refl: "fr s s"
    and fr_trans: "fr s t \<Longrightarrow> fr t u \<Longrightarrow> fr s u"

begin

text \<open>Looking at a block changes nothing.\<close>

lemma peek:
  assumes g: "good s" and nh: "b \<notin> hl s" and fin: "finite (hl s)" "card (hl s) \<le> 1"
  shows "\<exists>i t u. rd b s = Ret i t \<and> dat t i = lb s b \<and> fr s t \<and> rel i t = Ret () u \<and> good u \<and> fr s u \<and>
    (\<forall>j c. c \<noteq> b \<longrightarrow> own s j c \<longrightarrow> own u j c) \<and> lb u = lb s \<and> wl u = wl s \<and> hl u = hl s"
proof -
  from rd_law [OF g nh fin] obtain i t where t: "rd b s = Ret i t" "good t" "fr s t" "own t i b" "\<forall>j c. own s j c \<longrightarrow> own t j c"
    "lb t = lb s" "wl t = wl s" "hl t = insert b (hl s)" by blast
  from rel_law [OF t(2,4)] obtain u where u: "rel i t = Ret () u" "good u" "fr t u" "\<forall>j c. c \<noteq> b \<longrightarrow> own t j c \<longrightarrow> own u j c"
    "lb u = lb t" "wl u = wl t" "hl u = hl t - {b}" by blast
  have "hl u = hl s" using nh by (auto simp: u(7) t(8))
  moreover have "dat t i = lb s b" using dat_law [OF t(2,4)] t(6) by simp
  ultimately show ?thesis using t(1,3,5-7) u fr_trans [OF t(3) u(3)] by (intro exI [of _ i] exI [of _ t] exI [of _ u]) simp
qed

end

text \<open>\<open>may k\<close> is a transaction that may still add \<open>k\<close> blocks to the log; it stays one while the log does
  not change.\<close>

locale block_txn = block_reads +
  fixes st :: "nat \<Rightarrow> (u8 list \<Rightarrow> u8 list) \<Rightarrow> ('a, unit) kern" and lw :: "nat \<Rightarrow> ('a, unit) kern" and may :: "nat \<Rightarrow> 'a \<Rightarrow> bool"
  assumes log_law: "may k s \<Longrightarrow> own s i b \<Longrightarrow> length (f (lb s b)) = BSIZE \<Longrightarrow> 0 < k \<or> b \<in> wl s \<Longrightarrow>
      \<exists>u t. st i f s = Ret () u \<and> lw i u = Ret () t \<and> may (if b \<in> wl s then k else k - 1) t \<and> fr s t \<and>
        (\<forall>j c. own s j c \<longrightarrow> own t j c) \<and> lb t = (lb s)(b := f (lb s b)) \<and> wl t = insert b (wl s) \<and> hl t = hl s"
    and may_good: "may k s \<Longrightarrow> good s"
    and may_keep: "may k s \<Longrightarrow> good t \<Longrightarrow> fr s t \<Longrightarrow> wl t = wl s \<Longrightarrow> may k t"

begin

text \<open>Changing a block: exactly that block changes, and it is in the transaction.\<close>

lemma rewrite:
  assumes g: "may k s" and nh: "b \<notin> hl s" and fin: "finite (hl s)" "card (hl s) \<le> 1"
    and len: "length (f (lb s b)) = BSIZE" and k: "0 < k \<or> b \<in> wl s"
  shows "\<exists>i t u v w. rd b s = Ret i t \<and> dat t i = lb s b \<and> st i f t = Ret () u \<and> lw i u = Ret () v \<and> rel i v = Ret () w \<and>
    may (if b \<in> wl s then k else k - 1) w \<and> fr s w \<and> (\<forall>j c. c \<noteq> b \<longrightarrow> own s j c \<longrightarrow> own w j c) \<and>
    lb w = (lb s)(b := f (lb s b)) \<and> wl w = insert b (wl s) \<and> hl w = hl s"
proof -
  from rd_law [OF may_good [OF g] nh fin] obtain i t where t: "rd b s = Ret i t" "good t" "fr s t" "own t i b" "\<forall>j c. own s j c \<longrightarrow> own t j c"
    "lb t = lb s" "wl t = wl s" "hl t = insert b (hl s)" by blast
  have mt: "may k t" by (rule may_keep [OF g t(2,3,7)])
  have "length (f (lb t b)) = BSIZE" "0 < k \<or> b \<in> wl t" using len k t(6,7) by simp_all
  from log_law [of k t i b f, OF mt t(4) this] obtain u v where v: "st i f t = Ret () u" "lw i u = Ret () v" "may (if b \<in> wl t then k else k - 1) v" "fr t v"
    "\<forall>j c. own t j c \<longrightarrow> own v j c" "lb v = (lb t)(b := f (lb t b))" "wl v = insert b (wl t)" "hl v = hl t" by blast
  have ov: "own v i b" using v(5) t(4) by blast
  from rel_law [OF may_good [OF v(3)] ov] obtain w where w: "rel i v = Ret () w" "good w" "fr v w"
    "\<forall>j c. c \<noteq> b \<longrightarrow> own v j c \<longrightarrow> own w j c" "lb w = lb v" "wl w = wl v" "hl w = hl v - {b}" by blast
  have "may (if b \<in> wl s then k else k - 1) w" using may_keep [OF v(3) w(2,3,6)] by (simp add: t(7))
  moreover have "hl w = hl s" using nh by (auto simp: w(7) v(8) t(8))
  moreover have "dat t i = lb s b" using dat_law [OF t(2,4)] t(6) by simp
  moreover have "fr s w" using fr_trans t(3) v(4) w(3) by blast
  moreover have "\<forall>j c. c \<noteq> b \<longrightarrow> own s j c \<longrightarrow> own w j c" using t(5) v(5) w(4) by blast
  ultimately show ?thesis using t(1,6,7) v(1,2,6,7) w(1,5,6)
    by (intro exI [of _ i] exI [of _ t] exI [of _ u] exI [of _ v] exI [of _ w]) simp
qed

end

subsection \<open>The log over the buffer cache implements it\<close>

abbreviation in_log :: "'a log_state_scheme \<Rightarrow> nat set" where
  "in_log s \<equiv> set (logged (lg_lh (lg s)))"

text \<open>The cache and the log while process \<open>p\<close> runs: the buffers in use are those of the logged blocks
  (pinned) and of the blocks held, and every block that is not logged agrees with the disk.\<close>

definition calm :: "nat \<Rightarrow> 'a log_state_scheme \<Rightarrow> bool" where
  "calm p s \<longleftrightarrow> quiet p s \<and> bc_ok s \<and> 0 \<le> lh_n (lg_lh (lg s)) \<and> lh_n (lg_lh (lg s)) + 2 \<le> int LOGSIZE \<and>
     distinct (logged (lg_lh (lg s))) \<and> (\<forall>b. bref s b = of_bool (b \<in> in_log s) + of_bool (b \<in> held_blocks s)) \<and>
     (\<forall>b. b \<notin> in_log s \<longrightarrow> lblk s b = dk_blocks (dsk s) b)"

text \<open>A transaction of \<open>p\<close> with room for \<open>k\<close> more blocks in the log.\<close>

definition txn :: "nat \<Rightarrow> nat \<Rightarrow> 'a log_state_scheme \<Rightarrow> bool" where
  "txn p k s \<longleftrightarrow> calm p s \<and> 1 \<le> lg_outstanding (lg s) \<and> lh_n (lg_lh (lg s)) + int k + 2 \<le> int LOGSIZE \<and>
     lh_n (lg_lh (lg s)) + int k + 1 < lg_size (lg s)"

lemma calmD:
  assumes "calm p s"
  shows "quiet p s" "bc_ok s" "0 \<le> lh_n (lg_lh (lg s))" "lh_n (lg_lh (lg s)) + 2 \<le> int LOGSIZE" "distinct (logged (lg_lh (lg s)))"
    "bref s b = of_bool (b \<in> in_log s) + of_bool (b \<in> held_blocks s)" "b \<notin> in_log s \<Longrightarrow> lblk s b = dk_blocks (dsk s) b"
  using assms by (auto simp: calm_def)

lemma txn_calm: "txn p k s \<Longrightarrow> calm p s"
  by (simp add: txn_def)

lemma txn_spare: "txn p k s \<Longrightarrow> j \<le> k \<Longrightarrow> txn p j s"
  by (auto simp: txn_def)

lemma card_in_log: "calm p s \<Longrightarrow> lh_n (lg_lh (lg s)) = int (card (in_log s))"
  using distinct_card [of "logged (lg_lh (lg s))"] by (simp add: calm_def)

text \<open>What a transaction leaves alone: everything but the cache, the buffer locks, the log header and
  the state of sleeping processes.\<close>

definition tframe :: "'a log_state_scheme \<Rightarrow> 'a log_state_scheme \<Rightarrow> bool" where
  "tframe s t \<longleftrightarrow> lframe s t \<and> dsk t = dsk s \<and> (\<exists>h. lg t = (lg s)\<lparr>lg_lh := h\<rparr>)"

lemma lg_same_lh: "\<exists>h. (l :: log) = l\<lparr>lg_lh := h\<rparr>"
  by (rule exI [of _ "lg_lh l"]) simp

lemma tframe_refl: "tframe s s"
  by (simp add: tframe_def lg_same_lh)

lemma tframe_trans: "tframe s t \<Longrightarrow> tframe t u \<Longrightarrow> tframe s u"
  by (auto simp: tframe_def intro: lframe_trans)

lemma tframe_pid: "tframe s t \<Longrightarrow> p_pid (procs t q) = p_pid (procs s q)"
  by (simp add: tframe_def lframe_def wakes_pid)

lemma bframe_tframe: "bframe s t \<Longrightarrow> dsk t = dsk s \<Longrightarrow> tframe s t"
  by (simp add: tframe_def bframe_lframe bframe_log lg_same_lh)

lemma txn_keep:
  assumes "txn p k s" "calm p t" "tframe s t" "in_log t = in_log s"
  shows "txn p k t"
proof -
  have "lh_n (lg_lh (lg t)) = lh_n (lg_lh (lg s))" using card_in_log [OF assms(2)] card_in_log [OF txn_calm [OF assms(1)]] assms(4) by simp
  then show ?thesis using assms(1-3) by (auto simp: txn_def tframe_def)
qed

lemma calm_busy:
  assumes "calm p s" "finite (held_blocks s)"
  shows "card {c. 0 < bref s c} \<le> nat (lh_n (lg_lh (lg s))) + card (held_blocks s)"
proof -
  have "{c. 0 < bref s c} = in_log s \<union> held_blocks s" by (auto simp: calmD(6) [OF assms(1)])
  moreover have "card (in_log s) \<le> nat (lh_n (lg_lh (lg s)))" using card_length [of "logged (lg_lh (lg s))"] by simp
  ultimately show ?thesis using card_Un_le [of "in_log s" "held_blocks s"] by simp
qed

lemma bread_calm:
  assumes g: "calm p s" and nh: "b \<notin> held_blocks s" and fin: "finite (held_blocks s)" "card (held_blocks s) \<le> 1"
  shows "\<exists>i t. bread ROOTDEV b s = Ret i t \<and> calm p t \<and> tframe s t \<and> owns t (p_pid (procs t p)) i b \<and>
    (\<forall>j c. owns s (p_pid (procs s p)) j c \<longrightarrow> owns t (p_pid (procs t p)) j c) \<and>
    lblk t = lblk s \<and> in_log t = in_log s \<and> held_blocks t = insert b (held_blocks s)"
proof -
  note d = calmD [OF g]
  have "bref s b + 1 < 2 ^ 32" by (simp add: d(6))
  moreover have "card {c. 0 < bref s c} < NBUF" using calm_busy [OF g fin(1)] fin(2) d(3,4) by (simp add: NBUF_def LOGSIZE_def)
  ultimately obtain i t where t: "bread ROOTDEV b s = Ret i t" "quiet p t" "bc_ok t" "bframe s t" "owns t (p_pid (procs t p)) i b"
    "\<forall>j c. owns s (p_pid (procs s p)) j c \<longrightarrow> owns t (p_pid (procs t p)) j c" "dsk t = dsk s" "lblk t = lblk s"
    "bref t = (bref s)(b := Suc (bref s b))" "held_blocks t = insert b (held_blocks s)"
    using bread_law [OF d(1,2) nh] by blast
  have l: "lg t = lg s" by (rule bframe_log [OF t(4)])
  have "calm p t" using g t(2,3,7-10) nh by (auto simp: calm_def l)
  then show ?thesis using t bframe_tframe [OF t(4,7)] by (intro exI [of _ i] exI [of _ t]) (simp add: l)
qed

lemma brelse_calm:
  assumes g: "calm p s" and o: "owns s (p_pid (procs s p)) i b"
  shows "\<exists>t. brelse i s = Ret () t \<and> calm p t \<and> tframe s t \<and>
    (\<forall>j c. c \<noteq> b \<longrightarrow> owns s (p_pid (procs s p)) j c \<longrightarrow> owns t (p_pid (procs t p)) j c) \<and>
    lblk t = lblk s \<and> in_log t = in_log s \<and> held_blocks t = held_blocks s - {b}"
proof -
  note d = calmD [OF g]
  have hb: "b \<in> held_blocks s" using o by (auto simp: owns_def held_blocks_def locked_by_def)
  have "lblk s b = dk_blocks (dsk s) b \<or> 1 < bref s b" using d(6,7) [of b] hb by (cases "b \<in> in_log s") auto
  from brelse_law [OF d(1,2) o this] obtain t where t: "brelse i s = Ret () t" "quiet p t" "bc_ok t" "bframe s t"
    "\<forall>j c. c \<noteq> b \<longrightarrow> owns s (p_pid (procs s p)) j c \<longrightarrow> owns t (p_pid (procs t p)) j c" "dsk t = dsk s" "lblk t = lblk s"
    "bref t = (bref s)(b := bref s b - 1)" "held_blocks t = held_blocks s - {b}" by blast
  have l: "lg t = lg s" by (rule bframe_log [OF t(4)])
  have "calm p t" using g t(2,3,6-9) hb by (auto simp: calm_def l)
  then show ?thesis using t bframe_tframe [OF t(4,6)] by (intro exI [of _ t]) (simp add: l)
qed

lemma held_bump: "held_blocks (s\<lparr>bufs := (bufs s)(i := bump (bufs s i))\<rparr>) = held_blocks s"
  by (auto simp: held_blocks_def holds_block_def bump_def)

lemma log_write_held:
  assumes "quiet p s" "\<not> log_full (lg s)" "1 \<le> lg_outstanding (lg s)" "0 \<le> lh_n (lg_lh (lg s))" "log_write i s = Ret () t"
  shows "held_blocks t = held_blocks s"
proof -
  have "held_blocks ((settle s)\<lparr>lg := l, bufs := B\<rparr>) = held_blocks (s\<lparr>bufs := B\<rparr>)" for l B by (simp add: held_blocks_def frame_simps)
  then show ?thesis using assms(5) log_write_run [OF assms(1-4), of i] held_bump [of s i] by (auto split: if_splits)
qed

lemma log_txn:
  assumes g: "txn p k s" and o: "owns s (p_pid (procs s p)) i b" and len: "length (f (lblk s b)) = BSIZE" and k: "0 < k \<or> b \<in> in_log s"
  shows "\<exists>u t. bset i f s = Ret () u \<and> log_write i u = Ret () t \<and> txn p (if b \<in> in_log s then k else k - 1) t \<and> tframe s t \<and>
    (\<forall>j c. owns s (p_pid (procs s p)) j c \<longrightarrow> owns t (p_pid (procs t p)) j c) \<and>
    lblk t = (lblk s)(b := f (lblk s b)) \<and> in_log t = insert b (in_log s) \<and> held_blocks t = held_blocks s"
proof -
  note d = calmD [OF txn_calm [OF g]]
  have full: "\<not> log_full (lg s)" "1 \<le> lg_outstanding (lg s)" using g by (auto simp: txn_def log_full_def)
  from bset_law [of p s i b f, OF d(1,2) o len] obtain u where u: "bset i f s = Ret () u" "quiet p u" "bc_ok u" "bframe s u"
    "\<forall>j c. owns s (p_pid (procs s p)) j c \<longrightarrow> owns u (p_pid (procs u p)) j c" "dsk u = dsk s"
    "lblk u = (lblk s)(b := f (lblk s b))" "bref u = bref s" "held_blocks u = held_blocks s" by blast
  have l: "lg u = lg s" by (rule bframe_log [OF u(4)])
  have ou: "owns u (p_pid (procs u p)) i b" using u(5) o by blast
  have small: "bref u b + 1 < 2 ^ 32" by (simp add: u(8) d(6))
  have a: "\<not> log_full (lg u)" "1 \<le> lg_outstanding (lg u)" "0 \<le> lh_n (lg_lh (lg u))" using full d(3) by (simp_all add: l)
  from log_write_ok [OF u(2,3) owns_holds [OF ou] small a] obtain t where t: "log_write i u = Ret () t" "quiet p t" "bc_ok t" "lframe u t"
    "dsk t = dsk u" "lblk t = lblk u" "lg t = (lg s)\<lparr>lg_lh := record_block b (lg_lh (lg s))\<rparr>"
    "bref t = (if b \<in> in_log s then bref s else (bref s)(b := bref s b + 1))" "\<forall>pid j d. owns u pid j d \<longrightarrow> owns t pid j d"
    unfolding l u(8) by blast
  have h: "held_blocks t = held_blocks s" using log_write_held [OF u(2) a t(1)] u(9) by simp
  have il: "in_log t = insert b (in_log s)" by (auto simp: t(7) logged_record [OF d(3)])
  have n: "lh_n (lg_lh (lg t)) = (if b \<in> in_log s then lh_n (lg_lh (lg s)) else lh_n (lg_lh (lg s)) + 1)" by (simp add: t(7) record_block_def)
  have "calm p t"
    unfolding calm_def
  proof (intro conjI allI impI)
    show "bref t c = of_bool (c \<in> in_log t) + of_bool (c \<in> held_blocks t)" for c by (simp add: t(8) d(6) il h)
    show "lblk t c = dk_blocks (dsk t) c" if "c \<notin> in_log t" for c
    proof -
      have "lblk t c = lblk s c" unfolding t(6) u(7) using that by (simp add: il)
      then show ?thesis using that d(7) [of c] t(5) u(6) by (simp add: il)
    qed
    show "distinct (logged (lg_lh (lg t)))" using distinct_record [OF d(3,5)] by (simp add: t(7))
  qed (use t(2,3) d(3,4) g k n in \<open>auto simp: txn_def\<close>)
  then have "txn p (if b \<in> in_log s then k else k - 1) t" using g k n t(7) by (auto simp: txn_def)
  moreover have "tframe s t" using t(4,5,7) u(4,6) lframe_trans [OF bframe_lframe [OF u(4)] t(4)] by (auto simp: tframe_def)
  moreover have "\<forall>j c. owns s (p_pid (procs s p)) j c \<longrightarrow> owns t (p_pid (procs t p)) j c"
    using u(5) t(9) wakes_pid [of "procs u" "procs t" p] t(4) by (simp add: lframe_def)
  ultimately show ?thesis using u(1,7) t(1,6) h il by (intro exI [of _ u] exI [of _ t]) simp
qed

interpretation tx: block_txn "bread ROOTDEV" brelse "\<lambda>s i. b_data (bufs s i)" "calm p"
  "\<lambda>s. owns s (p_pid (procs s p))" lblk held_blocks in_log tframe bset log_write "txn p" for p
proof (unfold_locales, goal_cases)
  case (1 s b) then show ?case by (rule bread_calm)
next
  case (2 s i b) then show ?case by (rule brelse_calm)
next
  case (3 s i b) then show ?case using owns_facts(1) calmD(2) by blast
next
  case (4 s b) then show ?case using bc_disk_len calmD(2) by blast
next
  case (5 s) show ?case by (rule tframe_refl)
next
  case (6 s t u) then show ?case by (rule tframe_trans)
next
  case (7 k s i b f) then show ?case by (rule log_txn)
next
  case (8 k s) then show ?case by (rule txn_calm)
next
  case (9 k s t) then show ?case by (rule txn_keep)
qed

subsection \<open>Steps of a transaction\<close>

text \<open>\<open>wrote p s t L D\<close>: from \<open>s\<close> to \<open>t\<close> the transaction added the blocks \<open>L\<close> to its log and left the
  blocks with contents \<open>D\<close>; the buffers process \<open>p\<close> holds are the same.\<close>

definition wrote :: "nat \<Rightarrow> 'a log_state_scheme \<Rightarrow> 'a log_state_scheme \<Rightarrow> nat set \<Rightarrow> (nat \<Rightarrow> u8 list) \<Rightarrow> bool" where
  "wrote p s t L D \<longleftrightarrow> tframe s t \<and> (\<forall>j c. owns s (p_pid (procs s p)) j c \<longrightarrow> owns t (p_pid (procs t p)) j c) \<and>
     lblk t = D \<and> in_log t = in_log s \<union> L \<and> held_blocks t = held_blocks s"

definition few_held :: "'a bio_state_scheme \<Rightarrow> bool" where
  "few_held s \<longleftrightarrow> finite (held_blocks s) \<and> card (held_blocks s) \<le> 1"

lemma wroteD:
  assumes "wrote p s t L D"
  shows "tframe s t" "owns s (p_pid (procs s p)) j c \<Longrightarrow> owns t (p_pid (procs t p)) j c" "lblk t = D" "in_log t = in_log s \<union> L"
    "held_blocks t = held_blocks s" "few_held t = few_held s"
  using assms by (auto simp: wrote_def few_held_def)

lemma wrote_refl: "wrote p s s {} (lblk s)"
  by (simp add: wrote_def tframe_refl)

lemma wrote_trans: "wrote p s t L D \<Longrightarrow> wrote p t u M E \<Longrightarrow> wrote p s u (L \<union> M) E"
  by (auto simp: wrote_def intro: tframe_trans)

lemma owns_held: "owns s pid i b \<Longrightarrow> b \<in> held_blocks s"
  by (auto simp: owns_def held_blocks_def locked_by_def)

lemma wroteI: "tframe s t \<Longrightarrow> held_blocks s = {} \<Longrightarrow> held_blocks t = {} \<Longrightarrow> lblk t = D \<Longrightarrow> in_log t = in_log s \<union> L \<Longrightarrow> wrote p s t L D"
  using owns_held by (fastforce simp: wrote_def)

lemma calm_len [simp]: "calm p s \<Longrightarrow> length (lblk s b) = BSIZE" "txn p k s \<Longrightarrow> length (lblk s b) = BSIZE"
  by (auto dest: tx.len_law txn_calm)

lemma wrote_txn: "txn p k s \<Longrightarrow> calm p t \<Longrightarrow> wrote p s t {} D \<Longrightarrow> txn p k t"
  by (rule txn_keep) (auto simp: wrote_def)

lemma calm_peek:
  assumes g: "calm p s" and nh: "b \<notin> held_blocks s" and few: "few_held s"
  shows "\<exists>i t u. bread ROOTDEV b s = Ret i t \<and> b_data (bufs t i) = lblk s b \<and> tframe s t \<and> brelse i t = Ret () u \<and> calm p u \<and>
    wrote p s u {} (lblk s)"
proof -
  have "\<forall>j c. owns s (p_pid (procs s p)) j c \<longrightarrow> c \<noteq> b" using nh owns_held by blast
  moreover obtain i t u where u: "bread ROOTDEV b s = Ret i t" "b_data (bufs t i) = lblk s b" "tframe s t" "brelse i t = Ret () u" "calm p u"
    "tframe s u" "\<forall>j c. c \<noteq> b \<longrightarrow> owns s (p_pid (procs s p)) j c \<longrightarrow> owns u (p_pid (procs u p)) j c" "lblk u = lblk s"
    "in_log u = in_log s" "held_blocks u = held_blocks s"
    using tx.peek [OF g nh] few unfolding few_held_def by blast
  ultimately have "wrote p s u {} (lblk s)" by (simp add: wrote_def)
  then show ?thesis using u(1-5) by (intro exI [of _ i] exI [of _ t] exI [of _ u]) simp
qed

lemma txn_rewrite:
  assumes g: "txn p k s" and nh: "b \<notin> held_blocks s" and few: "few_held s" and len: "length (f (lblk s b)) = BSIZE"
    and k: "0 < k \<or> b \<in> in_log s"
  shows "\<exists>i t u v w. bread ROOTDEV b s = Ret i t \<and> b_data (bufs t i) = lblk s b \<and> bset i f t = Ret () u \<and> log_write i u = Ret () v \<and>
    brelse i v = Ret () w \<and> txn p (if b \<in> in_log s then k else k - 1) w \<and> wrote p s w {b} ((lblk s)(b := f (lblk s b)))"
proof -
  have "\<forall>j c. owns s (p_pid (procs s p)) j c \<longrightarrow> c \<noteq> b" using nh owns_held by blast
  moreover obtain i t u v w where w: "bread ROOTDEV b s = Ret i t" "b_data (bufs t i) = lblk s b" "bset i f t = Ret () u" "log_write i u = Ret () v"
    "brelse i v = Ret () w" "txn p (if b \<in> in_log s then k else k - 1) w" "tframe s w"
    "\<forall>j c. c \<noteq> b \<longrightarrow> owns s (p_pid (procs s p)) j c \<longrightarrow> owns w (p_pid (procs w p)) j c" "lblk w = (lblk s)(b := f (lblk s b))"
    "in_log w = insert b (in_log s)" "held_blocks w = held_blocks s"
    using tx.rewrite [of p k s b f, OF g nh _ _ len k] few unfolding few_held_def by blast
  ultimately have "wrote p s w {b} ((lblk s)(b := f (lblk s b)))" by (simp add: wrote_def)
  then show ?thesis using w(1-6) by (intro exI [of _ i] exI [of _ t] exI [of _ u] exI [of _ v] exI [of _ w]) simp
qed

lemma calm_settle [frame_simps]: "calm p (settle s) = calm p s" "txn p k (settle s) = txn p k s" "held_blocks (settle s) = held_blocks s"
  by (simp_all add: calm_def txn_def bc_ok_def held_blocks_def frame_simps)

end
