(* ===== verification/Fs_Blocks.thy ===== *)
theory Fs_Blocks
  imports Txn
begin

text \<open>
  The block allocator of \<^verbatim>\<open>kernel/fs.c\<close> inside a transaction: \<open>balloc\<close> finds the first free block,
  marks it and clears it, \<open>bfree\<close> gives it back.
\<close>

subsection \<open>The free map\<close>

lemma map_bit_iff: "map_bit d bi \<longleftrightarrow> bit (d ! (bi div 8)) (bi mod 8)"
  by (simp add: map_bit_def push_bit_of_1 and_exp_eq_0_iff_not_bit)

lemma same_byte: "i div 8 = j div 8 \<Longrightarrow> i mod 8 = j mod 8 \<Longrightarrow> i = (j :: nat)"
  by (metis div_mult_mod_eq)

lemma map_bit_set:
  assumes "bi < 8 * length d" "bj < 8 * length d"
  shows "map_bit (map_set bi d) bj \<longleftrightarrow> bj = bi \<or> map_bit d bj"
proof (cases "bi div 8 = bj div 8")
  case True
  have l: "bj div 8 < length d" "bj mod 8 < 8" using assms(2) by auto
  have "bit (d ! (bj div 8) OR push_bit (bi mod 8) 1) (bj mod 8) \<longleftrightarrow> bit (d ! (bj div 8)) (bj mod 8) \<or> bi mod 8 = bj mod 8"
    by (auto simp: bit_simps)
  then show ?thesis using True l same_byte [of bi bj] by (auto simp: map_bit_iff map_set_def)
next
  case False
  then show ?thesis by (auto simp: map_bit_iff map_set_def)
qed

lemma map_bit_clear:
  assumes "bi < 8 * length d" "bj < 8 * length d"
  shows "map_bit (map_clear bi d) bj \<longleftrightarrow> bj \<noteq> bi \<and> map_bit d bj"
proof (cases "bi div 8 = bj div 8")
  case True
  have l: "bj div 8 < length d" "bj mod 8 < 8" using assms(2) by auto
  have "bit (d ! (bj div 8) AND NOT (push_bit (bi mod 8) 1)) (bj mod 8) \<longleftrightarrow> bit (d ! (bj div 8)) (bj mod 8) \<and> bi mod 8 \<noteq> bj mod 8"
    using l(2) by (auto simp: bit_simps)
  then show ?thesis using True l same_byte [of bi bj] by (auto simp: map_bit_iff map_clear_def)
next
  case False
  then show ?thesis by (auto simp: map_bit_iff map_clear_def)
qed

lemma map_clear_set: "bi < 8 * length d \<Longrightarrow> \<not> map_bit d bi \<Longrightarrow> map_clear bi (map_set bi d) = d"
proof -
  assume a: "bi < 8 * length d" "\<not> map_bit d bi"
  have l: "bi div 8 < length d" using a(1) by auto
  have "(d ! (bi div 8) OR push_bit (bi mod 8) 1) AND NOT (push_bit (bi mod 8) 1) = d ! (bi div 8)"
    using a(2) by (intro bit_word_eqI) (auto simp: map_bit_iff bit_simps)
  then show ?thesis using l by (simp add: map_clear_def map_set_def)
qed

lemma length_map_upd [simp]: "length (map_set bi d) = length d" "length (map_clear bi d) = length d"
  by (simp_all add: map_set_def map_clear_def)

definition used_in :: "superblock \<Rightarrow> (nat \<Rightarrow> u8 list) \<Rightarrow> nat \<Rightarrow> bool" where
  "used_in x D b = map_bit (D (BBLOCK b x)) (b mod BPB)"

abbreviation block_used :: "'a fs_state_scheme \<Rightarrow> nat \<Rightarrow> bool" where
  "block_used s \<equiv> used_in (sb s) (lblk s)"

text \<open>The blocks of the map are marked as used in the map.\<close>

definition map_in_use :: "'a fs_state_scheme \<Rightarrow> bool" where
  "map_in_use s \<longleftrightarrow> (\<forall>b < sb_size (sb s). block_used s (BBLOCK b (sb s)))"

lemma BPB_pos [simp]: "0 < BPB" "b mod BPB < 8 * BSIZE"
  by (simp_all add: BPB_def BSIZE_def)

lemma BBLOCK_start: "b mod BPB = 0 \<Longrightarrow> bi < BPB \<Longrightarrow> BBLOCK (b + bi) x = BBLOCK b x \<and> (b + bi) mod BPB = bi"
  by (auto simp: BBLOCK_def elim: dvdE)

lemma tframe_fs:
  assumes "tframe s t"
  shows "sb t = sb s" "itable t = itable s" "fs_state.more t = fs_state.more s"
proof -
  have "log_state.more t = log_state.more s" using assms by (simp add: tframe_def lframe_def)
  then show "sb t = sb s" "itable t = itable s" "fs_state.more t = fs_state.more s" by (cases s; cases t; simp)+
qed

lemma first_idx_append: "first_idx P (xs @ ys) = (case first_idx P xs of None \<Rightarrow> first_idx P ys | Some i \<Rightarrow> Some i)"
  by (induction xs) auto

lemma first_idx_shift: "first_idx P (map ((+) b) xs) = map_option ((+) b) (first_idx (\<lambda>i. P (b + i)) xs)"
  by (induction xs) auto

lemma first_idx_cong: "(\<And>i. i \<in> set xs \<Longrightarrow> P i = Q i) \<Longrightarrow> first_idx P xs = first_idx Q xs"
  by (induction xs) auto

subsection \<open>Allocating\<close>

lemma bzero_ok:
  assumes g: "txn p k s" and nh: "b \<notin> held_blocks s" and few: "few_held s" and k: "0 < k"
  shows "\<exists>t. bzero ROOTDEV b s = Ret () t \<and> txn p (k - 1) t \<and> wrote p s t {b} ((lblk s)(b := replicate BSIZE 0))"
proof -
  from txn_rewrite [of p k s b "\<lambda>_. replicate BSIZE 0", OF g nh few] k obtain i t u v w where
    w: "bread ROOTDEV b s = Ret i t" "bset i (\<lambda>_. replicate BSIZE 0) t = Ret () u" "log_write i u = Ret () v"
    "brelse i v = Ret () w" "txn p (if b \<in> in_log s then k else k - 1) w" "wrote p s w {b} ((lblk s)(b := replicate BSIZE 0))"
    by auto
  have "txn p (k - 1) w" by (rule txn_spare [OF w(5)]) simp
  then show ?thesis using w by (intro exI [of _ w]) (simp add: bzero_def kern_simps)
qed

abbreviation map_range :: "nat \<Rightarrow> nat \<Rightarrow> nat list" where
  "map_range sz b \<equiv> map ((+) b) [0..<min BPB (sz - b)]"

text \<open>The contents of all blocks after block \<open>b\<close> is taken.\<close>

definition taken_in :: "superblock \<Rightarrow> (nat \<Rightarrow> u8 list) \<Rightarrow> nat \<Rightarrow> nat \<Rightarrow> u8 list" where
  "taken_in x D b = D(BBLOCK b x := map_set (b mod BPB) (D (BBLOCK b x)), b := replicate BSIZE 0)"

abbreviation taken :: "'a fs_state_scheme \<Rightarrow> nat \<Rightarrow> nat \<Rightarrow> u8 list" where
  "taken s \<equiv> taken_in (sb s) (lblk s)"

text \<open>The buffers held are those of blocks in use that do not belong to the map.\<close>

definition held_apart :: "'a fs_state_scheme \<Rightarrow> bool" where
  "held_apart s \<longleftrightarrow> few_held s \<and> (\<forall>b \<in> held_blocks s. block_used s b) \<and> (\<forall>b < sb_size (sb s). BBLOCK b (sb s) \<notin> held_blocks s)"

lemma balloc_map_ok:
  fixes b :: nat and s :: "'a fs_state_scheme"
  assumes g: "txn p k s" and k: "2 \<le> k" and h: "held_apart s" and b: "b mod BPB = 0" "b < sb_size (sb s)"
  defines "x \<equiv> sb s"
  shows "\<exists>t. balloc_map ROOTDEV x b s = Ret (first_idx (\<lambda>b. \<not> block_used s b) (map_range (sb_size x) b)) (t :: 'a fs_state_scheme) \<and>
    (case first_idx (\<lambda>b. \<not> block_used s b) (map_range (sb_size x) b) of
       None \<Rightarrow> txn p k t \<and> wrote p s t {} (lblk s)
     | Some c \<Rightarrow> txn p (k - 2) t \<and> wrote p s t {BBLOCK c x, c} (taken s c))"
proof -
  let ?f = "\<lambda>bi. \<not> map_bit (lblk s (BBLOCK b x)) bi" and ?r = "[0..<min BPB (sb_size x - b)]"
  have nh: "BBLOCK b x \<notin> held_blocks s" and few: "few_held s" using h b(2) by (auto simp: held_apart_def x_def)
  have "first_idx (\<lambda>bi. \<not> block_used s (b + bi)) ?r = first_idx ?f ?r"
    using BBLOCK_start [OF b(1)] by (intro first_idx_cong) (simp add: used_in_def x_def)
  then have fi: "first_idx (\<lambda>b. \<not> block_used s b) (map_range (sb_size x) b) = map_option ((+) b) (first_idx ?f ?r)"
    by (simp add: first_idx_shift)
  show ?thesis
  proof (cases "first_idx ?f ?r")
    case None
    from calm_peek [OF txn_calm [OF g] nh few] obtain i t u where u: "bread ROOTDEV (BBLOCK b x) s = Ret i t" "b_data (bufs t i) = lblk s (BBLOCK b x)"
      "brelse i t = Ret () u" "calm p u" "wrote p s u {} (lblk s)" by blast
    moreover have "txn p k u" by (rule wrote_txn [OF g u(4,5)])
    ultimately show ?thesis using None by (intro exI [of _ u]) (simp add: fi balloc_map_def kern_simps buf_data_def)
  next
    case (Some bi)
    then have bi: "bi < BPB" "b + bi < sb_size x" "\<not> map_bit (lblk s (BBLOCK b x)) bi" using first_idx_Some [OF Some] by auto
    note c = BBLOCK_start [OF b(1) bi(1), of x]
    from txn_rewrite [of p k s "BBLOCK b x" "map_set bi", OF g nh few] k g obtain i t u v w where
      w: "bread ROOTDEV (BBLOCK b x) s = Ret i t" "b_data (bufs t i) = lblk s (BBLOCK b x)" "bset i (map_set bi) t = Ret () u"
      "log_write i u = Ret () v" "brelse i v = Ret () w" "txn p (if BBLOCK b x \<in> in_log s then k else k - 1) w"
      "wrote p s w {BBLOCK b x} ((lblk s)(BBLOCK b x := map_set bi (lblk s (BBLOCK b x))))" by auto
    have tw: "txn p (k - 1) w" by (rule txn_spare [OF w(6)]) simp
    have "\<not> block_used s (b + bi)" using bi(3) c by (simp add: used_in_def x_def)
    then have "b + bi \<notin> held_blocks w" using h by (auto simp: held_apart_def wroteD(5) [OF w(7)])
    moreover have "few_held w" using few by (simp add: wroteD(6) [OF w(7)])
    ultimately obtain y where y: "bzero ROOTDEV (b + bi) w = Ret () y" "txn p (k - 1 - 1) y"
        "wrote p w y {b + bi} ((lblk w)(b + bi := replicate BSIZE 0))"
      using bzero_ok [OF tw] k by auto
    have "wrote p s y {BBLOCK (b + bi) x, b + bi} (taken s (b + bi))"
      using wrote_trans [OF w(7) y(3)] c by (simp add: wroteD(3) [OF w(7)] taken_in_def x_def insert_commute)
    moreover have "txn p (k - 2) y" by (rule txn_spare [OF y(2)]) simp
    ultimately show ?thesis using Some w(1-5) y(1) by (intro exI [of _ y]) (simp add: fi balloc_map_def kern_simps buf_data_def)
  qed
qed

lemma map_ranges: "concat (map (map_range sz) (map (\<lambda>k. BPB * k) [0..<n])) = [0..<min sz (BPB * n)]"
proof (induction n)
  case (Suc n)
  have "map_range sz (BPB * n) = [BPB * n..<BPB * n + min BPB (sz - BPB * n)]"
    by (rule nth_equalityI) simp_all
  moreover have "[0..<min sz (BPB * n)] @ [BPB * n..<BPB * n + min BPB (sz - BPB * n)] = [0..<min sz (BPB * Suc n)]"
  proof (cases "BPB * n \<le> sz")
    case True
    then have "min sz (BPB * n) = BPB * n" "BPB * n + min BPB (sz - BPB * n) = min sz (BPB * Suc n)" by auto
    then show ?thesis using upt_add_eq_append [of 0 "BPB * n" "min BPB (sz - BPB * n)"] by simp
  next
    case False
    then have "min sz (BPB * n) = sz" "min sz (BPB * Suc n) = sz" by auto
    then show ?thesis using False by simp
  qed
  ultimately show ?case using Suc by simp
qed simp

lemma map_starts_cover: "concat (map (map_range sz) (map_starts sz)) = [0..<sz]"
proof -
  have "sz \<le> BPB * ((sz + BPB - 1) div BPB)"
  proof -
    have "sz + BPB - 1 < BPB + BPB * ((sz + BPB - 1) div BPB)" by (rule dividend_less_times_div [OF BPB_pos(1)])
    then show ?thesis using BPB_pos(1) by linarith
  qed
  then show ?thesis unfolding map_starts_def map_ranges by (simp add: min_def)
qed

lemma map_starts_in: "b \<in> set (map_starts sz) \<Longrightarrow> b mod BPB = 0 \<and> b < sz"
proof -
  assume "b \<in> set (map_starts sz)"
  then have "b \<in> (\<lambda>k. BPB * k) ` {0..<(sz + BPB - 1) div BPB}" by (simp only: map_starts_def set_map set_upt)
  then obtain k where k: "b = BPB * k" "k \<in> {0..<(sz + BPB - 1) div BPB}" by (rule imageE)
  then have "k < (sz + BPB - 1) div BPB" by (simp only: atLeastLessThan_iff)
  then have "BPB * Suc k \<le> BPB * ((sz + BPB - 1) div BPB)" by (intro mult_le_mono2 Suc_leI)
  also have "\<dots> \<le> sz + BPB - 1" by (rule times_div_less_eq_dividend)
  finally have "BPB * k + BPB \<le> sz + BPB - 1" unfolding mult_Suc_right by (simp only: add.commute)
  then have "BPB * k < sz" using BPB_pos(1) by linarith
  then show ?thesis using k(1) by simp
qed

lemma wrote_used:
  assumes "wrote p s t L (lblk s)"
  shows "block_used t b = block_used s b" "taken t b = taken s b" "held_apart t = held_apart s"
  using wroteD(3,5,6) [OF assms] tframe_fs(1) [OF wroteD(1) [OF assms]] by (simp_all add: used_in_def taken_in_def held_apart_def)

lemma balloc_ok:
  fixes s :: "'a fs_state_scheme"
  assumes g: "txn p k s" and k: "2 \<le> k" and h: "held_apart s"
  shows "\<exists>t :: 'a fs_state_scheme. balloc ROOTDEV s = Ret (case first_idx (\<lambda>b. \<not> block_used s b) [0..<sb_size (sb s)] of None \<Rightarrow> 0 | Some b \<Rightarrow> b) t \<and>
    (case first_idx (\<lambda>b. \<not> block_used s b) [0..<sb_size (sb s)] of
       None \<Rightarrow> txn p k t \<and> wrote p s t {} (lblk s)
     | Some b \<Rightarrow> txn p (k - 2) t \<and> wrote p s t {BBLOCK b (sb s), b} (taken s b))"
proof -
  define P where "P = (\<lambda>b. \<not> block_used s b)"
  have scan: "\<exists>u. for_find xs (balloc_map ROOTDEV (sb s)) t = Ret (first_idx P (concat (map (map_range (sb_size (sb s))) xs))) (u :: 'a fs_state_scheme) \<and>
      (case first_idx P (concat (map (map_range (sb_size (sb s))) xs)) of
         None \<Rightarrow> txn p k u \<and> wrote p s u {} (lblk s)
       | Some b \<Rightarrow> txn p (k - 2) u \<and> wrote p s u {BBLOCK b (sb s), b} (taken s b))"
    if "txn p k t" "wrote p s t {} (lblk s)" "\<forall>b \<in> set xs. b mod BPB = 0 \<and> b < sb_size (sb s)" for xs t
    using that
  proof (induction xs arbitrary: t)
    case Nil
    then show ?case by (simp add: kern_simps)
  next
    case (Cons b xs)
    have sbt: "sb t = sb s" by (rule tframe_fs [OF wroteD(1) [OF Cons.prems(2)]])
    note us = wrote_used [OF Cons.prems(2)]
    have b: "b mod BPB = 0" "b < sb_size (sb t)" using Cons.prems(3) sbt by simp_all
    have ht: "held_apart t" using h us(3) by simp
    from balloc_map_ok [OF Cons.prems(1) k ht b] obtain u where
      u: "balloc_map ROOTDEV (sb s) b t = Ret (first_idx P (map_range (sb_size (sb s)) b)) u"
      "case first_idx P (map_range (sb_size (sb s)) b) of
       None \<Rightarrow> txn p k u \<and> wrote p t u {} (lblk s) | Some c \<Rightarrow> txn p (k - 2) u \<and> wrote p t u {BBLOCK c (sb s), c} (taken s c)"
      unfolding sbt wroteD(3) [OF Cons.prems(2)] P_def [symmetric] by blast
    show ?case
    proof (cases "first_idx P (map_range (sb_size (sb s)) b)")
      case None
      then have "txn p k u" "wrote p s u {} (lblk s)" using u(2) wrote_trans [OF Cons.prems(2)] by (auto simp: wroteD(3) [OF Cons.prems(2)])
      from Cons.IH [OF this] Cons.prems(3) u(1) None show ?thesis by (simp add: kern_simps first_idx_append)
    next
      case (Some c)
      then have "txn p (k - 2) u" "wrote p t u {BBLOCK c (sb s), c} (taken s c)" using u(2) by simp_all
      moreover have "wrote p s u {BBLOCK c (sb s), c} (taken s c)" using wrote_trans [OF Cons.prems(2) calculation(2)] by simp
      ultimately show ?thesis using u(1) Some by (intro exI [of _ u]) (simp add: kern_simps first_idx_append)
    qed
  qed
  from scan [OF g wrote_refl, of "map_starts (sb_size (sb s))"] map_starts_in [of _ "sb_size (sb s)"]
  obtain u where "for_find (map_starts (sb_size (sb s))) (balloc_map ROOTDEV (sb s)) s = Ret (first_idx P [0..<sb_size (sb s)]) u"
    "case first_idx P [0..<sb_size (sb s)] of None \<Rightarrow> txn p k u \<and> wrote p s u {} (lblk s)
       | Some b \<Rightarrow> txn p (k - 2) u \<and> wrote p s u {BBLOCK b (sb s), b} (taken s b)" unfolding map_starts_cover by blast
  then show ?thesis by (intro exI [of _ u]) (simp add: balloc_def kern_simps P_def)
qed

subsection \<open>Freeing\<close>

lemma bfree_ok:
  assumes g: "txn p k s" and nh: "BBLOCK b (sb s) \<notin> held_blocks s" and few: "few_held s" and k: "0 < k" and used: "block_used s b"
  shows "\<exists>t. bfree ROOTDEV b s = Ret () t \<and> txn p (k - 1) t \<and>
    wrote p s t {BBLOCK b (sb s)} ((lblk s)(BBLOCK b (sb s) := map_clear (b mod BPB) (lblk s (BBLOCK b (sb s)))))"
proof -
  from txn_rewrite [of p k s "BBLOCK b (sb s)" "map_clear (b mod BPB)", OF g nh few] k g obtain i t u v w where
    w: "bread ROOTDEV (BBLOCK b (sb s)) s = Ret i t" "b_data (bufs t i) = lblk s (BBLOCK b (sb s))" "bset i (map_clear (b mod BPB)) t = Ret () u"
    "log_write i u = Ret () v" "brelse i v = Ret () w" "txn p (if BBLOCK b (sb s) \<in> in_log s then k else k - 1) w"
    "wrote p s w {BBLOCK b (sb s)} ((lblk s)(BBLOCK b (sb s) := map_clear (b mod BPB) (lblk s (BBLOCK b (sb s)))))" by auto
  have "txn p (k - 1) w" by (rule txn_spare [OF w(6)]) simp
  then show ?thesis using w used by (intro exI [of _ w]) (simp add: bfree_def kern_simps buf_data_def used_in_def)
qed

lemma bfree_free_panics:
  assumes "calm p s" "BBLOCK b (sb s) \<notin> held_blocks s" "few_held s" "\<not> block_used s b"
  shows "bfree ROOTDEV b s = Panic ''freeing free block''"
  using calm_peek [OF assms(1-3)] assms(4) by (auto simp: bfree_def kern_simps buf_data_def used_in_def)

text \<open>What taking a block does to the map.\<close>

lemma used_taken:
  assumes len: "\<And>b. length (D b) = BSIZE" and m: "used_in x D (BBLOCK b x)" "used_in x D (BBLOCK c x)" and b: "\<not> used_in x D b"
  shows "used_in x (taken_in x D b) c \<longleftrightarrow> c = b \<or> used_in x D c"
proof -
  have ne: "BBLOCK c x \<noteq> b" "BBLOCK b x \<noteq> b" using m b by auto
  have l8: "8 * length (D d) = BPB" for d by (simp add: len BPB_def)
  have "map_bit (map_set (b mod BPB) (D (BBLOCK b x))) (c mod BPB) \<longleftrightarrow> c mod BPB = b mod BPB \<or> map_bit (D (BBLOCK b x)) (c mod BPB)"
    by (rule map_bit_set) (simp_all add: l8)
  moreover have "c = b" if "BBLOCK c x = BBLOCK b x" "c mod BPB = b mod BPB"
    using that div_mult_mod_eq [of b BPB] div_mult_mod_eq [of c BPB] by (simp add: BBLOCK_def)
  ultimately show ?thesis using ne by (auto simp: used_in_def taken_in_def)
qed

lemma taken_freed:
  assumes len: "\<And>b. length (D b) = BSIZE" and b: "\<not> used_in x D b" "BBLOCK b x \<noteq> b"
  shows "(taken_in x D b)(BBLOCK b x := map_clear (b mod BPB) (taken_in x D b (BBLOCK b x))) = D(b := replicate BSIZE 0)"
proof -
  have "map_clear (b mod BPB) (map_set (b mod BPB) (D (BBLOCK b x))) = D (BBLOCK b x)"
    using b(1) by (intro map_clear_set) (simp_all add: used_in_def len)
  then show ?thesis using b(2) by (auto simp: taken_in_def fun_eq_iff)
qed

lemma no_held [simp]: "held_blocks s = {} \<Longrightarrow> few_held s" "held_blocks s = {} \<Longrightarrow> held_apart s"
  by (simp_all add: few_held_def held_apart_def)

subsection \<open>What the allocator guarantees\<close>

text \<open>C26: \<open>balloc\<close> returns the first block that is free, marks it and no other block, and clears it; every
  block outside the map keeps its contents, and freeing the block again restores the map. On a full
  disk it returns 0 and changes nothing; freeing a free block panics.\<close>

theorem balloc_first_free:
  fixes s :: "'a fs_state_scheme"
  assumes "txn p 3 s" "held_blocks s = {}" "map_in_use s"
  shows "if \<exists>b < sb_size (sb s). \<not> block_used s b
    then \<exists>b t u. balloc ROOTDEV s = Ret b (t :: 'a fs_state_scheme) \<and> b < sb_size (sb s) \<and> \<not> block_used s b \<and>
      (\<nexists>c. c < b \<and> \<not> block_used s c) \<and> lblk t b = replicate BSIZE 0 \<and>
      {c. c < sb_size (sb s) \<and> block_used t c} = insert b {c. c < sb_size (sb s) \<and> block_used s c} \<and>
      {c. lblk t c \<noteq> lblk s c} \<subseteq> {b, BBLOCK b (sb s)} \<and>
      bfree ROOTDEV b t = Ret () u \<and> lblk u = (lblk s)(b := replicate BSIZE 0) \<and> bfree ROOTDEV b u = Panic ''freeing free block''
    else \<exists>t. balloc ROOTDEV s = Ret 0 t \<and> lblk t = lblk s"
proof (cases "first_idx (\<lambda>b. \<not> block_used s b) [0..<sb_size (sb s)]")
  case None
  then have "\<not> (\<exists>b < sb_size (sb s). \<not> block_used s b)" by (auto simp: first_idx_None)
  then show ?thesis using None balloc_ok [OF assms(1)] assms(2) by (auto dest: wroteD(3))
next
  case (Some b)
  note g = txn_calm [OF assms(1)]
  have b: "b < sb_size (sb s)" "\<not> block_used s b" using first_idx_Some [OF Some] by auto
  then have nb: "BBLOCK b (sb s) \<noteq> b" using assms(3) by (auto simp: map_in_use_def)
  have least: "\<nexists>c. c < b \<and> \<not> block_used s c" using first_idx_least [OF Some] by auto
  from balloc_ok [OF assms(1)] assms(2) Some obtain t where t: "balloc ROOTDEV s = Ret b t" "txn p 1 t" "wrote p s t {BBLOCK b (sb s), b} (taken s b)"
    by auto
  have sbt: "sb t = sb s" by (rule tframe_fs [OF wroteD(1) [OF t(3)]])
  have ht: "held_blocks t = {}" using wroteD(5) [OF t(3)] assms(2) by simp
  note lt = wroteD(3) [OF t(3)]
  have us: "block_used t c \<longleftrightarrow> c = b \<or> block_used s c" if "c < sb_size (sb s)" for c
    using used_taken [of "lblk s" "sb s" b c] assms(3) b that g by (simp add: lt sbt map_in_use_def)
  from bfree_ok [OF t(2), of b] ht us [OF b(1)] obtain u where u: "bfree ROOTDEV b t = Ret () u" "txn p 0 u"
      "wrote p t u {BBLOCK b (sb s)} ((taken s b)(BBLOCK b (sb s) := map_clear (b mod BPB) (taken s b (BBLOCK b (sb s)))))"
    by (auto simp: sbt lt)
  have lu: "lblk u = (lblk s)(b := replicate BSIZE 0)" using wroteD(3) [OF u(3)] taken_freed [of "lblk s" "sb s" b] b(2) nb g by simp
  have sbu: "sb u = sb s" using tframe_fs(1) [OF wroteD(1) [OF u(3)]] sbt by simp
  have "\<not> block_used u b" using b(2) nb by (simp add: used_in_def lu sbu)
  then have "bfree ROOTDEV b u = Panic ''freeing free block''"
    using bfree_free_panics [OF txn_calm [OF u(2)]] wroteD(5) [OF u(3)] ht by simp
  moreover have "{c. c < sb_size (sb s) \<and> block_used t c} = insert b {c. c < sb_size (sb s) \<and> block_used s c}" using us b(1) by auto
  moreover have "lblk t b = replicate BSIZE 0" "{c. lblk t c \<noteq> lblk s c} \<subseteq> {b, BBLOCK b (sb s)}" by (auto simp: lt taken_in_def)
  ultimately show ?thesis using t(1) u(1) b least lu by auto
qed

text \<open>A sample disk of 60 blocks: the log at 2, the inodes at 32, the map at 45, whose first 48 bits
  are set. The process is inside an operation that has written nothing yet.\<close>

definition tiny_sb :: superblock where
  "tiny_sb = \<lparr>sb_magic = FSMAGIC, sb_size = 60, sb_nblocks = 14, sb_ninodes = 100, sb_nlog = 30, sb_logstart = 2,
     sb_inodestart = 32, sb_bmapstart = 45\<rparr>"

definition tiny_disk :: "nat \<Rightarrow> u8 list" where
  "tiny_disk b = (if b = 45 then replicate 6 255 @ replicate 1018 0 else replicate BSIZE 0)"

definition tiny_inode :: inode where
  "tiny_inode = \<lparr>i_dev = ROOTDEV, i_inum = 1, i_ref = 1, i_valid = True, i_type = T_FILE, i_major = 0, i_minor = 0, i_nlink = 1,
     i_size = 1500, i_addrs = (\<lambda>i. if i = 0 then 46 else if i = 1 then 47 else 0)\<rparr>"

definition tiny_fs :: "(nat \<Rightarrow> u8 list) \<Rightarrow> (nat \<Rightarrow> inode) \<Rightarrow> fs_state" where
  "tiny_fs D T = log_state.extend ((sample_boot D)\<lparr>lg := \<lparr>lg_start = 2, lg_size = 30, lg_outstanding = 1, lg_committing = False,
       lg_dev = 1, lg_lh = \<lparr>lh_n = 0, lh_block = (\<lambda>_. 0)\<rparr>\<rparr>\<rparr>) (fs_state.fields tiny_sb T)"

lemma tiny_fs_ok:
  assumes "\<And>b. length (D b) = BSIZE"
  shows "txn 3 20 (tiny_fs D T)" "held_blocks (tiny_fs D T) = {}" "lblk (tiny_fs D T) = D" "in_log (tiny_fs D T) = {}"
    "sb (tiny_fs D T) = tiny_sb" "itable (tiny_fs D T) = T"
proof -
  let ?s = "tiny_fs D T"
  note ok = sample_boot_ok [of D, OF assms]
  have f: "bufs ?s = bufs (sample_boot D)" "slocks ?s = slocks (sample_boot D)" "dsk ?s = dsk (sample_boot D)"
    "lg ?s = \<lparr>lg_start = 2, lg_size = 30, lg_outstanding = 1, lg_committing = False, lg_dev = 1, lg_lh = \<lparr>lh_n = 0, lh_block = (\<lambda>_. 0)\<rparr>\<rparr>"
    by (simp_all add: tiny_fs_def log_state.defs)
  show il: "in_log ?s = {}" by (simp add: f(4) logged_def)
  show h: "held_blocks ?s = {}" using ok(1) by (simp add: held_blocks_def f idle_def)
  have bc: "bc_ok ?s" using ok(1) by (simp add: bc_ok_def f idle_def)
  have r: "bref ?s = (\<lambda>_. 0)" using ok(2) by (simp add: f)
  have l: "lblk ?s b = D b" for b using bref_zero_clean [OF bc, of b] r ok(3) by (simp add: f)
  then show "lblk ?s = D" by (rule ext)
  have "quiet 3 ?s"
    by (simp add: quiet_def cpu_ok_def lock_free_def mach_defs tiny_fs_def sample_boot_def sample_bio_def NPROC_def bio_state.defs log_state.defs)
  then have "calm 3 ?s" using bc r l ok(3) by (simp add: calm_def h il) (simp add: f logged_def LOGSIZE_def MAXOPBLOCKS_def)
  then show "txn 3 20 ?s" by (simp add: txn_def f LOGSIZE_def MAXOPBLOCKS_def)
  show "sb ?s = tiny_sb" "itable ?s = T" by (simp_all add: tiny_fs_def log_state.defs fs_state.defs)
qed

lemma tiny_disk_len [simp]: "length (tiny_disk b) = BSIZE"
  by (simp add: tiny_disk_def BSIZE_def)

lemma tiny_map:
  assumes "b < 60" "lblk s 45 = tiny_disk 45" "sb s = tiny_sb"
  shows "block_used s b \<longleftrightarrow> b < 48" "BBLOCK b (sb s) = 45"
proof -
  show bb: "BBLOCK b (sb s) = 45" using assms(1,3) by (simp add: BBLOCK_def tiny_sb_def BPB_def BSIZE_def)
  have "map_bit (tiny_disk 45) b \<longleftrightarrow> b < 48"
  proof (cases "b < 48")
    case True
    then have "tiny_disk 45 ! (b div 8) = 255" by (simp add: tiny_disk_def nth_append)
    moreover have "bit (255 :: u8) (b mod 8)" 
    proof -
      have "(255 :: u8) = mask 8" by (simp add: mask_eq_exp_minus_1)
      then show ?thesis by (simp only: bit_mask_iff) simp
    qed
    ultimately show ?thesis using True by (simp add: map_bit_iff)
  next
    case False
    then have "tiny_disk 45 ! (b div 8) = 0" using assms(1) by (simp add: tiny_disk_def nth_append)
    then show ?thesis using False by (simp add: map_bit_iff)
  qed
  moreover have "b mod BPB = b" using assms(1) by (simp add: BPB_def BSIZE_def)
  ultimately show "block_used s b \<longleftrightarrow> b < 48" using assms(2) by (simp add: used_in_def bb)
qed

theorem balloc_first_free_witness:
  "\<exists>t u. balloc ROOTDEV (tiny_fs tiny_disk (\<lambda>_. tiny_inode)) = Ret 48 t \<and> lblk t 48 = replicate BSIZE 0 \<and> block_used t 48 \<and>
    bfree ROOTDEV 48 t = Ret () u \<and> bfree ROOTDEV 48 u = Panic ''freeing free block''"
proof -
  let ?s = "tiny_fs tiny_disk (\<lambda>_. tiny_inode)"
  note ok = tiny_fs_ok [of tiny_disk "\<lambda>_. tiny_inode", OF tiny_disk_len]
  have us: "block_used ?s b \<longleftrightarrow> b < 48" "BBLOCK b (sb ?s) = 45" if "b < 60" for b using tiny_map [OF that, of ?s] ok(3,5) by simp_all
  have sz: "sb_size (sb ?s) = 60" by (simp add: ok(5) tiny_sb_def)
  have m: "map_in_use ?s" using us by (simp add: map_in_use_def sz)
  have fr: "\<exists>b < sb_size (sb ?s). \<not> block_used ?s b" using us by (intro exI [of _ 48]) (simp add: sz)
  have tx: "txn 3 3 ?s" by (rule txn_spare [OF ok(1)]) simp
  from balloc_first_free [OF tx ok(2) m] fr obtain b t u where t: "balloc ROOTDEV ?s = Ret b t" "b < 60" "\<not> block_used ?s b"
    "\<nexists>c. c < b \<and> \<not> block_used ?s c" "lblk t b = replicate BSIZE 0" "{c. c < 60 \<and> block_used t c} = insert b {c. c < 60 \<and> block_used ?s c}"
    "bfree ROOTDEV b t = Ret () u" "bfree ROOTDEV b u = Panic ''freeing free block''" unfolding sz by auto
  have "\<not> b < 48" using t(2,3) us by auto
  moreover have "\<not> 48 < b" using t(4) us(1) [of 48] by auto
  ultimately have "b = 48" by simp
  moreover have "block_used t b" using t(6) by auto
  ultimately show ?thesis using t by auto
qed

end
