(* ===== verification/File_Map.thy ===== *)
theory File_Map
  imports Fs_Blocks
begin

text \<open>
  The blocks of one file of \<^verbatim>\<open>kernel/fs.c\<close>: the addresses an inode and its indirect block hold, and
  what allocating a block for the file does to them. The lemmas are about the contents \<open>D\<close> of all
  blocks and the address array \<open>A\<close> of the inode; the next theory runs the code.
\<close>

definition faddr :: "(nat \<Rightarrow> u8 list) \<Rightarrow> (nat \<Rightarrow> nat) \<Rightarrow> nat \<Rightarrow> nat" where
  "faddr D A bn = (if bn < NDIRECT then A bn else if A NDIRECT = 0 then 0 else unat (get32 (D (A NDIRECT)) (4 * (bn - NDIRECT))))"

definition fs_meta :: "superblock \<Rightarrow> nat set" where
  "fs_meta x = {0} \<union> {BBLOCK b x | b. b < sb_size x} \<union> {IBLOCK i x | i. i < sb_ninodes x}"

definition meta_ok :: "superblock \<Rightarrow> (nat \<Rightarrow> u8 list) \<Rightarrow> bool" where
  "meta_ok x D \<longleftrightarrow> (\<forall>b. length (D b) = BSIZE) \<and> sb_size x < 2 ^ 32 \<and> (\<forall>b \<in> fs_meta x. b < sb_size x \<and> used_in x D b) \<and>
     (\<forall>i < sb_ninodes x. \<forall>b < sb_size x. IBLOCK i x \<noteq> BBLOCK b x)"

definition data_block :: "superblock \<Rightarrow> (nat \<Rightarrow> u8 list) \<Rightarrow> nat \<Rightarrow> bool" where
  "data_block x D b \<longleftrightarrow> b < sb_size x \<and> used_in x D b \<and> b \<notin> fs_meta x"

text \<open>The blocks of the file are data blocks in use, and no two of them are the same.\<close>

definition file_map_ok :: "superblock \<Rightarrow> (nat \<Rightarrow> u8 list) \<Rightarrow> (nat \<Rightarrow> nat) \<Rightarrow> bool" where
  "file_map_ok x D A \<longleftrightarrow> meta_ok x D \<and>
     (\<forall>i < MAXFILE. faddr D A i \<noteq> 0 \<longrightarrow> data_block x D (faddr D A i) \<and> faddr D A i \<noteq> A NDIRECT) \<and>
     (\<forall>i < MAXFILE. \<forall>j < MAXFILE. faddr D A i \<noteq> 0 \<longrightarrow> faddr D A i = faddr D A j \<longrightarrow> i = j) \<and>
     (A NDIRECT \<noteq> 0 \<longrightarrow> data_block x D (A NDIRECT))"

lemma file_mapD:
  assumes "file_map_ok x D A"
  shows "meta_ok x D" "i < MAXFILE \<Longrightarrow> faddr D A i \<noteq> 0 \<Longrightarrow> data_block x D (faddr D A i)"
    "i < MAXFILE \<Longrightarrow> faddr D A i \<noteq> 0 \<Longrightarrow> faddr D A i \<noteq> A NDIRECT"
    "i < MAXFILE \<Longrightarrow> j < MAXFILE \<Longrightarrow> faddr D A i \<noteq> 0 \<Longrightarrow> faddr D A i = faddr D A j \<Longrightarrow> i = j"
    "A NDIRECT \<noteq> 0 \<Longrightarrow> data_block x D (A NDIRECT)"
  using assms unfolding file_map_ok_def by blast+

lemma meta_okD:
  assumes "meta_ok x D"
  shows "length (D b) = BSIZE" "sb_size x < 2 ^ 32" "b \<in> fs_meta x \<Longrightarrow> b < sb_size x" "b \<in> fs_meta x \<Longrightarrow> used_in x D b"
    "i < sb_ninodes x \<Longrightarrow> b < sb_size x \<Longrightarrow> IBLOCK i x \<noteq> BBLOCK b x"
  using assms unfolding meta_ok_def by blast+

lemma in_meta: "0 \<in> fs_meta x" "b < sb_size x \<Longrightarrow> BBLOCK b x \<in> fs_meta x" "i < sb_ninodes x \<Longrightarrow> IBLOCK i x \<in> fs_meta x"
  by (auto simp: fs_meta_def)

subsection \<open>A fresh block\<close>

lemma taken_at:
  assumes m: "meta_ok x D" and b: "b < sb_size x" "\<not> used_in x D b"
  shows "length (taken_in x D b c) = BSIZE" "b \<notin> fs_meta x" "b \<noteq> 0" "taken_in x D b b = replicate BSIZE 0"
    "c < sb_size x \<Longrightarrow> used_in x (taken_in x D b) c \<longleftrightarrow> c = b \<or> used_in x D c"
    "c \<noteq> b \<Longrightarrow> c \<notin> fs_meta x \<Longrightarrow> taken_in x D b c = D c" "meta_ok x (taken_in x D b)"
proof -
  note d = meta_okD [OF m]
  show l: "length (taken_in x D b c) = BSIZE" for c by (simp add: taken_in_def d(1))
  show "b \<notin> fs_meta x" using b(2) d(4) by blast
  then show "b \<noteq> 0" using in_meta(1) by metis
  show "taken_in x D b b = replicate BSIZE 0" by (simp add: taken_in_def)
  show u: "used_in x (taken_in x D b) c \<longleftrightarrow> c = b \<or> used_in x D c" if "c < sb_size x" for c
    using used_taken [of D x b c] d(1,4) in_meta(2) that b by blast
  show "taken_in x D b c = D c" if "c \<noteq> b" "c \<notin> fs_meta x" using that in_meta(2) [OF b(1)] by (auto simp: taken_in_def)
  show "meta_ok x (taken_in x D b)" using d u l unfolding meta_ok_def by blast
qed

lemma fresh_block:
  assumes ok: "file_map_ok x D A" and b: "b < sb_size x" "\<not> used_in x D b"
  shows "A NDIRECT \<noteq> b" "i < MAXFILE \<Longrightarrow> faddr D A i \<noteq> b"
proof -
  have nb: "b \<noteq> 0" by (rule taken_at(3) [OF file_mapD(1) [OF ok] b])
  show "A NDIRECT \<noteq> b" using file_mapD(5) [OF ok] nb b(2) by (auto simp: data_block_def)
  show "faddr D A i \<noteq> b" if "i < MAXFILE" using file_mapD(2) [OF ok that] nb b(2) by (auto simp: data_block_def)
qed

text \<open>A file stays in order when the free block \<open>b\<close> becomes its block \<open>n\<close>, or its indirect block.\<close>

lemma file_map_extend:
  assumes ok: "file_map_ok x D A" and b: "b < sb_size x" "\<not> used_in x D b" and m: "meta_ok x E"
    and u: "\<And>c. c < sb_size x \<Longrightarrow> used_in x E c \<longleftrightarrow> c = b \<or> used_in x D c"
    and f: "\<And>i. i < MAXFILE \<Longrightarrow> faddr E B i = (if i = n then b else faddr D A i)" "B NDIRECT = A NDIRECT"
  shows "file_map_ok x E B"
proof -
  note fr = fresh_block [OF ok b]
  have nm: "b \<notin> fs_meta x" "b \<noteq> 0" by (rule taken_at [OF file_mapD(1) [OF ok] b])+
  have db: "data_block x E b" using b(1) u nm(1) by (simp add: data_block_def)
  have dd: "data_block x E c" if "data_block x D c" for c using that u by (simp add: data_block_def)
  have "faddr E B i \<noteq> A NDIRECT" if "i < MAXFILE" "faddr E B i \<noteq> 0" for i
    using file_mapD(3) [OF ok that(1)] that fr(1) by (auto simp: f(1) split: if_splits)
  moreover have "data_block x E (faddr E B i)" if "i < MAXFILE" "faddr E B i \<noteq> 0" for i
    using file_mapD(2) [OF ok that(1)] that db dd by (auto simp: f(1) split: if_splits)
  moreover have "i = j" if "i < MAXFILE" "j < MAXFILE" "faddr E B i \<noteq> 0" "faddr E B i = faddr E B j" for i j
    using file_mapD(4) [OF ok that(1,2)] that fr(2) [OF that(1)] fr(2) [OF that(2)] by (auto simp: f(1) split: if_splits)
  moreover have "data_block x E (A NDIRECT)" if "A NDIRECT \<noteq> 0" using dd file_mapD(5) [OF ok that] by blast
  ultimately show ?thesis using m unfolding file_map_ok_def f(2) by blast
qed

lemma file_map_indirect:
  assumes ok: "file_map_ok x D A" and b: "b < sb_size x" "\<not> used_in x D b" and m: "meta_ok x E"
    and u: "\<And>c. c < sb_size x \<Longrightarrow> used_in x E c \<longleftrightarrow> c = b \<or> used_in x D c"
    and f: "\<And>i. i < MAXFILE \<Longrightarrow> faddr E B i = faddr D A i" "B NDIRECT = b"
  shows "file_map_ok x E B"
proof -
  note fr = fresh_block [OF ok b]
  have nm: "b \<notin> fs_meta x" "b \<noteq> 0" by (rule taken_at [OF file_mapD(1) [OF ok] b])+
  have "data_block x E b" using b(1) u nm(1) by (simp add: data_block_def)
  moreover have dd: "data_block x E c" if "data_block x D c" for c using that u by (simp add: data_block_def)
  moreover have "data_block x E (faddr E B i)" "faddr E B i \<noteq> b" if "i < MAXFILE" "faddr E B i \<noteq> 0" for i
    using file_mapD(2) [OF ok that(1)] that dd fr(2) by (auto simp: f(1))
  moreover have "i = j" if "i < MAXFILE" "j < MAXFILE" "faddr E B i \<noteq> 0" "faddr E B i = faddr E B j" for i j
    using file_mapD(4) [OF ok that(1,2)] that by (simp add: f(1))
  ultimately show ?thesis using m unfolding file_map_ok_def f(2) by blast
qed

lemma NDIRECT_less [simp]: "NDIRECT < MAXFILE" "bn < NDIRECT \<Longrightarrow> bn \<noteq> NDIRECT"
  by (auto simp: NDIRECT_def MAXFILE_def NINDIRECT_def BSIZE_def)

lemma slot_in_block: "bn < MAXFILE \<Longrightarrow> 4 * (bn - NDIRECT) + 4 \<le> BSIZE"
  by (simp add: MAXFILE_def NINDIRECT_def BSIZE_def NDIRECT_def)

lemma take_direct:
  assumes ok: "file_map_ok x D A" and b: "b < sb_size x" "\<not> used_in x D b" and n: "bn < NDIRECT"
  shows "file_map_ok x (taken_in x D b) (A(bn := b))"
    "i < MAXFILE \<Longrightarrow> faddr (taken_in x D b) (A(bn := b)) i = (if i = bn then b else faddr D A i)"
proof -
  note t = taken_at [OF file_mapD(1) [OF ok] b]
  have "taken_in x D b (A NDIRECT) = D (A NDIRECT)" if "A NDIRECT \<noteq> 0"
    using t(6) fresh_block(1) [OF ok b] file_mapD(5) [OF ok that] by (simp add: data_block_def)
  then show f: "faddr (taken_in x D b) (A(bn := b)) i = (if i = bn then b else faddr D A i)" if "i < MAXFILE" for i
    using n by (auto simp: faddr_def)
  show "file_map_ok x (taken_in x D b) (A(bn := b))"
    by (rule file_map_extend [OF ok b t(7) t(5) f]) (use n in simp_all)
qed

lemma take_indirect:
  assumes ok: "file_map_ok x D A" and b: "b < sb_size x" "\<not> used_in x D b" and n: "A NDIRECT = 0"
  shows "file_map_ok x (taken_in x D b) (A(NDIRECT := b))"
    "i < MAXFILE \<Longrightarrow> faddr (taken_in x D b) (A(NDIRECT := b)) i = faddr D A i"
proof -
  note t = taken_at [OF file_mapD(1) [OF ok] b]
  have "get32 (taken_in x D b b) (4 * (i - NDIRECT)) = 0" if "i < MAXFILE" for i
    unfolding t(4) by (rule get32_zeros [OF slot_in_block [OF that]])
  then show f: "faddr (taken_in x D b) (A(NDIRECT := b)) i = faddr D A i" if "i < MAXFILE" for i
    using n that by (auto simp: faddr_def)
  show "file_map_ok x (taken_in x D b) (A(NDIRECT := b))"
    by (rule file_map_indirect [OF ok b t(7) t(5) f]) simp_all
qed

lemma used_upd: "a \<notin> fs_meta x \<Longrightarrow> c < sb_size x \<Longrightarrow> used_in x (D(a := d)) c = used_in x D c"
  using in_meta(2) [of c x] by (auto simp: used_in_def)

lemma meta_ok_upd: "meta_ok x D \<Longrightarrow> a \<notin> fs_meta x \<Longrightarrow> length d = BSIZE \<Longrightarrow> meta_ok x (D(a := d))"
  unfolding meta_ok_def by (auto simp: used_upd)

lemma take_in_indirect:
  assumes ok: "file_map_ok x D A" and b: "b < sb_size x" "\<not> used_in x D b" and a: "A NDIRECT \<noteq> 0"
    and n: "NDIRECT \<le> bn" "bn < MAXFILE"
  defines "E \<equiv> (taken_in x D b)(A NDIRECT := put32 (D (A NDIRECT)) (4 * (bn - NDIRECT)) (of_nat b))"
  shows "file_map_ok x E A" "i < MAXFILE \<Longrightarrow> faddr E A i = (if i = bn then b else faddr D A i)"
proof -
  note t = taken_at [OF file_mapD(1) [OF ok] b] and d = meta_okD [OF file_mapD(1) [OF ok]]
  have am: "A NDIRECT \<notin> fs_meta x" using file_mapD(5) [OF ok a] by (simp add: data_block_def)
  have len: "4 * (bn - NDIRECT) + 4 \<le> length (D (A NDIRECT))" using slot_in_block [OF n(2)] by (simp add: d(1))
  have ub: "unat (of_nat b :: u32) = b" using b(1) d(2) by (simp add: unat_of_nat take_bit_nat_eq_self)
  show f: "faddr E A i = (if i = bn then b else faddr D A i)" if i: "i < MAXFILE" for i
  proof (cases "i < NDIRECT \<or> i = bn")
    case True
    then show ?thesis using n a len ub by (auto simp: faddr_def E_def)
  next
    case False
    then have "get32 (put32 (D (A NDIRECT)) (4 * (bn - NDIRECT)) (of_nat b)) (4 * (i - NDIRECT)) = get32 (D (A NDIRECT)) (4 * (i - NDIRECT))"
      using slot_in_block [OF i] n by (intro get_put32_other len) (auto simp: d(1))
    then show ?thesis using False a by (simp add: faddr_def E_def)
  qed
  have m: "meta_ok x E" unfolding E_def using len d(1) by (intro meta_ok_upd t(7) am) simp
  have u: "used_in x E c \<longleftrightarrow> c = b \<or> used_in x D c" if "c < sb_size x" for c unfolding E_def using used_upd [OF am that] t(5) [OF that] by simp
  show "file_map_ok x E A" by (rule file_map_extend [OF ok b m u f refl])
qed

text \<open>Writing into a block of the file changes no address.\<close>

lemma write_data:
  assumes ok: "file_map_ok x D A" and n: "n < MAXFILE" "faddr D A n \<noteq> 0" and len: "length d = BSIZE"
  shows "faddr (D(faddr D A n := d)) A i = faddr D A i" "file_map_ok x (D(faddr D A n := d)) A"
proof -
  have ne: "A NDIRECT \<noteq> faddr D A n" using file_mapD(3) [OF ok n] by metis
  show f: "faddr (D(faddr D A n := d)) A i = faddr D A i" for i using ne by (auto simp: faddr_def)
  have nm: "faddr D A n \<notin> fs_meta x" using file_mapD(2) [OF ok n] by (simp add: data_block_def)
  have db: "data_block x (D(faddr D A n := d)) c = data_block x D c" for c using used_upd [OF nm] by (auto simp: data_block_def)
  show "file_map_ok x (D(faddr D A n := d)) A"
    using ok meta_ok_upd [OF file_mapD(1) [OF ok] nm len] unfolding file_map_ok_def f db by blast
qed

text \<open>Writing an inode block changes neither the map nor the blocks of the file.\<close>

lemma write_inode_block:
  assumes ok: "file_map_ok x D A" and i: "i < sb_ninodes x" and len: "length d = BSIZE"
  shows "faddr (D(IBLOCK i x := d)) A n = faddr D A n" "file_map_ok x (D(IBLOCK i x := d)) A"
    "c < sb_size x \<Longrightarrow> used_in x (D(IBLOCK i x := d)) c = used_in x D c"
proof -
  note m = meta_okD [OF file_mapD(1) [OF ok]]
  have "IBLOCK i x \<noteq> A NDIRECT" if "A NDIRECT \<noteq> 0" using file_mapD(5) [OF ok that] in_meta(3) [OF i] by (auto simp: data_block_def)
  then show f: "faddr (D(IBLOCK i x := d)) A n = faddr D A n" for n by (auto simp: faddr_def)
  show u: "used_in x (D(IBLOCK i x := d)) c = used_in x D c" if "c < sb_size x" for c using m(5) [OF i that] by (simp add: used_in_def)
  have db: "data_block x (D(IBLOCK i x := d)) c = data_block x D c" for c using u by (auto simp: data_block_def)
  have "meta_ok x (D(IBLOCK i x := d))" using m len u unfolding meta_ok_def by simp
  then show "file_map_ok x (D(IBLOCK i x := d)) A" using ok unfolding file_map_ok_def f db by blast
qed

end
