(* ===== verification/Fs_Inode.thy ===== *)
theory Fs_Inode
  imports Fs_Blocks
begin

text \<open>
  Inodes on disk (\<^verbatim>\<open>struct dinode\<close>): \<open>iupdate\<close> writes an inode of the table into its slot of an inode
  block, \<open>ilock\<close> reads it back.
\<close>

subsection \<open>The layout of a slot\<close>

lemma sub_put_inside:
  assumes "off + length xs \<le> length d" "k + n \<le> length xs"
  shows "sub_bytes (put_bytes d off xs) (off + k) n = sub_bytes xs k n"
proof (rule nth_equalityI)
  show "length (sub_bytes (put_bytes d off xs) (off + k) n) = length (sub_bytes xs k n)" using assms by simp
  fix i assume "i < length (sub_bytes (put_bytes d off xs) (off + k) n)"
  then have "i < n" using assms by simp
  then show "sub_bytes (put_bytes d off xs) (off + k) n ! i = sub_bytes xs k n ! i"
    using assms by (simp add: nth_sub_bytes nth_put_bytes)
qed

lemma sub_bytes_append: "length xs = k \<Longrightarrow> sub_bytes (xs @ ys) (k + j) n = sub_bytes ys j n" "length xs = n \<Longrightarrow> sub_bytes (xs @ ys) 0 n = xs"
  by (simp_all add: sub_bytes_def)

lemma sub_bytes_concat:
  assumes "\<And>i. length (f i) = 4" "i < n"
  shows "sub_bytes (concat (map f [0..<n])) (4 * i) 4 = f i"
proof -
  have len: "length (concat (map f [0..<k])) = 4 * k" for k by (induction k) (simp_all add: assms(1))
  have "[0..<n] = [0..<i] @ i # [Suc i..<n]" using assms(2) by (metis upt_add_eq_append le_add1 less_imp_add_positive add_0 upt_conv_Cons zero_le less_imp_le_nat le_Suc_ex)
  then have "concat (map f [0..<n]) = concat (map f [0..<i]) @ f i @ concat (map f [Suc i..<n])" by simp
  then show ?thesis using len [of i] assms(1) [of i] sub_bytes_append(1) [of "concat (map f [0..<i])" "4 * i" _ 0 4] by (simp add: sub_bytes_append(2))
qed

lemma length_dinode_bytes [simp]: "length (dinode_bytes x) = 64"
proof -
  have "length (concat (map (\<lambda>i. le_bytes 4 (of_nat (di_addrs x i) :: u32)) [0..<n])) = 4 * n" for n by (induction n) simp_all
  then show ?thesis by (simp add: dinode_bytes_def NDIRECT_def)
qed

lemma dinode_off_le: "dinode_off i + 64 \<le> BSIZE"
proof -
  have "i mod IPB < IPB" by (simp add: IPB_def BSIZE_def)
  then have "i mod IPB + 1 \<le> 16" by (simp add: IPB_def BSIZE_def)
  then show ?thesis by (simp add: dinode_off_def BSIZE_def)
qed

lemma length_dinode_put [simp]: "length d = BSIZE \<Longrightarrow> length (dinode_put x (dinode_off i) d) = BSIZE"
  using dinode_off_le [of i] by (simp add: dinode_put_def)

text \<open>The values the fields of a slot can hold.\<close>

definition dinode_fits :: "dinode \<Rightarrow> bool" where
  "dinode_fits x \<longleftrightarrow> di_size x < 2 ^ 32 \<and> (\<forall>i \<le> NDIRECT. di_addrs x i < 2 ^ 32)"

definition same_dinode :: "dinode \<Rightarrow> dinode \<Rightarrow> bool" where
  "same_dinode x y \<longleftrightarrow> di_type x = di_type y \<and> di_major x = di_major y \<and> di_minor x = di_minor y \<and> di_nlink x = di_nlink y \<and>
     di_size x = di_size y \<and> (\<forall>i \<le> NDIRECT. di_addrs x i = di_addrs y i)"

lemma dinode_get_put:
  assumes "length d = BSIZE" "dinode_fits x"
  shows "same_dinode (dinode_get (dinode_put x (dinode_off i) d) (dinode_off i)) x"
proof -
  let ?e = "dinode_put x (dinode_off i) d" and ?o = "dinode_off i"
  have le: "?o + length (dinode_bytes x) \<le> length d" using dinode_off_le [of i] assms(1) by simp
  have s: "sub_bytes ?e (?o + k) n = sub_bytes (dinode_bytes x) k n" if "k + n \<le> 64" for k n
    unfolding dinode_put_def using that by (intro sub_put_inside le) simp
  have b: "sub_bytes (dinode_bytes x) 0 2 = le_bytes 2 (di_type x)" "sub_bytes (dinode_bytes x) 2 2 = le_bytes 2 (di_major x)"
    "sub_bytes (dinode_bytes x) 4 2 = le_bytes 2 (di_minor x)" "sub_bytes (dinode_bytes x) 6 2 = le_bytes 2 (di_nlink x)"
    "sub_bytes (dinode_bytes x) 8 4 = le_bytes 4 (of_nat (di_size x) :: u32)"
    by (simp_all add: dinode_bytes_def sub_bytes_def)
  have a: "sub_bytes (dinode_bytes x) (12 + 4 * j) 4 = le_bytes 4 (of_nat (di_addrs x j) :: u32)" if "j \<le> NDIRECT" for j
  proof -
    have "sub_bytes (dinode_bytes x) (12 + 4 * j) 4 = sub_bytes (concat (map (\<lambda>i. le_bytes 4 (of_nat (di_addrs x i) :: u32)) [0..<NDIRECT + 1])) (4 * j) 4"
      by (simp add: dinode_bytes_def sub_bytes_def)
    also have "\<dots> = le_bytes 4 (of_nat (di_addrs x j) :: u32)" by (rule sub_bytes_concat) (use that in simp_all)
    finally show ?thesis .
  qed
  have u: "unat (of_nat v :: u32) = v" if "v < 2 ^ 32" for v using that by (simp add: unat_of_nat take_bit_nat_eq_self)
  have "unat (get32 ?e (?o + 12 + 4 * j)) = di_addrs x j" if "j \<le> NDIRECT" for j
  proof -
    have "12 + 4 * j + 4 \<le> 64" using that by (simp add: NDIRECT_def)
    then show ?thesis using s [of "12 + 4 * j" 4] a [OF that] u [of "di_addrs x j"] that assms(2) by (simp add: get32_def le_word_bytes dinode_fits_def add.assoc)
  qed
  moreover have "get16 ?e ?o = di_type x" using s [of 0 2] b(1) by (simp add: get16_def le_word_bytes)
  moreover have "get16 ?e (?o + 2) = di_major x" "get16 ?e (?o + 4) = di_minor x" "get16 ?e (?o + 6) = di_nlink x"
    using s [of 2 2] s [of 4 2] s [of 6 2] b by (simp_all add: get16_def le_word_bytes)
  moreover have "unat (get32 ?e (?o + 8)) = di_size x" using s [of 8 4] b(5) u [of "di_size x"] assms(2) by (simp add: get32_def le_word_bytes dinode_fits_def)
  ultimately show ?thesis by (simp add: same_dinode_def dinode_get_def)
qed

lemma slots_apart:
  assumes "i mod IPB \<noteq> j mod IPB"
  shows "dinode_off j + 64 \<le> dinode_off i \<or> dinode_off i + 64 \<le> dinode_off j"
  using assms by (cases "i mod IPB < j mod IPB") (auto simp: dinode_off_def)

lemma dinode_get_other:
  assumes len: "length d = BSIZE" and ne: "i mod IPB \<noteq> j mod IPB"
  shows "same_dinode (dinode_get (dinode_put x (dinode_off i) d) (dinode_off j)) (dinode_get d (dinode_off j))"
proof -
  let ?e = "dinode_put x (dinode_off i) d"
  note ap = slots_apart [OF ne] and le = dinode_off_le [of i] dinode_off_le [of j]
  have s: "sub_bytes ?e (dinode_off j + k) n = sub_bytes d (dinode_off j + k) n" if "k + n \<le> 64" for k n
    unfolding dinode_put_def using that ap le len by (intro sub_put_other) auto
  have "get32 ?e (dinode_off j + 12 + 4 * k) = get32 d (dinode_off j + 12 + 4 * k)" if "k \<le> NDIRECT" for k
    using s [of "12 + 4 * k" 4] that by (simp add: get32_def NDIRECT_def add.assoc)
  moreover have "get16 ?e (dinode_off j) = get16 d (dinode_off j)" using s [of 0 2] by (simp add: get16_def)
  moreover have "get16 ?e (dinode_off j + k) = get16 d (dinode_off j + k)" if "k + 2 \<le> 64" for k using s [OF that] by (simp add: get16_def)
  moreover have "get32 ?e (dinode_off j + 8) = get32 d (dinode_off j + 8)" using s [of 8 4] by (simp add: get32_def)
  ultimately show ?thesis by (simp add: same_dinode_def dinode_get_def del: add_2_eq_Suc')
qed

lemma same_inode_slot: "IBLOCK i x = IBLOCK j x \<Longrightarrow> i mod IPB = j mod IPB \<Longrightarrow> i = j"
  by (metis IBLOCK_def add_right_cancel div_mult_mod_eq)

subsection \<open>iupdate and ilock\<close>

abbreviation disk_inode :: "superblock \<Rightarrow> (nat \<Rightarrow> u8 list) \<Rightarrow> nat \<Rightarrow> dinode" where
  "disk_inode x D i \<equiv> dinode_get (D (IBLOCK i x)) (dinode_off i)"

definition inode_saved :: "superblock \<Rightarrow> (nat \<Rightarrow> u8 list) \<Rightarrow> inode \<Rightarrow> nat \<Rightarrow> u8 list" where
  "inode_saved x D y = D(IBLOCK (i_inum y) x := dinode_put (inode_dinode y) (dinode_off (i_inum y)) (D (IBLOCK (i_inum y) x)))"

lemma iupdate_ok:
  assumes g: "txn p k s" "0 < k" "held_blocks s = {}" and dev: "i_dev (itable s ip) = ROOTDEV"
  shows "\<exists>t. iupdate ip s = Ret () t \<and> txn p (k - 1) t \<and> wrote p s t {IBLOCK (i_inum (itable s ip)) (sb s)} (inode_saved (sb s) (lblk s) (itable s ip))"
proof -
  let ?b = "IBLOCK (i_inum (itable s ip)) (sb s)" and ?f = "dinode_put (inode_dinode (itable s ip)) (dinode_off (i_inum (itable s ip)))"
  have "?b \<notin> held_blocks s" "few_held s" "length (?f (lblk s ?b)) = BSIZE" "0 < k \<or> ?b \<in> in_log s" using g by simp_all
  from txn_rewrite [of p k s ?b ?f, OF g(1) this] obtain i t u v w where w: "bread ROOTDEV ?b s = Ret i t" "bset i ?f t = Ret () u"
    "log_write i u = Ret () v" "brelse i v = Ret () w" "txn p (if ?b \<in> in_log s then k else k - 1) w" "wrote p s w {?b} ((lblk s)(?b := ?f (lblk s ?b)))" by blast
  have "txn p (k - 1) w" by (rule txn_spare [OF w(5)]) simp
  then show ?thesis using w dev by (intro exI [of _ w]) (simp add: iupdate_def kern_simps inode_saved_def)
qed

lemma inode_saved_at:
  assumes "\<And>b. length (D b) = BSIZE" "dinode_fits (inode_dinode y)"
  shows "same_dinode (disk_inode x (inode_saved x D y) (i_inum y)) (inode_dinode y)"
    "j \<noteq> i_inum y \<Longrightarrow> same_dinode (disk_inode x (inode_saved x D y) j) (disk_inode x D j)"
proof -
  show "same_dinode (disk_inode x (inode_saved x D y) (i_inum y)) (inode_dinode y)"
    using dinode_get_put [OF assms(1,2)] by (simp add: inode_saved_def)
  show "same_dinode (disk_inode x (inode_saved x D y) j) (disk_inode x D j)" if "j \<noteq> i_inum y"
  proof (cases "IBLOCK j x = IBLOCK (i_inum y) x")
    case True
    then have "i_inum y mod IPB \<noteq> j mod IPB" using same_inode_slot [OF True] that by auto
    from dinode_get_other [OF assms(1) this] show ?thesis using True by (simp add: inode_saved_def)
  next
    case False
    then show ?thesis by (simp add: inode_saved_def same_dinode_def)
  qed
qed

text \<open>Loading an inode that is not in memory: the table entry holds what the slot holds.\<close>

lemma ilock_load_ok:
  assumes g: "calm p s" "held_blocks s = {}" and ip: "i_dev (itable s ip) = ROOTDEV" "\<not> i_valid (itable s ip)"
    and ty: "di_type (disk_inode (sb s) (lblk s) (i_inum (itable s ip))) \<noteq> 0"
  shows "\<exists>t. ilock_load ip s = Ret () t \<and> same_dinode (inode_dinode (itable t ip)) (disk_inode (sb s) (lblk s) (i_inum (itable s ip))) \<and>
    i_valid (itable t ip) \<and> i_inum (itable t ip) = i_inum (itable s ip) \<and> i_dev (itable t ip) = ROOTDEV \<and> i_ref (itable t ip) = i_ref (itable s ip) \<and> lblk t = lblk s \<and>
    (\<forall>jp. jp \<noteq> ip \<longrightarrow> itable t jp = itable s jp)"
proof -
  let ?b = "IBLOCK (i_inum (itable s ip)) (sb s)"
  from tx.rd_law [OF g(1), of ?b] g(2) obtain i t where t: "bread ROOTDEV ?b s = Ret i t" "calm p t" "tframe s t" "owns t (p_pid (procs t p)) i ?b"
    "lblk t = lblk s" by auto
  note f = tframe_fs [OF t(3)]
  have d: "b_data (bufs t i) = lblk s ?b" using tx.dat_law [OF t(2,4)] t(5) by simp
  define T where "T = (itable s)(ip := (itable s ip)\<lparr>i_type := di_type (disk_inode (sb s) (lblk s) (i_inum (itable s ip))),
     i_major := di_major (disk_inode (sb s) (lblk s) (i_inum (itable s ip))), i_minor := di_minor (disk_inode (sb s) (lblk s) (i_inum (itable s ip))),
     i_nlink := di_nlink (disk_inode (sb s) (lblk s) (i_inum (itable s ip))), i_size := di_size (disk_inode (sb s) (lblk s) (i_inum (itable s ip))),
     i_addrs := (\<lambda>j. if j < NDIRECT + 1 then di_addrs (disk_inode (sb s) (lblk s) (i_inum (itable s ip))) j else i_addrs (itable t ip) j)\<rparr>)"
  have ct: "calm p (t\<lparr>itable := T\<rparr>)" "owns (t\<lparr>itable := T\<rparr>) (p_pid (procs (t\<lparr>itable := T\<rparr>) p)) i ?b"
    using t(2,4) by (simp_all add: calm_def quiet_def unfold_machine bc_ok_def held_blocks_def owns_def)
  from tx.rel_law [OF ct] obtain u where u: "brelse i (t\<lparr>itable := T\<rparr>) = Ret () u" "tframe (t\<lparr>itable := T\<rparr>) u" "lblk u = lblk (t\<lparr>itable := T\<rparr>)" by blast
  have iu: "itable u = T" using tframe_fs(2) [OF u(2)] by simp
  let ?u = "u\<lparr>itable := T(ip := (T ip)\<lparr>i_valid := True\<rparr>)\<rparr>"
  have "ilock_load ip s = Ret () ?u"
    using t(1) ip ty u(1) f(2) d by (simp add: ilock_load_def kern_simps buf_data_def upd_inode_def T_def iu)
  moreover have "lblk ?u = lblk s" using u(3) t(5) by simp
  ultimately show ?thesis using ip by (intro exI [of _ ?u]) (simp add: T_def same_dinode_def inode_dinode_def)
qed

lemma calm_inode_lock:
  "calm p (s\<lparr>slocks := (slocks s)(S_inode ip := l)\<rparr>) = calm p s" "held_blocks (s\<lparr>slocks := (slocks s)(S_inode ip := l)\<rparr>) = held_blocks s"
  by (simp_all add: calm_def quiet_slocks bc_ok_def held_blocks_def)

lemma ilock_ok:
  assumes g: "calm p s" "held_blocks s = {}" and ip: "i_dev (itable s ip) = ROOTDEV" "\<not> i_valid (itable s ip)" "1 \<le> i_ref (itable s ip)"
    and lk: "\<not> sl_locked (slocks s (S_inode ip))" and ty: "di_type (disk_inode (sb s) (lblk s) (i_inum (itable s ip))) \<noteq> 0"
  shows "\<exists>t. ilock (Some ip) s = Ret () t \<and> same_dinode (inode_dinode (itable t ip)) (disk_inode (sb s) (lblk s) (i_inum (itable s ip))) \<and>
    i_valid (itable t ip) \<and> i_inum (itable t ip) = i_inum (itable s ip) \<and> lblk t = lblk s"
proof -
  let ?s = "(settle s)\<lparr>slocks := (slocks s)(S_inode ip := (slocks s (S_inode ip))\<lparr>sl_locked := True, sl_pid := p_pid (procs s p)\<rparr>)\<rparr>"
  have a: "acquiresleep (S_inode ip) s = Ret () ?s" by (rule acquiresleep_run [OF calmD(1) [OF g(1)] lk])
  have f: "itable ?s = itable s" "sb ?s = sb s" "lblk ?s = lblk s" by (simp_all add: settle_def)
  have c: "calm p ?s" "held_blocks ?s = {}" using g calm_inode_lock [where s = "settle s"] by (simp_all add: calm_settle slocks_frames)
  from ilock_load_ok [OF c, of ip] ip ty obtain t where "ilock_load ip ?s = Ret () t"
    "same_dinode (inode_dinode (itable t ip)) (disk_inode (sb s) (lblk s) (i_inum (itable s ip)))" "i_valid (itable t ip)"
    "i_inum (itable t ip) = i_inum (itable s ip)" "lblk t = lblk s" unfolding f by blast
  then show ?thesis using a ip(3) by (intro exI [of _ t]) (simp add: ilock_def kern_simps)
qed

subsection \<open>What the disk format guarantees\<close>

text \<open>C25: an inode written with \<open>iupdate\<close> and locked again through any table entry that refers to it but has
  not read it yet is the same inode, field by field; no other inode on disk changes.\<close>

theorem iupdate_ilock_roundtrip:
  fixes s :: "'a fs_state_scheme"
  assumes "txn p 1 s" "held_blocks s = {}" "i_dev (itable s ip) = ROOTDEV" "i_type (itable s ip) \<noteq> 0" "dinode_fits (inode_dinode (itable s ip))"
    and "i_dev (itable s jp) = ROOTDEV" "i_inum (itable s jp) = i_inum (itable s ip)" "\<not> i_valid (itable s jp)" "1 \<le> i_ref (itable s jp)"
      "\<not> sl_locked (slocks s (S_inode jp))"
  shows "\<exists>t u. iupdate ip s = Ret () (t :: 'a fs_state_scheme) \<and> ilock (Some jp) t = Ret () u \<and> i_valid (itable u jp) \<and>
    i_type (itable u jp) = i_type (itable s ip) \<and> i_major (itable u jp) = i_major (itable s ip) \<and> i_minor (itable u jp) = i_minor (itable s ip) \<and>
    i_nlink (itable u jp) = i_nlink (itable s ip) \<and> i_size (itable u jp) = i_size (itable s ip) \<and>
    (\<forall>i \<le> NDIRECT. i_addrs (itable u jp) i = i_addrs (itable s ip) i) \<and>
    (\<forall>j. j \<noteq> i_inum (itable s ip) \<longrightarrow> same_dinode (disk_inode (sb s) (lblk u) j) (disk_inode (sb s) (lblk s) j))"
proof -
  from iupdate_ok [OF assms(1) _ assms(2,3)] obtain t where t: "iupdate ip s = Ret () t" "txn p (1 - 1) t"
    "wrote p s t {IBLOCK (i_inum (itable s ip)) (sb s)} (inode_saved (sb s) (lblk s) (itable s ip))" by auto
  note f = tframe_fs [OF wroteD(1) [OF t(3)]] and lt = wroteD(3) [OF t(3)]
  note sv = inode_saved_at [where x = "sb s", OF calm_len(2) [OF assms(1)] assms(5)]
  have sl: "slocks t (S_inode jp) = slocks s (S_inode jp)" using wroteD(1) [OF t(3)] by (simp add: tframe_def lframe_def)
  have "di_type (disk_inode (sb s) (lblk t) (i_inum (itable s ip))) \<noteq> 0" using sv(1) assms(4) by (simp add: lt same_dinode_def inode_dinode_def)
  then obtain u where u: "ilock (Some jp) t = Ret () u" "same_dinode (inode_dinode (itable u jp)) (disk_inode (sb s) (lblk t) (i_inum (itable s ip)))"
    "i_valid (itable u jp)" "lblk u = lblk t"
    using ilock_ok [OF txn_calm [OF t(2)], of jp] wroteD(5) [OF t(3)] assms(2,6-10) by (auto simp: f sl)
  have "same_dinode (inode_dinode (itable u jp)) (inode_dinode (itable s ip))" using u(2) sv(1) by (simp add: lt same_dinode_def)
  then show ?thesis using t(1) u(1,3,4) sv(2) by (intro exI [of _ t] exI [of _ u]) (simp add: same_dinode_def inode_dinode_def lt)
qed

definition tiny_table :: "nat \<Rightarrow> inode" where
  "tiny_table i = tiny_inode\<lparr>i_valid := (i = 0)\<rparr>"

theorem iupdate_ilock_roundtrip_witness:
  "\<exists>t u. iupdate 0 (tiny_fs tiny_disk tiny_table) = Ret () t \<and> ilock (Some 1) t = Ret () u \<and>
    i_size (itable u 1) = 1500 \<and> i_addrs (itable u 1) 1 = 47"
proof -
  let ?s = "tiny_fs tiny_disk tiny_table"
  note ok = tiny_fs_ok [of tiny_disk tiny_table, OF tiny_disk_len]
  have tx: "txn 3 1 ?s" by (rule txn_spare [OF ok(1)]) simp
  have fit: "dinode_fits (inode_dinode (itable ?s 0))" by (simp add: ok(6) dinode_fits_def inode_dinode_def tiny_table_def tiny_inode_def)
  have sl: "\<not> sl_locked (slocks ?s (S_inode 1))"
    by (simp add: tiny_fs_def sample_boot_def sample_bio_def log_state.defs bio_state.defs)
  show ?thesis using iupdate_ilock_roundtrip [OF tx ok(2) _ _ fit, of 1] sl
    by (force simp: ok(6) tiny_table_def tiny_inode_def T_FILE_def NDIRECT_def)
qed

end
