(* ===== verification/Fs_File.thy ===== *)
theory Fs_File
  imports File_Map Fs_Inode
begin

text \<open>
  Reading and writing a file of \<^verbatim>\<open>kernel/fs.c\<close>: \<open>bmap\<close>, \<open>readi\<close> and \<open>writei\<close> implement a function
  from offsets to bytes.
\<close>

subsection \<open>The file an inode stands for\<close>

abbreviation iaddrs :: "'a fs_state_scheme \<Rightarrow> nat \<Rightarrow> nat \<Rightarrow> nat" where
  "iaddrs s ip \<equiv> i_addrs (itable s ip)"

abbreviation fblock :: "'a fs_state_scheme \<Rightarrow> nat \<Rightarrow> nat \<Rightarrow> nat" where
  "fblock s ip \<equiv> faddr (lblk s) (iaddrs s ip)"

text \<open>A byte of the file; a block that was never allocated reads as zeros.\<close>

definition fbyte :: "'a fs_state_scheme \<Rightarrow> nat \<Rightarrow> nat \<Rightarrow> u8" where
  "fbyte s ip j = (if fblock s ip (j div BSIZE) = 0 then 0 else lblk s (fblock s ip (j div BSIZE)) ! (j mod BSIZE))"

definition file_ok :: "'a fs_state_scheme \<Rightarrow> nat \<Rightarrow> bool" where
  "file_ok s ip \<longleftrightarrow> i_dev (itable s ip) = ROOTDEV \<and> file_map_ok (sb s) (lblk s) (iaddrs s ip)"

definition file_blocks :: "'a fs_state_scheme \<Rightarrow> nat \<Rightarrow> nat set" where
  "file_blocks s ip = ({fblock s ip i | i. i < MAXFILE} \<union> {iaddrs s ip NDIRECT}) - {0}"

text \<open>A step of process \<open>p\<close> on the file: beside the log and the cache it changes the addresses and the
  size of the inode, it takes blocks for the file that were free, and writes no data block of another
  file.\<close>

definition file_step :: "nat \<Rightarrow> nat \<Rightarrow> 'a fs_state_scheme \<Rightarrow> 'a fs_state_scheme \<Rightarrow> bool" where
  "file_step p ip s t \<longleftrightarrow> (\<exists>L. wrote p s (t\<lparr>itable := itable s\<rparr>) L (lblk t)) \<and>
     (\<exists>A z. itable t = (itable s)(ip := (itable s ip)\<lparr>i_addrs := A, i_size := z\<rparr>)) \<and>
     (\<forall>b < sb_size (sb s). block_used s b \<longrightarrow> block_used t b) \<and>
     (\<forall>b \<in> file_blocks t ip. b \<in> file_blocks s ip \<or> \<not> block_used s b) \<and>
     (\<forall>b. data_block (sb s) (lblk s) b \<longrightarrow> b \<notin> file_blocks s ip \<longrightarrow> lblk t b = lblk s b)"

subsection \<open>Frames\<close>

lemma more_fs: "log_state.more t = log_state.more s \<longleftrightarrow> sb t = sb s \<and> itable t = itable s \<and> fs_state.more t = fs_state.more s"
  for s :: "'a fs_state_scheme"
  by (cases s; cases t) auto

lemma quiet_itable [frame_simps]: "quiet p (s\<lparr>itable := T\<rparr>) = quiet p s"
  by (simp add: quiet_def unfold_machine)

lemma calm_itable [frame_simps]: "calm p (s\<lparr>itable := T\<rparr>) = calm p s" "txn p k (s\<lparr>itable := T\<rparr>) = txn p k s"
  "held_blocks (s\<lparr>itable := T\<rparr>) = held_blocks s" "few_held (s\<lparr>itable := T\<rparr>) = few_held s"
  by (simp_all add: calm_def txn_def quiet_itable bc_ok_def held_blocks_def few_held_def)

lemma owns_itable [frame_simps]: "owns (s\<lparr>itable := T\<rparr>) = owns s"
  by (intro ext) (simp add: owns_def)

lemma tframe_itable: "tframe s t \<Longrightarrow> tframe (s\<lparr>itable := T\<rparr>) (t\<lparr>itable := T\<rparr>)" for s :: "'a fs_state_scheme"
  by (simp add: tframe_def lframe_def more_fs)

lemma wrote_itable: "wrote p s t L D \<Longrightarrow> wrote p (s\<lparr>itable := T\<rparr>) (t\<lparr>itable := T\<rparr>) L D" for s :: "'a fs_state_scheme"
  using tframe_itable [of s t T] by (simp add: wrote_def owns_itable calm_itable)

lemma file_stepD:
  assumes "file_step p ip s t"
  shows "sb t = sb s" "held_blocks t = held_blocks s" "jp \<noteq> ip \<Longrightarrow> itable t jp = itable s jp"
    "b < sb_size (sb s) \<Longrightarrow> block_used s b \<Longrightarrow> block_used t b"
    "b \<in> file_blocks t ip \<Longrightarrow> b \<in> file_blocks s ip \<or> \<not> block_used s b"
    "data_block (sb s) (lblk s) b \<Longrightarrow> b \<notin> file_blocks s ip \<Longrightarrow> lblk t b = lblk s b"
    "i_dev (itable t ip) = i_dev (itable s ip)" "i_inum (itable t ip) = i_inum (itable s ip)"
    "tframe s (t\<lparr>itable := itable s\<rparr>)"
proof -
  from assms obtain L where w: "wrote p s (t\<lparr>itable := itable s\<rparr>) L (lblk t)" by (auto simp: file_step_def)
  show "tframe s (t\<lparr>itable := itable s\<rparr>)" by (rule wroteD(1) [OF w])
  then show "sb t = sb s" using tframe_fs(1) by fastforce
  show "held_blocks t = held_blocks s" using wroteD(5) [OF w] by (simp add: calm_itable)
qed (use assms in \<open>auto simp: file_step_def\<close>)

lemma file_step_trans:
  assumes a: "file_step p ip s t" and b: "file_step p ip t u" and ok: "file_map_ok (sb u) (lblk u) (iaddrs u ip)"
  shows "file_step p ip s u"
proof -
  from a obtain L where w: "wrote p s (t\<lparr>itable := itable s\<rparr>) L (lblk t)" by (auto simp: file_step_def)
  from b obtain M where v: "wrote p t (u\<lparr>itable := itable t\<rparr>) M (lblk u)" by (auto simp: file_step_def)
  have "\<exists>L. wrote p s (u\<lparr>itable := itable s\<rparr>) L (lblk u)" using wrote_trans [OF w] wrote_itable [OF v, of "itable s"] by auto
  moreover have "\<exists>A z. itable u = (itable s)(ip := (itable s ip)\<lparr>i_addrs := A, i_size := z\<rparr>)"
  proof -
    from a obtain A y where 1: "itable t = (itable s)(ip := (itable s ip)\<lparr>i_addrs := A, i_size := y\<rparr>)" by (auto simp: file_step_def)
    from b obtain B z where 2: "itable u = (itable t)(ip := (itable t ip)\<lparr>i_addrs := B, i_size := z\<rparr>)" by (auto simp: file_step_def)
    have "itable u = (itable s)(ip := (itable s ip)\<lparr>i_addrs := B, i_size := z\<rparr>)" by (simp add: 1 2)
    then show ?thesis by blast
  qed
  moreover note sb = file_stepD(1) [OF a] file_stepD(1) [OF b]
  moreover have us: "block_used u b" if "b < sb_size (sb s)" "block_used s b" for b
    using file_stepD(4) [OF b, of b] file_stepD(4) [OF a that] that(1) sb by simp
  moreover have "b \<in> file_blocks s ip \<or> \<not> block_used s b" if b': "b \<in> file_blocks u ip" for b
  proof -
    have "b < sb_size (sb s)" using b' file_mapD(2,5) [OF ok] sb by (auto simp: file_blocks_def data_block_def)
    then show ?thesis using file_stepD(5) [OF b b'] file_stepD(5) [OF a, of b] file_stepD(4) [OF a, of b] by blast
  qed
  moreover have "lblk u b = lblk s b" if d: "data_block (sb s) (lblk s) b" "b \<notin> file_blocks s ip" for b
  proof -
    have "b \<notin> file_blocks t ip" using d file_stepD(5) [OF a, of b] by (auto simp: data_block_def)
    moreover have "data_block (sb t) (lblk t) b" using d(1) file_stepD(4) [OF a, of b] sb by (simp add: data_block_def)
    ultimately show ?thesis using file_stepD(6) [OF b] file_stepD(6) [OF a d] by simp
  qed
  ultimately show ?thesis unfolding file_step_def by blast
qed

text \<open>Looking at blocks changes no file.\<close>

lemma file_same:
  assumes "wrote p s t {} (lblk s)"
  shows "file_step p ip s t" "file_ok t ip = file_ok s ip" "fbyte t ip = fbyte s ip" "fblock t ip = fblock s ip" "itable t = itable s" "sb t = sb s"
proof -
  note f = tframe_fs [OF wroteD(1) [OF assms]] and l = wroteD(3) [OF assms]
  show i: "itable t = itable s" "sb t = sb s" using f by simp_all
  have e: "t\<lparr>itable := itable s\<rparr> = t" using f(2) by simp
  have "\<exists>L. wrote p s t L (lblk s)" using assms by blast
  moreover have "\<exists>A z. itable s = (itable s)(ip := (itable s ip)\<lparr>i_addrs := A, i_size := z\<rparr>)"
    by (intro exI [of _ "iaddrs s ip"] exI [of _ "i_size (itable s ip)"]) simp
  ultimately show "file_step p ip s t" unfolding file_step_def file_blocks_def e i l by blast
  show "file_ok t ip = file_ok s ip" "fblock t ip = fblock s ip" by (simp_all add: file_ok_def i l)
  show "fbyte t ip = fbyte s ip" by (rule ext) (simp add: fbyte_def i l)
qed

text \<open>Taking the free block \<open>b\<close> as block \<open>n\<close> of the file (or as its indirect block, when \<open>n\<close> is no block
  number).\<close>

lemma grow_file:
  assumes ok: "file_ok s ip" and b: "b < sb_size (sb s)" "\<not> block_used s b"
    and w: "wrote p s (t\<lparr>itable := itable s\<rparr>) L E" and it: "itable t = (itable s)(ip := (itable s ip)\<lparr>i_addrs := B\<rparr>)"
    and m: "file_map_ok (sb s) E B" and f: "\<And>i. i < MAXFILE \<Longrightarrow> faddr E B i = (if i = n then b else fblock s ip i)"
    and nd: "B NDIRECT = iaddrs s ip NDIRECT \<or> B NDIRECT = b" and n: "n < MAXFILE \<Longrightarrow> fblock s ip n = 0"
    and u: "\<And>c. c < sb_size (sb s) \<Longrightarrow> used_in (sb s) E c \<longleftrightarrow> c = b \<or> block_used s c"
    and same: "\<And>c. c \<notin> fs_meta (sb s) \<Longrightarrow> c \<noteq> b \<Longrightarrow> c \<noteq> iaddrs s ip NDIRECT \<Longrightarrow> E c = lblk s c" and z: "n < MAXFILE \<Longrightarrow> E b = replicate BSIZE 0"
  shows "file_step p ip s t" "file_ok t ip" "j < MAXFILE * BSIZE \<Longrightarrow> fbyte t ip j = fbyte s ip j"
    "i < MAXFILE \<Longrightarrow> fblock t ip i = (if i = n then b else fblock s ip i)" "i_size (itable t ip) = i_size (itable s ip)"
proof -
  have ok': "file_map_ok (sb s) (lblk s) (iaddrs s ip)" using ok by (simp add: file_ok_def)
  have lt: "lblk t = E" using wroteD(3) [OF w] by simp
  have sbt: "sb t = sb s" using tframe_fs(1) [OF wroteD(1) [OF w]] by simp
  have at: "iaddrs t ip = B" by (simp add: it)
  show fb: "fblock t ip i = (if i = n then b else fblock s ip i)" if "i < MAXFILE" for i using f [OF that] by (simp add: lt at)
  show "file_ok t ip" using ok m by (simp add: file_ok_def it lt sbt)
  show "i_size (itable t ip) = i_size (itable s ip)" by (simp add: it)
  note fr = fresh_block [OF ok' b]
  show "fbyte t ip j = fbyte s ip j" if j: "j < MAXFILE * BSIZE"
  proof -
    have i: "j div BSIZE < MAXFILE" using j by (simp add: less_mult_imp_div_less)
    have l: "j mod BSIZE < BSIZE" by (simp add: BSIZE_def)
    show ?thesis
    proof (cases "j div BSIZE = n")
      case True
      then show ?thesis using i l z n fb [OF i] by (simp add: fbyte_def lt)
    next
      case False
      have "E (fblock s ip (j div BSIZE)) = lblk s (fblock s ip (j div BSIZE))" if "fblock s ip (j div BSIZE) \<noteq> 0"
        using same file_mapD(2,3) [OF ok' i that] fr(2) [OF i] by (simp add: data_block_def)
      then show ?thesis using False fb [OF i] by (simp add: fbyte_def lt)
    qed
  qed
  have "file_blocks t ip \<subseteq> insert b (file_blocks s ip)"
    using fb nd by (auto simp: file_blocks_def at split: if_splits)
  moreover have "E c = lblk s c" if "data_block (sb s) (lblk s) c" "c \<notin> file_blocks s ip" for c
  proof (cases "c = 0")
    case True then show ?thesis using that(1) in_meta(1) by (simp add: data_block_def)
  next
    case False
    then show ?thesis using that b(2) by (intro same) (auto simp: data_block_def file_blocks_def)
  qed
  moreover have "itable t = (itable s)(ip := (itable s ip)\<lparr>i_addrs := B, i_size := i_size (itable s ip)\<rparr>)" by (simp add: it)
  ultimately show "file_step p ip s t" using w u b(2) unfolding file_step_def lt sbt by blast
qed

subsection \<open>bmap\<close>

abbreviation free_block :: "'a fs_state_scheme \<Rightarrow> nat option" where
  "free_block s \<equiv> first_idx (\<lambda>b. \<not> block_used s b) [0..<sb_size (sb s)]"

lemma addr_slot_take:
  assumes g: "txn p k s" "2 \<le> k" "held_blocks s = {}" and ip: "i_dev (itable s ip) = ROOTDEV" "iaddrs s ip j = 0" and b: "free_block s = Some b" "b \<noteq> 0"
  shows "\<exists>t. addr_slot ip j s = Ret b t \<and> txn p (k - 2) t \<and> wrote p s (t\<lparr>itable := itable s\<rparr>) {BBLOCK b (sb s), b} (taken s b) \<and>
    itable t = (itable s)(ip := (itable s ip)\<lparr>i_addrs := (iaddrs s ip)(j := b)\<rparr>)"
proof -
  from balloc_ok [OF g(1,2)] g(3) b(1) obtain t where t: "balloc ROOTDEV s = Ret b t" "txn p (k - 2) t" "wrote p s t {BBLOCK b (sb s), b} (taken s b)" by auto
  have it: "itable t = itable s" by (rule tframe_fs [OF wroteD(1) [OF t(3)]])
  let ?t = "t\<lparr>itable := (itable s)(ip := (itable s ip)\<lparr>i_addrs := (iaddrs s ip)(j := b)\<rparr>)\<rparr>"
  have "addr_slot ip j s = Ret b ?t" using t(1) ip b(2) by (simp add: addr_slot_def kern_simps upd_inode_def it)
  moreover have "?t\<lparr>itable := itable s\<rparr> = t" using it by simp
  ultimately show ?thesis using t(2,3) by (intro exI [of _ ?t]) (simp add: calm_itable)
qed

lemma addr_slot_full:
  assumes g: "txn p k s" "2 \<le> k" "held_blocks s = {}" and ip: "i_dev (itable s ip) = ROOTDEV" "iaddrs s ip j = 0" and b: "free_block s = None"
  shows "\<exists>t. addr_slot ip j s = Ret 0 t \<and> txn p k t \<and> wrote p s t {} (lblk s)"
  using balloc_ok [OF g(1,2)] g(3) b ip by (auto simp: addr_slot_def kern_simps)

lemma addr_slot_set: "iaddrs s ip j \<noteq> 0 \<Longrightarrow> addr_slot ip j s = Ret (iaddrs s ip j) s"
  by (simp add: addr_slot_def kern_simps)

lemma bmap_indirect_set:
  assumes "calm p s" "held_blocks s = {}" "get32 (lblk s a) (4 * j) \<noteq> 0"
  shows "\<exists>t. bmap_indirect ROOTDEV a j s = Ret (unat (get32 (lblk s a) (4 * j))) t \<and> calm p t \<and> wrote p s t {} (lblk s)"
  using calm_peek [OF assms(1), of a] assms(2,3) by (auto simp: bmap_indirect_def kern_simps buf_data_def)

text \<open>Holding the indirect block while the allocator runs.\<close>

lemma hold_indirect:
  assumes g: "txn p k s" "held_blocks s = {}" and a: "data_block (sb s) (lblk s) a"
  shows "\<exists>i t. bread ROOTDEV a s = Ret i t \<and> b_data (bufs t i) = lblk s a \<and> txn p k t \<and> tframe s t \<and> owns t (p_pid (procs t p)) i a \<and>
    lblk t = lblk s \<and> in_log t = in_log s \<and> held_blocks t = {a} \<and> sb t = sb s \<and> held_apart t"
proof -
  obtain i t where t: "bread ROOTDEV a s = Ret i t" "calm p t" "tframe s t" "owns t (p_pid (procs t p)) i a"
    "lblk t = lblk s" "in_log t = in_log s" "held_blocks t = {a}"
    using tx.rd_law [OF txn_calm [OF g(1)], of a] g(2) by auto
  have "sb t = sb s" by (rule tframe_fs [OF t(3)])
  moreover have "held_apart t" using a in_meta(2) by (auto simp: held_apart_def few_held_def t(5,7) calculation data_block_def)
  ultimately show ?thesis using t tx.dat_law [OF t(2,4)] txn_keep [OF g(1) t(2,3,6)] by (intro exI [of _ i] exI [of _ t]) simp
qed

lemma bmap_indirect_full:
  assumes g: "txn p k s" "2 \<le> k" "held_blocks s = {}" and a: "data_block (sb s) (lblk s) a" and j: "get32 (lblk s a) (4 * j) = 0" and b: "free_block s = None"
  shows "\<exists>t. bmap_indirect ROOTDEV a j s = Ret 0 t \<and> txn p k t \<and> wrote p s t {} (lblk s)"
proof -
  from hold_indirect [OF g(1,3) a] obtain i t where t: "bread ROOTDEV a s = Ret i t" "b_data (bufs t i) = lblk s a" "txn p k t" "tframe s t"
    "owns t (p_pid (procs t p)) i a" "lblk t = lblk s" "in_log t = in_log s" "held_blocks t = {a}" "sb t = sb s" "held_apart t" by blast
  have "free_block t = None" using b by (simp add: t(6,9))
  then obtain u where u: "balloc ROOTDEV t = Ret 0 u" "txn p k u" "wrote p t u {} (lblk t)" using balloc_ok [OF t(3) g(2) t(10)] by auto
  from tx.rel_law [OF txn_calm [OF u(2)] wroteD(2) [OF u(3) t(5)]] obtain v where v: "brelse i u = Ret () v" "calm p v" "tframe u v"
    "lblk v = lblk u" "in_log v = in_log u" "held_blocks v = held_blocks u - {a}" by blast
  have h: "held_blocks v = {}" using wroteD(5) [OF u(3)] v(6) t(8) by simp
  have il: "in_log v = in_log s" using wroteD(4) [OF u(3)] v(5) t(7) by simp
  have fr: "tframe s v" using tframe_trans t(4) wroteD(1) [OF u(3)] v(3) by blast
  have lv: "lblk v = lblk s" using wroteD(3) [OF u(3)] v(4) t(6) by simp
  have "wrote p s v {} (lblk s)" using wroteI [OF fr g(3) h lv, of "{}"] il by simp
  moreover have "txn p k v" by (rule txn_keep [OF g(1) v(2) fr il])
  ultimately show ?thesis using t(1,2) u(1) v(1) j by (intro exI [of _ v]) (simp add: bmap_indirect_def kern_simps buf_data_def)
qed

lemma bmap_indirect_take:
  assumes g: "txn p k s" "3 \<le> k" "held_blocks s = {}" and a: "data_block (sb s) (lblk s) a" and j: "get32 (lblk s a) (4 * j) = 0" "4 * j + 4 \<le> BSIZE"
    and b: "free_block s = Some b" "b \<noteq> 0"
  shows "\<exists>t. bmap_indirect ROOTDEV a j s = Ret b t \<and> txn p (k - 3) t \<and>
    wrote p s t {BBLOCK b (sb s), b, a} ((taken s b)(a := put32 (lblk s a) (4 * j) (of_nat b)))"
proof -
  from hold_indirect [OF g(1,3) a] obtain i t where t: "bread ROOTDEV a s = Ret i t" "b_data (bufs t i) = lblk s a" "txn p k t" "tframe s t"
    "owns t (p_pid (procs t p)) i a" "lblk t = lblk s" "in_log t = in_log s" "held_blocks t = {a}" "sb t = sb s" "held_apart t" by blast
  have bs: "b < sb_size (sb s)" "\<not> block_used s b" using first_idx_Some [OF b(1)] by auto
  have "free_block t = Some b" using b by (simp add: t(6,9))
  then obtain u where u: "balloc ROOTDEV t = Ret b u" "txn p (k - 2) u" "wrote p t u {BBLOCK b (sb s), b} (taken s b)"
    using balloc_ok [OF t(3) _ t(10)] g(2) by (auto simp: t(6,9))
  have "BBLOCK b (sb s) \<noteq> a" "b \<noteq> a" using a bs in_meta(2) [OF bs(1)] by (auto simp: data_block_def)
  then have la: "lblk u a = lblk s a" using wroteD(3) [OF u(3)] by (simp add: taken_in_def)
  have ou: "owns u (p_pid (procs u p)) i a" by (rule wroteD(2) [OF u(3) t(5)])
  let ?f = "\<lambda>d. put32 d (4 * j) (of_nat b)"
  have len: "length (?f (lblk u a)) = BSIZE" and kk: "0 < k - 2 \<or> a \<in> in_log u" using j(2) u(2) g(2) by simp_all
  obtain v w where w: "bset i ?f u = Ret () v" "log_write i v = Ret () w" "txn p (if a \<in> in_log u then k - 2 else k - 2 - 1) w" "tframe u w"
      "owns w (p_pid (procs w p)) i a" "lblk w = (lblk u)(a := ?f (lblk u a))" "in_log w = insert a (in_log u)" "held_blocks w = held_blocks u"
    using tx.log_law [of p "k - 2" u i a ?f, OF u(2) ou len kk] ou by blast
  from tx.rel_law [OF txn_calm [OF w(3)] w(5)] obtain y where y: "brelse i w = Ret () y" "calm p y" "tframe w y"
    "lblk y = lblk w" "in_log y = in_log w" "held_blocks y = held_blocks w - {a}" by blast
  have h: "held_blocks y = {}" using wroteD(5) [OF u(3)] w(8) y(6) t(8) by simp
  have il: "in_log y = in_log s \<union> {BBLOCK b (sb s), b, a}" using wroteD(4) [OF u(3)] w(7) y(5) t(7) by auto
  have fr: "tframe s y" using tframe_trans t(4) wroteD(1) [OF u(3)] w(4) y(3) by blast
  have ly: "lblk y = (taken s b)(a := ?f (lblk s a))" using wroteD(3) [OF u(3)] w(6) y(4) la by simp
  have "wrote p s y {BBLOCK b (sb s), b, a} ((taken s b)(a := ?f (lblk s a)))" by (rule wroteI [OF fr g(3) h ly il])
  moreover have "txn p (k - 3) y" by (rule txn_spare [OF txn_keep [OF w(3) y(2,3,5)]]) (auto intro: diff_le_mono2)
  ultimately show ?thesis using t(1,2) u(1) w(1,2) y(1) j(1) b(2) by (intro exI [of _ y]) (simp add: bmap_indirect_def kern_simps buf_data_def)
qed

text \<open>What \<open>bmap\<close> does for the file: the address it returns is that of the block, every other address
  and every byte stay; it returns 0 only when no block is free.\<close>

definition file_keeps :: "nat \<Rightarrow> nat \<Rightarrow> 'a fs_state_scheme \<Rightarrow> 'a fs_state_scheme \<Rightarrow> bool" where
  "file_keeps p ip s t \<longleftrightarrow> file_step p ip s t \<and> file_ok t ip \<and> (\<forall>j < MAXFILE * BSIZE. fbyte t ip j = fbyte s ip j) \<and>
     i_size (itable t ip) = i_size (itable s ip) \<and> held_blocks t = {}"

definition mapped_step :: "nat \<Rightarrow> nat \<Rightarrow> nat \<Rightarrow> 'a fs_state_scheme \<Rightarrow> nat \<Rightarrow> 'a fs_state_scheme \<Rightarrow> bool" where
  "mapped_step p ip bn s a t \<longleftrightarrow> file_keeps p ip s t \<and> (\<forall>i < MAXFILE. fblock t ip i = (if i = bn then a else fblock s ip i)) \<and>
     (fblock s ip bn \<noteq> 0 \<longrightarrow> a = fblock s ip bn) \<and> (a = 0 \<longrightarrow> free_block t = None)"

lemma keeps_same: "wrote p s t {} (lblk s) \<Longrightarrow> file_ok s ip \<Longrightarrow> held_blocks s = {} \<Longrightarrow> file_keeps p ip s t"
  using file_same(1-4) [of p s t ip] file_same(5,6) [of p s t] wroteD(5) [of p s t] by (simp add: file_keeps_def)

lemma keeps_trans: "file_keeps p ip s t \<Longrightarrow> file_keeps p ip t u \<Longrightarrow> file_keeps p ip s u"
  using file_step_trans [of p ip s t u] by (simp add: file_keeps_def file_ok_def)

lemma mapped_same:
  assumes "wrote p s t {} (lblk s)" "file_ok s ip" "held_blocks s = {}" "a = fblock s ip bn" "a = 0 \<longrightarrow> free_block s = None"
  shows "mapped_step p ip bn s a t"
  using keeps_same [OF assms(1-3)] file_same(1-4) [OF assms(1), of ip] file_same(5,6) [OF assms(1)] wroteD(3) [OF assms(1)] assms(4,5) by (simp add: mapped_step_def)

lemma mapped_after:
  assumes "file_keeps p ip s t" "\<And>i. i < MAXFILE \<Longrightarrow> fblock t ip i = fblock s ip i" "bn < MAXFILE" "mapped_step p ip bn t a u"
  shows "mapped_step p ip bn s a u"
  using assms(2-4) keeps_trans [OF assms(1), of u] by (simp add: mapped_step_def)

lemma free_blockD: "file_ok s ip \<Longrightarrow> free_block s = Some b \<Longrightarrow> b < sb_size (sb s) \<and> \<not> block_used s b \<and> b \<noteq> 0"
  using first_idx_Some [of "\<lambda>b. \<not> block_used s b" "[0..<sb_size (sb s)]" b] taken_at(3) [of "sb s" "lblk s" b]
  by (auto simp: file_ok_def file_map_ok_def)

lemma bmap_direct:
  assumes g: "txn p k s" "2 \<le> k" "held_blocks s = {}" and ok: "file_ok s ip" and n: "bn < NDIRECT"
  shows "\<exists>a t. addr_slot ip bn s = Ret a t \<and> txn p (k - 2) t \<and> mapped_step p ip bn s a t"
proof (cases "iaddrs s ip bn = 0")
  case False
  have "mapped_step p ip bn s (iaddrs s ip bn) s" using False n ok g(3) by (intro mapped_same wrote_refl) (simp_all add: faddr_def)
  then show ?thesis using addr_slot_set [of s ip bn] False txn_spare [OF g(1), of "k - 2"] by auto
next
  case z: True
  have dev: "i_dev (itable s ip) = ROOTDEV" and m: "file_map_ok (sb s) (lblk s) (iaddrs s ip)" using ok by (simp_all add: file_ok_def)
  have fz: "fblock s ip bn = 0" using z n by (simp add: faddr_def)
  show ?thesis
  proof (cases "free_block s")
    case None
    from addr_slot_full [OF g dev z None] obtain t where t: "addr_slot ip bn s = Ret 0 t" "txn p k t" "wrote p s t {} (lblk s)" by blast
    then have "mapped_step p ip bn s 0 t" using None fz ok g(3) by (intro mapped_same) simp_all
    then show ?thesis using t(1) txn_spare [OF t(2), of "k - 2"] by auto
  next
    case (Some b)
    have b: "b < sb_size (sb s)" "\<not> block_used s b" "b \<noteq> 0" using free_blockD [OF ok Some] by simp_all
    from addr_slot_take [OF g dev z Some b(3)] obtain t where t: "addr_slot ip bn s = Ret b t" "txn p (k - 2) t"
      "wrote p s (t\<lparr>itable := itable s\<rparr>) {BBLOCK b (sb s), b} (taken s b)"
      "itable t = (itable s)(ip := (itable s ip)\<lparr>i_addrs := (iaddrs s ip)(bn := b)\<rparr>)" by blast
    note td = take_direct [OF m b(1,2) n] and ta = taken_at [OF file_mapD(1) [OF m] b(1,2)]
    have "((iaddrs s ip)(bn := b)) NDIRECT = iaddrs s ip NDIRECT \<or> ((iaddrs s ip)(bn := b)) NDIRECT = b" using n by simp
    note gr = grow_file [OF ok b(1,2) t(3,4) td(1) td(2) this _ ta(5) ta(6) ta(4)]
    have "held_blocks t = {}" using wroteD(5) [OF t(3)] g(3) by (simp add: calm_itable)
    then have "mapped_step p ip bn s b t" using gr fz b(3) by (simp add: mapped_step_def file_keeps_def)
    then show ?thesis using t(1,2) by blast
  qed
qed

lemma bmap_pointer:
  assumes g: "txn p k s" "2 \<le> k" "held_blocks s = {}" and ok: "file_ok s ip"
  shows "\<exists>a t. addr_slot ip NDIRECT s = Ret a t \<and> txn p (k - 2) t \<and> file_keeps p ip s t \<and> (\<forall>i < MAXFILE. fblock t ip i = fblock s ip i) \<and>
    iaddrs t ip NDIRECT = a \<and> (a = 0 \<longrightarrow> free_block t = None)"
proof (cases "iaddrs s ip NDIRECT = 0")
  case False
  then show ?thesis using addr_slot_set [of s ip NDIRECT] txn_spare [OF g(1), of "k - 2"] keeps_same [OF wrote_refl ok g(3)] by auto
next
  case z: True
  have dev: "i_dev (itable s ip) = ROOTDEV" and m: "file_map_ok (sb s) (lblk s) (iaddrs s ip)" using ok by (simp_all add: file_ok_def)
  show ?thesis
  proof (cases "free_block s")
    case None
    from addr_slot_full [OF g dev z None] obtain t where t: "addr_slot ip NDIRECT s = Ret 0 t" "txn p k t" "wrote p s t {} (lblk s)" by blast
    have "free_block t = None" "iaddrs t ip NDIRECT = 0" using None z file_same(5,6) [OF t(3)] wroteD(3) [OF t(3)] by simp_all
    then show ?thesis using t(1) txn_spare [OF t(2), of "k - 2"] keeps_same [OF t(3) ok g(3)] file_same(4) [OF t(3), of ip] by auto
  next
    case (Some b)
    have b: "b < sb_size (sb s)" "\<not> block_used s b" "b \<noteq> 0" using free_blockD [OF ok Some] by simp_all
    from addr_slot_take [OF g dev z Some b(3)] obtain t where t: "addr_slot ip NDIRECT s = Ret b t" "txn p (k - 2) t"
      "wrote p s (t\<lparr>itable := itable s\<rparr>) {BBLOCK b (sb s), b} (taken s b)"
      "itable t = (itable s)(ip := (itable s ip)\<lparr>i_addrs := (iaddrs s ip)(NDIRECT := b)\<rparr>)" by blast
    note td = take_indirect [OF m b(1,2) z] and ta = taken_at [OF file_mapD(1) [OF m] b(1,2)]
    have f: "faddr (taken s b) ((iaddrs s ip)(NDIRECT := b)) i = (if i = MAXFILE then b else fblock s ip i)" if "i < MAXFILE" for i
      using td(2) [OF that] that by simp
    have "((iaddrs s ip)(NDIRECT := b)) NDIRECT = iaddrs s ip NDIRECT \<or> ((iaddrs s ip)(NDIRECT := b)) NDIRECT = b" by simp
    note gr = grow_file [OF ok b(1,2) t(3,4) td(1) f this _ ta(5) ta(6) ta(4)]
    have "held_blocks t = {}" using wroteD(5) [OF t(3)] g(3) by (simp add: calm_itable)
    then have "file_keeps p ip s t" using gr by (simp add: file_keeps_def)
    moreover have "fblock t ip i = fblock s ip i" if "i < MAXFILE" for i using gr(4) [of i] that by simp
    moreover have "iaddrs t ip NDIRECT = b" by (simp add: t(4))
    ultimately show ?thesis using t(1,2) b(3) by (intro exI [of _ b] exI [of _ t]) simp
  qed
qed

lemma bmap_in_indirect:
  assumes g: "txn p k s" "3 \<le> k" "held_blocks s = {}" and ok: "file_ok s ip" and n: "NDIRECT \<le> bn" "bn < MAXFILE" and a: "iaddrs s ip NDIRECT \<noteq> 0"
  shows "\<exists>c t. bmap_indirect ROOTDEV (iaddrs s ip NDIRECT) (bn - NDIRECT) s = Ret c t \<and> txn p (k - 3) t \<and> mapped_step p ip bn s c t"
proof -
  let ?a = "iaddrs s ip NDIRECT" and ?j = "bn - NDIRECT"
  have m: "file_map_ok (sb s) (lblk s) (iaddrs s ip)" using ok by (simp add: file_ok_def)
  have da: "data_block (sb s) (lblk s) ?a" by (rule file_mapD(5) [OF m a])
  have fb: "fblock s ip bn = unat (get32 (lblk s ?a) (4 * ?j))" using n a by (simp add: faddr_def)
  show ?thesis
  proof (cases "get32 (lblk s ?a) (4 * ?j) = 0")
    case False
    from bmap_indirect_set [OF txn_calm [OF g(1)] g(3) False] obtain t where
      t: "bmap_indirect ROOTDEV ?a ?j s = Ret (fblock s ip bn) t" "calm p t" "wrote p s t {} (lblk s)" by (auto simp: fb)
    have "fblock s ip bn \<noteq> 0" using False by (simp add: fb unat_eq_0)
    then have "mapped_step p ip bn s (fblock s ip bn) t" using ok g(3) by (intro mapped_same t(3)) simp_all
    then show ?thesis using t(1) txn_spare [OF wrote_txn [OF g(1) t(2,3)], of "k - 3"] by auto
  next
    case z: True
    then have fz: "fblock s ip bn = 0" by (simp add: fb)
    show ?thesis
    proof (cases "free_block s")
      case None
      have "2 \<le> k" using g(2) by simp
      from bmap_indirect_full [OF g(1) this g(3) da z None] obtain t where
        t: "bmap_indirect ROOTDEV ?a ?j s = Ret 0 t" "txn p k t" "wrote p s t {} (lblk s)" by blast
      then have "mapped_step p ip bn s 0 t" using None fz ok g(3) by (intro mapped_same) simp_all
      then show ?thesis using t(1) txn_spare [OF t(2), of "k - 3"] by auto
    next
      case (Some b)
      have b: "b < sb_size (sb s)" "\<not> block_used s b" "b \<noteq> 0" using free_blockD [OF ok Some] by simp_all
      have j: "4 * ?j + 4 \<le> BSIZE" by (rule slot_in_block [OF n(2)])
      let ?E = "(taken s b)(?a := put32 (lblk s ?a) (4 * ?j) (of_nat b))"
      from bmap_indirect_take [OF g da z j Some b(3)] obtain t where t: "bmap_indirect ROOTDEV ?a ?j s = Ret b t" "txn p (k - 3) t"
        "wrote p s t {BBLOCK b (sb s), b, ?a} ?E" by blast
      have it: "itable t = itable s" by (rule tframe_fs [OF wroteD(1) [OF t(3)]])
      then have w: "wrote p s (t\<lparr>itable := itable s\<rparr>) {BBLOCK b (sb s), b, ?a} ?E" using t(3) by (simp add: it [symmetric])
      have it': "itable t = (itable s)(ip := (itable s ip)\<lparr>i_addrs := iaddrs s ip\<rparr>)" by (simp add: it)
      note td = take_in_indirect [OF m b(1,2) a n] and ta = taken_at [OF file_mapD(1) [OF m] b(1,2)]
      have am: "?a \<notin> fs_meta (sb s)" using da by (simp add: data_block_def)
      have u: "used_in (sb s) ?E c \<longleftrightarrow> c = b \<or> block_used s c" if "c < sb_size (sb s)" for c using used_upd [OF am that] ta(5) [OF that] by simp
      have nab: "?a \<noteq> b" by (rule fresh_block(1) [OF m b(1,2)])
      have same: "?E c = lblk s c" if "c \<notin> fs_meta (sb s)" "c \<noteq> b" "c \<noteq> ?a" for c using ta(6) that by simp
      have zb: "?E b = replicate BSIZE 0" using nab ta(4) by simp
      note gr = grow_file [OF ok b(1,2) w it' td(1) td(2) disjI1 [OF refl] _ u same zb]
      have "held_blocks t = {}" using wroteD(5) [OF t(3)] g(3) by simp
      then have "mapped_step p ip bn s b t" using gr fz b(3) by (simp add: mapped_step_def file_keeps_def)
      then show ?thesis using t(1,2) by blast
    qed
  qed
qed

lemma bmap_ok:
  assumes g: "txn p k s" "5 \<le> k" "held_blocks s = {}" and ok: "file_ok s ip" and n: "bn < MAXFILE"
  shows "\<exists>a t. bmap ip bn s = Ret a t \<and> txn p (k - 5) t \<and> mapped_step p ip bn s a t"
proof (cases "bn < NDIRECT")
  case True
  have "2 \<le> k" using g(2) by simp
  from bmap_direct [OF g(1) this g(3) ok True] obtain a t where t: "addr_slot ip bn s = Ret a t" "txn p (k - 2) t" "mapped_step p ip bn s a t" by blast
  then show ?thesis using True txn_spare [OF t(2), of "k - 5"] by (auto simp: bmap_def)
next
  case False
  have k: "2 \<le> k" "3 \<le> k - 2" using g(2) by simp_all
  obtain a t where t: "addr_slot ip NDIRECT s = Ret a t" "txn p (k - 2) t" "file_keeps p ip s t"
    "\<forall>i < MAXFILE. fblock t ip i = fblock s ip i" "iaddrs t ip NDIRECT = a" "a = 0 \<longrightarrow> free_block t = None"
    using bmap_pointer [OF g(1) k(1) g(3) ok] by (elim exE conjE)
  have r: "bn - NDIRECT < NINDIRECT" using n False by (simp add: MAXFILE_def)
  have okt: "file_ok t ip" "held_blocks t = {}" using t(3) by (simp_all add: file_keeps_def)
  show ?thesis
  proof (cases "a = 0")
    case True
    have "fblock t ip bn = 0" using False True t(5) by (simp add: faddr_def)
    then have "mapped_step p ip bn s 0 t" using t(3,4,6) True n by (auto simp: mapped_step_def)
    then show ?thesis using False True r t(1) txn_spare [OF t(2), of "k - 5"] by (auto simp: bmap_def kern_simps)
  next
    case nz: False
    have "NDIRECT \<le> bn" "iaddrs t ip NDIRECT \<noteq> 0" using False nz t(5) by simp_all
    from bmap_in_indirect [OF t(2) k(2) okt(2,1) this(1) n this(2)] obtain c u where
      u: "bmap_indirect ROOTDEV a (bn - NDIRECT) t = Ret c u" "txn p (k - 2 - 3) u" "mapped_step p ip bn t c u" unfolding t(5) by blast
    have "mapped_step p ip bn s c u" using t(4) by (intro mapped_after [OF t(3) _ n u(3)]) simp
    moreover have "i_dev (itable t ip) = ROOTDEV" using okt(1) by (simp add: file_ok_def)
    ultimately show ?thesis using False nz r t(1) u(1,2) by (intro exI [of _ c] exI [of _ u]) (simp add: bmap_def kern_simps)
  qed
qed

subsection \<open>readi\<close>

lemma tframe_settle: "tframe s (settle s)"
  by (simp add: tframe_def lframe_def frame_simps settle_def lg_same_lh)

lemma wrote_settle: "wrote p s (settle s) {} (lblk s)"
  using tframe_settle [of s] by (simp add: wrote_def calm_settle owns_def frame_simps)

lemma copy_local:
  assumes "calm p s"
  shows "either_copyout Local bs s = Ret 0 (settle s)" "either_copyin (From_local bs) m s = Ret (0, take m bs) (settle s)"
  using quietD(1) [OF calmD(1) [OF assms]] by (simp_all add: either_copyout_def either_copyin_def kern_simps myproc_run)

lemma read_block:
  assumes g: "calm p s" "held_blocks s = {}"
  shows "\<exists>i t u. bread ROOTDEV b s = Ret i t \<and> b_data (bufs t i) = lblk s b \<and> (\<forall>bs. either_copyout Local bs t = Ret 0 (settle t)) \<and>
    brelse i (settle t) = Ret () u \<and> calm p u \<and> wrote p s u {} (lblk s)"
proof -
  obtain i t where t: "bread ROOTDEV b s = Ret i t" "calm p t" "tframe s t" "owns t (p_pid (procs t p)) i b" "lblk t = lblk s"
    "in_log t = in_log s" "held_blocks t = {b}" using tx.rd_law [OF g(1), of b] g(2) by auto
  note w = wrote_settle [of p t]
  have ct: "calm p (settle t)" using t(2) by (simp add: calm_settle)
  from tx.rel_law [OF ct wroteD(2) [OF w t(4)]] obtain u where u: "brelse i (settle t) = Ret () u" "calm p u" "tframe (settle t) u"
    "lblk u = lblk (settle t)" "in_log u = in_log (settle t)" "held_blocks u = held_blocks (settle t) - {b}" by blast
  have fr: "tframe s u" using tframe_trans t(3) wroteD(1) [OF w] u(3) by blast
  have "held_blocks u = {}" "lblk u = lblk s" "in_log u = in_log s" using u(4-6) wroteD(3-5) [OF w] t(5-7) by simp_all
  then have "wrote p s u {} (lblk s)" by (intro wroteI fr g(2)) simp_all
  then show ?thesis using t(1) tx.dat_law [OF t(2,4)] t(5) copy_local(1) [OF t(2)] u(1,2) by (intro exI [of _ i] exI [of _ t] exI [of _ u]) simp
qed

lemma bmap_present:
  assumes g: "calm p s" "held_blocks s = {}" and ok: "file_ok s ip" and n: "bn < MAXFILE" "fblock s ip bn \<noteq> 0"
  shows "\<exists>t. bmap ip bn s = Ret (fblock s ip bn) t \<and> calm p t \<and> wrote p s t {} (lblk s)"
proof (cases "bn < NDIRECT")
  case True
  then show ?thesis using n(2) g(1) addr_slot_set [of s ip bn] wrote_refl [of p s] by (intro exI [of _ s]) (simp add: bmap_def faddr_def)
next
  case False
  have a: "iaddrs s ip NDIRECT \<noteq> 0" and fb: "fblock s ip bn = unat (get32 (lblk s (iaddrs s ip NDIRECT)) (4 * (bn - NDIRECT)))"
    using n(2) False by (auto simp: faddr_def split: if_splits)
  have "get32 (lblk s (iaddrs s ip NDIRECT)) (4 * (bn - NDIRECT)) \<noteq> 0" using n(2) fb by auto
  from bmap_indirect_set [OF g this] obtain t where "bmap_indirect ROOTDEV (iaddrs s ip NDIRECT) (bn - NDIRECT) s = Ret (fblock s ip bn) t"
    "calm p t" "wrote p s t {} (lblk s)" unfolding fb by blast
  moreover have "bn - NDIRECT < NINDIRECT" "i_dev (itable s ip) = ROOTDEV" using n(1) False ok by (simp_all add: MAXFILE_def file_ok_def)
  ultimately show ?thesis using False a addr_slot_set [OF a] by (intro exI [of _ t]) (simp add: bmap_def kern_simps)
qed

lemma in_chunk:
  assumes "off \<le> j" "j < off + io_chunk n off"
  shows "j div BSIZE = off div BSIZE" "j mod BSIZE = off mod BSIZE + (j - off)" "j - off < n" "off mod BSIZE + io_chunk n off \<le> BSIZE"
proof -
  have m: "io_chunk n off \<le> BSIZE - off mod BSIZE" "off mod BSIZE < BSIZE" "j - off < n" using assms by (auto simp: io_chunk_def BSIZE_def)
  then show "off mod BSIZE + io_chunk n off \<le> BSIZE" "j - off < n" by linarith+
  define q r where "q = off div BSIZE" and "r = off mod BSIZE"
  have "r + (j - off) < BSIZE" using m(1,2) assms by (simp add: r_def)
  moreover have "j = BSIZE * q + (r + (j - off))" using assms(1) mult_div_mod_eq [of BSIZE off] unfolding q_def r_def by linarith
  ultimately show "j div BSIZE = off div BSIZE" "j mod BSIZE = off mod BSIZE + (j - off)"
    unfolding q_def [symmetric] r_def [symmetric] using div_mult_self4 [of BSIZE q "r + (j - off)"] mod_mult_self4 [of BSIZE q "r + (j - off)"] by auto
qed

lemma chunk_bytes:
  assumes "calm p s" "fblock s ip (off div BSIZE) \<noteq> 0"
  shows "sub_bytes (lblk s (fblock s ip (off div BSIZE))) (off mod BSIZE) (io_chunk n off) = map (fbyte s ip) [off..<off + io_chunk n off]"
proof (rule nth_equalityI)
  have le: "off mod BSIZE + io_chunk n off \<le> BSIZE" by (auto simp: io_chunk_def BSIZE_def)
  then show "length (sub_bytes (lblk s (fblock s ip (off div BSIZE))) (off mod BSIZE) (io_chunk n off)) = length (map (fbyte s ip) [off..<off + io_chunk n off])"
    using assms(1) by simp
  fix i assume "i < length (sub_bytes (lblk s (fblock s ip (off div BSIZE))) (off mod BSIZE) (io_chunk n off))"
  then have i: "i < io_chunk n off" using assms(1) le by simp
  then show "sub_bytes (lblk s (fblock s ip (off div BSIZE))) (off mod BSIZE) (io_chunk n off) ! i = map (fbyte s ip) [off..<off + io_chunk n off] ! i"
    using in_chunk(1,2) [of off "off + i" n] assms le by (simp add: nth_sub_bytes fbyte_def)
qed

text \<open>The file has all blocks below \<open>n\<close>.\<close>

definition no_holes :: "'a fs_state_scheme \<Rightarrow> nat \<Rightarrow> nat \<Rightarrow> bool" where
  "no_holes s ip n \<longleftrightarrow> n \<le> MAXFILE * BSIZE \<and> (\<forall>i. i * BSIZE < n \<longrightarrow> fblock s ip i \<noteq> 0)"

lemma readi_loop_ok:
  assumes "calm p s" "held_blocks s = {}" "file_ok s ip" "no_holes s ip (off + n)"
  shows "\<exists>t. readi_loop ip Local off n tot acc s = Ret (int (tot + n), acc @ map (fbyte s ip) [off..<off + n]) t \<and> calm p t \<and> wrote p s t {} (lblk s)"
  using assms
proof (induction n arbitrary: off tot acc s rule: less_induct)
  case (less n)
  show ?case
  proof (cases "n = 0")
    case True
    then show ?thesis using less.prems(1) wrote_refl [of p s] by (subst readi_loop.simps) auto
  next
    case False
    let ?b = "fblock s ip (off div BSIZE)" and ?m = "io_chunk n off"
    have nb: "off div BSIZE * BSIZE < off + n" using False div_times_less_eq_dividend [of off BSIZE] by linarith
    have b1: "?b \<noteq> 0" using less.prems(4) nb unfolding no_holes_def by blast
    have b2: "off div BSIZE < MAXFILE" using less.prems(4) nb mult_less_cancel2 [of "off div BSIZE" BSIZE MAXFILE] unfolding no_holes_def by linarith
    from bmap_present [OF less.prems(1-3) b2 b1] obtain t where t: "bmap ip (off div BSIZE) s = Ret ?b t" "calm p t" "wrote p s t {} (lblk s)" by blast
    note fs = file_same(5) [OF t(3)]
    have ht: "held_blocks t = {}" using wroteD(5) [OF t(3)] less.prems(2) by simp
    have dev: "i_dev (itable t ip) = ROOTDEV" using less.prems(3) by (simp add: fs file_ok_def)
    have lt: "lblk t = lblk s" by (rule wroteD(3) [OF t(3)])
    obtain i u v where v: "bread ROOTDEV ?b t = Ret i u" "b_data (bufs u i) = lblk s ?b"
      "\<forall>bs. either_copyout Local bs u = Ret 0 (settle u)" "brelse i (settle u) = Ret () v" "calm p v" "wrote p t v {} (lblk s)"
      using read_block [OF t(2) ht, of ?b] unfolding lt by blast
    have sv: "wrote p s v {} (lblk s)" using wrote_trans [OF t(3) v(6)] by simp
    note fv = file_same [OF sv]
    have m: "?m \<le> n" "?m \<noteq> 0" "n - ?m < n" using False io_chunk_pos [of n off] by (auto simp: io_chunk_def BSIZE_def)
    have "off + ?m + (n - ?m) = off + n" using m by simp
    then have "no_holes v ip (off + ?m + (n - ?m))" using less.prems(4) by (simp add: no_holes_def fv wroteD(3) [OF sv])
    moreover have "held_blocks v = {}" using wroteD(5) [OF sv] less.prems(2) by simp
    ultimately obtain w where w: "readi_loop ip Local (off + ?m) (n - ?m) (tot + ?m) (acc @ map (fbyte s ip) [off..<off + ?m]) v =
        Ret (int (tot + ?m + (n - ?m)), (acc @ map (fbyte s ip) [off..<off + ?m]) @ map (fbyte s ip) [off + ?m..<off + ?m + (n - ?m)]) w"
        "calm p w" "wrote p v w {} (lblk s)"
      using less.IH [OF m(3) v(5)] less.prems(3) fv(2,3) [of ip] wroteD(3) [OF sv] by metis
    have "wrote p s w {} (lblk s)" using wrote_trans [OF sv w(3)] by simp
    moreover have "map (fbyte s ip) [off..<off + ?m] @ map (fbyte s ip) [off + ?m..<off + n] = map (fbyte s ip) [off..<off + n]"
      using upt_add_eq_append [of off "off + ?m" "n - ?m"] m(1) by (simp flip: map_append)
    moreover have "readi_loop ip Local off n tot acc s = readi_loop ip Local (off + ?m) (n - ?m) (tot + ?m) (acc @ map (fbyte s ip) [off..<off + ?m]) v"
      using False t(1) b1 v(1-4) dev chunk_bytes [OF less.prems(1) b1, of n]
      by (subst readi_loop.simps) (simp add: kern_simps Let_def)
    ultimately show ?thesis using w(1,2) m(1) by (intro exI [of _ w]) simp
  qed
qed

lemma readi_ok:
  assumes g: "calm p s" "held_blocks s = {}" and ok: "file_ok s ip" "no_holes s ip (i_size (itable s ip))" and n: "off + n < 2 ^ 32"
  defines "m \<equiv> min n (i_size (itable s ip) - off)"
  shows "\<exists>t. readi ip Local off n s = Ret (int m, map (fbyte s ip) [off..<off + m]) t \<and> calm p t \<and> wrote p s t {} (lblk s)"
proof (cases "off > i_size (itable s ip)")
  case True
  then show ?thesis using g(1) wrote_refl [of p s] by (auto simp: readi_def kern_simps m_def)
next
  case False
  have h: "no_holes s ip (off + m)" using ok(2) False by (auto simp: no_holes_def m_def)
  have e: "(if off + n > i_size (itable s ip) then i_size (itable s ip) - off else n) = m" using False by (auto simp: m_def)
  have "readi ip Local off n s = readi_loop ip Local off m 0 [] s" using False n by (simp add: readi_def kern_simps e)
  then show ?thesis using readi_loop_ok [OF g ok(1) h, of 0 "[]"] by simp
qed

subsection \<open>writei\<close>

lemma put_chunk:
  assumes g: "txn p k s" "0 < k" "held_blocks s = {}" and len: "length bs = m" "w0 + m \<le> BSIZE"
  shows "\<exists>i t u v w. bread ROOTDEV a s = Ret i t \<and> either_copyin (From_local bs') m t = Ret (0, take m bs') (settle t) \<and>
    bset i (\<lambda>d. put_bytes d w0 bs) (settle t) = Ret () u \<and> log_write i u = Ret () v \<and> brelse i v = Ret () w \<and> txn p (k - 1) w \<and>
    wrote p s w {a} ((lblk s)(a := put_bytes (lblk s a) w0 bs))"
proof -
  obtain i t where t: "bread ROOTDEV a s = Ret i t" "calm p t" "tframe s t" "owns t (p_pid (procs t p)) i a" "lblk t = lblk s"
    "in_log t = in_log s" "held_blocks t = {a}" using tx.rd_law [OF txn_calm [OF g(1)], of a] g(3) by auto
  note w = wrote_settle [of p t]
  have tt: "txn p k (settle t)" using txn_keep [OF g(1) t(2,3,6)] by (simp add: calm_settle)
  have fl: "length ((\<lambda>d. put_bytes d w0 bs) (lblk (settle t) a)) = BSIZE" using len tt by simp
  have kk: "0 < k \<or> a \<in> in_log (settle t)" using g(2) by simp
  from tx.log_law [of p k "settle t" i a "\<lambda>d. put_bytes d w0 bs", OF tt wroteD(2) [OF w t(4)] fl kk] obtain u v where
    v: "bset i (\<lambda>d. put_bytes d w0 bs) (settle t) = Ret () u" "log_write i u = Ret () v" "txn p (if a \<in> in_log (settle t) then k else k - 1) v"
    "tframe (settle t) v" "\<forall>j c. owns (settle t) (p_pid (procs (settle t) p)) j c \<longrightarrow> owns v (p_pid (procs v p)) j c"
    "lblk v = (lblk (settle t))(a := put_bytes (lblk (settle t) a) w0 bs)" "in_log v = insert a (in_log (settle t))" "held_blocks v = held_blocks (settle t)" by blast
  have ov: "owns v (p_pid (procs v p)) i a" using v(5) wroteD(2) [OF w t(4)] by blast
  from tx.rel_law [OF txn_calm [OF v(3)] ov] obtain y where y: "brelse i v = Ret () y" "calm p y" "tframe v y" "lblk y = lblk v"
    "in_log y = in_log v" "held_blocks y = held_blocks v - {a}" by blast
  have fr: "tframe s y" using tframe_trans t(3) wroteD(1) [OF w] v(4) y(3) by blast
  have e: "held_blocks y = {}" "lblk y = (lblk s)(a := put_bytes (lblk s a) w0 bs)" "in_log y = in_log s \<union> {a}"
    using y(4-6) v(6-8) wroteD(3-5) [OF w] t(5-7) by simp_all
  have "wrote p s y {a} ((lblk s)(a := put_bytes (lblk s a) w0 bs))" by (rule wroteI [OF fr g(3) e])
  moreover have "txn p (k - 1) y" by (rule txn_spare [OF txn_keep [OF v(3) y(2,3,5)]]) simp
  ultimately show ?thesis using t(1) copy_local(2) [OF t(2)] v(1,2) y(1)
    by (intro exI [of _ i] exI [of _ t] exI [of _ u] exI [of _ v] exI [of _ y]) simp
qed

text \<open>The bytes of the file after \<open>d\<close> bytes of \<open>bs\<close> are written at \<open>off\<close>.\<close>

definition written :: "'a fs_state_scheme \<Rightarrow> nat \<Rightarrow> nat \<Rightarrow> u8 list \<Rightarrow> nat \<Rightarrow> nat \<Rightarrow> u8" where
  "written s ip off bs d j = (if off \<le> j \<and> j < off + d then bs ! (j - off) else fbyte s ip j)"

lemma chunk_written:
  assumes g: "calm p s" and ok: "file_ok s ip" and n: "n \<le> length bs" and a: "a = fblock s ip (off div BSIZE)" "a \<noteq> 0" "off div BSIZE < MAXFILE"
    and w: "wrote p s t {a} ((lblk s)(a := put_bytes (lblk s a) (off mod BSIZE) (take (io_chunk n off) bs)))"
  shows "file_step p ip s t" "file_ok t ip" "j < MAXFILE * BSIZE \<Longrightarrow> fbyte t ip j = written s ip off bs (io_chunk n off) j" "fblock t ip = fblock s ip"
    "itable t = itable s"
proof -
  let ?m = "io_chunk n off" and ?d = "put_bytes (lblk s a) (off mod BSIZE) (take (io_chunk n off) bs)"
  have m: "off mod BSIZE + ?m \<le> BSIZE" "?m \<le> n" by (auto simp: io_chunk_def BSIZE_def)
  have mp: "file_map_ok (sb s) (lblk s) (iaddrs s ip)" using ok by (simp add: file_ok_def)
  have len: "length ?d = BSIZE" using m n g by simp
  note wd = write_data [OF mp a(3) _ len, folded a(1), OF a(2)]
  have lt: "lblk t = (lblk s)(a := ?d)" by (rule wroteD(3) [OF w])
  show it: "itable t = itable s" by (rule tframe_fs [OF wroteD(1) [OF w]])
  have sbt: "sb t = sb s" by (rule tframe_fs [OF wroteD(1) [OF w]])
  show fb: "fblock t ip = fblock s ip" using wd(1) by (intro ext) (simp add: lt it)
  show "file_ok t ip" using ok wd(2) by (simp add: file_ok_def it sbt lt)
  have da: "data_block (sb s) (lblk s) a" using file_mapD(2) [OF mp a(3)] a(1,2) by simp
  have us: "block_used t c = block_used s c" if "c < sb_size (sb s)" for c using used_upd [of a "sb s" c] da that by (simp add: lt sbt data_block_def)
  have fbs: "a \<in> file_blocks s ip" using a by (auto simp: file_blocks_def)
  have e: "t\<lparr>itable := itable s\<rparr> = t" using it by simp
  have "\<exists>L. wrote p s t L (lblk t)" using w lt by auto
  moreover have "\<exists>A z. itable t = (itable s)(ip := (itable s ip)\<lparr>i_addrs := A, i_size := z\<rparr>)"
    by (intro exI [of _ "iaddrs s ip"] exI [of _ "i_size (itable s ip)"]) (simp add: it)
  moreover have "file_blocks t ip = file_blocks s ip" by (simp add: file_blocks_def fb) (simp add: it)
  moreover have "lblk t c = lblk s c" if "c \<notin> file_blocks s ip" for c using that fbs by (auto simp: lt)
  ultimately show "file_step p ip s t" unfolding file_step_def e using us by blast
  have ft: "fbyte t ip j = (if fblock s ip (j div BSIZE) = 0 then 0 else
      (if fblock s ip (j div BSIZE) = a then ?d else lblk s (fblock s ip (j div BSIZE))) ! (j mod BSIZE))" for j
    unfolding fbyte_def fb unfolding lt by simp
  show "fbyte t ip j = written s ip off bs ?m j" if j: "j < MAXFILE * BSIZE"
  proof (cases "j div BSIZE = off div BSIZE")
    case True
    have jm: "j mod BSIZE < length (lblk s a)" "off mod BSIZE + length (take ?m bs) \<le> length (lblk s a)" using g m n by (simp_all add: BSIZE_def)
    define x where "x = off div BSIZE * BSIZE"
    have "x + j mod BSIZE = j" "x + off mod BSIZE = off"
      unfolding x_def by (simp_all only: True [symmetric] div_mult_mod_eq) (simp only: True div_mult_mod_eq)
    then have "j + off mod BSIZE = off + j mod BSIZE" by linarith
    then have "off mod BSIZE \<le> j mod BSIZE \<longleftrightarrow> off \<le> j" "j mod BSIZE < off mod BSIZE + ?m \<longleftrightarrow> j < off + ?m" "off \<le> j \<Longrightarrow> j mod BSIZE - off mod BSIZE = j - off" by auto
    then show ?thesis using nth_put_bytes [OF jm(2,1)] True a(1,2) m(2) n by (auto simp: ft written_def fbyte_def [of s])
  next
    case False
    have jn: "j div BSIZE < MAXFILE" using j by (simp add: less_mult_imp_div_less)
    have "fblock s ip (j div BSIZE) \<noteq> a" if "fblock s ip (j div BSIZE) \<noteq> 0" using file_mapD(4) [OF mp jn a(3) that] False a(1) by auto
    moreover have "\<not> (off \<le> j \<and> j < off + ?m)" using in_chunk(1) [of off j n] False by blast
    ultimately show ?thesis by (auto simp: ft written_def fbyte_def [of s])
  qed
qed

text \<open>The number of blocks \<open>n\<close> bytes at \<open>off\<close> touch; each costs at most six log entries.\<close>

definition chunks :: "nat \<Rightarrow> nat \<Rightarrow> nat" where
  "chunks off n = (if n = 0 then 0 else (off mod BSIZE + n + BSIZE - 1) div BSIZE)"

lemma BSIZE_pos [simp]: "0 < BSIZE"
  by (simp add: BSIZE_def)

lemma chunks_step:
  assumes "0 < n"
  shows "chunks (off + io_chunk n off) (n - io_chunk n off) + 1 \<le> chunks off n"
proof (cases "io_chunk n off = n")
  case True
  have "BSIZE \<le> off mod BSIZE + n + BSIZE - 1" using assms by simp
  then have "1 \<le> (off mod BSIZE + n + BSIZE - 1) div BSIZE" using div_le_mono [of BSIZE _ BSIZE] by fastforce
  then show ?thesis using True assms by (simp add: chunks_def)
next
  case False
  then have m: "io_chunk n off = BSIZE - off mod BSIZE" "BSIZE - off mod BSIZE < n" by (auto simp: io_chunk_def min_def split: if_splits)
  have lt: "off mod BSIZE < BSIZE" by simp
  have up: "y + r = o2 \<Longrightarrow> r < b \<Longrightarrow> o2 + (b - r) = y + b" for y r o2 b :: nat by simp
  have "off + (BSIZE - off mod BSIZE) = BSIZE * (off div BSIZE) + BSIZE" by (rule up [OF mult_div_mod_eq lt])
  then have "off + (BSIZE - off mod BSIZE) = BSIZE * (off div BSIZE + 1)" by (simp only: distrib_left mult_1_right)
  then have z: "(off + (BSIZE - off mod BSIZE)) mod BSIZE = 0" by (simp only: mod_mult_self1_is_0)
  have e: "off mod BSIZE + n + BSIZE - 1 = (n - (BSIZE - off mod BSIZE) + BSIZE - 1) + BSIZE" using m(2) lt by linarith
  have "(off mod BSIZE + n + BSIZE - 1) div BSIZE = (n - (BSIZE - off mod BSIZE) + BSIZE - 1) div BSIZE + 1"
    unfolding e by (rule div_add_self2) simp
  then show ?thesis using m z assms by (simp add: chunks_def)
qed

definition wrote_file :: "nat \<Rightarrow> nat \<Rightarrow> nat \<Rightarrow> u8 list \<Rightarrow> nat \<Rightarrow> 'a fs_state_scheme \<Rightarrow> 'a fs_state_scheme \<Rightarrow> bool" where
  "wrote_file p ip off bs d s t \<longleftrightarrow> file_step p ip s t \<and> file_ok t ip \<and> held_blocks t = {} \<and> i_size (itable t ip) = i_size (itable s ip) \<and>
     (\<forall>j < MAXFILE * BSIZE. fbyte t ip j = written s ip off bs d j) \<and>
     (\<forall>i < MAXFILE. fblock s ip i \<noteq> 0 \<longrightarrow> fblock t ip i = fblock s ip i) \<and>
     (\<forall>j. off \<le> j \<longrightarrow> j < off + d \<longrightarrow> fblock t ip (j div BSIZE) \<noteq> 0)"

lemma wrote_fileD:
  assumes "wrote_file p ip off bs d s t"
  shows "file_step p ip s t" "file_ok t ip" "held_blocks t = {}" "i_size (itable t ip) = i_size (itable s ip)"
    "j < MAXFILE * BSIZE \<Longrightarrow> fbyte t ip j = written s ip off bs d j"
    "i < MAXFILE \<Longrightarrow> fblock s ip i \<noteq> 0 \<Longrightarrow> fblock t ip i = fblock s ip i"
    "off \<le> j \<Longrightarrow> j < off + d \<Longrightarrow> fblock t ip (j div BSIZE) \<noteq> 0"
  using assms unfolding wrote_file_def by blast+

lemma wrote_file_none: "mapped_step p ip bn s a t \<Longrightarrow> wrote_file p ip off bs 0 s t"
  by (auto simp: wrote_file_def mapped_step_def file_keeps_def written_def)

lemma wrote_file_trans:
  assumes a: "wrote_file p ip off bs m s t" and b: "wrote_file p ip (off + m) (drop m bs) d t u" and m: "m \<le> length bs" "off + m \<le> MAXFILE * BSIZE"
  shows "wrote_file p ip off bs (m + d) s u"
proof -
  note A = wrote_fileD [OF a] and B = wrote_fileD [OF b]
  have "file_step p ip s u" using A(1) B(1,2) by (intro file_step_trans [of p ip s t u]) (simp_all add: file_ok_def)
  moreover have "fbyte u ip j = written s ip off bs (m + d) j" if "j < MAXFILE * BSIZE" for j
    using A(5) [OF that] B(5) [OF that] m(1) by (auto simp: written_def)
  moreover have "fblock u ip i = fblock s ip i" if "i < MAXFILE" "fblock s ip i \<noteq> 0" for i using A(6) [OF that] B(6) [OF that(1)] that(2) by simp
  moreover have "fblock u ip (j div BSIZE) \<noteq> 0" if j: "off \<le> j" "j < off + (m + d)" for j
  proof (cases "j < off + m")
    case True
    then have "j div BSIZE < MAXFILE" using m(2) by (intro less_mult_imp_div_less) simp
    then show ?thesis using A(7) [OF j(1) True] B(6) by simp
  next
    case False
    then show ?thesis using B(7) [of j] j by simp
  qed
  ultimately show ?thesis using A(4) B(2-4) unfolding wrote_file_def by simp
qed

lemma write_one_chunk:
  assumes g: "txn p k s" "6 \<le> k" "held_blocks s = {}" and ok: "file_ok s ip" and n: "n \<le> length bs" "off + n \<le> MAXFILE * BSIZE" "0 < n"
  shows "\<exists>a t. bmap ip (off div BSIZE) s = Ret a t \<and> (if a = 0 then txn p (k - 6) t \<and> wrote_file p ip off bs 0 s t \<and> free_block t = None
    else \<exists>i u v w x. i_dev (itable t ip) = ROOTDEV \<and> bread ROOTDEV a t = Ret i u \<and>
      either_copyin (From_local bs) (io_chunk n off) u = Ret (0, take (io_chunk n off) bs) (settle u) \<and>
      bset i (\<lambda>d. put_bytes d (off mod BSIZE) (take (io_chunk n off) bs)) (settle u) = Ret () v \<and> log_write i v = Ret () w \<and> brelse i w = Ret () x \<and>
      txn p (k - 6) x \<and> wrote_file p ip off bs (io_chunk n off) s x)"
proof -
  let ?m = "io_chunk n off"
  have m: "?m \<le> n" "off mod BSIZE + ?m \<le> BSIZE" by (auto simp: io_chunk_def BSIZE_def)
  have bn: "off div BSIZE < MAXFILE" using n(2,3) by (intro less_mult_imp_div_less) simp
  have "5 \<le> k" using g(2) by simp
  from bmap_ok [OF g(1) this g(3) ok bn] obtain a t where t: "bmap ip (off div BSIZE) s = Ret a t" "txn p (k - 5) t" "mapped_step p ip (off div BSIZE) s a t" by blast
  note w0 = wrote_file_none [OF t(3), of off bs]
  show ?thesis
  proof (cases "a = 0")
    case True
    then have "free_block t = None" using t(3) by (simp add: mapped_step_def)
    then show ?thesis using True t(1) w0 txn_spare [OF t(2), of "k - 6"] by (intro exI [of _ a] exI [of _ t]) simp
  next
    case False
    have okt: "file_ok t ip" "held_blocks t = {}" using w0 by (auto simp: wrote_file_def)
    have dev: "i_dev (itable t ip) = ROOTDEV" using okt(1) by (simp add: file_ok_def)
    have len: "length (take ?m bs) = ?m" and k: "0 < k - 5" using m n(1) g(2) by simp_all
    from put_chunk [OF t(2) k okt(2) len m(2), of a bs] obtain i u v w x where x: "bread ROOTDEV a t = Ret i u"
      "either_copyin (From_local bs) ?m u = Ret (0, take ?m bs) (settle u)"
      "bset i (\<lambda>d. put_bytes d (off mod BSIZE) (take ?m bs)) (settle u) = Ret () v" "log_write i v = Ret () w" "brelse i w = Ret () x" "txn p (k - 5 - 1) x"
      "wrote p t x {a} ((lblk t)(a := put_bytes (lblk t a) (off mod BSIZE) (take ?m bs)))" by blast
    have a: "a = fblock t ip (off div BSIZE)" using t(3) bn by (simp add: mapped_step_def)
    note cw = chunk_written [OF txn_calm [OF t(2)] okt(1) n(1) a False bn x(7)]
    have "fblock x ip (j div BSIZE) \<noteq> 0" if "off \<le> j" "j < off + ?m" for j using in_chunk(1) [OF that] cw(4) a False by simp
    moreover have "held_blocks x = {}" using wroteD(5) [OF x(7)] okt(2) by simp
    ultimately have "wrote_file p ip off bs ?m t x" using cw by (simp add: wrote_file_def)
    then have "wrote_file p ip off bs ?m s x" using wrote_file_trans [of p ip off bs 0 s t ?m x] w0 n(2) by simp
    moreover have "txn p (k - 6) x" by (rule txn_spare [OF x(6)]) simp
    ultimately show ?thesis using False t(1) x(1-5) dev by (intro exI [of _ a] exI [of _ t]) auto
  qed
qed

lemma writei_loop_ok:
  assumes "txn p k s" "6 * chunks off n \<le> k" "held_blocks s = {}" "file_ok s ip" "n \<le> length bs" "off + n \<le> MAXFILE * BSIZE"
  shows "\<exists>d t. writei_loop ip (From_local bs) off n tot s = Ret (tot + d, off + d) t \<and> txn p (k - 6 * chunks off n) t \<and>
    wrote_file p ip off bs d s t \<and> d \<le> n \<and> (d = n \<or> free_block t = None)"
  using assms
proof (induction n arbitrary: off tot bs s k rule: less_induct)
  case (less n)
  show ?case
  proof (cases "n = 0")
    case True
    have "wrote_file p ip off bs 0 s s"
      using mapped_same [OF wrote_refl less.prems(4,3), of "fblock s ip 0" 0] keeps_same [OF wrote_refl less.prems(4,3), of p]
      by (auto simp: wrote_file_def file_keeps_def written_def)
    then show ?thesis using True less.prems(1) by (subst writei_loop.simps) (auto simp: chunks_def)
  next
    case False
    let ?m = "io_chunk n off"
    have m: "?m \<le> n" "n - ?m < n" using False io_chunk_pos [of n off] by (auto simp: io_chunk_def BSIZE_def)
    have c: "chunks (off + ?m) (n - ?m) + 1 \<le> chunks off n" using False by (intro chunks_step) simp
    then have k: "6 \<le> k" "6 * chunks (off + ?m) (n - ?m) \<le> k - 6" using less.prems(2) by simp_all
    obtain a t where t: "bmap ip (off div BSIZE) s = Ret a t" "if a = 0 then txn p (k - 6) t \<and> wrote_file p ip off bs 0 s t \<and> free_block t = None
        else \<exists>i u v w x. i_dev (itable t ip) = ROOTDEV \<and> bread ROOTDEV a t = Ret i u \<and>
          either_copyin (From_local bs) ?m u = Ret (0, take ?m bs) (settle u) \<and>
          bset i (\<lambda>d. put_bytes d (off mod BSIZE) (take ?m bs)) (settle u) = Ret () v \<and> log_write i v = Ret () w \<and> brelse i w = Ret () x \<and>
          txn p (k - 6) x \<and> wrote_file p ip off bs ?m s x"
      using write_one_chunk [OF less.prems(1) k(1) less.prems(3-6)] False by blast
    show ?thesis
    proof (cases "a = 0")
      case True
      have "txn p (k - 6 * chunks off n) t" using t(2) True c by (auto intro: txn_spare)
      then show ?thesis using True False t by (intro exI [of _ 0] exI [of _ t], subst writei_loop.simps) (simp add: kern_simps)
    next
      case nz: False
      then obtain i u v w x where x: "i_dev (itable t ip) = ROOTDEV" "bread ROOTDEV a t = Ret i u"
          "either_copyin (From_local bs) ?m u = Ret (0, take ?m bs) (settle u)"
          "bset i (\<lambda>d. put_bytes d (off mod BSIZE) (take ?m bs)) (settle u) = Ret () v" "log_write i v = Ret () w" "brelse i w = Ret () x"
          "txn p (k - 6) x" "wrote_file p ip off bs ?m s x" using t(2) by auto
      have len: "n - ?m \<le> length (drop ?m bs)" "off + ?m + (n - ?m) \<le> MAXFILE * BSIZE" "?m \<le> length bs" "off + ?m \<le> MAXFILE * BSIZE"
        using less.prems(5,6) m(1) by simp_all
      from less.IH [OF m(2) x(7) k(2) wrote_fileD(3,2) [OF x(8)] len(1,2), of "tot + ?m"] obtain d y where
        y: "writei_loop ip (From_local (drop ?m bs)) (off + ?m) (n - ?m) (tot + ?m) x = Ret (tot + ?m + d, off + ?m + d) y"
        "txn p (k - 6 - 6 * chunks (off + ?m) (n - ?m)) y" "wrote_file p ip (off + ?m) (drop ?m bs) d x y" "d \<le> n - ?m" "d = n - ?m \<or> free_block y = None" by blast
      have "txn p (k - 6 * chunks off n) y" by (rule txn_spare [OF y(2)]) (use c in simp)
      moreover have "wrote_file p ip off bs (?m + d) s y" by (rule wrote_file_trans [OF x(8) y(3) len(3,4)])
      moreover have "writei_loop ip (From_local bs) off n tot s = Ret (tot + (?m + d), off + (?m + d)) y"
        using False nz t(1) x(1-6) y(1) by (subst writei_loop.simps) (simp add: kern_simps Let_def add.assoc)
      moreover have "?m + d \<le> n" "?m + d = n \<or> free_block y = None" using y(4,5) m(1) by auto
      ultimately show ?thesis by blast
    qed
  qed
qed

text \<open>Writing the inode itself keeps the file.\<close>

lemma save_inode:
  assumes ok: "file_ok s ip" and i: "i_inum (itable s ip) < sb_ninodes (sb s)" and h: "held_blocks s = {}"
    and w: "wrote p s t L (inode_saved (sb s) (lblk s) (itable s ip))"
  shows "file_keeps p ip s t" "fblock t ip = fblock s ip" "itable t = itable s" "free_block t = free_block s"
proof -
  let ?d = "dinode_put (inode_dinode (itable s ip)) (dinode_off (i_inum (itable s ip))) (lblk s (IBLOCK (i_inum (itable s ip)) (sb s)))"
  have mp: "file_map_ok (sb s) (lblk s) (iaddrs s ip)" using ok by (simp add: file_ok_def)
  have lt: "lblk t = (lblk s)(IBLOCK (i_inum (itable s ip)) (sb s) := ?d)" using wroteD(3) [OF w] by (simp add: inode_saved_def)
  have "length ?d = BSIZE" using meta_okD(1) [OF file_mapD(1) [OF mp]] by simp
  note wi = write_inode_block [OF mp i this]
  show it: "itable t = itable s" by (rule tframe_fs [OF wroteD(1) [OF w]])
  have sbt: "sb t = sb s" by (rule tframe_fs [OF wroteD(1) [OF w]])
  show fb: "fblock t ip = fblock s ip" using wi(1) by (intro ext) (simp add: lt it)
  have okt: "file_ok t ip" using ok wi(2) by (simp add: file_ok_def it sbt lt)
  have us: "block_used t c = block_used s c" if "c < sb_size (sb s)" for c using wi(3) that by (simp add: lt sbt)
  then show "free_block t = free_block s" unfolding sbt by (intro first_idx_cong) simp
  have e: "t\<lparr>itable := itable s\<rparr> = t" using it by simp
  have dc: "lblk t c = lblk s c" if "data_block (sb s) (lblk s) c" for c using that in_meta(3) [OF i] by (auto simp: lt data_block_def)
  have ft: "fbyte t ip j = (if fblock s ip (j div BSIZE) = 0 then 0 else lblk t (fblock s ip (j div BSIZE)) ! (j mod BSIZE))" for j
    unfolding fbyte_def fb ..
  have fy: "fbyte t ip j = fbyte s ip j" if "j < MAXFILE * BSIZE" for j
    using dc file_mapD(2) [OF mp, of "j div BSIZE"] less_mult_imp_div_less [OF that] by (simp add: ft fbyte_def [of s])
  have "\<exists>L. wrote p s t L (lblk t)" using w wroteD(3) [OF w] by auto
  moreover have "\<exists>A z. itable t = (itable s)(ip := (itable s ip)\<lparr>i_addrs := A, i_size := z\<rparr>)"
    by (intro exI [of _ "iaddrs s ip"] exI [of _ "i_size (itable s ip)"]) (simp add: it)
  moreover have "file_blocks t ip = file_blocks s ip" by (simp add: file_blocks_def fb) (simp add: it)
  ultimately have "file_step p ip s t" unfolding file_step_def e using us dc by blast
  moreover have "held_blocks t = {}" using wroteD(5) [OF w] h by simp
  ultimately show "file_keeps p ip s t" using okt fy it by (simp add: file_keeps_def)
qed

abbreviation with_size :: "nat \<Rightarrow> nat \<Rightarrow> 'a fs_state_scheme \<Rightarrow> 'a fs_state_scheme" where
  "with_size ip z t \<equiv> t\<lparr>itable := (itable t)(ip := (itable t ip)\<lparr>i_size := z\<rparr>)\<rparr>"

lemma with_size_simps: "fblock (with_size ip z t) ip = fblock t ip" "file_ok (with_size ip z t) ip = file_ok t ip" "fbyte (with_size ip z t) ip = fbyte t ip"
  "file_blocks (with_size ip z t) ip = file_blocks t ip"
proof -
  show fb: "fblock (with_size ip z t) ip = fblock t ip" by simp
  show "file_ok (with_size ip z t) ip = file_ok t ip" by (simp add: file_ok_def)
  show "fbyte (with_size ip z t) ip = fbyte t ip" by (rule ext) (simp add: fbyte_def)
  show "file_blocks (with_size ip z t) ip = file_blocks t ip" by (simp add: file_blocks_def)
qed

lemma file_step_size: "file_step p ip s t \<Longrightarrow> file_step p ip s (with_size ip z t)"
proof -
  assume a: "file_step p ip s t"
  then obtain A y where "itable t = (itable s)(ip := (itable s ip)\<lparr>i_addrs := A, i_size := y\<rparr>)" by (auto simp: file_step_def)
  then have "itable (with_size ip z t) = (itable s)(ip := (itable s ip)\<lparr>i_addrs := A, i_size := z\<rparr>)" by simp
  moreover have "(with_size ip z t)\<lparr>itable := itable s\<rparr> = t\<lparr>itable := itable s\<rparr>" "lblk (with_size ip z t) = lblk t" "sb (with_size ip z t) = sb t" by simp_all
  ultimately show ?thesis using a unfolding file_step_def with_size_simps by metis
qed

lemma grown_no_holes:
  assumes w: "wrote_file p ip off bs d s t" and h: "no_holes s ip z" and o: "off \<le> z" "off + d \<le> MAXFILE * BSIZE"
  shows "no_holes t ip (max z (off + d))"
  unfolding no_holes_def
proof (intro conjI allI impI)
  show "max z (off + d) \<le> MAXFILE * BSIZE" using h o by (simp add: no_holes_def)
  fix i assume i: "i * BSIZE < max z (off + d)"
  show "fblock t ip i \<noteq> 0"
  proof (cases "i * BSIZE < z")
    case True
    then have "i * BSIZE < MAXFILE * BSIZE" using h unfolding no_holes_def by linarith
    then have "i < MAXFILE" using mult_less_cancel2 by blast
    moreover have "fblock s ip i \<noteq> 0" using h True by (simp add: no_holes_def)
    ultimately show ?thesis using wrote_fileD(6) [OF w] by simp
  next
    case False
    then show ?thesis using wrote_fileD(7) [OF w, of "i * BSIZE"] i o(1) by simp
  qed
qed

lemma file_fits:
  assumes ok: "file_ok s ip" and z: "i_size (itable s ip) \<le> MAXFILE * BSIZE"
  shows "dinode_fits (inode_dinode (itable s ip))"
proof -
  have mp: "file_map_ok (sb s) (lblk s) (iaddrs s ip)" using ok by (simp add: file_ok_def)
  have sz: "sb_size (sb s) < 2 ^ 32" by (rule meta_okD(2) [OF file_mapD(1) [OF mp]])
  have "iaddrs s ip i < 2 ^ 32" if "i \<le> NDIRECT" for i
  proof (cases "i = NDIRECT")
    case True
    then show ?thesis using file_mapD(5) [OF mp] sz by (cases "iaddrs s ip NDIRECT = 0") (auto simp: data_block_def)
  next
    case False
    then have "fblock s ip i = iaddrs s ip i" "i < MAXFILE" using that by (auto simp: faddr_def MAXFILE_def)
    then show ?thesis using file_mapD(2) [OF mp, of i] sz by (cases "iaddrs s ip i = 0") (auto simp: data_block_def)
  qed
  moreover have "i_size (itable s ip) < 2 ^ 32" using z by (simp add: MAXFILE_def NDIRECT_def NINDIRECT_def BSIZE_def)
  ultimately show ?thesis by (simp add: dinode_fits_def inode_dinode_def)
qed

lemma writei_ok:
  fixes s :: "'a fs_state_scheme"
  assumes g: "txn p k s" "6 * chunks off (length bs) + 1 \<le> k" "held_blocks s = {}" and ok: "file_ok s ip" "no_holes s ip (i_size (itable s ip))"
    and i: "i_inum (itable s ip) < sb_ninodes (sb s)" and off: "off \<le> i_size (itable s ip)" "off + length bs \<le> MAXFILE * BSIZE"
  shows "\<exists>d t :: 'a fs_state_scheme. writei ip (From_local bs) off (length bs) s = Ret (int d) t \<and> d \<le> length bs \<and> (d = length bs \<or> free_block t = None) \<and>
    txn p (k - (6 * chunks off (length bs) + 1)) t \<and> held_blocks t = {} \<and> file_step p ip s t \<and> file_ok t ip \<and>
    (\<forall>j < MAXFILE * BSIZE. fbyte t ip j = written s ip off bs d j) \<and> i_size (itable t ip) = max (i_size (itable s ip)) (off + d) \<and>
    no_holes t ip (i_size (itable t ip)) \<and> same_dinode (disk_inode (sb s) (lblk t) (i_inum (itable s ip))) (inode_dinode (itable t ip))"
proof -
  let ?n = "length bs" and ?z = "i_size (itable s ip)"
  have k: "6 * chunks off ?n \<le> k" using g(2) by simp
  from writei_loop_ok [OF g(1) k g(3) ok(1) le_refl off(2), of 0] obtain d t where t: "writei_loop ip (From_local bs) off ?n 0 s = Ret (d, off + d) t"
    "txn p (k - 6 * chunks off ?n) t" "wrote_file p ip off bs d s t" "d \<le> ?n" "d = ?n \<or> free_block t = None" by auto
  note wf = wrote_fileD [OF t(3)]
  define z where "z = max ?z (off + d)"
  have "kwhen (off + d > i_size (itable t ip)) (upd_inode ip (\<lambda>x. x\<lparr>i_size := off + d\<rparr>)) t = Ret () (with_size ip z t)"
  proof (cases "off + d > ?z")
    case True
    then show ?thesis using wf(4) by (simp add: kern_simps upd_inode_def z_def)
  next
    case False
    then have "z = i_size (itable t ip)" using wf(4) by (simp add: z_def)
    then have "with_size ip z t = t" by simp
    then show ?thesis using False wf(4) by (simp only: kern_simps) simp
  qed
  note size_run = this
  let ?t = "with_size ip z t"
  have kt: "txn p (k - 6 * chunks off ?n) ?t" "0 < k - 6 * chunks off ?n" "held_blocks ?t = {}" using t(2) g(2) wf(3) by (simp_all add: calm_itable)
  have okt: "file_ok ?t ip" using wf(2) by (simp only: with_size_simps)
  have it: "i_dev (itable ?t ip) = ROOTDEV" "i_inum (itable ?t ip) = i_inum (itable s ip)" "sb ?t = sb s"
    using okt file_stepD(1,8) [OF wf(1)] by (simp_all add: file_ok_def)
  from iupdate_ok [OF kt it(1)] obtain u where u: "iupdate ip ?t = Ret () u" "txn p (k - 6 * chunks off ?n - 1) u"
    "wrote p ?t u {IBLOCK (i_inum (itable ?t ip)) (sb ?t)} (inode_saved (sb ?t) (lblk ?t) (itable ?t ip))" by blast
  have i': "i_inum (itable ?t ip) < sb_ninodes (sb ?t)" using i it by simp
  note sv = save_inode [OF okt i' kt(3) u(3)]
  have stp: "file_step p ip s u"
    using file_step_trans [OF file_step_size [OF wf(1), of z], of u] sv(1) by (simp add: file_keeps_def file_ok_def)
  have od: "off + d \<le> MAXFILE * BSIZE" using t(4) off(2) by simp
  have nh: "no_holes u ip z" using grown_no_holes [OF t(3) ok(2) off(1) od] unfolding no_holes_def sv(2) z_def with_size_simps by blast
  have su: "i_size (itable u ip) = z" by (simp add: sv(3))
  have zl: "z \<le> MAXFILE * BSIZE" using nh by (simp add: no_holes_def)
  have "dinode_fits (inode_dinode (itable ?t ip))" by (rule file_fits [OF okt]) (simp add: zl)
  from inode_saved_at(1) [OF calm_len(2) [OF kt(1)] this, of "sb ?t"]
  have sd: "same_dinode (disk_inode (sb s) (lblk u) (i_inum (itable s ip))) (inode_dinode (itable u ip))" unfolding wroteD(3) [OF u(3)] sv(3) it(2,3) .
  have fy: "fbyte u ip j = written s ip off bs d j" if "j < MAXFILE * BSIZE" for j
    using sv(1) wf(5) [OF that] that unfolding file_keeps_def with_size_simps by simp
  have fl: "free_block u = free_block t" unfolding sv(4) by simp
  have run: "writei ip (From_local bs) off ?n s = Ret (int d) u"
    using off ok(2) t(1) u(1) size_run by (simp add: writei_def kern_simps MAXFILE_def NDIRECT_def NINDIRECT_def BSIZE_def split: if_splits)
  have h: "held_blocks u = {}" "file_ok u ip" using sv(1) by (simp_all add: file_keeps_def)
  have tu: "txn p (k - (6 * chunks off ?n + 1)) u" using u(2) by (simp add: diff_diff_left)
  show ?thesis using run t(4,5) tu h stp fy su nh sd by (intro exI [of _ d] exI [of _ u]) (simp add: fl z_def)
qed

subsection \<open>What reading and writing guarantee\<close>

definition content :: "'a fs_state_scheme \<Rightarrow> nat \<Rightarrow> u8 list" where
  "content s ip = map (fbyte s ip) [0..<i_size (itable s ip)]"

lemma written_content:
  assumes "off \<le> i_size (itable s ip)" "d \<le> length bs"
  shows "map (written s ip off bs d) [0..<max (i_size (itable s ip)) (off + d)] = put_bytes (content s ip) off (take d bs)"
proof (rule nth_equalityI)
  show "length (map (written s ip off bs d) [0..<max (i_size (itable s ip)) (off + d)]) = length (put_bytes (content s ip) off (take d bs))"
    using assms by (simp add: put_bytes_def content_def)
  fix j assume "j < length (map (written s ip off bs d) [0..<max (i_size (itable s ip)) (off + d)])"
  then show "map (written s ip off bs d) [0..<max (i_size (itable s ip)) (off + d)] ! j = put_bytes (content s ip) off (take d bs) ! j"
    using assms by (auto simp: put_bytes_def content_def nth_append written_def min_def)
qed

text \<open>A step on one file leaves every file with other blocks alone.\<close>

lemma other_file:
  assumes st: "file_step p ip s t" and ne: "jp \<noteq> ip" and ok: "file_ok s jp" and dis: "file_blocks s jp \<inter> file_blocks s ip = {}" and j: "j < MAXFILE * BSIZE"
  shows "fbyte t jp j = fbyte s jp j"
proof -
  have mp: "file_map_ok (sb s) (lblk s) (iaddrs s jp)" using ok by (simp add: file_ok_def)
  have it: "itable t jp = itable s jp" by (rule file_stepD(3) [OF st ne])
  have same: "lblk t b = lblk s b" if b: "b \<in> file_blocks s jp" for b
  proof (rule file_stepD(6) [OF st])
    show "data_block (sb s) (lblk s) b" using b file_mapD(2,5) [OF mp] by (auto simp: file_blocks_def)
    show "b \<notin> file_blocks s ip" using b dis by blast
  qed
  have "lblk t (iaddrs s jp NDIRECT) = lblk s (iaddrs s jp NDIRECT)" if "iaddrs s jp NDIRECT \<noteq> 0" using that by (intro same) (simp add: file_blocks_def)
  then have fb: "fblock t jp = fblock s jp" by (intro ext) (simp add: faddr_def it)
  have ft: "fbyte t jp j = (if fblock s jp (j div BSIZE) = 0 then 0 else lblk t (fblock s jp (j div BSIZE)) ! (j mod BSIZE))"
    unfolding fbyte_def fb ..
  have "lblk t (fblock s jp (j div BSIZE)) = lblk s (fblock s jp (j div BSIZE))" if "fblock s jp (j div BSIZE) \<noteq> 0"
    using that less_mult_imp_div_less [OF j] by (intro same) (auto simp: file_blocks_def)
  then show ?thesis by (simp add: ft fbyte_def [of s])
qed

text \<open>C3: \<open>writei\<close> writes the bytes at the offset, extending the file and taking blocks as needed, and returns
  how many it wrote: all of them unless the disk is full. Reading the whole file then returns the old
  contents with those bytes put in; the file keeps its invariant, and the bytes of every file with
  other blocks are untouched.\<close>

theorem writei_readi_roundtrip:
  fixes s :: "'a fs_state_scheme"
  assumes "txn p (6 * chunks off (length bs) + 1) s" "held_blocks s = {}" "file_ok s ip" "no_holes s ip (i_size (itable s ip))"
    "i_inum (itable s ip) < sb_ninodes (sb s)" "off \<le> i_size (itable s ip)" "off + length bs \<le> MAXFILE * BSIZE"
  shows "\<exists>d t u. writei ip (From_local bs) off (length bs) s = Ret (int d) (t :: 'a fs_state_scheme) \<and> d \<le> length bs \<and>
    (d = length bs \<or> (\<forall>b < sb_size (sb s). block_used t b)) \<and> i_size (itable t ip) = max (i_size (itable s ip)) (off + d) \<and>
    readi ip Local 0 (i_size (itable t ip)) t = Ret (int (i_size (itable t ip)), put_bytes (content s ip) off (take d bs)) u \<and>
    file_ok t ip \<and> no_holes t ip (i_size (itable t ip)) \<and>
    (\<forall>jp j. jp \<noteq> ip \<longrightarrow> file_ok s jp \<longrightarrow> file_blocks s jp \<inter> file_blocks s ip = {} \<longrightarrow> j < MAXFILE * BSIZE \<longrightarrow> fbyte t jp j = fbyte s jp j)"
proof -
  from writei_ok [OF assms(1) le_refl assms(2-7)] obtain d t where t: "writei ip (From_local bs) off (length bs) s = Ret (int d) t" "d \<le> length bs"
    "d = length bs \<or> free_block t = None" "txn p 0 t" "held_blocks t = {}" "file_step p ip s t" "file_ok t ip"
    "\<forall>j < MAXFILE * BSIZE. fbyte t ip j = written s ip off bs d j" "i_size (itable t ip) = max (i_size (itable s ip)) (off + d)"
    "no_holes t ip (i_size (itable t ip))" by auto
  let ?z = "i_size (itable t ip)"
  have zl: "?z \<le> MAXFILE * BSIZE" using t(10) by (simp add: no_holes_def)
  then have "0 + ?z < 2 ^ 32" by (simp add: MAXFILE_def NDIRECT_def NINDIRECT_def BSIZE_def)
  from readi_ok [OF txn_calm [OF t(4)] t(5,7,10) this] obtain u where u: "readi ip Local 0 ?z t = Ret (int ?z, map (fbyte t ip) [0..<?z]) u" by auto
  have "map (fbyte t ip) [0..<?z] = map (written s ip off bs d) [0..<?z]" using t(8) zl by (intro map_cong) auto
  then have r: "map (fbyte t ip) [0..<?z] = put_bytes (content s ip) off (take d bs)" using written_content [OF assms(6) t(2)] by (simp add: t(9))
  have "d = length bs \<or> (\<forall>b < sb_size (sb s). block_used t b)" using t(3) file_stepD(1) [OF t(6)] by (auto simp: first_idx_None)
  then show ?thesis using t(1,2,7,9,10) u r other_file [OF t(6)] by (intro exI [of _ d] exI [of _ t] exI [of _ u]) simp
qed

lemma tiny_file_map: "file_map_ok tiny_sb tiny_disk (i_addrs tiny_inode)"
proof -
  let ?A = "i_addrs tiny_inode"
  have us: "used_in tiny_sb tiny_disk b \<longleftrightarrow> b < 48" if "b < 60" for b
    using tiny_map(1) [OF that, of "tiny_fs tiny_disk (\<lambda>_. tiny_inode)"] tiny_fs_ok(3,5) [of tiny_disk "\<lambda>_. tiny_inode"] by simp
  have bb: "BBLOCK b tiny_sb = 45" if "b < 60" for b using that by (simp add: BBLOCK_def tiny_sb_def BPB_def BSIZE_def)
  have ib: "32 \<le> IBLOCK i tiny_sb \<and> IBLOCK i tiny_sb < 39" if "i < 100" for i
    using that by (auto simp: IBLOCK_def tiny_sb_def IPB_def BSIZE_def)
  have sz: "sb_size tiny_sb = 60" "sb_ninodes tiny_sb = 100" by (simp_all add: tiny_sb_def)
  have me: "b < 46" if "b \<in> fs_meta tiny_sb" for b using that bb ib by (fastforce simp: fs_meta_def sz)
  have "meta_ok tiny_sb tiny_disk"
    unfolding meta_ok_def sz
  proof (intro conjI ballI allI impI)
    show "b < 60" "used_in tiny_sb tiny_disk b" if "b \<in> fs_meta tiny_sb" for b using me [OF that] us [of b] by simp_all
    show "IBLOCK i tiny_sb \<noteq> BBLOCK b tiny_sb" if "i < 100" "b < 60" for i b using ib [OF that(1)] bb [OF that(2)] by simp
  qed simp_all
  moreover have fa: "faddr tiny_disk ?A i = (if i = 0 then 46 else if i = 1 then 47 else 0)" for i
    by (simp add: faddr_def tiny_inode_def NDIRECT_def)
  moreover have "?A NDIRECT = 0" by (simp add: tiny_inode_def NDIRECT_def)
  moreover have "46 \<notin> fs_meta tiny_sb" "47 \<notin> fs_meta tiny_sb" using me [of 46] me [of 47] by auto
  ultimately show ?thesis using us [of 46] us [of 47] by (simp add: file_map_ok_def data_block_def sz)
qed

theorem writei_readi_roundtrip_witness:
  "\<exists>d t u. writei 0 (From_local (replicate 700 7)) 1400 700 (tiny_fs tiny_disk (\<lambda>_. tiny_inode)) = Ret (int d) t \<and>
    readi 0 Local 0 (i_size (itable t 0)) t = Ret (int (max 1500 (1400 + d)), replicate 1400 0 @ replicate d 7 @ replicate (100 - d) 0) u"
proof -
  let ?s = "tiny_fs tiny_disk (\<lambda>_. tiny_inode)"
  note ok = tiny_fs_ok [of tiny_disk "\<lambda>_. tiny_inode", OF tiny_disk_len]
  have "chunks 1400 700 = 2" by (simp add: chunks_def BSIZE_def)
  then have tx: "txn 3 (6 * chunks 1400 (length (replicate 700 (7 :: u8))) + 1) ?s" by (intro txn_spare [OF ok(1)]) simp
  have f: "file_ok ?s 0" using tiny_file_map by (simp add: file_ok_def ok(3,5,6)) (simp add: tiny_inode_def)
  have sz: "i_size (itable ?s 0) = 1500" "i_inum (itable ?s 0) < sb_ninodes (sb ?s)" unfolding ok(5,6) by (simp_all add: tiny_inode_def tiny_sb_def)
  have fb: "fblock ?s 0 i = (if i = 0 then 46 else if i = 1 then 47 else 0)" for i unfolding ok(6) by (simp add: faddr_def tiny_inode_def NDIRECT_def)
  have nh: "no_holes ?s 0 (i_size (itable ?s 0))" by (auto simp: no_holes_def fb sz MAXFILE_def NDIRECT_def NINDIRECT_def BSIZE_def)
  have "fbyte ?s 0 j = 0" if "j < 1500" for j
    unfolding fbyte_def fb unfolding ok(3) using that by (simp add: tiny_disk_def BSIZE_def)
  then have c: "content ?s 0 = replicate 1500 0" unfolding content_def sz by (intro nth_equalityI) simp_all
  have "1400 \<le> i_size (itable ?s 0)" "1400 + length (replicate 700 (7 :: u8)) \<le> MAXFILE * BSIZE"
    by (simp_all add: sz MAXFILE_def NDIRECT_def NINDIRECT_def BSIZE_def)
  from writei_readi_roundtrip [OF tx ok(2) f nh sz(2) this] obtain d t u where
    t: "writei 0 (From_local (replicate 700 7)) 1400 700 ?s = Ret (int d) t" "d \<le> 700" "i_size (itable t 0) = max 1500 (1400 + d)"
    "readi 0 Local 0 (i_size (itable t 0)) t = Ret (int (i_size (itable t 0)), put_bytes (content ?s 0) 1400 (take d (replicate 700 7))) u"
    unfolding sz length_replicate by blast
  have "put_bytes (content ?s 0) 1400 (take d (replicate 700 7)) = replicate 1400 0 @ replicate d 7 @ replicate (100 - d) 0"
    using t(2) by (simp add: c put_bytes_def min_def)
  then show ?thesis using t by (intro exI [of _ d] exI [of _ t] exI [of _ u]) simp
qed

end
