(* ===== verification/Fs_Dir.thy ===== *)
theory Fs_Dir
  imports Fs_File
begin

text \<open>
  Directories of \<^verbatim>\<open>kernel/fs.c\<close>: the bytes of a directory file as a list of 16-byte entries, and
  \<open>dirlookup\<close> and \<open>dirlink\<close> as the lookup and the update of a table of names.
\<close>

subsection \<open>The table a directory stands for\<close>

definition dir_entry :: "'a fs_state_scheme \<Rightarrow> nat \<Rightarrow> nat \<Rightarrow> u8 list" where
  "dir_entry s dp k = map (fbyte s dp) [16 * k..<16 * k + 16]"

definition entry_is :: "u8 list \<Rightarrow> u8 list \<Rightarrow> bool" where
  "entry_is name de \<longleftrightarrow> de_inum de \<noteq> 0 \<and> cstr DIRSIZ (str_ptr name) = cstr DIRSIZ (str_ptr (de_name de))"

text \<open>The inode number and the offset of the first entry with the name.\<close>

definition dir_find :: "'a fs_state_scheme \<Rightarrow> nat \<Rightarrow> u8 list \<Rightarrow> (nat \<times> nat) option" where
  "dir_find s dp name = map_option (\<lambda>k. (de_inum (dir_entry s dp k), 16 * k))
     (first_idx (\<lambda>k. entry_is name (dir_entry s dp k)) [0..<i_size (itable s dp) div 16])"

definition dir_ok :: "'a fs_state_scheme \<Rightarrow> nat \<Rightarrow> bool" where
  "dir_ok s dp \<longleftrightarrow> file_ok s dp \<and> no_holes s dp (i_size (itable s dp)) \<and> i_type (itable s dp) = T_DIR \<and> i_size (itable s dp) mod 16 = 0"

lemma dir_okD:
  assumes "dir_ok s dp"
  shows "file_ok s dp" "no_holes s dp (i_size (itable s dp))" "i_type (itable s dp) = T_DIR" "i_size (itable s dp) mod 16 = 0"
    "i_dev (itable s dp) = ROOTDEV" "i_size (itable s dp) \<le> MAXFILE * BSIZE"
  using assms by (auto simp: dir_ok_def file_ok_def no_holes_def)

lemma dir_same:
  assumes "wrote p s t {} (lblk s)"
  shows "dir_ok t dp = dir_ok s dp" "dir_find t dp = dir_find s dp" "dir_entry t dp = dir_entry s dp" "i_size (itable t dp) = i_size (itable s dp)"
proof -
  note f = file_same(2-4) [OF assms, of dp] file_same(5,6) [OF assms]
  show e: "dir_entry t dp = dir_entry s dp" by (rule ext) (simp add: dir_entry_def f(2))
  show "dir_ok t dp = dir_ok s dp" unfolding dir_ok_def no_holes_def f wroteD(3) [OF assms] ..
  show "dir_find t dp = dir_find s dp" by (rule ext) (simp add: dir_find_def e f(4))
  show "i_size (itable t dp) = i_size (itable s dp)" by (simp add: f(4))
qed

lemma dir_offs_eq: "sz mod 16 = 0 \<Longrightarrow> dir_offs sz = map (\<lambda>k. 16 * k) [0..<sz div 16]"
proof -
  assume "sz mod 16 = 0"
  then obtain n where "sz = 16 * n" by (auto elim: dvdE)
  then show ?thesis by (simp add: dir_offs_def dirent_size_def)
qed

lemma read_entry:
  assumes g: "calm p s" "held_blocks s = {}" "dir_ok s dp" and k: "k < i_size (itable s dp) div 16"
  shows "\<exists>t. readi dp Local (16 * k) dirent_size s = Ret (int dirent_size, dir_entry s dp k) t \<and> calm p t \<and> wrote p s t {} (lblk s)"
proof -
  note d = dir_okD [OF g(3)]
  have k16: "16 * k + 16 \<le> i_size (itable s dp)" using k by (simp add: less_eq_div_iff_mult_less_eq [symmetric] Suc_le_eq [symmetric])
  moreover have "i_size (itable s dp) < 2 ^ 32" using d(6) by (simp add: MAXFILE_def NDIRECT_def NINDIRECT_def BSIZE_def)
  ultimately have "16 * k + dirent_size < 2 ^ 32" "min dirent_size (i_size (itable s dp) - 16 * k) = dirent_size"
    by (simp_all add: dirent_size_def)
  then show ?thesis using readi_ok [OF g(1,2) d(1,2), of "16 * k" dirent_size] by (simp add: dir_entry_def dirent_size_def)
qed

lemma namecmp_iff: "namecmp a b = 0 \<longleftrightarrow> cstr DIRSIZ (str_ptr a) = cstr DIRSIZ (str_ptr b)"
  by (simp add: namecmp_def strncmp_0_iff)

subsection \<open>dirlookup\<close>

text \<open>A loop over the entries that leaves at the first one with \<open>Q\<close>.\<close>

lemma scan_entries:
  fixes s :: "'a fs_state_scheme" and F :: "nat \<Rightarrow> u8 list \<Rightarrow> ('a fs_state_scheme, 'r option) kern"
  assumes g: "calm p s" "held_blocks s = {}" "dir_ok s dp"
    and no: "\<And>k. \<not> Q k \<Longrightarrow> F (16 * k) (dir_entry s dp k) = ret None"
    and yes: "\<And>k. Q k \<Longrightarrow> F (16 * k) (dir_entry s dp k) = H k" "\<And>k t u. H k t \<noteq> Ret None u"
    and ks: "\<forall>k \<in> set ks. k < i_size (itable s dp) div 16"
  shows "\<exists>u. calm p u \<and> wrote p s u {} (lblk s) \<and>
    for_find (map (\<lambda>k. 16 * k) ks) (\<lambda>off. bnd (readi dp Local off dirent_size) (\<lambda>(r, de). if r \<noteq> int dirent_size then panic msg else F off de)) s =
      (case first_idx Q ks of None \<Rightarrow> Ret None u | Some k \<Rightarrow> H k u)"
proof -
  let ?body = "\<lambda>off. bnd (readi dp Local off dirent_size) (\<lambda>(r, de). if r \<noteq> int dirent_size then panic msg else F off de)"
  have "\<exists>u. calm p u \<and> wrote p s u {} (lblk s) \<and> for_find (map (\<lambda>k. 16 * k) ks) ?body t =
      (case first_idx Q ks of None \<Rightarrow> Ret None u | Some k \<Rightarrow> H k u)"
    if "calm p t" "wrote p s t {} (lblk s)" "\<forall>k \<in> set ks. k < i_size (itable s dp) div 16" for t
    using that
  proof (induction ks arbitrary: t)
    case Nil
    then show ?case by (auto simp: kern_simps)
  next
    case (Cons k ks)
    note sm = dir_same [OF Cons.prems(2), of dp]
    have ht: "held_blocks t = {}" using wroteD(5) [OF Cons.prems(2)] g(2) by simp
    have "dir_ok t dp" "k < i_size (itable t dp) div 16" using g(3) Cons.prems(3) sm by simp_all
    from read_entry [OF Cons.prems(1) ht this] obtain u where u: "readi dp Local (16 * k) dirent_size t = Ret (int dirent_size, dir_entry s dp k) u" "calm p u"
      "wrote p t u {} (lblk s)" unfolding sm wroteD(3) [OF Cons.prems(2)] by blast
    have su: "wrote p s u {} (lblk s)" using wrote_trans [OF Cons.prems(2) u(3)] by simp
    have b: "?body (16 * k) t = F (16 * k) (dir_entry s dp k) u" using u(1) by (simp add: kern_simps)
    show ?case
    proof (cases "Q k")
      case True
      have "bnd (?body (16 * k)) (\<lambda>r. case r of None \<Rightarrow> rest | Some x \<Rightarrow> ret (Some x)) t = H k u" for rest
        using b yes(1) [OF True] yes(2) [of k u] by (cases "H k u") (auto simp: kern_simps split: option.splits)
      then show ?thesis using True u(2) su by (intro exI [of _ u]) simp
    next
      case False
      then show ?thesis using b no [OF False] Cons.IH [OF u(2) su] Cons.prems(3) by (simp add: kern_simps)
    qed
  qed
  then show ?thesis using g(1) wrote_refl ks by blast
qed

lemma dirlookup_ok:
  fixes s :: "'a fs_state_scheme"
  assumes g: "calm p s" "held_blocks s = {}" "dir_ok s dp"
  shows "\<exists>t. calm p t \<and> wrote p s t {} (lblk s) \<and> dirlookup dp name s = (case dir_find s dp name of None \<Rightarrow> Ret None t
    | Some (inum, off) \<Rightarrow> bnd (iget ROOTDEV inum) (\<lambda>ip. ret (Some (ip, off))) (t :: 'a fs_state_scheme))"
proof -
  note d = dir_okD [OF g(3)]
  let ?Q = "\<lambda>k. entry_is name (dir_entry s dp k)"
  let ?H = "\<lambda>k. bnd (iget ROOTDEV (de_inum (dir_entry s dp k))) (\<lambda>ip. ret (Some (ip, 16 * k)))"
  let ?F = "\<lambda>off de. if de_inum de = 0 then ret None else if namecmp name (de_name de) = 0 then
      bnd (iget (i_dev (itable s dp)) (de_inum de)) (\<lambda>ip. ret (Some (ip, off))) else ret None"
  have F: "\<not> ?Q k \<Longrightarrow> ?F (16 * k) (dir_entry s dp k) = ret None"
    "?Q k \<Longrightarrow> ?F (16 * k) (dir_entry s dp k) = ?H k" "?H k t \<noteq> Ret None u" for k t u
    by (auto simp: entry_is_def namecmp_iff d(5) kern_simps split: outcome.splits)
  have ks: "\<forall>k \<in> set [0..<i_size (itable s dp) div 16]. k < i_size (itable s dp) div 16" by simp
  have "dirlookup dp name s = for_find (map (\<lambda>k. 16 * k) [0..<i_size (itable s dp) div 16])
      (\<lambda>off. bnd (readi dp Local off dirent_size) (\<lambda>(r, de). if r \<noteq> int dirent_size then panic ''dirlookup read'' else ?F off de)) s"
    using d(3,4) by (simp add: dirlookup_def kern_simps dir_offs_eq)
  then obtain u where "calm p u" "wrote p s u {} (lblk s)" "dirlookup dp name s = (case first_idx ?Q [0..<i_size (itable s dp) div 16] of
      None \<Rightarrow> Ret None u | Some k \<Rightarrow> ?H k u)"
    using scan_entries [of p s dp ?Q ?F ?H, OF g F ks, of "''dirlookup read''"] by auto
  then show ?thesis
    by (intro exI [of _ u] conjI) (simp_all add: dir_find_def split: option.splits)
qed

subsection \<open>dirlink\<close>

lemma cstr_cut: "cstr n (\<lambda>i. if \<exists>j<i. p j = 0 then 0 else p i) = cstr n p"
proof (induction n arbitrary: p)
  case (Suc n)
  show ?case
  proof (cases "p 0 = 0")
    case False
    have "(\<exists>j<Suc i. p j = 0) \<longleftrightarrow> (\<exists>j<i. p (Suc j) = 0)" for i using False less_Suc_eq_0_disj by auto
    then show ?thesis using False Suc [of "\<lambda>i. p (Suc i)"] by (simp add: cstr_Suc)
  qed (simp add: cstr_Suc)
qed simp

lemma cstr_cong: "(\<And>i. i < n \<Longrightarrow> p i = q i) \<Longrightarrow> cstr n p = cstr n q"
proof -
  assume "\<And>i. i < n \<Longrightarrow> p i = q i"
  then have "map p [0..<n] = map q [0..<n]" by simp
  then show ?thesis by (simp only: cstr_def)
qed

lemma new_entry: "length (dirent_bytes inum name) = 16" "inum < 2 ^ 16 \<Longrightarrow> de_inum (dirent_bytes inum name) = inum"
  "cstr DIRSIZ (str_ptr (de_name (dirent_bytes inum name))) = cstr DIRSIZ (str_ptr name)"
proof -
  show "length (dirent_bytes inum name) = 16" by (simp add: dirent_bytes_def DIRSIZ_def)
  show "de_inum (dirent_bytes inum name) = inum" if "inum < 2 ^ 16"
    using that by (simp add: de_inum_def dirent_bytes_def get16_def sub_bytes_def le_word_bytes unat_of_nat take_bit_nat_eq_self)
  have "de_name (dirent_bytes inum name) = map (strncpy (\<lambda>_. 0) (str_ptr name) (int DIRSIZ)) [0..<DIRSIZ]"
    by (simp add: de_name_def dirent_bytes_def sub_bytes_def)
  then have "cstr DIRSIZ (str_ptr (de_name (dirent_bytes inum name))) = cstr DIRSIZ (\<lambda>i. if \<exists>j<i. str_ptr name j = 0 then 0 else str_ptr name i)"
    by (intro cstr_cong) (simp add: strncpy_at str_ptr_def [of "map _ _"])
  then show "cstr DIRSIZ (str_ptr (de_name (dirent_bytes inum name))) = cstr DIRSIZ (str_ptr name)" by (simp only: cstr_cut)
qed

definition dir_slot :: "'a fs_state_scheme \<Rightarrow> nat \<Rightarrow> nat" where
  "dir_slot s dp = (case first_idx (\<lambda>k. de_inum (dir_entry s dp k) = 0) [0..<i_size (itable s dp) div 16] of
     Some k \<Rightarrow> k | None \<Rightarrow> i_size (itable s dp) div 16)"

lemma dir_slot_le: "dir_slot s dp \<le> i_size (itable s dp) div 16"
  "dir_slot s dp < i_size (itable s dp) div 16 \<Longrightarrow> de_inum (dir_entry s dp (dir_slot s dp)) = 0"
proof -
  have "k < i_size (itable s dp) div 16 \<and> de_inum (dir_entry s dp k) = 0"
    if "first_idx (\<lambda>k. de_inum (dir_entry s dp k) = 0) [0..<i_size (itable s dp) div 16] = Some k" for k using first_idx_Some [OF that] by simp
  then show "dir_slot s dp \<le> i_size (itable s dp) div 16"
    "dir_slot s dp < i_size (itable s dp) div 16 \<Longrightarrow> de_inum (dir_entry s dp (dir_slot s dp)) = 0"
    by (auto simp: dir_slot_def split: option.splits)
qed

text \<open>The name is not in the directory: \<open>dirlink\<close> writes an entry into the first free slot.\<close>

lemma dirlink_run:
  fixes s :: "'a fs_state_scheme"
  assumes g: "txn p k s" "held_blocks s = {}" "dir_ok s dp" and new: "dir_find s dp name = None"
  shows "\<exists>t. txn p k t \<and> wrote p s t {} (lblk s) \<and> dirlink dp name inum s =
    bnd (writei dp (From_local (dirent_bytes inum name)) (16 * dir_slot s dp) dirent_size) (\<lambda>r. if r \<noteq> int dirent_size then ret (-1) else ret 0) (t :: 'a fs_state_scheme)"
proof -
  from dirlookup_ok [OF txn_calm [OF g(1)] g(2,3), of name] new obtain t where t: "calm p t" "wrote p s t {} (lblk s)" "dirlookup dp name s = Ret None t" by auto
  note sm = dir_same [OF t(2), of dp]
  have ht: "held_blocks t = {}" using wroteD(5) [OF t(2)] g(2) by simp
  have dt: "dir_ok t dp" using g(3) sm(1) by simp
  let ?Q = "\<lambda>k. de_inum (dir_entry t dp k) = 0" and ?F = "\<lambda>off de. if de_inum de = 0 then ret (Some off) else ret None"
  let ?H = "\<lambda>k. ret (Some (16 * k)) :: ('a fs_state_scheme, nat option) kern" and ?ks = "[0..<i_size (itable t dp) div 16]"
  have F: "\<not> ?Q k \<Longrightarrow> ?F (16 * k) (dir_entry t dp k) = ret None" "?Q k \<Longrightarrow> ?F (16 * k) (dir_entry t dp k) = ?H k" "?H k v \<noteq> Ret None u" for k u v
    by (simp_all add: kern_simps)
  have ks: "\<forall>k \<in> set ?ks. k < i_size (itable t dp) div 16" by simp
  from scan_entries [of p t dp ?Q ?F ?H, OF t(1) ht dt F ks, of "''dirlink read''"] obtain u where u: "calm p u" "wrote p t u {} (lblk t)"
    "for_find (map (\<lambda>k. 16 * k) ?ks) (\<lambda>off. bnd (readi dp Local off dirent_size) (\<lambda>(r, de). if r \<noteq> int dirent_size then panic ''dirlink read'' else ?F off de)) t =
      (case first_idx ?Q ?ks of None \<Rightarrow> Ret None u | Some k \<Rightarrow> ?H k u)" by blast
  have su: "wrote p s u {} (lblk s)" using wrote_trans [OF t(2) u(2)] by (simp add: wroteD(3) [OF t(2)])
  have off: "dir_offs (i_size (itable t dp)) = map (\<lambda>k. 16 * k) ?ks" by (rule dir_offs_eq [OF dir_okD(4) [OF dt]])
  have "dir_slot t dp = dir_slot s dp" unfolding dir_slot_def sm ..
  then have sl: "dir_slot s dp = (case first_idx ?Q ?ks of Some k \<Rightarrow> k | None \<Rightarrow> i_size (itable t dp) div 16)" by (simp only: dir_slot_def [of t])
  have "dirlink dp name inum s = bnd (writei dp (From_local (dirent_bytes inum name)) (16 * dir_slot s dp) dirent_size) (\<lambda>r. if r \<noteq> int dirent_size then ret (-1) else ret 0) u"
    using u(3) t(3) by (cases "first_idx ?Q ?ks") (simp_all add: dirlink_def kern_simps off sl dirent_size_def mult.commute)
  then show ?thesis using wrote_txn [OF g(1) u(1) su] su by blast
qed

lemma entry_written:
  assumes w: "\<forall>j < MAXFILE * BSIZE. fbyte t dp j = written s dp (16 * n) de 16 j" and len: "length de = 16" and k: "16 * k + 16 \<le> MAXFILE * BSIZE"
  shows "dir_entry t dp k = (if k = n then de else dir_entry s dp k)"
proof (rule nth_equalityI)
  show "length (dir_entry t dp k) = length (if k = n then de else dir_entry s dp k)" by (simp add: dir_entry_def len)
  fix i assume "i < length (dir_entry t dp k)"
  then have i: "i < 16" by (simp add: dir_entry_def)
  then have "16 * k + i < MAXFILE * BSIZE" using k by linarith
  moreover have "16 * n \<le> 16 * k + i \<and> 16 * k + i < 16 * n + 16 \<longleftrightarrow> k = n" using i by auto
  ultimately show "dir_entry t dp k ! i = (if k = n then de else dir_entry s dp k) ! i" using w i by (auto simp: dir_entry_def written_def)
qed

lemma first_idx_only: "first_idx P [0..<n] = Some k" if "k < n" "P k" "\<And>j. j < n \<Longrightarrow> j \<noteq> k \<Longrightarrow> \<not> P j"
proof (cases "first_idx P [0..<n]")
  case None
  then show ?thesis using that(1,2) by (auto simp: first_idx_None)
next
  case (Some i)
  then show ?thesis using first_idx_Some [OF Some] that(3) by auto
qed

lemma first_idx_more: "first_idx P [0..<m] = first_idx Q [0..<n]" if "n \<le> m" "\<And>j. j < n \<Longrightarrow> P j = Q j" "\<And>j. n \<le> j \<Longrightarrow> j < m \<Longrightarrow> \<not> P j"
proof -
  have "[0..<m] = [0..<n] @ [n..<m]" using that(1) upt_add_eq_append [of 0 n "m - n"] by simp
  moreover have "first_idx P [0..<n] = first_idx Q [0..<n]" using that(2) by (intro first_idx_cong) simp
  moreover have "first_idx P [n..<m] = None" using that(3) by (simp add: first_idx_None)
  ultimately show ?thesis by (simp add: first_idx_append split: option.splits)
qed

text \<open>How a new entry in the free slot changes the table.\<close>

lemma dir_find_new:
  assumes e: "\<And>k. 16 * k + 16 \<le> MAXFILE * BSIZE \<Longrightarrow> dir_entry t dp k = (if k = dir_slot s dp then dirent_bytes inum name else dir_entry s dp k)"
    and sz: "i_size (itable t dp) = max (i_size (itable s dp)) (16 * dir_slot s dp + 16)" "i_size (itable s dp) mod 16 = 0" "i_size (itable s dp) + 16 \<le> MAXFILE * BSIZE"
    and inum: "inum \<noteq> 0" "inum < 2 ^ 16" and new: "dir_find s dp name = None"
  shows "dir_find t dp name = Some (inum, 16 * dir_slot s dp)"
    "cstr DIRSIZ (str_ptr other) \<noteq> cstr DIRSIZ (str_ptr name) \<Longrightarrow> dir_find t dp other = dir_find s dp other"
proof -
  let ?n = "i_size (itable s dp) div 16" and ?m = "i_size (itable t dp) div 16" and ?k = "dir_slot s dp"
  note sl = dir_slot_le [of s dp]
  have m: "?m = max ?n (?k + 1)"
  proof -
    obtain q where q: "i_size (itable s dp) = 16 * q" using sz(2) by (auto elim: dvdE)
    have "max (16 * q) (16 * ?k + 16) = 16 * max q (?k + 1)" by (simp add: max_def)
    then show ?thesis by (simp add: sz(1) q)
  qed
  have le: "16 * j + 16 \<le> MAXFILE * BSIZE" if "j < ?m" for j
  proof -
    have "j \<le> ?n" using that m sl(1) by simp
    then have "16 * j \<le> i_size (itable s dp)" by linarith
    then show ?thesis using sz(3) by linarith
  qed
  have ej: "dir_entry t dp j = (if j = ?k then dirent_bytes inum name else dir_entry s dp j)" if "j < ?m" for j by (rule e [OF le [OF that]])
  have old: "\<not> entry_is name (dir_entry s dp j)" if "j < ?n" for j using new that by (auto simp: dir_find_def first_idx_None)
  have isn: "entry_is nm (dirent_bytes inum name) \<longleftrightarrow> cstr DIRSIZ (str_ptr nm) = cstr DIRSIZ (str_ptr name)" for nm
    using inum by (simp add: entry_is_def new_entry)
  have "first_idx (\<lambda>k. entry_is name (dir_entry t dp k)) [0..<?m] = Some ?k"
    using ej isn old m sl(1) by (intro first_idx_only) (auto simp: max_def split: if_splits)
  then show "dir_find t dp name = Some (inum, 16 * ?k)" using ej [of ?k] m by (simp add: dir_find_def new_entry(2) [OF inum(2)])
  show "dir_find t dp other = dir_find s dp other" if o: "cstr DIRSIZ (str_ptr other) \<noteq> cstr DIRSIZ (str_ptr name)"
  proof -
    have same: "entry_is other (dir_entry t dp j) = entry_is other (dir_entry s dp j)" if "j < ?n" for j
      using ej [of j] that m isn [of other] o sl(2) by (cases "j = ?k") (auto simp: entry_is_def)
    have "\<not> entry_is other (dir_entry t dp j)" if "?n \<le> j" "j < ?m" for j
      using ej [OF that(2)] that m isn [of other] o sl(1) by (auto simp: max_def split: if_splits)
    then have fi: "first_idx (\<lambda>k. entry_is other (dir_entry t dp k)) [0..<?m] = first_idx (\<lambda>k. entry_is other (dir_entry s dp k)) [0..<?n]"
      using same m by (intro first_idx_more) auto
    have "de_inum (dir_entry t dp j) = de_inum (dir_entry s dp j)" if "first_idx (\<lambda>k. entry_is other (dir_entry s dp k)) [0..<?n] = Some j" for j
    proof -
      have j: "j < ?n" "entry_is other (dir_entry s dp j)" using first_idx_Some [OF that] by auto
      then have "j \<noteq> ?k" using sl(2) by (auto simp: entry_is_def)
      then show ?thesis using ej [of j] j(1) m by simp
    qed
    then show ?thesis unfolding dir_find_def fi by (auto simp: map_option_case split: option.splits)
  qed
qed

lemma entry_chunk: "chunks (16 * k) 16 = 1"
proof -
  have "16 * k mod BSIZE \<le> 1008"
  proof -
    have "16 * k mod 1024 = 16 * (k mod 64)" using mult_mod_right [of 16 k 64] by simp
    moreover have "k mod 64 \<le> 63" by simp
    ultimately show ?thesis unfolding BSIZE_def by linarith
  qed
  then show ?thesis by (simp add: chunks_def BSIZE_def)
qed

subsection \<open>What directories guarantee\<close>

text \<open>C4: linking a name that the directory does not have makes it resolve to the inode number, and every
  other name resolves as before; only when no block is free does \<open>dirlink\<close> return -1.\<close>

theorem dirlink_dirlookup:
  fixes s :: "'a fs_state_scheme"
  assumes "txn p 7 s" "held_blocks s = {}" "dir_ok s dp" "i_inum (itable s dp) < sb_ninodes (sb s)" "i_size (itable s dp) + 16 \<le> MAXFILE * BSIZE"
    "inum \<noteq> 0" "inum < 2 ^ 16" "dir_find s dp name = None"
  shows "\<exists>r t off. dirlink dp name inum s = Ret r (t :: 'a fs_state_scheme) \<and>
    (if r = 0 then dir_ok t dp \<and> (\<forall>nm. \<exists>u. dirlookup dp nm t =
         (case if namecmp nm name = 0 then Some (inum, off) else dir_find s dp nm of
            None \<Rightarrow> Ret None u
          | Some (i, o2) \<Rightarrow> bnd (iget ROOTDEV i) (\<lambda>ip. ret (Some (ip, o2))) u))
     else r = -1 \<and> (\<forall>b < sb_size (sb s). block_used t b))"
proof -
  let ?n = "dir_slot s dp" and ?de = "dirent_bytes inum name"
  note d = dir_okD [OF assms(3)] and len = new_entry(1) [of inum name]
  from dirlink_run [OF assms(1-3,8), of inum] obtain s' where s': "txn p 7 s'" "wrote p s s' {} (lblk s)"
    "dirlink dp name inum s = bnd (writei dp (From_local ?de) (16 * ?n) dirent_size) (\<lambda>r. if r \<noteq> int dirent_size then ret (-1) else ret 0) s'" by blast
  note fs = file_same(2-4) [OF s'(2), of dp] file_same(5,6) [OF s'(2)]
  have n16: "16 * ?n \<le> i_size (itable s dp)" using dir_slot_le(1) [of s dp] by linarith
  have ok': "dir_ok s' dp" using assms(3) dir_same(1) [OF s'(2)] by simp
  have pre: "6 * chunks (16 * ?n) (length ?de) + 1 \<le> 7" "held_blocks s' = {}" "file_ok s' dp" "no_holes s' dp (i_size (itable s' dp))"
    "i_inum (itable s' dp) < sb_ninodes (sb s')" "16 * ?n \<le> i_size (itable s' dp)" "16 * ?n + length ?de \<le> MAXFILE * BSIZE"
    using entry_chunk [of ?n] wroteD(5) [OF s'(2)] assms(2,4,5) dir_okD(1,2) [OF ok'] n16 by (simp_all add: len fs(4,5))
  obtain m t where t: "writei dp (From_local ?de) (16 * ?n) 16 s' = Ret (int m) t" "m \<le> 16" "m = 16 \<or> free_block t = None" "txn p (7 - (6 * 1 + 1)) t"
    "held_blocks t = {}" "file_step p dp s' t" "file_ok t dp" "\<forall>j < MAXFILE * BSIZE. fbyte t dp j = written s' dp (16 * ?n) ?de m j"
    "i_size (itable t dp) = max (i_size (itable s' dp)) (16 * ?n + m)" "no_holes t dp (i_size (itable t dp))"
    using writei_ok [OF s'(1) pre] unfolding len entry_chunk by blast
  have run: "dirlink dp name inum s = Ret (if m = 16 then 0 else -1) t" using s'(3) t(1) by (simp add: kern_simps dirent_size_def)
  show ?thesis
  proof (cases "m = 16")
    case False
    then have "\<forall>b < sb_size (sb s). block_used t b" using t(3) file_stepD(1) [OF t(6)] fs(5) by (simp add: first_idx_None)
    then show ?thesis using run False by (intro exI [of _ "-1"] exI [of _ t]) simp
  next
    case True
    have w: "\<forall>j < MAXFILE * BSIZE. fbyte t dp j = written s dp (16 * ?n) ?de 16 j" using t(8) True by (simp add: written_def fs(2))
    have sz: "i_size (itable t dp) = max (i_size (itable s dp)) (16 * ?n + 16)" using t(9) True by (simp add: fs(4))
    have "i_type (itable t dp) = T_DIR" using t(6) d(3) by (auto simp: file_step_def fs(4))
    then have ok: "dir_ok t dp" using t(7,10) sz d(4) by (auto simp: dir_ok_def max_def)
    note fn = dir_find_new [OF entry_written [OF w len] sz d(4) assms(5-8)]
    have "dir_find t dp nm = (if namecmp nm name = 0 then Some (inum, 16 * ?n) else dir_find s dp nm)" for nm
    proof (cases "namecmp nm name = 0")
      case True
      then have "entry_is nm = entry_is name" by (intro ext) (simp add: namecmp_iff entry_is_def)
      then have "dir_find t dp nm = dir_find t dp name" by (simp add: dir_find_def)
      then show ?thesis using True fn(1) by simp
    next
      case False
      then show ?thesis using fn(2) [of nm] by (simp add: namecmp_iff)
    qed
    then have "\<exists>u. dirlookup dp nm t = (case if namecmp nm name = 0 then Some (inum, 16 * ?n) else dir_find s dp nm of None \<Rightarrow> Ret None u
        | Some (i, o2) \<Rightarrow> bnd (iget ROOTDEV i) (\<lambda>ip. ret (Some (ip, o2))) u)" for nm
      using dirlookup_ok [OF txn_calm [OF t(4)] t(5) ok, of nm] by (elim exE conjE) (simp only:, rule exI, rule refl)
    then show ?thesis using run True ok by (intro exI [of _ 0] exI [of _ t] exI [of _ "16 * ?n"]) simp
  qed
qed

text \<open>A sample directory of two free entries.\<close>

definition tiny_dir :: inode where
  "tiny_dir = tiny_inode\<lparr>i_type := T_DIR, i_size := 32\<rparr>"

theorem dirlink_dirlookup_witness:
  "\<exists>r t. dirlink 0 [97] 5 (tiny_fs tiny_disk (\<lambda>_. tiny_dir)) = Ret r t \<and>
    (if r = 0 then \<exists>off u. dirlookup 0 [97] t = bnd (iget ROOTDEV 5) (\<lambda>ip. ret (Some (ip, off))) u else r = -1)"
proof -
  let ?s = "tiny_fs tiny_disk (\<lambda>_. tiny_dir)"
  note ok = tiny_fs_ok [of tiny_disk "\<lambda>_. tiny_dir", OF tiny_disk_len]
  have tx: "txn 3 7 ?s" by (rule txn_spare [OF ok(1)]) simp
  have A: "i_addrs tiny_dir = i_addrs tiny_inode" by (simp add: tiny_dir_def)
  have f: "file_ok ?s 0" unfolding file_ok_def ok(3,5,6) A using tiny_file_map by (simp add: tiny_dir_def tiny_inode_def)
  have sz: "i_size (itable ?s 0) = 32" "i_inum (itable ?s 0) < sb_ninodes (sb ?s)" "i_type (itable ?s 0) = T_DIR"
    unfolding ok(5,6) by (simp_all add: tiny_dir_def tiny_inode_def tiny_sb_def)
  have fb: "fblock ?s 0 i = (if i = 0 then 46 else if i = 1 then 47 else 0)" for i unfolding ok(6) A by (simp add: faddr_def tiny_inode_def NDIRECT_def)
  have nh: "no_holes ?s 0 (i_size (itable ?s 0))" by (auto simp: no_holes_def fb sz MAXFILE_def NDIRECT_def NINDIRECT_def BSIZE_def)
  have "fbyte ?s 0 j = 0" if "j < 32" for j
    unfolding fbyte_def fb unfolding ok(3) using that by (simp add: tiny_disk_def BSIZE_def)
  then have "dir_entry ?s 0 k = replicate 16 0" if "k < 2" for k using that by (intro nth_equalityI) (simp_all add: dir_entry_def)
  then have new: "dir_find ?s 0 [97] = None"
    by (simp add: dir_find_def sz first_idx_None entry_is_def de_inum_def get16_def sub_bytes_def le_word_zeros)
  have "dir_ok ?s 0" using f nh sz by (simp add: dir_ok_def)
  moreover have "i_size (itable ?s 0) + 16 \<le> MAXFILE * BSIZE" by (simp add: sz MAXFILE_def NDIRECT_def NINDIRECT_def BSIZE_def)
  ultimately obtain r t off where t: "dirlink 0 [97] 5 ?s = Ret r t"
    "if r = 0 then dir_ok t 0 \<and> (\<forall>nm. \<exists>u. dirlookup 0 nm t = (case if namecmp nm [97] = 0 then Some (5, off) else dir_find ?s 0 nm of None \<Rightarrow> Ret None u
        | Some (i, o2) \<Rightarrow> bnd (iget ROOTDEV i) (\<lambda>ip. ret (Some (ip, o2))) u)) else r = -1 \<and> (\<forall>b < sb_size (sb ?s). block_used t b)"
    using dirlink_dirlookup [OF tx ok(2) _ sz(2) _ _ _ new, of 5] by auto
  have n: "namecmp [97] [97] = 0" by (simp add: namecmp_iff)
  have "if r = 0 then \<exists>off u. dirlookup 0 [97] t = bnd (iget ROOTDEV 5) (\<lambda>ip. ret (Some (ip, off))) u else r = -1"
  proof (cases "r = 0")
    case True
    then have "\<exists>u. dirlookup 0 [97] t = (case if namecmp [97] [97] = 0 then Some (5, off) else dir_find ?s 0 [97] of None \<Rightarrow> Ret None u
        | Some (i, o2) \<Rightarrow> bnd (iget ROOTDEV i) (\<lambda>ip. ret (Some (ip, o2))) u)" using t(2) by simp
    then show ?thesis using True n by auto
  next
    case False
    then show ?thesis using t(2) by simp
  qed
  then show ?thesis using t(1) by blast
qed

end
