(* ===== verification/Log_Reserve.thy ===== *)
theory Log_Reserve
  imports Log_Ops
begin

text \<open>
  The log space that operations of \<^verbatim>\<open>kernel/log.c\<close> reserve. Operations of any number of processes overlap; each
  step of the transition system \<open>op_step\<close> runs \<open>begin_op\<close>, \<open>log_write\<close> or a half of \<open>end_op\<close> on a kernel state,
  and between steps anything may happen that leaves the log structure alone.
\<close>

subsection \<open>Routines that leave a part of the state alone\<close>

named_theorems keeps_intros \<open>routines that keep a component of the state\<close>

text \<open>Whether the routine returns or leaves the CPU, \<open>f\<close> of the state is what it was.\<close>

definition keeps :: "('s \<Rightarrow> 'x) \<Rightarrow> ('s, 'a) kern \<Rightarrow> bool" where
  "keeps f m \<longleftrightarrow> (\<forall>s. (case m s of Ret x t \<Rightarrow> f t = f s | Swtch t \<Rightarrow> f t = f s | _ \<Rightarrow> True))"

lemma keepsD: "keeps f m \<Longrightarrow> m s = Ret x t \<Longrightarrow> f t = f s" "keeps f m \<Longrightarrow> m s = Swtch t \<Longrightarrow> f t = f s"
  by (auto simp: keeps_def dest!: spec [of _ s])

lemma keeps_ret [keeps_intros]: "keeps f (ret x)"
  and keeps_gets [keeps_intros]: "keeps f (gets g)"
  and keeps_panic [keeps_intros]: "keeps f (panic e)"
  and keeps_spin [keeps_intros]: "keeps f (\<lambda>s. Spin)"
  and keeps_modf: "(\<And>s. f (h s) = f s) \<Longrightarrow> keeps f (modf h)"
  by (simp_all add: keeps_def kern_simps)

lemma keepsI: "(\<And>s x t. m s = Ret x t \<Longrightarrow> f t = f s) \<Longrightarrow> (\<And>s t. m s = Swtch t \<Longrightarrow> f t = f s) \<Longrightarrow> keeps f m"
  by (simp add: keeps_def split: outcome.splits)

lemma keeps_bnd [keeps_intros]:
  assumes m: "keeps f m" and k: "\<And>x. keeps f (k x)"
  shows "keeps f (bnd m k)"
proof (rule keepsI)
  show "f t = f s" if r: "bnd m k s = Ret y t" for s y t
  proof -
    obtain x u where u: "m s = Ret x u" "k x u = Ret y t" using r by (rule bnd_RetE)
    show ?thesis using keepsD(1) [OF m u(1)] keepsD(1) [OF k u(2)] by simp
  qed
  show "f t = f s" if r: "bnd m k s = Swtch t" for s t
  proof (cases "m s")
    case (Ret x u)
    then have "k x u = Swtch t" using r by (simp add: bnd_def)
    then show ?thesis using keepsD(1) [OF m Ret] keepsD(2) [OF k] by simp
  next
    case (Swtch u)
    then show ?thesis using keepsD(2) [OF m Swtch] r by (simp add: bnd_def)
  qed (use r in \<open>simp_all add: bnd_def\<close>)
qed

lemma keeps_if [keeps_intros]: "(c \<Longrightarrow> keeps f m) \<Longrightarrow> (\<not> c \<Longrightarrow> keeps f k) \<Longrightarrow> keeps f (if c then m else k)"
  by simp

lemma keeps_kwhen [keeps_intros]: "keeps f m \<Longrightarrow> keeps f (kwhen c m)"
  by (simp add: kwhen_def keeps_ret)

lemma keeps_option [keeps_intros]: "keeps f m \<Longrightarrow> (\<And>x. keeps f (k x)) \<Longrightarrow> keeps f (case r of None \<Rightarrow> m | Some x \<Rightarrow> k x)"
  by (cases r) simp_all

lemma keeps_for_each [keeps_intros]: "(\<And>i. keeps f (b i)) \<Longrightarrow> keeps f (for_each xs b)"
  by (induction xs) (simp_all add: keeps_ret keeps_bnd)

subsection \<open>The routines below the log keep the log\<close>

lemma keeps_updates [keeps_intros]:
  "keeps lg (upd_cpu c g)" "keeps lg (upd_lock lk h)" "keeps lg (upd_proc p u)" "keeps lg (upd_slock k v)" "keeps lg (upd_buf i w)"
  "keeps lg intr_on" "keeps lg intr_off"
  by (simp_all add: mach_defs upd_proc_def upd_slock_def upd_buf_def keeps_modf)

lemma keeps_acquire [keeps_intros]: "keeps lg (acquire lk)"
  unfolding acquire_def push_off_def test_and_set_def by (intro keeps_intros)

lemma keeps_pop_off [keeps_intros]: "keeps lg pop_off"
  unfolding pop_off_def by (intro keeps_intros)

lemma keeps_release [keeps_intros]: "keeps lg (release lk)"
  unfolding release_def by (intro keeps_intros)

lemma keeps_myproc [keeps_intros]: "keeps lg myproc"
  unfolding myproc_def push_off_def by (intro keeps_intros)

lemma keeps_myproc_deref [keeps_intros]: "keeps lg myproc_deref"
  unfolding myproc_deref_def by (intro keeps_intros)

lemma keeps_sched [keeps_intros]: "keeps lg sched"
proof -
  have "keeps lg (swtch_to_sched p)" for p by (simp add: keeps_def swtch_to_sched_def)
  then show ?thesis unfolding sched_def by (intro keeps_intros)
qed

lemma keeps_sleep [keeps_intros]: "keeps lg (sleep ch lk)"
  unfolding sleep_def by (intro keeps_intros)

lemma keeps_sleep_resume [keeps_intros]: "keeps lg (sleep_resume p e lk)"
  unfolding sleep_resume_def sched_resume_def by (intro keeps_intros)

lemma keeps_wakeup [keeps_intros]: "keeps lg (wakeup ch)"
  unfolding wakeup_def by (intro keeps_intros)

lemma keeps_sleeplock [keeps_intros]: "keeps lg (acquiresleep k)" "keeps lg (releasesleep k)" "keeps lg (holdingsleep k)"
  unfolding acquiresleep_def acquiresleep_loop_def releasesleep_def holdingsleep_def by (intro keeps_intros)+

lemma keeps_disk_rw [keeps_intros]: "keeps lg (disk_rw i w)"
proof -
  have "keeps lg (modf (\<lambda>s. s\<lparr>dsk := g (dsk s)\<rparr>))" for g :: "disk \<Rightarrow> disk" by (simp add: keeps_modf)
  then show ?thesis unfolding disk_rw_def by (intro keeps_intros)
qed

lemma keeps_bread [keeps_intros]: "keeps lg (bread dev b)"
proof -
  have "keeps lg (bscan_k nx P)" for nx P by (auto simp: keeps_def bscan_k_def split: option.splits)
  then show ?thesis unfolding bread_def bget_def by (intro keeps_intros)
qed

lemma keeps_bwrite [keeps_intros]: "keeps lg (bwrite i)"
  unfolding bwrite_def by (intro keeps_intros)

lemma keeps_brelse [keeps_intros]: "keeps lg (brelse i)"
  unfolding brelse_def bmove_front_def by (intro keeps_intros)

lemma keeps_bpin [keeps_intros]: "keeps lg (bpin i)" "keeps lg (bunpin i)"
  unfolding bpin_def bunpin_def by (intro keeps_intros)+

lemma keeps_buf [keeps_intros]: "keeps lg (bset i g)" "keeps lg (buf_data i)"
  unfolding bset_def buf_data_def by (intro keeps_intros)+

lemma keeps_log_writes [keeps_intros]: "keeps lg write_log" "keeps lg write_head" "keeps lg (install_trans r)"
  unfolding write_log_def write_head_def install_trans_def by (intro keeps_intros)+

subsection \<open>What the operations do to the log, in any state\<close>

lemma sleep_leaves: "sleep ch lk s \<noteq> Ret x t"
  by (auto simp: sleep_def sched_def swtch_to_sched_def bnd_Ret_iff gets_run panic_run split: if_splits)

lemma upd_log_lg: "upd_log g s = Ret x t \<Longrightarrow> lg t = g (lg s)"
  by (auto simp: upd_log_def kern_simps)

lemma begin_loop_ret:
  assumes "begin_op_loop s = Ret () t"
  shows "admits (lg s) \<and> lg t = (lg s)\<lparr>lg_outstanding := lg_outstanding (lg s) + 1\<rparr>"
proof -
  have a: "admits (lg s)" and "bnd (upd_log (\<lambda>l. l\<lparr>lg_outstanding := lg_outstanding l + 1\<rparr>)) (\<lambda>_. release L_log) s = Ret () t"
    using assms by (auto simp: begin_op_loop_def kern_simps admits_def sleep_leaves split: if_splits)
  then obtain u where u: "lg u = (lg s)\<lparr>lg_outstanding := lg_outstanding (lg s) + 1\<rparr>" "release L_log u = Ret () t"
    by (auto elim!: bnd_RetE dest: upd_log_lg)
  show ?thesis using a u(1) keepsD(1) [OF keeps_release u(2)] by simp
qed

lemma begin_op_ret:
  assumes "begin_op s = Ret () t \<or> begin_op_resume q e s = Ret () t"
  shows "admits (lg s) \<and> lg t = (lg s)\<lparr>lg_outstanding := lg_outstanding (lg s) + 1\<rparr>"
proof -
  obtain u where u: "lg u = lg s" "begin_op_loop u = Ret () t"
    using assms keepsD(1) [OF keeps_acquire] keepsD(1) [OF keeps_sleep_resume]
    unfolding begin_op_def begin_op_resume_def bnd_Ret_iff by metis
  show ?thesis using begin_loop_ret [OF u(2)] by (simp add: u(1))
qed

lemma begin_op_sleeps: "begin_op s = Swtch t \<Longrightarrow> lg t = lg s"
proof -
  assume b: "begin_op s = Swtch t"
  show ?thesis
  proof (cases "acquire L_log s")
    case (Ret x u)
    have lu: "lg u = lg s" by (rule keepsD(1) [OF keeps_acquire Ret])
    have "begin_op_loop u = Swtch t" using b Ret by (simp add: begin_op_def bnd_def)
    moreover have "upd_log g u \<noteq> Swtch v" "release L_log v \<noteq> Swtch w" for g v w
      by (auto simp: upd_log_def release_def pop_off_def mach_defs kern_simps split: if_splits)
    ultimately have "sleep Ch_log L_log u = (Swtch t :: (unit, _) outcome)"
      by (auto simp: begin_op_loop_def bnd_def kern_simps split: if_splits outcome.splits)
    then have "lg t = lg u" by (rule keepsD(2) [OF keeps_sleep])
    then show ?thesis using lu by simp
  next
    case (Swtch u)
    then show ?thesis using b keepsD(2) [OF keeps_acquire Swtch] by (simp add: begin_op_def bnd_def)
  qed (use b in \<open>simp_all add: begin_op_def bnd_def\<close>)
qed

lemma log_write_ret:
  assumes "log_write b s = Ret () t" "0 \<le> lh_n (lg_lh (lg s))"
  shows "\<not> log_full (lg s) \<and> (\<exists>c. lg t = (lg s)\<lparr>lg_lh := record_block c (lg_lh (lg s))\<rparr>)"
proof -
  let ?h = "lg_lh (lg s)"
  from assms(1) obtain u where a: "acquire L_log s = Ret () u"
    unfolding log_write_def by (auto simp: bnd_Ret_iff)
  have lu: "lg u = lg s" by (rule keepsD(1) [OF keeps_acquire a])
  let ?c = "b_blockno (bufs u b)"
  let ?i = "log_find ?h ?c"
  let ?l = "(lg s)\<lparr>lg_lh := ?h\<lparr>lh_block := (lh_block ?h)(?i := ?c)\<rparr>\<rparr>"
  have nf: "\<not> log_full (lg s)" and body: "bnd (kwhen (int ?i = lh_n ?h) (bnd (bpin b) (\<lambda>_.
      upd_log (\<lambda>l. l\<lparr>lg_lh := (lg_lh l)\<lparr>lh_n := lh_n (lg_lh l) + 1\<rparr>\<rparr>)))) (\<lambda>_. release L_log) (u\<lparr>lg := ?l\<rparr>) = Ret () t"
    using assms(1) a lu by (auto simp: log_write_def log_full_def kern_simps upd_log_def split: if_splits)
  from body obtain v where v: "kwhen (int ?i = lh_n ?h) (bnd (bpin b) (\<lambda>_.
      upd_log (\<lambda>l. l\<lparr>lg_lh := (lg_lh l)\<lparr>lh_n := lh_n (lg_lh l) + 1\<rparr>\<rparr>))) (u\<lparr>lg := ?l\<rparr>) = Ret () v" "release L_log v = Ret () t"
    by (auto elim!: bnd_RetE)
  have lt: "lg t = lg v" by (rule keepsD(1) [OF keeps_release v(2)])
  have "lg v = (lg s)\<lparr>lg_lh := record_block ?c ?h\<rparr>"
  proof (cases "?c \<in> set (logged ?h)")
    case True
    note f = log_find_hit [OF True]
    have "int ?i \<noteq> lh_n ?h" using f(1) by linarith
    then show ?thesis using v(1) True f(2) by (auto simp: kern_simps record_block_def fun_upd_idem)
  next
    case False
    have i: "?i = nat (lh_n ?h)" by (rule log_find_miss [OF False])
    then have "bnd (bpin b) (\<lambda>_. upd_log (\<lambda>l. l\<lparr>lg_lh := (lg_lh l)\<lparr>lh_n := lh_n (lg_lh l) + 1\<rparr>\<rparr>)) (u\<lparr>lg := ?l\<rparr>) = Ret () v"
      using v(1) assms(2) by (simp add: kern_simps)
    then obtain w where w: "bpin b (u\<lparr>lg := ?l\<rparr>) = Ret () w" "lg v = (lg w)\<lparr>lg_lh := (lg_lh (lg w))\<lparr>lh_n := lh_n (lg_lh (lg w)) + 1\<rparr>\<rparr>"
      by (auto elim!: bnd_RetE dest: upd_log_lg)
    have "lg w = ?l" using keepsD(1) [OF keeps_bpin(1) w(1)] by simp
    then show ?thesis using w(2) False i by (simp add: record_block_def)
  qed
  then show ?thesis using nf lt by auto
qed

lemma end_enter_ret:
  assumes "end_op_enter s = Ret d t"
  shows "\<not> lg_committing (lg s) \<and> d = (lg_outstanding (lg s) = 1) \<and>
    lg t = (lg s)\<lparr>lg_outstanding := lg_outstanding (lg s) - 1, lg_committing := d\<rparr>"
proof -
  from assms obtain u where a: "acquire L_log s = Ret () u" unfolding end_op_enter_def by (auto simp: bnd_Ret_iff)
  have lu: "lg u = lg s" by (rule keepsD(1) [OF keeps_acquire a])
  let ?u = "u\<lparr>lg := (lg s)\<lparr>lg_outstanding := lg_outstanding (lg s) - 1\<rparr>\<rparr>"
  obtain v where nc: "\<not> lg_committing (lg s)" and d: "d = (lg_outstanding (lg s) = 1)"
    and v: "(if d then upd_log (\<lambda>l. l\<lparr>lg_committing := True\<rparr>) else wakeup Ch_log) ?u = Ret () v" "release L_log v = Ret () t"
    using assms a lu by (auto simp: end_op_enter_def upd_log_def bnd_Ret_iff gets_run modf_run ret_run panic_run split: if_splits)
  have "lg v = (lg ?u)\<lparr>lg_committing := d\<rparr>"
  proof (cases d)
    case True
    then show ?thesis using v(1) by (auto dest: upd_log_lg)
  next
    case False
    then have "wakeup Ch_log ?u = Ret () v" using v(1) by simp
    from keepsD(1) [OF keeps_wakeup this] show ?thesis using nc False by simp
  qed
  then show ?thesis using nc d keepsD(1) [OF keeps_release v(2)] by simp
qed

lemma commit_ret:
  assumes "commit s = Ret () t" "0 \<le> lh_n (lg_lh (lg s))"
  shows "lg t = (lg s)\<lparr>lg_lh := (lg_lh (lg s))\<lparr>lh_n := 0\<rparr>\<rparr>"
proof (cases "0 < lh_n (lg_lh (lg s))")
  case True
  then have "bnd write_log (\<lambda>_. bnd write_head (\<lambda>_. bnd (install_trans False) (\<lambda>_. bnd (set_lh_n 0) (\<lambda>_. write_head)))) s = Ret () t"
    using assms(1) by (simp add: commit_def kern_simps)
  then obtain a b c d where s: "write_log s = Ret () a" "write_head a = Ret () b" "install_trans False b = Ret () c" "set_lh_n 0 c = Ret () d"
    "write_head d = Ret () t" by (auto elim!: bnd_RetE)
  have "lg c = lg s" using keepsD(1) [OF keeps_log_writes(1) s(1)] keepsD(1) [OF keeps_log_writes(2) s(2)] keepsD(1) [OF keeps_log_writes(3) s(3)] by simp
  then show ?thesis using keepsD(1) [OF keeps_log_writes(2) s(5)] upd_log_lg [OF s(4) [unfolded set_lh_n_def]] by simp
next
  case False
  then have "lh_n (lg_lh (lg s)) = 0" "t = s" using assms by (auto simp: commit_def kern_simps)
  then show ?thesis by simp
qed

lemma end_commit_ret:
  assumes "end_op_commit s = Ret () t" "0 \<le> lh_n (lg_lh (lg s))"
  shows "lg t = (lg s)\<lparr>lg_committing := False, lg_lh := (lg_lh (lg s))\<lparr>lh_n := 0\<rparr>\<rparr>"
proof -
  from assms(1) obtain a b c d where s: "commit s = Ret () a" "acquire L_log a = Ret () b" "upd_log (\<lambda>l. l\<lparr>lg_committing := False\<rparr>) b = Ret () c"
    "wakeup Ch_log c = Ret () d" "release L_log d = Ret () t" unfolding end_op_commit_def by (auto elim!: bnd_RetE)
  show ?thesis
    using commit_ret [OF s(1) assms(2)] keepsD(1) [OF keeps_acquire s(2)] upd_log_lg [OF s(3)] keepsD(1) [OF keeps_wakeup s(4)]
      keepsD(1) [OF keeps_release s(5)] by simp
qed

subsection \<open>Overlapping operations\<close>

text \<open>A configuration is the kernel state, for every operation in progress how many more blocks it may write,
  and the process that has begun to commit. A process whose \<open>begin_op\<close> has to wait leaves the CPU with the log as
  it was (\<open>begin_op_sleeps\<close>) and returns through \<open>begin_op_resume\<close>. While one process commits the others run, so
  the two halves of \<open>end_op\<close> are separate steps.\<close>

type_synonym 'a op_conf = "'a log_state_scheme \<times> (nat \<Rightarrow> nat option) \<times> nat option"

inductive op_step :: "'a op_conf \<Rightarrow> 'a op_conf \<Rightarrow> bool" where
  Begin: "R p = None \<Longrightarrow> begin_op s = Ret () t \<or> begin_op_resume q e s = Ret () t \<Longrightarrow> op_step (s, R, C) (t, R(p := Some MAXOPBLOCKS), C)"
| Write: "R p = Some (Suc k) \<Longrightarrow> log_write b s = Ret () t \<Longrightarrow> op_step (s, R, C) (t, R(p := Some k), C)"
| End: "R p = Some k \<Longrightarrow> end_op_enter s = Ret d t \<Longrightarrow> op_step (s, R, C) (t, R(p := None), if d then Some p else C)"
| Commit: "C = Some p \<Longrightarrow> end_op_commit s = Ret () t \<Longrightarrow> op_step (s, R, C) (t, R, None)"
| Other: "lg t = lg s \<Longrightarrow> op_step (s, R, C) (t, R, C)"

definition reserved :: "(nat \<Rightarrow> nat option) \<Rightarrow> nat" where
  "reserved R = (\<Sum>p\<in>dom R. the (R p))"

lemma reserved_new: "finite (dom R) \<Longrightarrow> R p = None \<Longrightarrow> reserved (R(p := Some m)) = reserved R + m"
proof -
  assume f: "finite (dom R)" and n: "R p = None"
  then have "p \<notin> dom R" "dom (R(p := Some m)) = insert p (dom R)" by auto
  moreover have "(\<Sum>q\<in>dom R. the ((R(p := Some m)) q)) = reserved R"
    unfolding reserved_def by (rule sum.cong) (use n in auto)
  ultimately show ?thesis using f by (simp add: reserved_def)
qed

lemma reserved_split: "finite (dom R) \<Longrightarrow> R p = Some m \<Longrightarrow> reserved R = m + reserved (R(p := None))"
proof -
  assume f: "finite (dom R)" and s: "R p = Some m"
  then have "reserved R = m + (\<Sum>q\<in>dom R - {p}. the (R q))" unfolding reserved_def by (subst sum.remove [of _ p]) auto
  also have "(\<Sum>q\<in>dom R - {p}. the (R q)) = reserved (R(p := None))"
    unfolding reserved_def by (rule sum.cong) auto
  finally show ?thesis .
qed

lemma reserved_bound: "finite (dom R) \<Longrightarrow> \<forall>p\<in>dom R. the (R p) \<le> MAXOPBLOCKS \<Longrightarrow> reserved R \<le> card (dom R) * MAXOPBLOCKS"
  unfolding reserved_def using sum_bounded_above [of "dom R" "\<lambda>p. the (R p)" MAXOPBLOCKS] by simp

definition log_inv :: "log \<Rightarrow> (nat \<Rightarrow> nat option) \<Rightarrow> bool" where
  "log_inv l R \<longleftrightarrow> finite (dom R) \<and> lg_outstanding l = int (card (dom R)) \<and> 0 \<le> lh_n (lg_lh l) \<and>
     (\<forall>p\<in>dom R. the (R p) \<le> MAXOPBLOCKS) \<and> lh_n (lg_lh l) + int (reserved R) \<le> int LOGSIZE \<and> (lg_committing l \<longrightarrow> dom R = {}) \<and>
     distinct (logged (lg_lh l))"

lemma log_invD:
  assumes "log_inv l R"
  shows "finite (dom R)" "lg_outstanding l = int (card (dom R))" "0 \<le> lh_n (lg_lh l)" "p \<in> dom R \<Longrightarrow> the (R p) \<le> MAXOPBLOCKS"
    "lh_n (lg_lh l) + int (reserved R) \<le> int LOGSIZE" "lg_committing l \<Longrightarrow> dom R = {}" "distinct (logged (lg_lh l))"
  using assms by (simp_all add: log_inv_def)

lemma inv_begin:
  assumes inv: "log_inv l R" and a: "admits l" and n: "R p = None"
  shows "log_inv (l\<lparr>lg_outstanding := lg_outstanding l + 1\<rparr>) (R(p := Some MAXOPBLOCKS))"
proof -
  note i = log_invD [OF inv]
  have "p \<notin> dom R" using n by auto
  then have "card (dom (R(p := Some MAXOPBLOCKS))) = Suc (card (dom R))" using i(1) by simp
  moreover have "reserved (R(p := Some MAXOPBLOCKS)) \<le> (card (dom R) + 1) * MAXOPBLOCKS"
    using reserved_new [OF i(1) n] reserved_bound [OF i(1)] i(4) by simp
  then have "int (reserved (R(p := Some MAXOPBLOCKS))) \<le> (int (card (dom R)) + 1) * int MAXOPBLOCKS"
    by (metis of_nat_1 of_nat_add of_nat_mono of_nat_mult)
  moreover have "\<forall>q\<in>dom (R(p := Some MAXOPBLOCKS)). the ((R(p := Some MAXOPBLOCKS)) q) \<le> MAXOPBLOCKS" using i(4) by auto
  ultimately show ?thesis using i a by (simp add: log_inv_def admits_def)
qed

lemma inv_write:
  assumes inv: "log_inv l R" and r: "R p = Some (Suc k)"
  shows "log_inv (l\<lparr>lg_lh := record_block c (lg_lh l)\<rparr>) (R(p := Some k))"
proof -
  note i = log_invD [OF inv]
  have d: "dom (R(p := Some k)) = dom R" using r by auto
  have "reserved (R(p := Some k)) = k + reserved (R(p := None))" using reserved_split [of "R(p := Some k)" p k] i(1) by simp
  then have s: "Suc (reserved (R(p := Some k))) = reserved R" using reserved_split [OF i(1) r] by simp
  have "Suc k \<le> MAXOPBLOCKS" using i(4) [of p] r by auto
  then have "\<forall>q\<in>dom R. the ((R(p := Some k)) q) \<le> MAXOPBLOCKS" using i(4) by auto
  then show ?thesis using i d s lh_n_record(1) [of c "lg_lh l"] lh_n_record(2) [of "lg_lh l" c] distinct_record [of "lg_lh l" c]
    by (auto simp: log_inv_def)
qed

lemma inv_end:
  assumes inv: "log_inv l R" and r: "R p = Some k"
  shows "log_inv (l\<lparr>lg_outstanding := lg_outstanding l - 1, lg_committing := (lg_outstanding l = 1)\<rparr>) (R(p := None))"
proof -
  note i = log_invD [OF inv]
  have p: "p \<in> dom R" using r by auto
  then have c: "0 < card (dom R)" using i(1) by (auto simp: card_gt_0_iff)
  have "dom (R(p := None)) = {}" if "lg_outstanding l = 1"
  proof -
    have "card (dom R) = 1" using that i(2) by simp
    then obtain q where "dom R = {q}" by (rule card_1_singletonE)
    then show ?thesis using p by auto
  qed
  moreover have "card (dom (R(p := None))) = card (dom R) - 1" using i(1) p by simp
  ultimately show ?thesis using i c reserved_split [OF i(1) r] by (auto simp: log_inv_def of_nat_diff)
qed

lemma inv_commit: "log_inv l R \<Longrightarrow> log_inv (l\<lparr>lg_committing := False, lg_lh := (lg_lh l)\<lparr>lh_n := 0\<rparr>\<rparr>) R"
  by (auto simp: log_inv_def logged_def)

definition op_inv :: "int \<Rightarrow> 'a op_conf \<Rightarrow> bool" where
  "op_inv sz = (\<lambda>(s, R, C). log_inv (lg s) R \<and> lg_size (lg s) = sz \<and> (lg_committing (lg s) \<longleftrightarrow> C \<noteq> None))"

lemma op_inv_step: "op_step c d \<Longrightarrow> op_inv sz c \<Longrightarrow> op_inv sz d"
proof (induction rule: op_step.induct)
  case (Begin R p s t q e C)
  then show ?case using inv_begin [of "lg s" R p] begin_op_ret [OF Begin(2)] by (auto simp: op_inv_def)
next
  case (Write R p k b s t C)
  have "0 \<le> lh_n (lg_lh (lg s))" using Write.prems by (simp add: op_inv_def log_inv_def)
  then show ?case using Write.prems inv_write [of "lg s" R p k] Write(1) log_write_ret [OF Write(2)] by (auto simp: op_inv_def)
next
  case (End R p k s d t C)
  then show ?case using inv_end [of "lg s" R p k] end_enter_ret [OF End(2)] by (auto simp: op_inv_def)
next
  case (Commit C p s t R)
  have "0 \<le> lh_n (lg_lh (lg s))" using Commit.prems by (simp add: op_inv_def log_inv_def)
  then show ?case using Commit.prems inv_commit [of "lg s" R] end_commit_ret [OF Commit(2)] by (auto simp: op_inv_def)
next
  case (Other t s R C)
  then show ?case by (simp add: op_inv_def)
qed

text \<open>The log as recovery leaves it, before the first operation.\<close>

definition log_clear :: "log \<Rightarrow> bool" where
  "log_clear l \<longleftrightarrow> lg_outstanding l = 0 \<and> \<not> lg_committing l \<and> lh_n (lg_lh l) = 0"

lemma op_inv_reachable:
  assumes "op_step\<^sup>*\<^sup>* (s, \<lambda>_. None, None) c" "log_clear (lg s)"
  shows "op_inv (lg_size (lg s)) c"
  using assms(1)
proof (induction rule: rtranclp_induct)
  case base
  then show ?case using assms(2) by (simp add: op_inv_def log_inv_def log_clear_def reserved_def logged_def)
next
  case (step c d)
  then show ?case using op_inv_step by blast
qed

subsection \<open>Operations that run out of log\<close>

text \<open>Process \<open>q\<close> gets the CPU and runs \<open>m\<close>; and how an operation writes blocks.\<close>

definition in_turn :: "nat \<Rightarrow> ('a log_state_scheme, unit) kern \<Rightarrow> ('a log_state_scheme, unit) kern" where
  "in_turn q m = bnd (gets mycpu) (\<lambda>c. bnd (upd_cpu c (\<lambda>x. x\<lparr>c_proc := Some q\<rparr>)) (\<lambda>_. m))"

definition write_blocks :: "u8 list \<Rightarrow> nat list \<Rightarrow> ('a log_state_scheme, unit) kern" where
  "write_blocks d bs =
     for_each bs (\<lambda>b.
       bnd (bread ROOTDEV b) (\<lambda>bp.
       bnd (bset bp (\<lambda>_. d)) (\<lambda>_.
       bnd (log_write bp) (\<lambda>_.
       brelse bp))))"

text \<open>Between the operations of a transaction: no buffer is held, and those of the logged blocks are pinned.\<close>

definition paused :: "nat \<Rightarrow> 'a log_state_scheme \<Rightarrow> bool" where
  "paused p s \<longleftrightarrow> idle p s \<and> 0 \<le> lh_n (lg_lh (lg s)) \<and> distinct (logged (lg_lh (lg s))) \<and> bref s = pins (logged (lg_lh (lg s)))"

lemma pausedD:
  assumes "paused p s"
  shows "quiet p s" "bc_ok s" "held_blocks s = {}" "0 \<le> lh_n (lg_lh (lg s))" "distinct (logged (lg_lh (lg s)))"
    "bref s = pins (logged (lg_lh (lg s)))"
  using assms by (simp_all add: paused_def idle_def)

lemma read_paused:
  assumes g: "paused p s" and n: "nat (lh_n (lg_lh (lg s))) < NBUF" and len: "length d = BSIZE"
  shows "\<exists>i t. bnd (bread ROOTDEV b) (\<lambda>bp. bnd (bset bp (\<lambda>_. d)) (\<lambda>_. K bp)) s = K i t \<and> quiet p t \<and> bc_ok t \<and> lg t = lg s \<and>
    owns t (p_pid (procs t p)) i b \<and> bref t = (bref s)(b := Suc (bref s b)) \<and> held_blocks t = {b}"
proof -
  note h = pausedD [OF g]
  have "card {c. 0 < bref s c} < NBUF" unfolding h(6) using card_pins [of "logged (lg_lh (lg s))"] n by simp
  moreover have "bref s b + 1 < 2 ^ 32" "b \<notin> held_blocks s" unfolding h(3,6) by (rule pins_simps) simp
  ultimately obtain i t where t: "bread ROOTDEV b s = Ret i t" "quiet p t" "bc_ok t" "bframe s t" "owns t (p_pid (procs t p)) i b"
    "bref t = (bref s)(b := Suc (bref s b))" "held_blocks t = {b}"
    using bread_law [OF h(1,2), of b] unfolding h(3) by blast
  from bset_law [of p t i b "\<lambda>_. d", OF t(2,3,5) len] obtain u where u: "bset i (\<lambda>_. d) t = Ret () u" "quiet p u" "bc_ok u" "bframe t u"
    "owns u (p_pid (procs u p)) i b" "bref u = bref t" "held_blocks u = held_blocks t" using t(5) by blast
  have "lg u = lg s" using bframe_log(1) [OF t(4)] bframe_log(1) [OF u(4)] by simp
  then show ?thesis using t(1,6,7) u by (intro exI [of _ i] exI [of _ u]) (simp add: bnd_run)
qed

lemma write_one:
  assumes g: "paused p s" and room: "\<not> log_full (lg s)" and op: "1 \<le> lg_outstanding (lg s)"
    and b: "b \<notin> set (logged (lg_lh (lg s)))" and len: "length d = BSIZE"
  shows "\<exists>t. write_blocks d [b] s = Ret () t \<and> paused p t \<and> lg t = (lg s)\<lparr>lg_lh := record_block b (lg_lh (lg s))\<rparr>"
proof -
  note h = pausedD [OF g]
  let ?H = "lg_lh (lg s)"
  have n: "nat (lh_n ?H) < NBUF" using room by (auto simp: log_full_def LOGSIZE_def NBUF_def MAXOPBLOCKS_def)
  from read_paused [of p s d b "\<lambda>bp. bnd (log_write bp) (\<lambda>_. brelse bp)", OF g n len] obtain i t where
    t: "write_blocks d [b] s = bnd (bnd (log_write i) (\<lambda>_. brelse i)) ret t" "quiet p t" "bc_ok t" "lg t = lg s"
      "owns t (p_pid (procs t p)) i b" "bref t = (bref s)(b := Suc (bref s b))" "held_blocks t = {b}"
    by (auto simp: write_blocks_def bnd_def)
  have small: "bref t b + 1 < 2 ^ 32" by (simp add: t(6) h(6) pins_def)
  have "\<not> log_full (lg t)" "1 \<le> lg_outstanding (lg t)" "0 \<le> lh_n (lg_lh (lg t))" using room op h(4) by (simp_all add: t(4))
  note full = this
  from log_write_ok [OF t(2,3) owns_holds [OF t(5)] small full] obtain u where u: "log_write i t = Ret () u" "quiet p u" "bc_ok u" "lframe t u"
    "lg u = (lg s)\<lparr>lg_lh := record_block b ?H\<rparr>" "bref u = (bref t)(b := bref t b + 1)" "\<forall>pid j c. owns t pid j c \<longrightarrow> owns u pid j c"
    using b unfolding t(4) by auto
  have hu: "held_blocks u = {b}"
  proof -
    have "held_blocks ((settle t)\<lparr>lg := l, bufs := (bufs t)(i := bump (bufs t i))\<rparr>) = held_blocks t" for l
      by (auto simp: held_blocks_def holds_block_def bump_def frame_simps)
    then show ?thesis using u(1) log_write_run [OF t(2) full, of i] b owns_holds [OF t(5)] by (auto simp: t(4,7) holds_block_def)
  qed
  have pid: "p_pid (procs u p) = p_pid (procs t p)" using u(4) by (simp add: lframe_def wakes_pid)
  have own: "owns u (p_pid (procs u p)) i b" using u(7) t(5) by (simp add: pid)
  have "1 < bref u b" by (simp add: u(6) t(6))
  with brelse_law [OF u(2,3) own] obtain v where v: "brelse i u = Ret () v" "quiet p v" "bc_ok v" "bframe u v"
    "bref v = (bref u)(b := bref u b - 1)" "held_blocks v = held_blocks u - {b}" by blast
  have lv: "lg v = (lg s)\<lparr>lg_lh := record_block b ?H\<rparr>" using bframe_log(1) [OF v(4)] u(5) by simp
  have "bref v = pins (logged (record_block b ?H))"
    using b by (auto simp: v(5) u(6) t(6) h(6) pins_def logged_record [OF h(4)])
  moreover have "0 \<le> lh_n (record_block b ?H)" "distinct (logged (record_block b ?H))" using lh_n_record(2) [OF h(4)] distinct_record [OF h(4,5)] by simp_all
  ultimately have "paused p v" using v(2,3,6) by (simp add: paused_def idle_def lv hu)
  then show ?thesis using t(1) u(1) v(1) lv by (intro exI [of _ v]) (simp add: kern_simps)
qed

lemma write_blocks_Cons: "write_blocks d (b # bs) = bnd (write_blocks d [b]) (\<lambda>_. write_blocks d bs)"
  by (simp add: write_blocks_def bnd_assoc) (simp add: bnd_def ret_def fun_eq_iff split: outcome.splits)

lemma write_many:
  assumes "paused p s" "1 \<le> lg_outstanding (lg s)" "length d = BSIZE" "distinct bs" "set bs \<inter> set (logged (lg_lh (lg s))) = {}"
    "lh_n (lg_lh (lg s)) + int (length bs) \<le> int LOGSIZE" "lh_n (lg_lh (lg s)) + int (length bs) \<le> lg_size (lg s) - 1"
  shows "\<exists>t h. write_blocks d bs s = Ret () t \<and> paused p t \<and> lg t = (lg s)\<lparr>lg_lh := h\<rparr> \<and> lh_n h = lh_n (lg_lh (lg s)) + int (length bs) \<and>
    set (logged h) = set (logged (lg_lh (lg s))) \<union> set bs"
  using assms
proof (induction bs arbitrary: s)
  case Nil
  then show ?case by (intro exI [of _ s] exI [of _ "lg_lh (lg s)"]) (simp add: write_blocks_def kern_simps)
next
  case (Cons b bs)
  let ?H = "lg_lh (lg s)"
  note h = pausedD [OF Cons.prems(1)]
  have "\<not> log_full (lg s)" "b \<notin> set (logged ?H)" using Cons.prems(5-7) by (auto simp: log_full_def)
  from write_one [OF Cons.prems(1) this(1) Cons.prems(2) this(2) Cons.prems(3)] obtain t where
    t: "write_blocks d [b] s = Ret () t" "paused p t" "lg t = (lg s)\<lparr>lg_lh := record_block b ?H\<rparr>" by blast
  have l: "set (logged (record_block b ?H)) = insert b (set (logged ?H))" "lh_n (record_block b ?H) = lh_n ?H + 1"
    using \<open>b \<notin> set (logged ?H)\<close> by (simp add: logged_record [OF h(4)], simp add: record_block_def)
  have "\<exists>u k. write_blocks d bs t = Ret () u \<and> paused p u \<and> lg u = (lg t)\<lparr>lg_lh := k\<rparr> \<and> lh_n k = lh_n (lg_lh (lg t)) + int (length bs) \<and>
      set (logged k) = set (logged (lg_lh (lg t))) \<union> set bs"
    by (rule Cons.IH) (use Cons.prems t(2) in \<open>auto simp: t(3) l\<close>)
  then obtain u k where "write_blocks d bs t = Ret () u" "paused p u" "lg u = (lg s)\<lparr>lg_lh := k\<rparr>" "lh_n k = lh_n ?H + 1 + int (length bs)"
      "set (logged k) = insert b (set (logged ?H)) \<union> set bs" by (auto simp: t(3) l)
  then show ?case using t(1) by (intro exI [of _ u] exI [of _ k]) (simp add: write_blocks_Cons [of d b bs] kern_simps)
qed

lemma write_full:
  assumes g: "paused p s" and full: "log_full (lg s)" and n: "nat (lh_n (lg_lh (lg s))) < NBUF" and len: "length d = BSIZE"
  shows "write_blocks d (b # bs) s = Panic ''too big a transaction''"
proof -
  from read_paused [of p s d b "\<lambda>bp. bnd (log_write bp) (\<lambda>_. brelse bp)", OF g n len] obtain i t where
    t: "write_blocks d [b] s = bnd (bnd (log_write i) (\<lambda>_. brelse i)) ret t" "quiet p t" "lg t = lg s"
    by (auto simp: write_blocks_def bnd_def)
  have "log_write i t = Panic ''too big a transaction''" using log_write_full [OF t(2)] full by (simp add: t(3))
  then show ?thesis using t(1) by (simp add: write_blocks_Cons [of d b bs] kern_simps)
qed

lemma in_turn_run:
  assumes "paused p s" "q < NPROC"
  shows "\<exists>t. (\<forall>m. in_turn q m s = m t) \<and> paused q t \<and> lg t = lg s"
proof -
  let ?t = "s\<lparr>cpus := (cpus s)(mycpu s := (cpus s (mycpu s))\<lparr>c_proc := Some q\<rparr>)\<rparr>"
  have "quiet q ?t" using pausedD(1) [OF assms(1)] assms(2) by (auto simp: quiet_def cpu_ok_def lock_free_def mach_defs intr_get_def)
  then have "paused q ?t" using pausedD [OF assms(1)] by (simp add: paused_def idle_def bc_ok_def held_blocks_def)
  then show ?thesis by (intro exI [of _ ?t]) (simp add: in_turn_def kern_simps mach_defs)
qed

lemma begin_in_turn:
  assumes g: "paused p s" and q: "q < NPROC" and a: "admits (lg s)"
  shows "\<exists>t. in_turn q begin_op s = Ret () t \<and> paused q t \<and> lg t = (lg s)\<lparr>lg_outstanding := lg_outstanding (lg s) + 1\<rparr>"
proof -
  obtain t where t: "in_turn q begin_op s = begin_op t" "paused q t" "lg t = lg s" using in_turn_run [OF g q] by blast
  let ?u = "(settle t)\<lparr>lg := (lg t)\<lparr>lg_outstanding := lg_outstanding (lg t) + 1\<rparr>\<rparr>"
  have "begin_op t = Ret () ?u" using begin_op_admitted [OF pausedD(1) [OF t(2)]] a t(3) by simp
  moreover have "paused q ?u" using t(2) by (simp add: paused_def frame_simps idle_def bc_ok_def held_blocks_def)
  ultimately show ?thesis using t(1,3) by (intro exI [of _ ?u]) (simp add: frame_simps)
qed

lemma write_in_turn:
  assumes g: "paused p s" and q: "q < NPROC" and w: "1 \<le> lg_outstanding (lg s)" "length d = BSIZE" "distinct bs"
    "set bs \<inter> set (logged (lg_lh (lg s))) = {}" "lh_n (lg_lh (lg s)) + int (length bs) \<le> int LOGSIZE"
    "lh_n (lg_lh (lg s)) + int (length bs) \<le> lg_size (lg s) - 1"
  shows "\<exists>t h. in_turn q (write_blocks d bs) s = Ret () t \<and> paused q t \<and> lg t = (lg s)\<lparr>lg_lh := h\<rparr> \<and>
    lh_n h = lh_n (lg_lh (lg s)) + int (length bs) \<and> set (logged h) = set (logged (lg_lh (lg s))) \<union> set bs"
proof -
  obtain u where u: "\<forall>m. in_turn q m s = m u" "paused q u" "lg u = lg s" using in_turn_run [OF g q] by blast
  show ?thesis using write_many [OF u(2), of d bs] w by (simp add: u(1,3))
qed

subsection \<open>Properties\<close>

lemma end_enter_runs:
  assumes q: "quiet p s" and nc: "\<not> lg_committing (lg s)"
  shows "\<exists>d t. end_op_enter s = Ret d t"
  using quietD [OF q] nc by (auto simp: end_op_enter_def kern_simps acquire_run frame_simps upd_log_def wakeup_under_log [OF q])

text \<open>C21: whatever operations overlap, as long as each writes at most \<open>MAXOPBLOCKS\<close> blocks, the recorded blocks stay
  distinct and within \<open>LOGSIZE\<close>, \<open>outstanding\<close> counts the operations in progress, and no operation is in progress
  while a process commits. With more than \<open>LOGSIZE\<close> log blocks an operation that still has budget can always write, and any
  operation can always end: neither \<open>log_write\<close> nor \<open>end_op\<close> panics.\<close>

theorem reservation_suffices:
  assumes "op_step\<^sup>*\<^sup>* (s, \<lambda>_. None, None) (t, R, C)" "log_clear (lg s)"
  shows "distinct (logged (lg_lh (lg t))) \<and> lh_n (lg_lh (lg t)) \<le> int LOGSIZE \<and> lg_outstanding (lg t) = int (card (dom R)) \<and>
    (C \<noteq> None \<longrightarrow> R = (\<lambda>_. None)) \<and>
    (int LOGSIZE < lg_size (lg s) \<longrightarrow> R p = Some (Suc k) \<longrightarrow> quiet q t \<longrightarrow> (\<exists>u. log_write b t = Ret () u)) \<and>
    (R p = Some j \<longrightarrow> quiet q t \<longrightarrow> (\<exists>d u. end_op_enter t = Ret d u))"
proof -
  have inv: "log_inv (lg t) R" "lg_size (lg t) = lg_size (lg s)" "lg_committing (lg t) \<longleftrightarrow> C \<noteq> None"
    using op_inv_reachable [OF assms] by (simp_all add: op_inv_def)
  note i = log_invD [OF inv(1)]
  have nc: "\<not> lg_committing (lg t) \<and> 1 \<le> lg_outstanding (lg t)" if "R p = Some j" for j
  proof -
    have "p \<in> dom R" using that by auto
    moreover have "0 < card (dom R)" using calculation i(1) by (auto simp: card_gt_0_iff)
    ultimately show ?thesis using i(2,6) by auto
  qed
  have "\<exists>u. log_write b t = Ret () u" if "int LOGSIZE < lg_size (lg s)" "R p = Some (Suc k)" "quiet q t"
  proof -
    have "Suc k \<le> reserved R" using reserved_split [OF i(1) that(2)] by simp
    then have "\<not> log_full (lg t)" using i(5) that(1) inv(2) by (auto simp: log_full_def)
    then show ?thesis using log_write_run [OF that(3) _ _ i(3), of b] nc [OF that(2)] by blast
  qed
  moreover have "\<exists>d u. end_op_enter t = Ret d u" if "R p = Some j" "quiet q t" using end_enter_runs [OF that(2)] nc [OF that(1)] by blast
  moreover have "R = (\<lambda>_. None)" if "C \<noteq> None" using i(6) inv(3) that by simp
  ultimately show ?thesis using i(2,3,5,7) by auto
qed

text \<open>A machine that has booted from an empty disk with \<open>n\<close> log blocks.\<close>

definition sample_layout :: "nat \<Rightarrow> superblock" where
  "sample_layout n = \<lparr>sb_magic = 0x10203040, sb_size = 2000, sb_nblocks = 1954, sb_ninodes = 200, sb_nlog = n, sb_logstart = 2,
     sb_inodestart = 32, sb_bmapstart = 45\<rparr>"

definition blank_disk :: "nat \<Rightarrow> u8 list" where
  "blank_disk = (\<lambda>_. replicate BSIZE 0)"

lemma blank_boot:
  shows "idle 3 (sample_boot blank_disk)" "bref (sample_boot blank_disk) = (\<lambda>_. 0)" "lg_outstanding (lg (sample_boot blank_disk)) = 0"
    "\<not> lg_committing (lg (sample_boot blank_disk))" "lh_n (lh_get (lblk (sample_boot blank_disk) b)) = 0"
proof -
  have len: "length (blank_disk b) = BSIZE" for b by (simp add: blank_disk_def)
  note ok = sample_boot_ok [of blank_disk, OF len]
  show "idle 3 (sample_boot blank_disk)" "bref (sample_boot blank_disk) = (\<lambda>_. 0)" by (rule ok)+
  show "lg_outstanding (lg (sample_boot blank_disk)) = 0" "\<not> lg_committing (lg (sample_boot blank_disk))"
    by (simp_all add: sample_boot_def bio_state.defs log_state.defs)
  have "lblk (sample_boot blank_disk) b = blank_disk b" using bref_zero_clean [of "sample_boot blank_disk" b] ok by (simp add: idle_def)
  then show "lh_n (lh_get (lblk (sample_boot blank_disk) b)) = 0" by (simp add: blank_disk_def lh_get_def get32_zeros BSIZE_def)
qed

theorem reservation_suffices_witness:
  "\<exists>s t R u v d. initlog ROOTDEV (sample_layout 31) (sample_boot blank_disk) = Ret () s \<and> op_step\<^sup>*\<^sup>* (s, \<lambda>_. None, None) (t, R, None) \<and>
    R 3 = Some 10 \<and> log_write 0 t = Ret () u \<and> end_op_enter t = Ret d v"
proof -
  note b = blank_boot
  have "fits 2 31 (lh_get (lblk (sample_boot blank_disk) 2))" by (rule fits_empty) (simp_all add: b(5))
  then obtain s where s: "initlog ROOTDEV (sample_layout 31) (sample_boot blank_disk) = Ret () s" "idle 3 s" "lg_size (lg s) = 31"
      "lh_n (lg_lh (lg s)) = 0" "lg_outstanding (lg s) = 0" "\<not> lg_committing (lg s)"
    using initlog_ok [OF b(1), of "sample_layout 31" 2 31] b(2-4) by (auto simp: sample_layout_def log_geom_def)
  have q: "quiet 3 s" using s(2) by (simp add: idle_def)
  have clear: "log_clear (lg s)" and a: "admits (lg s)" using s(4-6) by (simp_all add: log_clear_def admits_def MAXOPBLOCKS_def LOGSIZE_def)
  let ?t = "(settle s)\<lparr>lg := (lg s)\<lparr>lg_outstanding := lg_outstanding (lg s) + 1\<rparr>\<rparr>"
  let ?R = "(\<lambda>_. None)(3 := Some MAXOPBLOCKS) :: nat \<Rightarrow> nat option"
  have "op_step (s, \<lambda>_. None, None) (?t, ?R, None)" using begin_op_admitted [OF q a] by (intro op_step.Begin) auto
  then have st: "op_step\<^sup>*\<^sup>* (s, \<lambda>_. None, None) (?t, ?R, None)" by blast
  have "int LOGSIZE < lg_size (lg s)" "?R 3 = Some (Suc 9)" "quiet 3 ?t" using q s(3) by (simp_all add: LOGSIZE_def MAXOPBLOCKS_def frame_simps)
  then obtain u d v where "log_write 0 ?t = Ret () u" "end_op_enter ?t = Ret d v"
    using reservation_suffices [OF st clear, of 3 9 3 0 10] by (auto simp: MAXOPBLOCKS_def)
  then show ?thesis using s(1) st by (intro exI [of _ s] exI [of _ ?t] exI [of _ ?R] exI [of _ u] exI [of _ v] exI [of _ d]) (simp add: MAXOPBLOCKS_def)
qed

text \<open>C37: with the \<open>LOGSIZE\<close> log blocks that \<open>mkfs\<close> lays out, one of them the header, the kernel can panic although every
  operation keeps to its budget: after recovery three processes begin an operation, all three are admitted, and each
  writes \<open>MAXOPBLOCKS\<close> blocks; the last of the thirty writes finds the log full.\<close>

theorem reservation_overrun:
  assumes "idle p s" "bref s = (\<lambda>_. 0)" "lg_outstanding (lg s) = 0" "\<not> lg_committing (lg s)" "lh_n (lh_get (lblk s (sb_logstart x))) = 0"
    "sb_nlog x = LOGSIZE" "sb_logstart x + LOGSIZE < 2 ^ 31" "p1 < NPROC" "p2 < NPROC" "p3 < NPROC" "length d = BSIZE"
    "length bs1 = MAXOPBLOCKS" "length bs2 = MAXOPBLOCKS" "length bs3 = MAXOPBLOCKS" "distinct (bs1 @ bs2 @ bs3)"
  shows "bnd (initlog ROOTDEV x) (\<lambda>_.
    bnd (in_turn p1 begin_op) (\<lambda>_. bnd (in_turn p2 begin_op) (\<lambda>_. bnd (in_turn p3 begin_op) (\<lambda>_.
    bnd (in_turn p1 (write_blocks d bs1)) (\<lambda>_. bnd (in_turn p2 (write_blocks d bs2)) (\<lambda>_. in_turn p3 (write_blocks d bs3))))))) s =
      Panic ''too big a transaction''"
proof -
  note sz = MAXOPBLOCKS_def LOGSIZE_def
  have "0 < LOGSIZE" "fits (sb_logstart x) LOGSIZE (lh_get (lblk s (sb_logstart x)))" using assms(5) by (auto simp: sz intro: fits_empty)
  from initlog_ok [OF assms(1) refl assms(6) this(1) assms(7) assms(2) this(2)] obtain s0 where
    s0: "initlog ROOTDEV x s = Ret () s0" "idle p s0" "bref s0 = (\<lambda>_. 0)" "lg_size (lg s0) = 30" "lh_n (lg_lh (lg s0)) = 0"
      "lg_outstanding (lg s0) = 0" "\<not> lg_committing (lg s0)" using assms(3,4) by (auto simp: log_geom_def sz)
  have "paused p s0" using s0(2,3,5) by (simp add: paused_def logged_def)
  from begin_in_turn [OF this assms(8)] obtain s1 where s1: "in_turn p1 begin_op s0 = Ret () s1" "paused p1 s1"
    "lg s1 = (lg s0)\<lparr>lg_outstanding := 1\<rparr>" using s0(5-7) by (auto simp: admits_def sz)
  from begin_in_turn [OF s1(2) assms(9)] obtain s2 where s2: "in_turn p2 begin_op s1 = Ret () s2" "paused p2 s2"
    "lg s2 = (lg s0)\<lparr>lg_outstanding := 2\<rparr>" using s0(5-7) by (auto simp: admits_def sz s1(3))
  from begin_in_turn [OF s2(2) assms(10)] obtain s3 where s3: "in_turn p3 begin_op s2 = Ret () s3" "paused p3 s3"
    "lg s3 = (lg s0)\<lparr>lg_outstanding := 3\<rparr>" using s0(5-7) by (auto simp: admits_def sz s2(3))
  have len: "length bs1 = 10" "length bs2 = 10" using assms(12,13) by (simp_all add: sz)
  obtain cs b where bs3: "bs3 = cs @ [b]" "length cs = 9" using assms(14) by (cases bs3 rule: rev_cases) (simp_all add: sz)
  have dj: "distinct bs1" "distinct bs2" "distinct cs" "set bs2 \<inter> set bs1 = {}" "set cs \<inter> (set bs1 \<union> set bs2) = {}" using assms(15) bs3(1) by auto
  obtain t1 h1 where t1: "in_turn p1 (write_blocks d bs1) s3 = Ret () t1" "paused p1 t1" "lg t1 = (lg s3)\<lparr>lg_lh := h1\<rparr>" "lh_n h1 = 10" "set (logged h1) = set bs1"
    using write_in_turn [OF s3(2) assms(8) _ assms(11) dj(1)] len s0(4,5) by (auto simp: s3(3) logged_def sz)
  obtain t2 h2 where t2: "in_turn p2 (write_blocks d bs2) t1 = Ret () t2" "paused p2 t2" "lg t2 = (lg s3)\<lparr>lg_lh := h2\<rparr>" "lh_n h2 = 20" "set (logged h2) = set bs1 \<union> set bs2"
    using write_in_turn [OF t1(2) assms(9) _ assms(11) dj(2)] dj(4) len s0(4) by (auto simp: s3(3) t1(3-5) sz)
  obtain u where u: "in_turn p3 (write_blocks d bs3) t2 = write_blocks d bs3 u" "paused p3 u" "lg u = lg t2" using in_turn_run [OF t2(2) assms(10)] by blast
  obtain v h where v: "write_blocks d cs u = Ret () v" "paused p3 v" "lg v = (lg s3)\<lparr>lg_lh := h\<rparr>" "lh_n h = 29"
    using write_many [OF u(2) _ assms(11) dj(3)] dj(5) bs3(2) s0(4) by (auto simp: u(3) s3(3) t2(3-5) sz)
  have "write_blocks d [b] v = Panic ''too big a transaction''"
    by (rule write_full [OF v(2) _ _ assms(11)]) (simp_all add: log_full_def v(3,4) s3(3) s0(4) NBUF_def sz)
  then have "in_turn p3 (write_blocks d bs3) t2 = Panic ''too big a transaction''"
    using u(1) v(1) by (simp add: bs3(1) write_blocks_def for_each_append kern_simps)
  then show ?thesis using s0(1) s1(1) s2(1) s3(1) t1(1) t2(1) by (simp add: kern_simps)
qed

theorem reservation_overrun_witness:
  "bnd (initlog ROOTDEV (sample_layout LOGSIZE)) (\<lambda>_.
    bnd (in_turn 3 begin_op) (\<lambda>_. bnd (in_turn 4 begin_op) (\<lambda>_. bnd (in_turn 5 begin_op) (\<lambda>_.
    bnd (in_turn 3 (write_blocks (replicate BSIZE 7) [50..<60])) (\<lambda>_. bnd (in_turn 4 (write_blocks (replicate BSIZE 7) [60..<70])) (\<lambda>_.
    in_turn 5 (write_blocks (replicate BSIZE 7) [70..<80]))))))) (sample_boot blank_disk) = Panic ''too big a transaction''"
  by (rule reservation_overrun [OF blank_boot(1-4)]) (auto simp: blank_boot(5) sample_layout_def LOGSIZE_def MAXOPBLOCKS_def NPROC_def)

end
