(* ===== verification/Spec2Isabelle.thy ===== *)
theory Spec2Isabelle
  imports User_Mem Console_Line Pipe_Fifo Trap Lock_Conc Sleep_Conc Grep Sh_Grammar Sh_Run Primes Malloc_Safe Fs_Dir Log_Reserve
begin

text \<open>
  A verification library for the xv6 kernel of this repository (\<^verbatim>\<open>kernel/\<close>) and the
  programs that come with it (\<^verbatim>\<open>user/\<close>, \<^verbatim>\<open>mkfs/\<close>).

  \<^bold>\<open>How the code is modelled.\<close> A kernel routine is a function from a state to an
  \<open>outcome\<close>: it returns a value and a state, panics with the source's message, spins on a lock
  another hart holds, or leaves the CPU through \<open>swtch\<close>. The state is a chain of extensible
  records, one per layer, and the routines of a layer are polymorphic in what the layers above
  add. Locks are part of the state, and every routine takes and gives back the locks the C code
  does. Physical memory is a byte per 64-bit address.

  \<^bold>\<open>Theories.\<close>
  \<^item> \<open>Xv6_Prelude\<close>: outcomes, the state-passing combinators, word and list facts.
  \<^item> \<open>Phys_Mem\<close>: little-endian loads and stores, pages.
  \<^item> \<open>Kstring\<close>: \<^verbatim>\<open>kernel/string.c\<close>.
  \<^item> \<open>Spinlock\<close>: \<^verbatim>\<open>kernel/spinlock.c\<close> and the per-CPU state.
  \<^item> \<open>Sched\<close>: the process table and the scheduling half of \<^verbatim>\<open>kernel/proc.c\<close>.
  \<^item> \<open>Kalloc\<close>: \<^verbatim>\<open>kernel/kalloc.c\<close>, with the locale \<open>page_allocator\<close>.
  \<^item> \<open>Vm\<close>: the definitions of \<^verbatim>\<open>kernel/vm.c\<close>.
  \<^item> \<open>Page_Table\<close>: page tables in memory against the mapping they stand for.
  \<^item> \<open>User_Mem\<close>: copies between the kernel and user memory.
\<close>

end
